(* ===== verification/Prelude.thy ===== *)
theory Prelude
  imports Main "HOL-Library.Word"
begin

text \<open>
  Shared vocabulary of the RMDB development: the constants of
  \<^verbatim>\<open>common/config.h\<close>, the error values of \<^verbatim>\<open>errors.h\<close>, programs
  that carry a state through C++ exceptions (an exception keeps every change made before it),
  little-endian memory encodings as \<^verbatim>\<open>memcpy\<close> and
  \<^verbatim>\<open>reinterpret_cast\<close> see them on the target machine, and the lemmas on lists
  and byte buffers that the components share.
\<close>

named_theorems prog_simps \<open>unfolding rules of the program combinators\<close>
named_theorems mem_simps \<open>reads after writes in byte buffers\<close>

section \<open>Constants and identifiers\<close>

type_synonym byte = "8 word"
type_synonym frame_id = nat

definition INVALID_PAGE_ID :: int where
  "INVALID_PAGE_ID = -1"

definition INVALID_TXN_ID :: int where
  "INVALID_TXN_ID = -1"

definition INVALID_LSN :: int where
  "INVALID_LSN = -1"

definition PAGE_SIZE :: nat where
  "PAGE_SIZE = 4096"

definition LOG_BUFFER_SIZE :: nat where
  "LOG_BUFFER_SIZE = 1024 * PAGE_SIZE"

definition LOG_FILE_NAME :: string where
  "LOG_FILE_NAME = ''db.log''"

datatype ColType = TYPE_INT | TYPE_FLOAT | TYPE_STRING | TYPE_BIGINT | TYPE_DATETIME

record Rid =
  page_no :: int
  slot_no :: int

section \<open>Errors\<close>

datatype AbortReason = LOCK_ON_SHIRINKING | UPGRADE_CONFLICT | DEADLOCK_PREVENTION

text \<open>
  One constructor per exception class of \<^verbatim>\<open>errors.h\<close> that the modelled code throws,
  the transaction abort exception of \<^verbatim>\<open>txn_defs.h\<close>, the exceptions of the standard
  library by name (\<^verbatim>\<open>std::invalid_argument\<close>, \<^verbatim>\<open>std::out_of_range\<close>), and values for
  executions that C++ ends otherwise: a failed \<^verbatim>\<open>assert\<close>, the use of a null
  pointer, an access outside an array, and the use of memory that was never written. \<open>OutOfFuel\<close> is
  the result of a loop that has not ended after the number of rounds it was given.
\<close>

datatype rmdb_error =
    RMDBError string
  | InternalError string
  | UnixError
  | FileNotOpenError int
  | FileNotClosedError string
  | FileExistsError string
  | FileNotFoundError string
  | RecordNotFoundError int int
  | InvalidRecordSizeError int
  | InvalidColLengthError int
  | IndexEntryNotFoundError
  | DatabaseNotFoundError string
  | DatabaseExistsError string
  | TableNotFoundError string
  | TableExistsError string
  | ColumnNotFoundError string
  | IndexNotFoundError string "string list"
  | IndexExistsError string "string list"
  | InvalidValueCountError
  | StringOverflowError
  | IncompatibleTypeError string string
  | AmbiguousColumnError string
  | PageNotExistError string int
  | TransactionAbortException int AbortReason
  | StdException string
  | AssertionFailure
  | NullPointer
  | OutOfBounds
  | Uninitialised
  | OutOfFuel

section \<open>Programs with state and exceptions\<close>

type_synonym ('s, 'a) prog = "'s \<Rightarrow> (rmdb_error + 'a) \<times> 's"

definition ret :: "'a \<Rightarrow> ('s, 'a) prog" where
  "ret x s = (Inr x, s)"

definition raise :: "rmdb_error \<Rightarrow> ('s, 'a) prog" where
  "raise e s = (Inl e, s)"

definition bindE :: "('s, 'a) prog \<Rightarrow> ('a \<Rightarrow> ('s, 'b) prog) \<Rightarrow> ('s, 'b) prog" where
  "bindE m f s = (case m s of (Inl e, t) \<Rightarrow> (Inl e, t) | (Inr x, t) \<Rightarrow> f x t)"

definition thenE :: "('s, 'a) prog \<Rightarrow> ('s, 'b) prog \<Rightarrow> ('s, 'b) prog" where
  "thenE m k = bindE m (\<lambda>_. k)"

definition gets :: "('s \<Rightarrow> 'a) \<Rightarrow> ('s, 'a) prog" where
  "gets f s = (Inr (f s), s)"

definition modify :: "('s \<Rightarrow> 's) \<Rightarrow> ('s, unit) prog" where
  "modify f s = (Inr (), f s)"

definition assertE :: "bool \<Rightarrow> ('s, unit) prog" where
  "assertE b = (if b then ret () else raise AssertionFailure)"

text \<open>Run a program on one field of a larger state.\<close>

definition zoom :: "('t \<Rightarrow> 's) \<Rightarrow> ('s \<Rightarrow> 't \<Rightarrow> 't) \<Rightarrow> ('s, 'a) prog \<Rightarrow> ('t, 'a) prog" where
  "zoom get put m t = (case m (get t) of (r, s) \<Rightarrow> (r, put s t))"

lemma ret_run [prog_simps]: "ret x s = (Inr x, s)"
  by (simp add: ret_def)

lemma raise_run [prog_simps]: "raise e s = (Inl e, s)"
  by (simp add: raise_def)

lemma gets_run [prog_simps]: "gets f s = (Inr (f s), s)"
  by (simp add: gets_def)

lemma modify_run [prog_simps]: "modify f s = (Inr (), f s)"
  by (simp add: modify_def)

lemma assertE_run [prog_simps]:
  "assertE b s = (if b then (Inr (), s) else (Inl AssertionFailure, s))"
  by (simp add: assertE_def prog_simps)

lemma bindE_run [prog_simps]:
  "bindE m f s = (case m s of (Inl e, t) \<Rightarrow> (Inl e, t) | (Inr x, t) \<Rightarrow> f x t)"
  by (simp add: bindE_def)

lemma thenE_run [prog_simps]:
  "thenE m k s = (case m s of (Inl e, t) \<Rightarrow> (Inl e, t) | (Inr x, t) \<Rightarrow> k t)"
  by (simp add: thenE_def bindE_def)

lemma zoom_run [prog_simps]:
  "zoom get put m t = (case m (get t) of (r, s) \<Rightarrow> (r, put s t))"
  by (simp add: zoom_def)

lemma bindE_Inr_iff:
  "bindE m f s = (Inr y, t) \<longleftrightarrow> (\<exists>x u. m s = (Inr x, u) \<and> f x u = (Inr y, t))"
  by (auto simp: bindE_def split: prod.splits sum.splits)

lemma thenE_Inr_iff:
  "thenE m k s = (Inr y, t) \<longleftrightarrow> (\<exists>x u. m s = (Inr x, u) \<and> k u = (Inr y, t))"
  by (simp add: thenE_def bindE_Inr_iff)

lemma ret_Inr_iff: "ret x s = (Inr y, t) \<longleftrightarrow> x = y \<and> s = t"
  by (auto simp: ret_def)

lemma gets_Inr_iff: "gets f s = (Inr y, t) \<longleftrightarrow> y = f s \<and> s = t"
  by (auto simp: gets_def)

lemma modify_Inr_iff: "modify f s = (Inr y, t) \<longleftrightarrow> t = f s"
  by (auto simp: modify_def)

lemma assertE_Inr_iff: "assertE b s = (Inr y, t) \<longleftrightarrow> b \<and> s = t"
  by (auto simp: assertE_run)

lemma raise_not_Inr: "raise e s = (Inr y, t) \<longleftrightarrow> False"
  by (simp add: raise_def)

lemma zoom_Inr_iff:
  "zoom get put m t = (Inr y, u) \<longleftrightarrow> (\<exists>s. m (get t) = (Inr y, s) \<and> u = put s t)"
  by (auto simp: zoom_def split: prod.splits)

lemmas prog_Inr_iff =
  bindE_Inr_iff thenE_Inr_iff ret_Inr_iff gets_Inr_iff modify_Inr_iff assertE_Inr_iff
  raise_not_Inr zoom_Inr_iff

section \<open>Little-endian encodings\<close>

fun enc_le :: "nat \<Rightarrow> int \<Rightarrow> byte list" where
  "enc_le 0 v = []"
| "enc_le (Suc n) v = word_of_int (v mod 256) # enc_le n (v div 256)"

fun dec_le :: "byte list \<Rightarrow> int" where
  "dec_le [] = 0"
| "dec_le (b # bs) = uint b + 256 * dec_le bs"

text \<open>The two's complement reading of \<open>n\<close> bytes.\<close>

definition dec_signed :: "nat \<Rightarrow> byte list \<Rightarrow> int" where
  "dec_signed n bs =
     (let u = dec_le bs in if 2 ^ (8 * n - 1) \<le> u then u - 2 ^ (8 * n) else u)"

definition fits_signed :: "nat \<Rightarrow> int \<Rightarrow> bool" where
  "fits_signed n v \<longleftrightarrow> - (2 ^ (8 * n - 1)) \<le> v \<and> v < 2 ^ (8 * n - 1)"

definition fits_unsigned :: "nat \<Rightarrow> int \<Rightarrow> bool" where
  "fits_unsigned n v \<longleftrightarrow> 0 \<le> v \<and> v < 2 ^ (8 * n)"

text \<open>The value a 32-bit signed operation keeps of an integer.\<close>

definition wrap32 :: "int \<Rightarrow> int" where
  "wrap32 v = dec_signed 4 (enc_le 4 v)"

lemma length_enc_le [simp]: "length (enc_le n v) = n"
  by (induction n arbitrary: v) auto

lemma dec_le_enc_le: "dec_le (enc_le n v) = v mod 256 ^ n"
proof (induction n arbitrary: v)
  case 0
  then show ?case by simp
next
  case (Suc n)
  have "uint (word_of_int (v mod 256) :: byte) = v mod 256"
    by (simp add: uint_word_of_int)
  moreover have "v mod (256 * 256 ^ n) = 256 * (v div 256 mod 256 ^ n) + v mod 256"
    by (simp add: zmod_zmult2_eq)
  ultimately show ?case using Suc by simp
qed

lemma pow256: "(256::int) ^ n = 2 ^ (8 * n)"
  by (simp add: power_mult)

lemma dec_le_unsigned:
  assumes "fits_unsigned n v" shows "dec_le (enc_le n v) = v"
  using assms by (simp add: dec_le_enc_le fits_unsigned_def pow256)

lemma dec_signed_enc:
  assumes fits: "fits_signed n v" and n: "0 < n"
  shows "dec_signed n (enc_le n v) = v"
proof -
  let ?h = "2 ^ (8 * n - 1) :: int"
  have two: "2 ^ (8 * n) = 2 * ?h"
    using n by (simp flip: power_Suc)
  have dec: "dec_le (enc_le n v) = v mod 2 ^ (8 * n)"
    by (simp add: dec_le_enc_le pow256)
  show ?thesis
  proof (cases "0 \<le> v")
    case True
    with fits have "v mod 2 ^ (8 * n) = v"
      by (simp add: fits_signed_def two)
    with True fits show ?thesis by (simp add: dec_signed_def dec fits_signed_def)
  next
    case False
    with fits have "(v + 2 ^ (8 * n)) mod 2 ^ (8 * n) = v + 2 ^ (8 * n)"
      by (intro mod_pos_pos_trivial) (simp_all add: fits_signed_def two)
    then have "v mod 2 ^ (8 * n) = v + 2 ^ (8 * n)" by simp
    with False fits show ?thesis
      by (simp add: dec_signed_def dec fits_signed_def two)
  qed
qed

lemma dec_le_bounds: "0 \<le> dec_le bs \<and> dec_le bs < 256 ^ length bs"
proof (induction bs)
  case Nil
  then show ?case by simp
next
  case (Cons b bs)
  have "uint b < 256" using uint_lt2p [of b] by simp
  with Cons show ?case by simp
qed

lemma enc_le_dec_le: "enc_le (length bs) (dec_le bs) = bs"
proof (induction bs)
  case Nil
  then show ?case by simp
next
  case (Cons b bs)
  have b: "0 \<le> uint b" "uint b < 256" using uint_lt2p [of b] by simp_all
  then have "(uint b + 256 * dec_le bs) mod 256 = uint b"
    and "(uint b + 256 * dec_le bs) div 256 = dec_le bs"
    by simp_all
  with Cons show ?case by simp
qed

lemma wrap32_id: "- (2 ^ 31) \<le> v \<Longrightarrow> v < 2 ^ 31 \<Longrightarrow> wrap32 v = v"
  by (simp add: wrap32_def dec_signed_enc fits_signed_def)

section \<open>Byte buffers\<close>

text \<open>\<open>write_at d off bs\<close> is \<^verbatim>\<open>memcpy(d + off, bs, length bs)\<close>.\<close>

definition write_at :: "'a list \<Rightarrow> nat \<Rightarrow> 'a list \<Rightarrow> 'a list" where
  "write_at d off bs = take off d @ bs @ drop (off + length bs) d"

definition read_at :: "'a list \<Rightarrow> nat \<Rightarrow> nat \<Rightarrow> 'a list" where
  "read_at d off n = take n (drop off d)"

lemma length_write_at [simp]:
  "off + length bs \<le> length d \<Longrightarrow> length (write_at d off bs) = length d"
  by (simp add: write_at_def)

lemma length_read_at [simp]: "off + n \<le> length d \<Longrightarrow> length (read_at d off n) = n"
  by (simp add: read_at_def)

lemma read_write_same [mem_simps]:
  "off + length bs \<le> length d \<Longrightarrow> n = length bs \<Longrightarrow> read_at (write_at d off bs) off n = bs"
  by (simp add: read_at_def write_at_def)

lemma nth_write_at:
  "off + length bs \<le> length d \<Longrightarrow> i < length d \<Longrightarrow>
   write_at d off bs ! i = (if off \<le> i \<and> i < off + length bs then bs ! (i - off) else d ! i)"
  by (auto simp: write_at_def nth_append min_def)

lemma nth_read_at: "off + n \<le> length d \<Longrightarrow> i < n \<Longrightarrow> read_at d off n ! i = d ! (off + i)"
  by (simp add: read_at_def)

lemma read_write_disjoint [mem_simps]:
  assumes "off + length bs \<le> length d" and "off' + n \<le> length d"
    and "off' + n \<le> off \<or> off + length bs \<le> off'"
  shows "read_at (write_at d off bs) off' n = read_at d off' n"
proof (rule nth_equalityI)
  show "length (read_at (write_at d off bs) off' n) = length (read_at d off' n)"
    using assms by simp
next
  fix i assume "i < length (read_at (write_at d off bs) off' n)"
  with assms have "i < n" by simp
  with assms show "read_at (write_at d off bs) off' n ! i = read_at d off' n ! i"
    by (auto simp: nth_read_at nth_write_at)
qed

definition get_i32 :: "byte list \<Rightarrow> nat \<Rightarrow> int" where
  "get_i32 d off = dec_signed 4 (read_at d off 4)"

definition put_i32 :: "byte list \<Rightarrow> nat \<Rightarrow> int \<Rightarrow> byte list" where
  "put_i32 d off v = write_at d off (enc_le 4 v)"

lemma length_put_i32 [simp]: "off + 4 \<le> length d \<Longrightarrow> length (put_i32 d off v) = length d"
  by (simp add: put_i32_def)

lemma get_put_i32 [mem_simps]:
  "off + 4 \<le> length d \<Longrightarrow> fits_signed 4 v \<Longrightarrow> get_i32 (put_i32 d off v) off = v"
  by (simp add: get_i32_def put_i32_def mem_simps dec_signed_enc)

lemma get_put_i32_disjoint [mem_simps]:
  "off + 4 \<le> length d \<Longrightarrow> off' + 4 \<le> length d \<Longrightarrow> off' + 4 \<le> off \<or> off + 4 \<le> off' \<Longrightarrow>
   get_i32 (put_i32 d off v) off' = get_i32 d off'"
  by (simp add: get_i32_def put_i32_def mem_simps)

lemma get_i32_write_disjoint [mem_simps]:
  "off + length bs \<le> length d \<Longrightarrow> off' + 4 \<le> length d \<Longrightarrow>
   off' + 4 \<le> off \<or> off + length bs \<le> off' \<Longrightarrow>
   get_i32 (write_at d off bs) off' = get_i32 d off'"
  by (simp add: get_i32_def mem_simps)

lemma read_put_i32_disjoint [mem_simps]:
  "off + 4 \<le> length d \<Longrightarrow> off' + n \<le> length d \<Longrightarrow> off' + n \<le> off \<or> off + 4 \<le> off' \<Longrightarrow>
   read_at (put_i32 d off v) off' n = read_at d off' n"
  by (simp add: put_i32_def mem_simps)

section \<open>Lists and options\<close>

lemma option_eqI: "(\<And>x. a = Some x \<longleftrightarrow> b = Some x) \<Longrightarrow> a = b"
  by (cases a; cases b) auto

lemma distinct_remove1_set: "distinct xs \<Longrightarrow> set (remove1 x xs) = set xs - {x}"
  by (rule set_remove1_eq)

lemma butlast_last_split: "xs \<noteq> [] \<Longrightarrow> set xs = insert (last xs) (set (butlast xs))"
  by (metis append_butlast_last_id list.set(1,2) set_append sup_commute insert_is_Un)

lemma distinct_last_notin_butlast: "distinct xs \<Longrightarrow> xs \<noteq> [] \<Longrightarrow> last xs \<notin> set (butlast xs)"
  by (metis append_butlast_last_id distinct_butlast not_distinct_conv_prefix)

end
