(* ===== verification/Replacer.thy ===== *)
theory Replacer
  imports Prelude
begin

text \<open>
  The replacement policy of \<^verbatim>\<open>replacer/\<close>: the abstract class \<^verbatim>\<open>Replacer\<close> as a locale
  with the laws its documentation promises, and \<^verbatim>\<open>LRUReplacer\<close>, which keeps a
  \<^verbatim>\<open>std::list\<close> of frames and a hash table from frames to list iterators. A list node has
  an identity (its iterator), so erasing through a stale or shared iterator would show. The
  interpretation at the end discharges the laws, and a run of the replacer is compared with the
  timestamps of the \<^verbatim>\<open>unpin\<close> calls.
\<close>

section \<open>The interface\<close>

locale replacer =
  fixes inv :: "'r \<Rightarrow> bool"
    and frames :: "'r \<Rightarrow> frame_id list"
    and victim :: "'r \<Rightarrow> frame_id option \<times> 'r"
    and pin :: "frame_id \<Rightarrow> 'r \<Rightarrow> 'r"
    and unpin :: "frame_id \<Rightarrow> 'r \<Rightarrow> 'r"
    and size_of :: "'r \<Rightarrow> nat"
  assumes frames_distinct: "inv r \<Longrightarrow> distinct (frames r)"
    and victim_none: "inv r \<Longrightarrow> frames r = [] \<Longrightarrow> victim r = (None, r)"
    and victim_some: "inv r \<Longrightarrow> frames r \<noteq> [] \<Longrightarrow>
      \<exists>r'. victim r = (Some (last (frames r)), r') \<and> inv r' \<and> frames r' = butlast (frames r)"
    and pin_inv: "inv r \<Longrightarrow> inv (pin f r)"
    and pin_frames: "inv r \<Longrightarrow> frames (pin f r) = removeAll f (frames r)"
    and unpin_inv: "inv r \<Longrightarrow> inv (unpin f r)"
    and unpin_frames: "inv r \<Longrightarrow>
      frames (unpin f r) = (if f \<in> set (frames r) then frames r else f # frames r)"
    and size_frames: "inv r \<Longrightarrow> size_of r = length (frames r)"
begin

lemma victim_cases:
  assumes "inv r"
  obtains (none) "frames r = []" "victim r = (None, r)"
  | (some) f r' where "victim r = (Some f, r')" "inv r'" "f \<in> set (frames r)"
      "set (frames r') = set (frames r) - {f}" "frames r = frames r' @ [f]"
proof (cases "frames r = []")
  case True
  with assms victim_none none show ?thesis by blast
next
  case False
  define f where "f = last (frames r)"
  obtain r' where r': "victim r = (Some f, r')" "inv r'" "frames r' = butlast (frames r)"
    using victim_some [OF assms False] f_def by blast
  have split: "frames r = frames r' @ [f]"
    using r'(3) False by (simp add: f_def)
  have "distinct (frames r' @ [f])"
    using frames_distinct [OF assms] unfolding split .
  then have "set (frames r') = set (frames r' @ [f]) - {f}"
    by auto
  then have diff: "set (frames r') = set (frames r) - {f}"
    by (simp only: split)
  have "f \<in> set (frames r)" by (simp add: split)
  from some [OF r'(1,2) this diff split] show ?thesis .
qed

lemma victim_SomeD:
  assumes "inv r" and v: "victim r = (Some f, r')"
  shows "inv r'" and "f \<in> set (frames r)" and "set (frames r') = set (frames r) - {f}"
    and "frames r = frames r' @ [f]"
proof -
  have "inv r' \<and> f \<in> set (frames r) \<and> set (frames r') = set (frames r) - {f} \<and> frames r = frames r' @ [f]"
    using assms(1)
  proof (cases rule: victim_cases)
    case none
    with v show ?thesis by simp
  next
    case (some g q)
    have "g = f" "q = r'" using v some(1) by simp_all
    then show ?thesis using some(2-5) by blast
  qed
  then show "inv r'" "f \<in> set (frames r)" "set (frames r') = set (frames r) - {f}" "frames r = frames r' @ [f]"
    by blast+
qed

lemma victim_NoneD:
  assumes "inv r" and "victim r = (None, r')"
  shows "r' = r" and "frames r = []"
  using victim_some [OF assms(1)] victim_none [OF assms(1)] assms(2) by fastforce+

lemma victim_inv: "inv r \<Longrightarrow> inv (snd (victim r))"
  using victim_some [of r] victim_none [of r] by (cases "frames r = []") fastforce+

lemma set_pin: "inv r \<Longrightarrow> set (frames (pin f r)) = set (frames r) - {f}"
  by (simp add: pin_frames)

lemma set_unpin: "inv r \<Longrightarrow> set (frames (unpin f r)) = insert f (set (frames r))"
  by (auto simp: unpin_frames)

end

section \<open>LRUReplacer\<close>

record LRUReplacer =
  LRUlist :: "(nat \<times> frame_id) list"
  LRUhash :: "frame_id \<rightharpoonup> nat"
  max_size :: nat
  fresh_node :: nat

text \<open>
  \<open>LRUlist\<close> pairs each list node's identity with the frame it stores, and
  \<open>fresh_node\<close> is the identity the allocator gives to the next node; the latch serialises the
  operations, so each is one step of the model.
\<close>

definition new_LRUReplacer :: "nat \<Rightarrow> LRUReplacer" where
  "new_LRUReplacer num_pages =
     \<lparr>LRUlist = [], LRUhash = Map.empty, max_size = num_pages, fresh_node = 0\<rparr>"

definition victim :: "LRUReplacer \<Rightarrow> frame_id option \<times> LRUReplacer" where
  "victim r =
     (if LRUlist r = [] then (None, r)
      else let frame_id = snd (last (LRUlist r)) in
        (Some frame_id,
         r\<lparr>LRUhash := (LRUhash r)(frame_id := None), LRUlist := butlast (LRUlist r)\<rparr>))"

definition pin :: "frame_id \<Rightarrow> LRUReplacer \<Rightarrow> LRUReplacer" where
  "pin frame_id r =
     (case LRUhash r frame_id of
        None \<Rightarrow> r
      | Some it \<Rightarrow>
          r\<lparr>LRUlist := filter (\<lambda>node. fst node \<noteq> it) (LRUlist r),
            LRUhash := (LRUhash r)(frame_id := None)\<rparr>)"

definition unpin :: "frame_id \<Rightarrow> LRUReplacer \<Rightarrow> LRUReplacer" where
  "unpin frame_id r =
     (if LRUhash r frame_id \<noteq> None then r
      else r\<lparr>LRUlist := (fresh_node r, frame_id) # LRUlist r,
             LRUhash := (LRUhash r)(frame_id \<mapsto> fresh_node r),
             fresh_node := Suc (fresh_node r)\<rparr>)"

definition Size :: "LRUReplacer \<Rightarrow> nat" where
  "Size r = length (LRUlist r)"

subsection \<open>Invariant and abstraction\<close>

definition lru_frames :: "LRUReplacer \<Rightarrow> frame_id list" where
  "lru_frames r = map snd (LRUlist r)"

text \<open>The hash table holds exactly the list's nodes, and no frame and no node occurs twice.\<close>

definition lru_inv :: "LRUReplacer \<Rightarrow> bool" where
  "lru_inv r \<longleftrightarrow>
     distinct (map fst (LRUlist r)) \<and> distinct (map snd (LRUlist r)) \<and>
     (\<forall>n \<in> fst ` set (LRUlist r). n < fresh_node r) \<and>
     (\<forall>f n. LRUhash r f = Some n \<longleftrightarrow> (n, f) \<in> set (LRUlist r))"

lemma lru_inv_new: "lru_inv (new_LRUReplacer n)"
  by (simp add: lru_inv_def new_LRUReplacer_def)

lemma in_map_snd: "f \<in> set (map snd xs) \<longleftrightarrow> (\<exists>n. (n, f) \<in> set xs)"
  by force

lemma lru_hash_None:
  assumes "lru_inv r" shows "LRUhash r f = None \<longleftrightarrow> f \<notin> set (lru_frames r)"
proof -
  have "\<And>n. LRUhash r f = Some n \<longleftrightarrow> (n, f) \<in> set (LRUlist r)"
    using assms by (simp add: lru_inv_def)
  then show ?thesis unfolding lru_frames_def in_map_snd by (metis not_None_eq)
qed

lemma last_node:
  assumes "xs \<noteq> []" and "distinct (map snd xs)"
  shows "(n, f) \<in> set (butlast xs) \<longleftrightarrow> (n, f) \<in> set xs \<and> f \<noteq> snd (last xs)"
  using assms
proof (induction xs rule: rev_induct)
  case (snoc x xs)
  then have "snd x \<notin> snd ` set xs" by simp
  then show ?case by (cases x) (auto simp: image_iff)
qed simp

lemma lru_victim:
  assumes inv: "lru_inv r" and ne: "lru_frames r \<noteq> []"
  shows "\<exists>r'. victim r = (Some (last (lru_frames r)), r') \<and> lru_inv r' \<and>
              lru_frames r' = butlast (lru_frames r)"
proof -
  have ne': "LRUlist r \<noteq> []" using ne by (simp add: lru_frames_def)
  let ?r = "snd (victim r)"
  have eq: "?r = r\<lparr>LRUhash := (LRUhash r)(snd (last (LRUlist r)) := None),
                   LRUlist := butlast (LRUlist r)\<rparr>"
    using ne' by (simp add: victim_def Let_def)
  have d: "distinct (map snd (LRUlist r))" and h: "\<And>f n. LRUhash r f = Some n \<longleftrightarrow> (n, f) \<in> set (LRUlist r)"
    using inv by (simp_all add: lru_inv_def)
  have "lru_inv ?r"
    using inv by (auto simp: eq lru_inv_def last_node [OF ne' d] map_butlast distinct_butlast
        dest: in_set_butlastD)
  moreover have "lru_frames ?r = butlast (lru_frames r)"
    by (simp add: eq lru_frames_def map_butlast)
  moreover have "fst (victim r) = Some (last (lru_frames r))"
    using ne' by (simp add: victim_def Let_def lru_frames_def last_map)
  ultimately show ?thesis by (metis prod.collapse)
qed

lemma filter_node:
  assumes "distinct (map fst xs)" and "distinct (map snd xs)" and "(n, f) \<in> set xs"
  shows "map snd (filter (\<lambda>x. fst x \<noteq> n) xs) = removeAll f (map snd xs)"
  using assms
proof (induction xs)
  case (Cons x xs)
  obtain m g where x: "x = (m, g)" by force
  show ?case
  proof (cases "(m, g) = (n, f)")
    case True
    have "filter (\<lambda>x. fst x \<noteq> n) xs = xs"
      using Cons.prems(1) x True by (auto simp: filter_id_conv)
    moreover have "f \<notin> set (map snd xs)"
      using Cons.prems(2) x True by simp
    ultimately show ?thesis using x True by simp
  next
    case False
    with Cons.prems x have "(n, f) \<in> set xs" by auto
    moreover from this Cons.prems x have "m \<noteq> n" "g \<noteq> f" by force+
    ultimately show ?thesis using Cons x by simp
  qed
qed simp

lemma lru_pin:
  assumes inv: "lru_inv r"
  shows "lru_inv (pin f r) \<and> lru_frames (pin f r) = removeAll f (lru_frames r)"
proof (cases "LRUhash r f")
  case None
  with inv have "f \<notin> set (lru_frames r)" by (simp add: lru_hash_None)
  with None inv show ?thesis by (simp add: pin_def removeAll_id)
next
  case (Some it)
  have node: "(it, f) \<in> set (LRUlist r)" using inv Some by (simp add: lru_inv_def)
  have d: "distinct (map fst (LRUlist r))" "distinct (map snd (LRUlist r))"
    and h: "\<And>f n. LRUhash r f = Some n \<longleftrightarrow> (n, f) \<in> set (LRUlist r)"
    using inv by (simp_all add: lru_inv_def)
  have other: "n = it \<longleftrightarrow> g = f" if "(n, g) \<in> set (LRUlist r)" for n g
    using that node d by (metis eq_key_imp_eq_value h option.inject)
  have frames: "lru_frames (pin f r) = removeAll f (lru_frames r)"
    using filter_node [OF d node] by (simp add: pin_def Some lru_frames_def)
  have "distinct (map snd (filter (\<lambda>x. fst x \<noteq> it) (LRUlist r)))"
    by (simp add: distinct_map_filter d)
  moreover have "((LRUhash r)(f := None)) g = Some n \<longleftrightarrow>
        (n, g) \<in> set (filter (\<lambda>x. fst x \<noteq> it) (LRUlist r))" for g n
    using other [of n g] by (auto simp: h)
  ultimately have "lru_inv (pin f r)"
    using inv by (auto simp: pin_def Some lru_inv_def distinct_map_filter)
  with frames show ?thesis by simp
qed

lemma lru_unpin:
  assumes inv: "lru_inv r"
  shows "lru_inv (unpin f r) \<and>
         lru_frames (unpin f r) = (if f \<in> set (lru_frames r) then lru_frames r else f # lru_frames r)"
proof (cases "f \<in> set (lru_frames r)")
  case True
  with inv show ?thesis by (auto simp: unpin_def lru_hash_None)
next
  case False
  then have h: "LRUhash r f = None" using inv by (simp add: lru_hash_None)
  have "fresh_node r \<notin> fst ` set (LRUlist r)" using inv by (auto simp: lru_inv_def)
  moreover have "f \<notin> snd ` set (LRUlist r)" using False by (simp add: lru_frames_def)
  ultimately have "lru_inv (unpin f r)"
    using inv h unfolding lru_inv_def unpin_def
    by (auto simp: less_Suc_eq image_iff)
  with False h show ?thesis by (simp add: unpin_def lru_frames_def)
qed

interpretation lru: replacer lru_inv lru_frames victim pin unpin Size
proof unfold_locales
  show "distinct (lru_frames r)" if "lru_inv r" for r
    using that by (simp add: lru_inv_def lru_frames_def)
  show "victim r = (None, r)" if "lru_frames r = []" for r
    using that by (simp add: victim_def lru_frames_def)
  show "Size r = length (lru_frames r)" for r
    by (simp add: Size_def lru_frames_def)
qed (simp_all add: lru_victim lru_pin lru_unpin)

section \<open>Least recently used, by timestamps\<close>

datatype rop = Victim | Pin frame_id | Unpin frame_id

definition rstep :: "rop \<Rightarrow> LRUReplacer \<Rightarrow> LRUReplacer" where
  "rstep c r = (case c of Victim \<Rightarrow> snd (victim r) | Pin f \<Rightarrow> pin f r | Unpin f \<Rightarrow> unpin f r)"

text \<open>
  The specification keeps for every evictable frame the time of the \<open>unpin\<close> that made it
  evictable; it knows nothing of lists or hash tables. A \<open>victim\<close> call removes some frame,
  which the specification is told by the code's answer.
\<close>

definition stamp_step :: "nat \<Rightarrow> rop \<Rightarrow> LRUReplacer \<Rightarrow> (frame_id \<rightharpoonup> nat) \<Rightarrow> (frame_id \<rightharpoonup> nat)" where
  "stamp_step t c r m =
     (case c of
        Victim \<Rightarrow> (case fst (victim r) of None \<Rightarrow> m | Some f \<Rightarrow> m(f := None))
      | Pin f \<Rightarrow> m(f := None)
      | Unpin f \<Rightarrow> (if m f = None then m(f \<mapsto> t) else m))"

fun rrun :: "nat \<Rightarrow> rop list \<Rightarrow> LRUReplacer \<times> (frame_id \<rightharpoonup> nat) \<Rightarrow> LRUReplacer \<times> (frame_id \<rightharpoonup> nat)" where
  "rrun t [] rm = rm"
| "rrun t (c # cs) (r, m) = rrun (Suc t) cs (rstep c r, stamp_step t c r m)"

definition stamped :: "nat \<Rightarrow> LRUReplacer \<Rightarrow> (frame_id \<rightharpoonup> nat) \<Rightarrow> bool" where
  "stamped t r m \<longleftrightarrow>
     lru_inv r \<and> dom m = set (lru_frames r) \<and> (\<forall>f n. m f = Some n \<longrightarrow> n < t) \<and>
     sorted_wrt (\<lambda>f g. the (m g) < the (m f)) (lru_frames r)"

lemma sorted_wrt_cong_set:
  "(\<And>x y. x \<in> set xs \<Longrightarrow> y \<in> set xs \<Longrightarrow> P x y \<Longrightarrow> Q x y) \<Longrightarrow> sorted_wrt P xs \<Longrightarrow> sorted_wrt Q xs"
  by (rule sorted_wrt_mono_rel)

lemma stamped_removed:
  assumes m: "sorted_wrt (\<lambda>f g. the (m g) < the (m f)) xs" and f: "f \<notin> set xs"
  shows "sorted_wrt (\<lambda>g h. the ((m(f := v)) h) < the ((m(f := v)) g)) xs"
  using m by (rule sorted_wrt_cong_set [rotated]) (use f in auto)

lemma stamped_step:
  assumes st: "stamped t r m"
  shows "stamped (Suc t) (rstep c r) (stamp_step t c r m)"
proof -
  have inv: "lru_inv r" and dm: "dom m = set (lru_frames r)"
    and lt: "\<And>f n. m f = Some n \<Longrightarrow> n < t"
    and srt: "sorted_wrt (\<lambda>f g. the (m g) < the (m f)) (lru_frames r)"
    using st by (auto simp: stamped_def)
  show ?thesis
  proof (cases c)
    case Victim
    from inv show ?thesis
    proof (cases rule: lru.victim_cases)
      case none
      with st Victim show ?thesis by (auto simp: rstep_def stamp_step_def stamped_def less_SucI)
    next
      case (some f r')
      have "sorted_wrt (\<lambda>f g. the (m g) < the (m f)) (lru_frames r')"
        using srt unfolding some(5) by (simp add: sorted_wrt_append)
      then have "sorted_wrt (\<lambda>g h. the ((m(f := None)) h) < the ((m(f := None)) g)) (lru_frames r')"
        by (rule stamped_removed) (simp add: some(4))
      with some(1,2,4) Victim dm lt show ?thesis
        by (auto simp: rstep_def stamp_step_def stamped_def less_SucI)
    qed
  next
    case (Pin f)
    have "sorted_wrt (\<lambda>f g. the (m g) < the (m f)) (removeAll f (lru_frames r))"
      using srt by (simp add: removeAll_filter_not_eq sorted_wrt_filter)
    then have "sorted_wrt (\<lambda>g h. the ((m(f := None)) h) < the ((m(f := None)) g)) (lru_frames (pin f r))"
      unfolding conjunct2 [OF lru_pin [OF inv]] by (rule stamped_removed) simp
    with Pin inv dm lt show ?thesis
      by (auto simp: rstep_def stamp_step_def stamped_def lru_pin less_SucI)
  next
    case (Unpin f)
    show ?thesis
    proof (cases "f \<in> set (lru_frames r)")
      case True
      then have "m f \<noteq> None" using dm by auto
      with True Unpin inv st show ?thesis
        by (auto simp: rstep_def stamp_step_def stamped_def lru_unpin less_SucI)
    next
      case False
      then have mf: "m f = None" using dm by auto
      have later: "the ((m(f \<mapsto> t)) g) < t" if g: "g \<in> set (lru_frames r)" for g
      proof -
        obtain n where "m g = Some n" using g dm by blast
        moreover from g False have "g \<noteq> f" by auto
        ultimately show ?thesis using lt by simp
      qed
      have "sorted_wrt (\<lambda>g h. the ((m(f \<mapsto> t)) h) < the ((m(f \<mapsto> t)) g)) (lru_frames r)"
        using srt False by (rule stamped_removed)
      with mf False Unpin inv dm lt later show ?thesis
        by (auto simp: rstep_def stamp_step_def stamped_def lru_unpin less_SucI)
    qed
  qed
qed

lemma stamped_run: "stamped t r m \<Longrightarrow> rrun t cs (r, m) = (r', m') \<Longrightarrow> stamped (t + length cs) r' m'"
proof (induction cs arbitrary: t r m)
  case (Cons c cs)
  then have "stamped (Suc t + length cs) r' m'"
    using stamped_step [OF Cons.prems(1), of c] by (intro Cons.IH) auto
  then show ?case by simp
qed simp

lemma stamped_new: "stamped 0 (new_LRUReplacer n) Map.empty"
  by (simp add: stamped_def lru_inv_new) (simp add: lru_frames_def new_LRUReplacer_def)

lemma last_is_oldest:
  assumes "sorted_wrt (\<lambda>f g. the (m g) < the (m f)) (xs @ [x])" and "g \<in> set (xs @ [x])"
  shows "the (m x) \<le> (the (m g) :: nat)"
  using assms by (auto simp: sorted_wrt_append intro: less_imp_le)

text \<open>C28 The frame that \<open>victim\<close> evicts after any sequence of calls on a new replacer is the
  one that became evictable first: no other evictable frame has an earlier \<open>unpin\<close>.\<close>

theorem lru_victim_oldest:
  assumes run: "rrun 0 cs (new_LRUReplacer n, Map.empty) = (r, m)"
    and v: "victim r = (Some f, r')"
  shows "\<exists>t. m f = Some t \<and> (\<forall>g u. m g = Some u \<longrightarrow> t \<le> u)"
proof -
  have st: "stamped (length cs) r m"
    using stamped_run [OF stamped_new run] by simp
  then have inv: "lru_inv r" and dm: "dom m = set (lru_frames r)"
    and srt: "sorted_wrt (\<lambda>f g. the (m g) < the (m f)) (lru_frames r)"
    by (simp_all add: stamped_def)
  from inv show ?thesis
  proof (cases rule: lru.victim_cases)
    case (some f' r'')
    with v have ff: "f' = f" by simp
    have "f \<in> dom m" unfolding dm using some(3) ff by simp
    then obtain t where t: "m f = Some t" by blast
    have "t \<le> u" if u: "m g = Some u" for g u
      using last_is_oldest [OF srt [unfolded some(5) ff], of g] u t dm [unfolded some(5) ff] by force
    with t show ?thesis by blast
  qed (use v in simp)
qed

theorem lru_victim_oldest_witness:
  "\<exists>t. snd (rrun 0 [Unpin 3, Unpin 5, Unpin 3, Unpin 7, Pin 5] (new_LRUReplacer 8, Map.empty)) 3 = Some t \<and>
       (\<forall>g u. snd (rrun 0 [Unpin 3, Unpin 5, Unpin 3, Unpin 7, Pin 5] (new_LRUReplacer 8, Map.empty)) g = Some u \<longrightarrow> t \<le> u)"
  by (rule lru_victim_oldest [OF surjective_pairing, where r' = "snd (victim (fst (rrun 0
        [Unpin 3, Unpin 5, Unpin 3, Unpin 7, Pin 5] (new_LRUReplacer 8, Map.empty))))"])
    (simp add: rstep_def stamp_step_def new_LRUReplacer_def unpin_def pin_def victim_def)

end
