(* ===== verification/Disk.thy ===== *)
theory Disk
  imports Prelude
begin

text \<open>
  \<^verbatim>\<open>storage/disk_manager.{h,cpp}\<close>: pages, files and the log file on top of the POSIX calls
  the code uses (\<^verbatim>\<open>open\<close>, \<^verbatim>\<open>close\<close>,
  \<^verbatim>\<open>unlink\<close>, \<^verbatim>\<open>lseek\<close>, \<^verbatim>\<open>read\<close>,
  \<^verbatim>\<open>write\<close>, \<^verbatim>\<open>stat\<close>). The operating system is modelled first: names lead to
  inodes, an open descriptor is an inode with a file offset, a write past the end fills the gap
  with zeros, \<^verbatim>\<open>lseek\<close> to a negative offset fails and leaves the offset alone (the code
  ignores its result), and \<^verbatim>\<open>open\<close> gives the lowest free descriptor or fails when none is
  left. The lemmas show that pages read back what was written, that pages do not overlap, and that
  the log file grows only at its end.
\<close>

section \<open>The operating system's files\<close>

record os_state =
  os_names :: "string \<rightharpoonup> nat"
  os_data :: "nat \<Rightarrow> byte list"
  os_inodes :: nat
  os_dirs :: "string list"
  os_fds :: "(int \<times> nat \<times> nat) list"
  os_max_fd :: nat

definition lowest_fd :: "os_state \<Rightarrow> nat" where
  "lowest_fd s = hd (filter (\<lambda>n. int n \<notin> set (map fst (os_fds s))) [3..<4 + length (os_fds s)])"

definition os_is_reg :: "os_state \<Rightarrow> string \<Rightarrow> bool" where
  "os_is_reg s path \<longleftrightarrow> os_names s path \<noteq> None"

text \<open>\<^verbatim>\<open>open(path, O_RDWR)\<close>, with \<^verbatim>\<open>O_CREAT\<close> when \<open>create\<close>; \<open>None\<close> is the result -1.\<close>

definition os_open :: "bool \<Rightarrow> string \<Rightarrow> os_state \<Rightarrow> int option \<times> os_state" where
  "os_open create path s =
     (let fd = lowest_fd s in
      if os_max_fd s \<le> fd \<or> path \<in> set (os_dirs s) then (None, s)
      else case os_names s path of
        Some i \<Rightarrow> (Some (int fd), s\<lparr>os_fds := (int fd, i, 0) # os_fds s\<rparr>)
      | None \<Rightarrow>
          if create then
            (Some (int fd),
             s\<lparr>os_names := (os_names s)(path \<mapsto> os_inodes s),
               os_data := (os_data s)(os_inodes s := []),
               os_inodes := Suc (os_inodes s),
               os_fds := (int fd, os_inodes s, 0) # os_fds s\<rparr>)
          else (None, s))"

definition os_close :: "int \<Rightarrow> os_state \<Rightarrow> bool \<times> os_state" where
  "os_close fd s =
     (if map_of (os_fds s) fd = None then (False, s)
      else (True, s\<lparr>os_fds := filter (\<lambda>e. fst e \<noteq> fd) (os_fds s)\<rparr>))"

definition os_unlink :: "string \<Rightarrow> os_state \<Rightarrow> bool \<times> os_state" where
  "os_unlink path s =
     (if os_names s path = None then (False, s)
      else (True, s\<lparr>os_names := (os_names s)(path := None)\<rparr>))"

definition set_offset :: "int \<Rightarrow> nat \<Rightarrow> os_state \<Rightarrow> os_state" where
  "set_offset fd off s =
     s\<lparr>os_fds := map (\<lambda>(g, i, p). (g, i, if g = fd then off else p)) (os_fds s)\<rparr>"

definition lseek_set :: "int \<Rightarrow> int \<Rightarrow> os_state \<Rightarrow> os_state" where
  "lseek_set fd off s = (if off < 0 then s else set_offset fd (nat off) s)"

definition lseek_end :: "int \<Rightarrow> os_state \<Rightarrow> os_state" where
  "lseek_end fd s =
     (case map_of (os_fds s) fd of
        None \<Rightarrow> s
      | Some (i, p) \<Rightarrow> set_offset fd (length (os_data s i)) s)"

definition write_pad :: "byte list \<Rightarrow> nat \<Rightarrow> byte list \<Rightarrow> byte list" where
  "write_pad d off bs = take off (d @ replicate (off - length d) 0) @ bs @ drop (off + length bs) d"

definition os_write :: "int \<Rightarrow> byte list \<Rightarrow> os_state \<Rightarrow> int \<times> os_state" where
  "os_write fd bs s =
     (case map_of (os_fds s) fd of
        None \<Rightarrow> (-1, s)
      | Some (i, p) \<Rightarrow>
          (int (length bs),
           set_offset fd (p + length bs) (s\<lparr>os_data := (os_data s)(i := write_pad (os_data s i) p bs)\<rparr>)))"

definition os_read :: "int \<Rightarrow> nat \<Rightarrow> os_state \<Rightarrow> (int \<times> byte list) \<times> os_state" where
  "os_read fd n s =
     (case map_of (os_fds s) fd of
        None \<Rightarrow> ((-1, []), s)
      | Some (i, p) \<Rightarrow>
          let bs = take n (drop p (os_data s i)) in
          ((int (length bs), bs), set_offset fd (p + length bs) s))"

section \<open>DiskManager\<close>

record DiskManager =
  path2fd :: "string \<rightharpoonup> int"
  fd2path :: "int \<rightharpoonup> string"
  log_fd :: int
  fd2pageno :: "int \<Rightarrow> int"
  dm_os :: os_state

definition MAX_FD :: int where
  "MAX_FD = 8192"

definition new_DiskManager :: "os_state \<Rightarrow> DiskManager" where
  "new_DiskManager s =
     \<lparr>path2fd = Map.empty, fd2path = Map.empty, log_fd = -1, fd2pageno = (\<lambda>_. 0), dm_os = s\<rparr>"

definition sys :: "(os_state \<Rightarrow> 'a \<times> os_state) \<Rightarrow> (DiskManager, 'a) prog" where
  "sys f d = (case f (dm_os d) of (x, s) \<Rightarrow> (Inr x, d\<lparr>dm_os := s\<rparr>))"

definition sys_do :: "(os_state \<Rightarrow> os_state) \<Rightarrow> (DiskManager, unit) prog" where
  "sys_do f = modify (\<lambda>d. d\<lparr>dm_os := f (dm_os d)\<rparr>)"

text \<open>
  \<open>buf\<close> is the source buffer cut to the \<^verbatim>\<open>num_bytes\<close> the caller passes; the byte offset is
  an \<^verbatim>\<open>int\<close> product.
\<close>

definition write_page :: "int \<Rightarrow> int \<Rightarrow> byte list \<Rightarrow> (DiskManager, unit) prog" where
  "write_page fd pno buf =
     thenE (sys_do (lseek_set fd (wrap32 (pno * int PAGE_SIZE))))
     (bindE (sys (os_write fd buf)) (\<lambda>result.
        if result \<noteq> int (length buf) then raise (InternalError ''DiskManager::write_page Error'')
        else ret ()))"

text \<open>
  \<^verbatim>\<open>read\<close> stores what it found into the caller's buffer before the length is checked, so
  reading and checking are two steps.
\<close>

definition read_page_io :: "int \<Rightarrow> int \<Rightarrow> nat \<Rightarrow> (DiskManager, int \<times> byte list) prog" where
  "read_page_io fd pno num_bytes =
     thenE (sys_do (lseek_set fd (wrap32 (pno * int PAGE_SIZE)))) (sys (os_read fd num_bytes))"

definition read_page_check :: "int \<Rightarrow> nat \<Rightarrow> ('s, unit) prog" where
  "read_page_check result num_bytes =
     (if result \<noteq> int num_bytes then raise (InternalError ''DiskManager::read_page Error'') else ret ())"

definition read_page :: "int \<Rightarrow> int \<Rightarrow> nat \<Rightarrow> (DiskManager, byte list) prog" where
  "read_page fd pno num_bytes =
     bindE (read_page_io fd pno num_bytes) (\<lambda>(result, bs).
       thenE (read_page_check result num_bytes) (ret bs))"

definition allocate_page :: "int \<Rightarrow> (DiskManager, int) prog" where
  "allocate_page fd =
     thenE (assertE (0 \<le> fd \<and> fd < MAX_FD))
     (bindE (gets (\<lambda>d. fd2pageno d fd)) (\<lambda>n.
      thenE (modify (\<lambda>d. d\<lparr>fd2pageno := (fd2pageno d)(fd := wrap32 (n + 1))\<rparr>)) (ret n)))"

definition deallocate_page :: "int \<Rightarrow> (DiskManager, unit) prog" where
  "deallocate_page pno = ret ()"

definition set_fd2pageno :: "int \<Rightarrow> int \<Rightarrow> (DiskManager, unit) prog" where
  "set_fd2pageno fd start_page_no =
     (if 0 \<le> fd \<and> fd < MAX_FD
      then modify (\<lambda>d. d\<lparr>fd2pageno := (fd2pageno d)(fd := start_page_no)\<rparr>)
      else raise OutOfBounds)"

definition get_fd2pageno :: "int \<Rightarrow> (DiskManager, int) prog" where
  "get_fd2pageno fd = (if 0 \<le> fd \<and> fd < MAX_FD then gets (\<lambda>d. fd2pageno d fd) else raise OutOfBounds)"

definition is_dir :: "string \<Rightarrow> (DiskManager, bool) prog" where
  "is_dir path = gets (\<lambda>d. path \<in> set (os_dirs (dm_os d)))"

definition is_file :: "string \<Rightarrow> (DiskManager, bool) prog" where
  "is_file path = gets (\<lambda>d. os_is_reg (dm_os d) path)"

definition create_file :: "string \<Rightarrow> (DiskManager, unit) prog" where
  "create_file path =
     bindE (is_file path) (\<lambda>b.
       if b then raise (FileExistsError path)
       else bindE (sys (os_open True path)) (\<lambda>fd.
         case fd of None \<Rightarrow> raise UnixError | Some fd \<Rightarrow> thenE (sys (os_close fd)) (ret ())))"

definition destroy_file :: "string \<Rightarrow> (DiskManager, unit) prog" where
  "destroy_file path =
     bindE (is_file path) (\<lambda>b.
       if \<not> b then raise (FileNotFoundError path)
       else bindE (sys (os_unlink path)) (\<lambda>ok. if ok then ret () else raise UnixError))"

definition open_file :: "string \<Rightarrow> (DiskManager, int) prog" where
  "open_file path =
     bindE (is_file path) (\<lambda>b.
       if \<not> b then raise (FileNotFoundError path)
       else bindE (sys (os_open False path)) (\<lambda>fd.
         case fd of
           None \<Rightarrow> raise UnixError
         | Some fd \<Rightarrow>
             thenE (modify (\<lambda>d. d\<lparr>fd2path := (fd2path d)(fd \<mapsto> path),
                                  path2fd := (path2fd d)(path \<mapsto> fd)\<rparr>))
             (ret fd)))"

definition close_file :: "int \<Rightarrow> (DiskManager, unit) prog" where
  "close_file fd =
     bindE (gets (\<lambda>d. fd2path d fd)) (\<lambda>p.
       case p of
         None \<Rightarrow> raise (FileNotOpenError fd)
       | Some path \<Rightarrow>
           bindE (sys (os_close fd)) (\<lambda>ok.
             if \<not> ok then raise UnixError
             else modify (\<lambda>d. d\<lparr>fd2path := (fd2path d)(fd := None),
                                path2fd := (path2fd d)(path := None)\<rparr>)))"

text \<open>\<^verbatim>\<open>st_size\<close> is narrowed to the \<^verbatim>\<open>int\<close> result.\<close>

definition get_file_size :: "string \<Rightarrow> (DiskManager, int) prog" where
  "get_file_size file_name =
     gets (\<lambda>d. case os_names (dm_os d) file_name of
                 None \<Rightarrow> -1
               | Some i \<Rightarrow> wrap32 (int (length (os_data (dm_os d) i))))"

definition get_file_name :: "int \<Rightarrow> (DiskManager, string) prog" where
  "get_file_name fd =
     bindE (gets (\<lambda>d. fd2path d fd)) (\<lambda>p.
       case p of None \<Rightarrow> raise (FileNotOpenError fd) | Some path \<Rightarrow> ret path)"

definition get_file_fd :: "string \<Rightarrow> (DiskManager, int) prog" where
  "get_file_fd file_name =
     bindE (gets (\<lambda>d. path2fd d file_name)) (\<lambda>p.
       case p of None \<Rightarrow> open_file file_name | Some fd \<Rightarrow> ret fd)"

definition ensure_log_open :: "(DiskManager, int) prog" where
  "ensure_log_open =
     bindE (gets log_fd) (\<lambda>l.
       if l = -1
       then bindE (open_file LOG_FILE_NAME) (\<lambda>fd. thenE (modify (\<lambda>d. d\<lparr>log_fd := fd\<rparr>)) (ret fd))
       else ret l)"

text \<open>The result is the returned count with the bytes stored through \<^verbatim>\<open>log_data\<close>.\<close>

definition read_log :: "int \<Rightarrow> int \<Rightarrow> (DiskManager, int \<times> byte list) prog" where
  "read_log sz offset =
     bindE ensure_log_open (\<lambda>fd.
     bindE (get_file_size LOG_FILE_NAME) (\<lambda>file_size.
       if offset > file_size then ret (-1, [])
       else let n = min sz (file_size - offset) in
         if n = 0 then ret (0, [])
         else thenE (sys_do (lseek_set fd offset))
           (bindE (sys (os_read fd (nat n))) (\<lambda>(bytes_read, bs).
              thenE (assertE (bytes_read = n)) (ret (bytes_read, bs))))))"

definition write_log :: "byte list \<Rightarrow> (DiskManager, unit) prog" where
  "write_log log_data =
     bindE ensure_log_open (\<lambda>fd.
     thenE (sys_do (lseek_end fd))
     (bindE (sys (os_write fd log_data)) (\<lambda>bytes_write.
        if bytes_write \<noteq> int (length log_data) then raise UnixError else ret ())))"

definition SetLogFd :: "int \<Rightarrow> (DiskManager, unit) prog" where
  "SetLogFd fd = modify (\<lambda>d. d\<lparr>log_fd := fd\<rparr>)"

definition GetLogFd :: "(DiskManager, int) prog" where
  "GetLogFd = gets log_fd"

section \<open>Reading and writing files\<close>

lemma length_write_pad [simp]: "length (write_pad d off bs) = max (length d) (off + length bs)"
  by (simp add: write_pad_def)

lemma nth_write_pad:
  "i < max (length d) (off + length bs) \<Longrightarrow>
   write_pad d off bs ! i =
     (if off \<le> i \<and> i < off + length bs then bs ! (i - off) else if i < length d then d ! i else 0)"
  by (auto simp: write_pad_def nth_append min_def)

lemma read_write_pad [mem_simps]: "n = length bs \<Longrightarrow> read_at (write_pad d off bs) off n = bs"
  by (simp add: read_at_def write_pad_def min_def)

lemma read_write_pad_disjoint [mem_simps]:
  assumes "off' + n \<le> length d" and "off' + n \<le> off \<or> off + length bs \<le> off'"
  shows "read_at (write_pad d off bs) off' n = read_at d off' n"
proof (rule nth_equalityI)
  show "length (read_at (write_pad d off bs) off' n) = length (read_at d off' n)"
    using assms(1) by simp
next
  fix i assume "i < length (read_at (write_pad d off bs) off' n)"
  with assms(1) have "i < n" by simp
  with assms show "read_at (write_pad d off bs) off' n ! i = read_at d off' n ! i"
    by (auto simp: nth_read_at nth_write_pad)
qed

lemma lowest_fd_free: "int (lowest_fd w) \<notin> fst ` set (os_fds w)" "3 \<le> lowest_fd w" "lowest_fd w \<le> 3 + length (os_fds w)"
proof -
  let ?P = "\<lambda>n. int n \<notin> set (map fst (os_fds w))" and ?ns = "[3..<4 + length (os_fds w)]"
  have "\<exists>n \<in> set ?ns. ?P n"
  proof (rule ccontr)
    assume "\<not> ?thesis"
    then have "int ` set ?ns \<subseteq> set (map fst (os_fds w))" by blast
    then have "card (int ` set ?ns) \<le> card (set (map fst (os_fds w)))" by (rule card_mono [OF finite_set])
    also have "\<dots> \<le> length (os_fds w)" using card_length [of "map fst (os_fds w)"] by simp
    finally show False by (simp add: card_image)
  qed
  then have "filter ?P ?ns \<noteq> []" by (simp add: filter_empty_conv)
  then have "lowest_fd w \<in> set (filter ?P ?ns)" unfolding lowest_fd_def by (rule hd_in_set)
  then show "int (lowest_fd w) \<notin> fst ` set (os_fds w)" "3 \<le> lowest_fd w" "lowest_fd w \<le> 3 + length (os_fds w)" by auto
qed

lemma lowest_fd_closed: "map_of (os_fds w) (int (lowest_fd w)) = None"
  using lowest_fd_free(1) by (simp add: map_of_eq_None_iff)

lemma map_of_set_offset:
  "map_of (os_fds (set_offset fd off s)) g =
     map_option (\<lambda>(i, p). (i, if g = fd then off else p)) (map_of (os_fds s) g)"
proof -
  have "map_of (map (\<lambda>(g, i, p). (g, i, if g = fd then off else p)) xs) g =
        map_option (\<lambda>(i, p). (i, if g = fd then off else p)) (map_of xs g)" for xs
    by (induction xs) auto
  then show ?thesis by (simp add: set_offset_def)
qed

lemma set_offset_fields [simp]:
  "os_data (set_offset fd off s) = os_data s"
  "os_names (set_offset fd off s) = os_names s"
  "os_dirs (set_offset fd off s) = os_dirs s"
  "os_inodes (set_offset fd off s) = os_inodes s"
  "os_max_fd (set_offset fd off s) = os_max_fd s"
  by (simp_all add: set_offset_def)

subsection \<open>What a descriptor shows\<close>

definition fd_inode :: "DiskManager \<Rightarrow> int \<Rightarrow> nat option" where
  "fd_inode d fd = map_option fst (map_of (os_fds (dm_os d)) fd)"

definition fd_data :: "DiskManager \<Rightarrow> int \<Rightarrow> byte list" where
  "fd_data d fd = (case fd_inode d fd of None \<Rightarrow> [] | Some i \<Rightarrow> os_data (dm_os d) i)"

text \<open>Page numbers whose byte offset does not overflow an \<^verbatim>\<open>int\<close>.\<close>

definition valid_pno :: "int \<Rightarrow> bool" where
  "valid_pno p \<longleftrightarrow> 0 \<le> p \<and> p < 524288"

definition disk_page :: "DiskManager \<Rightarrow> int \<Rightarrow> int \<Rightarrow> byte list option" where
  "disk_page d fd p =
     (let off = nat p * PAGE_SIZE in
      if valid_pno p \<and> off + PAGE_SIZE \<le> length (fd_data d fd)
      then Some (read_at (fd_data d fd) off PAGE_SIZE) else None)"

text \<open>No two descriptors share a file: what opening every file at most once gives.\<close>

definition dm_wf :: "DiskManager \<Rightarrow> bool" where
  "dm_wf d \<longleftrightarrow> (\<forall>f g i. fd_inode d f = Some i \<and> fd_inode d g = Some i \<longrightarrow> f = g)"

text \<open>Two disk managers that differ in file contents and offsets only.\<close>

definition same_tables :: "DiskManager \<Rightarrow> DiskManager \<Rightarrow> bool" where
  "same_tables d d' \<longleftrightarrow>
     path2fd d' = path2fd d \<and> fd2path d' = fd2path d \<and> log_fd d' = log_fd d \<and>
     fd2pageno d' = fd2pageno d \<and> fd_inode d' = fd_inode d \<and>
     os_names (dm_os d') = os_names (dm_os d)"

lemma same_tables_refl [simp]: "same_tables d d"
  by (simp add: same_tables_def)

lemma same_tables_trans: "same_tables d e \<Longrightarrow> same_tables e f \<Longrightarrow> same_tables d f"
  by (simp add: same_tables_def)

lemma same_tables_wf: "same_tables d d' \<Longrightarrow> dm_wf d \<Longrightarrow> dm_wf d'"
  by (simp add: same_tables_def dm_wf_def)

lemma page_offset: "valid_pno p \<Longrightarrow> wrap32 (p * int PAGE_SIZE) = int (nat p * PAGE_SIZE)"
  by (simp add: wrap32_id valid_pno_def PAGE_SIZE_def)

lemma PAGE_SIZE_pos [simp]: "0 < PAGE_SIZE" "PAGE_SIZE \<noteq> 0"
  by (simp_all add: PAGE_SIZE_def)

lemma lseek_page:
  "valid_pno p \<Longrightarrow> lseek_set fd (wrap32 (p * int PAGE_SIZE)) s = set_offset fd (nat p * PAGE_SIZE) s"
  by (simp add: lseek_set_def page_offset del: of_nat_mult)

lemma write_page_open:
  assumes fd: "fd_inode d fd = Some i" and p: "valid_pno p"
  obtains d' where "write_page fd p buf d = (Inr (), d')" "same_tables d d'"
    "os_data (dm_os d') = (os_data (dm_os d))(i := write_pad (os_data (dm_os d) i) (nat p * PAGE_SIZE) buf)"
proof -
  obtain q where q: "map_of (os_fds (dm_os d)) fd = Some (i, q)"
    using fd by (auto simp: fd_inode_def)
  let ?r = "write_page fd p buf d"
  have "fst ?r = Inr ()" and "same_tables d (snd ?r)"
    and "os_data (dm_os (snd ?r)) = (os_data (dm_os d))(i := write_pad (os_data (dm_os d) i) (nat p * PAGE_SIZE) buf)"
    using q
    by (simp_all add: write_page_def prog_simps sys_def sys_do_def lseek_page [OF p]
        os_write_def map_of_set_offset same_tables_def fd_inode_def fun_eq_iff option.map_comp comp_def
        case_prod_beta)
  then show ?thesis using that [of "snd ?r"] by (metis prod.collapse)
qed

lemma write_page_closed:
  assumes "fd_inode d fd = None"
  shows "\<exists>d'. write_page fd p buf d = (Inl (InternalError ''DiskManager::write_page Error''), d') \<and>
              same_tables d d' \<and> os_data (dm_os d') = os_data (dm_os d)"
  using assms
  by (auto simp: write_page_def prog_simps sys_def sys_do_def lseek_set_def os_write_def
      map_of_set_offset same_tables_def fd_inode_def fun_eq_iff option.map_comp comp_def case_prod_beta
      split: if_splits)

lemma read_page_any:
  obtains d' where "snd (read_page fd p n d) = d'" "same_tables d d'"
    "os_data (dm_os d') = os_data (dm_os d)"
  by (rule that [OF refl])
    (auto simp: read_page_def read_page_io_def read_page_check_def prog_simps sys_def sys_do_def lseek_set_def os_read_def
      map_of_set_offset same_tables_def fd_inode_def fun_eq_iff option.map_comp comp_def case_prod_beta
      Let_def split: option.splits)

lemma read_page_io_result:
  "\<exists>r bs. fst (read_page_io fd p n d) = Inr (r, bs) \<and> snd (read_page_io fd p n d) = snd (read_page fd p n d) \<and>
          fst (read_page fd p n d) =
            (if r = int n then Inr bs else Inl (InternalError ''DiskManager::read_page Error''))"
  by (auto simp: read_page_def read_page_io_def read_page_check_def prog_simps sys_def sys_do_def
      split: prod.splits)

lemma read_page_result:
  assumes p: "valid_pno p"
  shows "fst (read_page fd p PAGE_SIZE d) =
     (case disk_page d fd p of
        Some x \<Rightarrow> Inr x
      | None \<Rightarrow> Inl (InternalError ''DiskManager::read_page Error''))"
proof (cases "map_of (os_fds (dm_os d)) fd")
  case None
  then show ?thesis
    by (simp add: read_page_def read_page_io_def read_page_check_def prog_simps sys_def sys_do_def lseek_page [OF p] os_read_def
        map_of_set_offset disk_page_def fd_data_def fd_inode_def)
next
  case (Some iq)
  obtain i q where iq: "iq = (i, q)" by force
  have data: "fd_data d fd = os_data (dm_os d) i"
    using Some iq by (simp add: fd_data_def fd_inode_def)
  let ?bs = "take PAGE_SIZE (drop (nat p * PAGE_SIZE) (os_data (dm_os d) i))"
  have "length ?bs = PAGE_SIZE \<longleftrightarrow> nat p * PAGE_SIZE + PAGE_SIZE \<le> length (os_data (dm_os d) i)"
    by (auto simp: min_def PAGE_SIZE_def)
  moreover have "fst (read_page fd p PAGE_SIZE d) =
      (if length ?bs = PAGE_SIZE then Inr ?bs else Inl (InternalError ''DiskManager::read_page Error''))"
    using Some iq
    by (simp add: read_page_def read_page_io_def read_page_check_def prog_simps sys_def sys_do_def lseek_page [OF p] os_read_def
        map_of_set_offset Let_def del: length_take length_drop)
  ultimately show ?thesis using p by (simp add: disk_page_def data read_at_def Let_def)
qed

lemma same_data_page:
  assumes "same_tables d d'" "os_data (dm_os d') = os_data (dm_os d)"
  shows "disk_page d' = disk_page d"
proof -
  have "fd_data d' fd = fd_data d fd" for fd
    using assms by (simp add: fd_data_def same_tables_def split: option.split)
  then show ?thesis by (simp add: disk_page_def fun_eq_iff Let_def)
qed

lemma disk_page_length: "disk_page d fd p = Some x \<Longrightarrow> length x = PAGE_SIZE"
  by (auto simp: disk_page_def Let_def split: if_splits)

lemma disk_page_open: "disk_page d fd p = Some x \<Longrightarrow> fd_inode d fd \<noteq> None"
  by (cases "fd_inode d fd") (auto simp: disk_page_def fd_data_def Let_def split: if_splits)

lemma pages_disjoint:
  assumes "valid_pno p" "valid_pno q" "p \<noteq> q"
  shows "nat q * PAGE_SIZE + PAGE_SIZE \<le> nat p * PAGE_SIZE \<or> nat p * PAGE_SIZE + PAGE_SIZE \<le> nat q * PAGE_SIZE"
proof -
  from assms have "nat q + 1 \<le> nat p \<or> nat p + 1 \<le> nat q"
    by (auto simp: valid_pno_def)
  then have "(nat q + 1) * PAGE_SIZE \<le> nat p * PAGE_SIZE \<or> (nat p + 1) * PAGE_SIZE \<le> nat q * PAGE_SIZE"
    by (meson mult_le_mono1)
  then show ?thesis by (simp add: algebra_simps)
qed

section \<open>The interface the buffer pool uses\<close>

locale page_disk =
  fixes wf :: "'d \<Rightarrow> bool"
    and is_open :: "'d \<Rightarrow> int \<Rightarrow> bool"
    and page :: "'d \<Rightarrow> int \<Rightarrow> int \<Rightarrow> byte list option"
    and wr :: "int \<Rightarrow> int \<Rightarrow> byte list \<Rightarrow> ('d, unit) prog"
    and rd :: "int \<Rightarrow> int \<Rightarrow> ('d, byte list) prog"
    and frame :: "'d \<Rightarrow> 'd \<Rightarrow> bool"
  assumes frame_refl: "frame d d"
    and frame_trans: "frame d e \<Longrightarrow> frame e f \<Longrightarrow> frame d f"
    and frame_open: "frame d e \<Longrightarrow> is_open e = is_open d"
    and wr_open: "wf d \<Longrightarrow> is_open d fd \<Longrightarrow> valid_pno p \<Longrightarrow> length buf = PAGE_SIZE \<Longrightarrow>
      \<exists>d'. wr fd p buf d = (Inr (), d') \<and> wf d' \<and> frame d d' \<and> page d' fd p = Some buf \<and>
           (\<forall>g q x. (g, q) \<noteq> (fd, p) \<longrightarrow> page d g q = Some x \<longrightarrow> page d' g q = Some x)"
    and wr_closed: "\<not> is_open d fd \<Longrightarrow> \<exists>e d'. wr fd p buf d = (Inl e, d')"
    and rd_page: "wf d \<Longrightarrow> valid_pno p \<Longrightarrow>
      \<exists>d'. rd fd p d = (case page d fd p of Some x \<Rightarrow> Inr x
                        | None \<Rightarrow> Inl (InternalError ''DiskManager::read_page Error''), d') \<and>
           wf d' \<and> frame d d' \<and> page d' = page d"
    and page_length: "page d fd p = Some x \<Longrightarrow> length x = PAGE_SIZE"
begin

lemma wr_rd:
  assumes "wf d" "is_open d fd" "valid_pno p" "length buf = PAGE_SIZE"
  shows "\<exists>d'. bindE (wr fd p buf) (\<lambda>_. rd fd p) d = (Inr buf, d') \<and> wf d' \<and> frame d d'"
proof -
  obtain d1 where w: "wr fd p buf d = (Inr (), d1)" "wf d1" "frame d d1" "page d1 fd p = Some buf"
    using wr_open [OF assms] by blast
  obtain d2 where "rd fd p d1 = (Inr buf, d2)" "wf d2" "frame d1 d2"
    using rd_page [OF w(2) assms(3), of fd] w(4) by auto
  with w show ?thesis using frame_trans by (auto simp: bindE_def)
qed

lemma wr_rd_other:
  assumes "wf d" "is_open d fd" "valid_pno p" "length buf = PAGE_SIZE"
    and "(g, q) \<noteq> (fd, p)" "valid_pno q" "page d g q = Some x"
  shows "\<exists>d'. bindE (wr fd p buf) (\<lambda>_. rd g q) d = (Inr x, d')"
proof -
  obtain d1 where w: "wr fd p buf d = (Inr (), d1)" "wf d1" "page d1 g q = Some x"
    using wr_open [OF assms(1-4)] assms(5,7) by blast
  then show ?thesis using rd_page [OF w(2) assms(6), of g] by (auto simp: bindE_def)
qed

end

lemma write_page_pages:
  assumes wf: "dm_wf d" and fd: "fd_inode d fd = Some i" and p: "valid_pno p"
    and len: "length buf = PAGE_SIZE" and tabs: "same_tables d d'"
    and data: "os_data (dm_os d') = (os_data (dm_os d))(i := write_pad (os_data (dm_os d) i) (nat p * PAGE_SIZE) buf)"
  shows "disk_page d' fd p = Some buf"
    and "(g, q) \<noteq> (fd, p) \<Longrightarrow> disk_page d g q = Some x \<Longrightarrow> disk_page d' g q = Some x"
proof -
  have ino: "fd_inode d' = fd_inode d" using tabs by (simp add: same_tables_def)
  show "disk_page d' fd p = Some buf"
    using p len by (simp add: disk_page_def fd_data_def ino fd data mem_simps)
  assume ne: "(g, q) \<noteq> (fd, p)" and pg: "disk_page d g q = Some x"
  have q: "valid_pno q" using pg by (simp add: disk_page_def Let_def split: if_splits)
  show "disk_page d' g q = Some x"
  proof (cases "g = fd")
    case True
    with ne have "q \<noteq> p" by simp
    from pages_disjoint [OF p q] this pg True show ?thesis
      by (auto simp: disk_page_def fd_data_def ino fd data Let_def mem_simps len split: if_splits)
  next
    case False
    have "fd_inode d g \<noteq> Some i" using wf fd False by (auto simp: dm_wf_def)
    then have "fd_data d' g = fd_data d g"
      by (cases "fd_inode d g") (auto simp: fd_data_def ino data)
    with pg show ?thesis by (auto simp: disk_page_def Let_def split: if_splits)
  qed
qed

interpretation dsk: page_disk dm_wf "\<lambda>d fd. fd_inode d fd \<noteq> None" disk_page write_page
  "\<lambda>fd p. read_page fd p PAGE_SIZE" same_tables
proof unfold_locales
  show "\<exists>d'. write_page fd p buf d = (Inr (), d') \<and> dm_wf d' \<and> same_tables d d' \<and>
          disk_page d' fd p = Some buf \<and>
          (\<forall>g q x. (g, q) \<noteq> (fd, p) \<longrightarrow> disk_page d g q = Some x \<longrightarrow> disk_page d' g q = Some x)"
    if wf: "dm_wf d" and op: "fd_inode d fd \<noteq> None" and p: "valid_pno p" and len: "length buf = PAGE_SIZE"
    for d fd p buf
  proof -
    obtain i where i: "fd_inode d fd = Some i" using op by blast
    obtain d' where d': "write_page fd p buf d = (Inr (), d')" "same_tables d d'"
      "os_data (dm_os d') = (os_data (dm_os d))(i := write_pad (os_data (dm_os d) i) (nat p * PAGE_SIZE) buf)"
      by (rule write_page_open [OF i p])
    note pages = write_page_pages [OF wf i p len d'(2,3)]
    show ?thesis
      by (intro exI [of _ d'] conjI) (use d' pages same_tables_wf [OF d'(2) wf] in blast)+
  qed
  show "\<exists>e d'. write_page fd p buf d = (Inl e, d')" if "\<not> fd_inode d fd \<noteq> None" for fd p buf d
    using write_page_closed that by blast
  show "\<exists>d'. read_page fd p PAGE_SIZE d =
        (case disk_page d fd p of Some x \<Rightarrow> Inr x
         | None \<Rightarrow> Inl (InternalError ''DiskManager::read_page Error''), d') \<and>
        dm_wf d' \<and> same_tables d d' \<and> disk_page d' = disk_page d"
    if wf: "dm_wf d" and p: "valid_pno p" for d p fd
  proof -
    obtain d' where d': "snd (read_page fd p PAGE_SIZE d) = d'" "same_tables d d'"
      "os_data (dm_os d') = os_data (dm_os d)"
      by (rule read_page_any)
    then show ?thesis
      using read_page_result [OF p, of fd d] same_data_page [OF d'(2,3)] same_tables_wf [OF d'(2) wf]
      by (metis prod.collapse)
  qed
qed (auto simp: same_tables_def disk_page_length)

lemma read_page_io_page:
  assumes "dm_wf d" and "valid_pno p"
  obtains r bs d' where "read_page_io fd p PAGE_SIZE d = (Inr (r, bs), d')"
    "dm_wf d'" "same_tables d d'" "disk_page d' = disk_page d"
    "\<forall>x. disk_page d fd p = Some x \<longrightarrow> r = int PAGE_SIZE \<and> bs = x"
    "disk_page d fd p = None \<longrightarrow> r \<noteq> int PAGE_SIZE"
proof -
  obtain r bs where io: "fst (read_page_io fd p PAGE_SIZE d) = Inr (r, bs)"
      "snd (read_page_io fd p PAGE_SIZE d) = snd (read_page fd p PAGE_SIZE d)"
      "fst (read_page fd p PAGE_SIZE d) =
         (if r = int PAGE_SIZE then Inr bs else Inl (InternalError ''DiskManager::read_page Error''))"
    using read_page_io_result by blast
  obtain d' where rd: "read_page fd p PAGE_SIZE d =
        (case disk_page d fd p of Some x \<Rightarrow> Inr x
         | None \<Rightarrow> Inl (InternalError ''DiskManager::read_page Error''), d')"
      "dm_wf d'" "same_tables d d'" "disk_page d' = disk_page d"
    using dsk.rd_page [OF assms] by blast
  have run: "read_page_io fd p PAGE_SIZE d = (Inr (r, bs), d')"
    using io(1,2) rd(1) by (metis prod.collapse snd_conv)
  have "\<forall>x. disk_page d fd p = Some x \<longrightarrow> r = int PAGE_SIZE \<and> bs = x"
    using io(3) rd(1) by (auto split: if_splits option.splits)
  moreover have "disk_page d fd p = None \<longrightarrow> r \<noteq> int PAGE_SIZE"
    using io(3) rd(1) by (auto split: if_splits option.splits)
  ultimately show ?thesis by (rule that [OF run rd(2-4)])
qed

section \<open>Properties\<close>

text \<open>C29 A page written to an open file is what the next \<open>read_page\<close> of that page returns, and
  every other page of every file still reads as before, for all page numbers below the 2 GiB limit
  of the \<^verbatim>\<open>int\<close> offset.\<close>

theorem page_write_read:
  assumes "dm_wf d" and "fd_inode d fd \<noteq> None" and "valid_pno p" and "length buf = PAGE_SIZE"
  shows "fst (bindE (write_page fd p buf) (\<lambda>_. read_page fd p PAGE_SIZE) d) = Inr buf \<and>
     (\<forall>g q x. (g, q) \<noteq> (fd, p) \<longrightarrow> valid_pno q \<longrightarrow> disk_page d g q = Some x \<longrightarrow>
        fst (bindE (write_page fd p buf) (\<lambda>_. read_page g q PAGE_SIZE) d) = Inr x)"
  using dsk.wr_rd [OF assms] dsk.wr_rd_other [OF assms] by (metis fst_conv)

definition one_file_os :: "byte list \<Rightarrow> os_state" where
  "one_file_os bs =
     \<lparr>os_names = [''t'' \<mapsto> 0], os_data = (\<lambda>_. bs), os_inodes = 1, os_dirs = [],
      os_fds = [(3, 0, 0)], os_max_fd = 16\<rparr>"

lemma one_file_inode:
  "fd_inode (new_DiskManager (one_file_os bs)) fd = (if fd = 3 then Some 0 else None)"
  by (simp add: fd_inode_def new_DiskManager_def one_file_os_def)

lemma one_file_wf: "dm_wf (new_DiskManager (one_file_os bs))"
  by (simp add: dm_wf_def one_file_inode)

theorem page_write_read_witness:
  "fst (bindE (write_page 3 2 (replicate PAGE_SIZE 7)) (\<lambda>_. read_page 3 2 PAGE_SIZE)
      (new_DiskManager (one_file_os (replicate PAGE_SIZE 1)))) = Inr (replicate PAGE_SIZE 7) \<and>
   fst (bindE (write_page 3 2 (replicate PAGE_SIZE 7)) (\<lambda>_. read_page 3 0 PAGE_SIZE)
      (new_DiskManager (one_file_os (replicate PAGE_SIZE 1)))) = Inr (replicate PAGE_SIZE 1)"
proof -
  let ?d = "new_DiskManager (one_file_os (replicate PAGE_SIZE 1))"
  have "disk_page ?d 3 0 = Some (replicate PAGE_SIZE 1)"
    by (simp add: disk_page_def fd_data_def one_file_inode valid_pno_def read_at_def)
      (simp add: new_DiskManager_def one_file_os_def)
  then show ?thesis
    using page_write_read [OF one_file_wf [of "replicate PAGE_SIZE 1"], of 3 2 "replicate PAGE_SIZE 7"]
    by (simp add: one_file_inode valid_pno_def)
qed

end
