(* ===== verification/Buffer_Pool.thy ===== *)
theory Buffer_Pool
  imports Prelude Replacer Disk
begin

text \<open>
  \<^verbatim>\<open>storage/page.h\<close> and \<^verbatim>\<open>storage/buffer_pool_manager.{h,cpp}\<close>. A \<^verbatim>\<open>Page*\<close> into the
  pool is its frame number; \<open>None\<close> is the null pointer. The pool owns the LRU replacer and the
  disk manager. The invariant says that every frame is free or holds the page the table maps to it,
  that exactly the unpinned resident frames are evictable, and that an unpinned clean page equals
  its disk image; the abstraction \<open>view\<close> is the content of every page, cached or not. The
  operations are shown to keep the invariant and to leave every view as it was.
\<close>

section \<open>Pages and the pool\<close>

record PageId =
  pid_fd :: int
  pid_no :: int

record Page =
  pg_id :: PageId
  pg_data :: "byte list"
  is_dirty :: bool
  pin_count :: int

definition zero_page :: "byte list" where
  "zero_page = replicate PAGE_SIZE 0"

text \<open>A new frame's \<^verbatim>\<open>fd\<close> is uninitialised in C++; no code reads it while the page number is invalid.\<close>

definition new_Page :: Page where
  "new_Page = \<lparr>pg_id = \<lparr>pid_fd = 0, pid_no = INVALID_PAGE_ID\<rparr>, pg_data = zero_page,
               is_dirty = False, pin_count = 0\<rparr>"

definition get_page_lsn :: "Page \<Rightarrow> int" where
  "get_page_lsn p = get_i32 (pg_data p) 0"

definition set_page_lsn :: "int \<Rightarrow> Page \<Rightarrow> Page" where
  "set_page_lsn lsn p = p\<lparr>pg_data := put_i32 (pg_data p) 0 lsn\<rparr>"

record BufferPoolManager =
  pool_size :: nat
  pages :: "Page list"
  page_table :: "PageId \<rightharpoonup> frame_id"
  free_list :: "frame_id list"
  replacer :: LRUReplacer
  bpm_disk :: DiskManager

definition new_BufferPoolManager :: "nat \<Rightarrow> DiskManager \<Rightarrow> BufferPoolManager" where
  "new_BufferPoolManager n d =
     \<lparr>pool_size = n, pages = replicate n new_Page, page_table = Map.empty, free_list = [0..<n],
      replacer = new_LRUReplacer n, bpm_disk = d\<rparr>"

definition on_disk :: "(DiskManager, 'a) prog \<Rightarrow> (BufferPoolManager, 'a) prog" where
  "on_disk m = zoom bpm_disk (\<lambda>d s. s\<lparr>bpm_disk := d\<rparr>) m"

definition upd_page :: "frame_id \<Rightarrow> (Page \<Rightarrow> Page) \<Rightarrow> (BufferPoolManager, unit) prog" where
  "upd_page f g = modify (\<lambda>s. s\<lparr>pages := (pages s)[f := g (pages s ! f)]\<rparr>)"

definition mark_dirty :: "frame_id \<Rightarrow> (BufferPoolManager, unit) prog" where
  "mark_dirty f = upd_page f (\<lambda>p. p\<lparr>is_dirty := True\<rparr>)"

section \<open>Operations\<close>

definition find_victim_page :: "(BufferPoolManager, frame_id option) prog" where
  "find_victim_page =
     bindE (gets free_list) (\<lambda>fl.
       case fl of
         f # rest \<Rightarrow> thenE (modify (\<lambda>s. s\<lparr>free_list := rest\<rparr>)) (ret (Some f))
       | [] \<Rightarrow>
           bindE (gets (\<lambda>s. victim (replacer s))) (\<lambda>(v, r).
             thenE (modify (\<lambda>s. s\<lparr>replacer := r\<rparr>)) (ret v)))"

definition update_page :: "frame_id \<Rightarrow> PageId \<Rightarrow> (BufferPoolManager, unit) prog" where
  "update_page f new_page_id =
     bindE (gets (\<lambda>s. pages s ! f)) (\<lambda>page.
     thenE (if pid_no (pg_id page) \<noteq> INVALID_PAGE_ID \<and> is_dirty page
            then on_disk (write_page (pid_fd (pg_id page)) (pid_no (pg_id page)) (pg_data page))
            else ret ())
     (thenE (if pid_no (pg_id page) \<noteq> INVALID_PAGE_ID
             then modify (\<lambda>s. s\<lparr>page_table := (page_table s)(pg_id page := None)\<rparr>)
             else ret ())
     (thenE (modify (\<lambda>s. s\<lparr>page_table := (page_table s)(new_page_id \<mapsto> f)\<rparr>))
     (upd_page f (\<lambda>p. p\<lparr>pg_data := zero_page, pg_id := new_page_id, is_dirty := False, pin_count := 0\<rparr>)))))"

definition fetch_page :: "PageId \<Rightarrow> (BufferPoolManager, frame_id option) prog" where
  "fetch_page page_id =
     bindE (gets (\<lambda>s. page_table s page_id)) (\<lambda>it.
       case it of
         Some f \<Rightarrow>
           thenE (upd_page f (\<lambda>p. p\<lparr>pin_count := pin_count p + 1\<rparr>))
           (thenE (modify (\<lambda>s. s\<lparr>replacer := pin f (replacer s)\<rparr>)) (ret (Some f)))
       | None \<Rightarrow>
           bindE find_victim_page (\<lambda>v.
             case v of
               None \<Rightarrow> ret None
             | Some f \<Rightarrow>
                 thenE (update_page f page_id)
                 (bindE (on_disk (read_page_io (pid_fd page_id) (pid_no page_id) PAGE_SIZE)) (\<lambda>(r, bs).
                 thenE (upd_page f (\<lambda>p. p\<lparr>pg_data := write_at (pg_data p) 0 bs\<rparr>))
                 (thenE (read_page_check r PAGE_SIZE)
                 (thenE (upd_page f (\<lambda>p. p\<lparr>pin_count := 1\<rparr>))
                 (thenE (modify (\<lambda>s. s\<lparr>replacer := pin f (replacer s)\<rparr>)) (ret (Some f)))))))))"

definition unpin_page :: "PageId \<Rightarrow> bool \<Rightarrow> (BufferPoolManager, bool) prog" where
  "unpin_page page_id dirty =
     bindE (gets (\<lambda>s. page_table s page_id)) (\<lambda>it.
       case it of
         None \<Rightarrow> ret False
       | Some f \<Rightarrow>
           bindE (gets (\<lambda>s. pages s ! f)) (\<lambda>page.
             if pin_count page \<le> 0 then ret False
             else
               thenE (upd_page f (\<lambda>p. p\<lparr>pin_count := pin_count p - 1\<rparr>))
               (thenE (if dirty then upd_page f (\<lambda>p. p\<lparr>is_dirty := True\<rparr>) else ret ())
               (thenE (if pin_count page - 1 = 0
                       then modify (\<lambda>s. s\<lparr>replacer := unpin f (replacer s)\<rparr>) else ret ())
               (ret True)))))"

definition flush_page :: "PageId \<Rightarrow> (BufferPoolManager, bool) prog" where
  "flush_page page_id =
     bindE (gets (\<lambda>s. page_table s page_id)) (\<lambda>it.
       case it of
         None \<Rightarrow> ret False
       | Some f \<Rightarrow>
           bindE (gets (\<lambda>s. pages s ! f)) (\<lambda>page.
           thenE (on_disk (write_page (pid_fd page_id) (pid_no page_id) (pg_data page)))
           (thenE (upd_page f (\<lambda>p. p\<lparr>is_dirty := False\<rparr>)) (ret True))))"

text \<open>\<^verbatim>\<open>page_id->fd\<close> comes in, the whole \<^verbatim>\<open>*page_id\<close> and the page go out.\<close>

definition new_page :: "int \<Rightarrow> (BufferPoolManager, (PageId \<times> frame_id) option) prog" where
  "new_page fd =
     bindE find_victim_page (\<lambda>v.
       case v of
         None \<Rightarrow> ret None
       | Some f \<Rightarrow>
           bindE (on_disk (allocate_page fd)) (\<lambda>pno.
           let page_id = \<lparr>pid_fd = fd, pid_no = pno\<rparr> in
           thenE (update_page f page_id)
           (thenE (upd_page f (\<lambda>p. p\<lparr>pin_count := 1\<rparr>))
           (thenE (modify (\<lambda>s. s\<lparr>replacer := pin f (replacer s)\<rparr>))
           (ret (Some (page_id, f)))))))"

definition delete_page :: "PageId \<Rightarrow> (BufferPoolManager, bool) prog" where
  "delete_page page_id =
     bindE (gets (\<lambda>s. page_table s page_id)) (\<lambda>it.
       case it of
         None \<Rightarrow> ret True
       | Some f \<Rightarrow>
           bindE (gets (\<lambda>s. pages s ! f)) (\<lambda>page.
             if pin_count page \<noteq> 0 then ret False
             else
               thenE (on_disk (write_page (pid_fd page_id) (pid_no page_id) (pg_data page)))
               (thenE (modify (\<lambda>s. s\<lparr>page_table := (page_table s)(page_id := None),
                                     replacer := pin f (replacer s)\<rparr>))
               (thenE (upd_page f (\<lambda>p. p\<lparr>pg_data := zero_page,
                         pg_id := \<lparr>pid_fd = pid_fd page_id, pid_no = INVALID_PAGE_ID\<rparr>,
                         is_dirty := False, pin_count := 0\<rparr>))
               (thenE (modify (\<lambda>s. s\<lparr>free_list := free_list s @ [f]\<rparr>))
               (ret True))))))"

fun flush_frames :: "int \<Rightarrow> frame_id list \<Rightarrow> (BufferPoolManager, unit) prog" where
  "flush_frames fd [] = ret ()"
| "flush_frames fd (f # fs) =
     thenE (bindE (gets (\<lambda>s. pages s ! f)) (\<lambda>page.
              if pid_no (pg_id page) \<noteq> INVALID_PAGE_ID \<and> pid_fd (pg_id page) = fd
              then thenE (on_disk (write_page fd (pid_no (pg_id page)) (pg_data page)))
                         (upd_page f (\<lambda>p. p\<lparr>is_dirty := False\<rparr>))
              else ret ()))
     (flush_frames fd fs)"

definition flush_all_pages :: "int \<Rightarrow> (BufferPoolManager, unit) prog" where
  "flush_all_pages fd = bindE (gets pool_size) (\<lambda>n. flush_frames fd [0..<n])"

section \<open>Invariant and view\<close>

text \<open>
  \<open>H\<close> is the set of frames an operation has taken out of the free list or the replacer and not
  yet installed; between operations it is empty.
\<close>

definition inv_frames :: "frame_id set \<Rightarrow> BufferPoolManager \<Rightarrow> bool" where
  "inv_frames H s \<longleftrightarrow>
     length (pages s) = pool_size s \<and> distinct (free_list s) \<and>
     (\<forall>f \<in> set (free_list s) \<union> H. f < pool_size s \<and> pin_count (pages s ! f) = 0) \<and>
     H \<inter> set (free_list s) = {} \<and>
     (\<forall>f \<in> set (free_list s). pid_no (pg_id (pages s ! f)) = INVALID_PAGE_ID) \<and>
     (\<forall>f < pool_size s. 0 \<le> pin_count (pages s ! f) \<and> length (pg_data (pages s ! f)) = PAGE_SIZE)"

definition inv_table :: "frame_id set \<Rightarrow> BufferPoolManager \<Rightarrow> bool" where
  "inv_table H s \<longleftrightarrow>
     (\<forall>pid f. page_table s pid = Some f \<longrightarrow>
        f < pool_size s \<and> pg_id (pages s ! f) = pid \<and> valid_pno (pid_no pid)) \<and>
     (\<forall>f < pool_size s. f \<notin> set (free_list s) \<longrightarrow>
        (f \<notin> H \<or> pid_no (pg_id (pages s ! f)) \<noteq> INVALID_PAGE_ID) \<longrightarrow>
        page_table s (pg_id (pages s ! f)) = Some f)"

definition inv_lru :: "frame_id set \<Rightarrow> BufferPoolManager \<Rightarrow> bool" where
  "inv_lru H s \<longleftrightarrow>
     lru_inv (replacer s) \<and>
     (\<forall>f. f \<in> set (lru_frames (replacer s)) \<longleftrightarrow>
        f < pool_size s \<and> f \<notin> set (free_list s) \<and> f \<notin> H \<and> pin_count (pages s ! f) = 0)"

definition page_on_disk :: "BufferPoolManager \<Rightarrow> PageId \<Rightarrow> byte list option" where
  "page_on_disk s pid = disk_page (bpm_disk s) (pid_fd pid) (pid_no pid)"

definition inv_disk :: "BufferPoolManager \<Rightarrow> bool" where
  "inv_disk s \<longleftrightarrow>
     dm_wf (bpm_disk s) \<and>
     (\<forall>pid f. page_table s pid = Some f \<longrightarrow>
        fd_inode (bpm_disk s) (pid_fd pid) \<noteq> None \<and>
        (pin_count (pages s ! f) = 0 \<longrightarrow> \<not> is_dirty (pages s ! f) \<longrightarrow>
           page_on_disk s pid = Some (pg_data (pages s ! f))))"

definition held_inv :: "frame_id set \<Rightarrow> BufferPoolManager \<Rightarrow> bool" where
  "held_inv H s \<longleftrightarrow> inv_frames H s \<and> inv_table H s \<and> inv_lru H s \<and> inv_disk s"

abbreviation bpm_inv :: "BufferPoolManager \<Rightarrow> bool" where
  "bpm_inv s \<equiv> held_inv {} s"

definition view :: "BufferPoolManager \<Rightarrow> PageId \<Rightarrow> byte list option" where
  "view s pid =
     (case page_table s pid of Some f \<Rightarrow> Some (pg_data (pages s ! f)) | None \<Rightarrow> page_on_disk s pid)"

definition pins :: "BufferPoolManager \<Rightarrow> PageId \<Rightarrow> int" where
  "pins s pid = (case page_table s pid of Some f \<Rightarrow> pin_count (pages s ! f) | None \<Rightarrow> 0)"

text \<open>A pinned page that a client may unpin without marking it dirty.\<close>

definition settled :: "BufferPoolManager \<Rightarrow> PageId \<Rightarrow> bool" where
  "settled s pid \<longleftrightarrow>
     (\<exists>f. page_table s pid = Some f \<and> 0 < pin_count (pages s ! f) \<and>
        (is_dirty (pages s ! f) \<or> page_on_disk s pid = Some (pg_data (pages s ! f))))"

text \<open>What a client keeps across an operation on another page: no content and no pin is lost.\<close>

definition keeps :: "PageId set \<Rightarrow> BufferPoolManager \<Rightarrow> BufferPoolManager \<Rightarrow> bool" where
  "keeps P s t \<longleftrightarrow>
     (\<forall>pid x. pid \<notin> P \<longrightarrow> view s pid = Some x \<longrightarrow> view t pid = Some x) \<and>
     (\<forall>pid. pid \<notin> P \<longrightarrow> pins t pid = pins s pid) \<and>
     (\<forall>pid f. pid \<notin> P \<longrightarrow> page_table s pid = Some f \<longrightarrow> 0 < pin_count (pages s ! f) \<longrightarrow>
        page_table t pid = Some f) \<and>
     (\<forall>pid. pid \<notin> P \<longrightarrow> page_table s pid = None \<longrightarrow> page_table t pid = None) \<and>
     (\<forall>pid. pid \<notin> P \<longrightarrow> settled s pid \<longrightarrow> settled t pid) \<and>
     pool_size t = pool_size s \<and>
     fd_inode (bpm_disk t) = fd_inode (bpm_disk s) \<and> fd2path (bpm_disk t) = fd2path (bpm_disk s)"

section \<open>Taking a frame\<close>

lemma PageId_eq_iff: "p = q \<longleftrightarrow> pid_fd p = pid_fd q \<and> pid_no p = pid_no (q :: PageId)"
  by (cases p; cases q) simp

lemma on_disk_run [prog_simps]:
  "on_disk m s = (case m (bpm_disk s) of (r, d) \<Rightarrow> (r, s\<lparr>bpm_disk := d\<rparr>))"
  by (simp add: on_disk_def prog_simps)

lemma upd_page_run [prog_simps]: "upd_page f g s = (Inr (), s\<lparr>pages := (pages s)[f := g (pages s ! f)]\<rparr>)"
  by (simp add: upd_page_def prog_simps)

lemma held_inv_parts:
  "held_inv H s \<Longrightarrow> inv_frames H s" "held_inv H s \<Longrightarrow> inv_table H s"
  "held_inv H s \<Longrightarrow> inv_lru H s" "held_inv H s \<Longrightarrow> inv_disk s"
  by (simp_all add: held_inv_def)

lemma bpm_inv_new: "dm_wf d \<Longrightarrow> bpm_inv (new_BufferPoolManager n d)"
  by (auto simp: held_inv_def inv_frames_def inv_table_def inv_lru_def inv_disk_def
      new_BufferPoolManager_def new_Page_def zero_page_def lru_inv_new)
    (auto simp: lru_frames_def new_LRUReplacer_def)

lemma take_free:
  assumes inv: "bpm_inv s" and fl: "free_list s = f # rest"
  shows "held_inv {f} (s\<lparr>free_list := rest\<rparr>)" and "f < pool_size s"
proof -
  note parts = held_inv_parts [OF inv]
  have f: "f < pool_size s" "f \<notin> set rest" "distinct rest" "pin_count (pages s ! f) = 0"
      "pid_no (pg_id (pages s ! f)) = INVALID_PAGE_ID"
    using parts(1) fl by (auto simp: inv_frames_def)
  then show "f < pool_size s" by simp
  have "inv_frames {f} (s\<lparr>free_list := rest\<rparr>)"
    using parts(1) f by (auto simp: inv_frames_def fl)
  moreover have "inv_table {f} (s\<lparr>free_list := rest\<rparr>)"
    using parts(2) f by (auto simp: inv_table_def fl)
  moreover have "inv_lru {f} (s\<lparr>free_list := rest\<rparr>)"
    using parts(3) f by (auto simp: inv_lru_def fl)
  moreover have "inv_disk (s\<lparr>free_list := rest\<rparr>)"
    using parts(4) by (simp add: inv_disk_def page_on_disk_def)
  ultimately show "held_inv {f} (s\<lparr>free_list := rest\<rparr>)"
    by (simp add: held_inv_def)
qed

lemma take_victim:
  assumes inv: "bpm_inv s" and v: "victim (replacer s) = (Some f, r)"
  shows "held_inv {f} (s\<lparr>replacer := r\<rparr>)" and "f < pool_size s"
proof -
  note parts = held_inv_parts [OF inv]
  have li: "lru_inv (replacer s)" using parts(3) by (simp add: inv_lru_def)
  have r: "lru_inv r" "f \<in> set (lru_frames (replacer s))"
      "set (lru_frames r) = set (lru_frames (replacer s)) - {f}"
    by (rule lru.victim_SomeD [OF li v])+
  have f: "f < pool_size s" "f \<notin> set (free_list s)" "pin_count (pages s ! f) = 0"
    using parts(3) r(2) by (auto simp: inv_lru_def)
  then show "f < pool_size s" by simp
  have "inv_frames {f} (s\<lparr>replacer := r\<rparr>)"
    using parts(1) f by (auto simp: inv_frames_def)
  moreover have "inv_table {f} (s\<lparr>replacer := r\<rparr>)"
    using parts(2) by (auto simp: inv_table_def)
  moreover have "inv_lru {f} (s\<lparr>replacer := r\<rparr>)"
    using parts(3) r by (auto simp: inv_lru_def)
  moreover have "inv_disk (s\<lparr>replacer := r\<rparr>)"
    using parts(4) by (simp add: inv_disk_def page_on_disk_def)
  ultimately show "held_inv {f} (s\<lparr>replacer := r\<rparr>)"
    by (simp add: held_inv_def)
qed

lemma find_victim_cases:
  assumes inv: "bpm_inv s"
  obtains (none) "find_victim_page s = (Inr None, s)" "free_list s = []"
      "\<forall>f < pool_size s. 0 < pin_count (pages s ! f)"
  | (some) f t where "find_victim_page s = (Inr (Some f), t)" "held_inv {f} t" "f < pool_size s"
      "pages t = pages s" "page_table t = page_table s" "bpm_disk t = bpm_disk s" "pool_size t = pool_size s"
proof (cases "free_list s")
  case (Cons f rest)
  have run: "find_victim_page s = (Inr (Some f), s\<lparr>free_list := rest\<rparr>)"
    by (simp add: find_victim_page_def prog_simps Cons)
  show ?thesis by (rule some [OF run take_free [OF inv Cons]]) simp_all
next
  case Nil
  note parts = held_inv_parts [OF inv]
  have li: "lru_inv (replacer s)" using parts(3) by (simp add: inv_lru_def)
  show ?thesis
  proof (cases "victim (replacer s)")
    case (Pair v r)
    have run: "find_victim_page s = (Inr v, s\<lparr>replacer := r\<rparr>)"
      by (simp add: find_victim_page_def prog_simps Nil Pair)
    show ?thesis
    proof (cases v)
      case (Some f)
      show ?thesis
        by (rule some [OF run [unfolded Some] take_victim [OF inv Pair [unfolded Some]]]) simp_all
    next
      case None
      have r: "r = replacer s" "lru_frames (replacer s) = []"
        by (rule lru.victim_NoneD [OF li Pair [unfolded None]])+
      have "0 < pin_count (pages s ! f)" if "f < pool_size s" for f
        using parts(1,3) that Nil r(2) by (force simp: inv_lru_def inv_frames_def order_le_less)
      with run None r Nil show ?thesis by (intro none) simp_all
    qed
  qed
qed

section \<open>Installing a page in a taken frame\<close>

definition evicted :: "frame_id \<Rightarrow> BufferPoolManager \<Rightarrow> PageId \<rightharpoonup> frame_id" where
  "evicted f s =
     (if pid_no (pg_id (pages s ! f)) \<noteq> INVALID_PAGE_ID
      then (page_table s)(pg_id (pages s ! f) := None) else page_table s)"

definition installed ::
  "frame_id \<Rightarrow> PageId \<Rightarrow> byte list \<Rightarrow> DiskManager \<Rightarrow> LRUReplacer \<Rightarrow> BufferPoolManager \<Rightarrow> BufferPoolManager" where
  "installed f pid x d r s =
     s\<lparr>pages := (pages s)[f := \<lparr>pg_id = pid, pg_data = x, is_dirty = False, pin_count = 1\<rparr>],
       page_table := (evicted f s)(pid \<mapsto> f), bpm_disk := d, replacer := r\<rparr>"

text \<open>The disk after the write-back of frame \<open>f\<close>: the frame's page is stored, the rest is as it was.\<close>

definition written_back :: "frame_id \<Rightarrow> BufferPoolManager \<Rightarrow> DiskManager \<Rightarrow> bool" where
  "written_back f s d \<longleftrightarrow>
     dm_wf d \<and> fd_inode d = fd_inode (bpm_disk s) \<and> fd2path d = fd2path (bpm_disk s) \<and>
     (\<forall>pid x. page_table s pid \<noteq> Some f \<longrightarrow> page_on_disk s pid = Some x \<longrightarrow>
        disk_page d (pid_fd pid) (pid_no pid) = Some x) \<and>
     (\<forall>pid. page_table s pid = Some f \<longrightarrow>
        disk_page d (pid_fd pid) (pid_no pid) = Some (pg_data (pages s ! f)))"

lemma valid_pno_not_invalid: "valid_pno p \<Longrightarrow> p \<noteq> INVALID_PAGE_ID"
  by (auto simp: valid_pno_def INVALID_PAGE_ID_def)

lemma table_id:
  "inv_table H s \<Longrightarrow> page_table s pid = Some f \<Longrightarrow>
   f < pool_size s \<and> pg_id (pages s ! f) = pid \<and> valid_pno (pid_no pid)"
  by (auto simp: inv_table_def)

lemma table_inj:
  "inv_table H s \<Longrightarrow> page_table s pid = Some f \<Longrightarrow> page_table s pid' = Some f \<Longrightarrow> pid = pid'"
  using table_id by metis

lemma evicted_iff:
  assumes inv: "held_inv {f} s" and f: "f < pool_size s"
  shows "evicted f s pid = Some g \<longleftrightarrow> page_table s pid = Some g \<and> g \<noteq> f"
proof -
  have t: "inv_table {f} s" and fr: "f \<notin> set (free_list s)"
    using inv by (auto simp: held_inv_def inv_frames_def)
  show ?thesis
  proof (cases "pid_no (pg_id (pages s ! f)) = INVALID_PAGE_ID")
    case True
    then have "page_table s pid \<noteq> Some f"
      using table_id [OF t, of pid f] valid_pno_not_invalid by auto
    with True show ?thesis by (auto simp: evicted_def)
  next
    case False
    then have "page_table s (pg_id (pages s ! f)) = Some f"
      using t f fr by (auto simp: inv_table_def)
    with False show ?thesis using table_inj [OF t] by (auto simp: evicted_def)
  qed
qed

lemma installed_inv:
  assumes inv: "held_inv {f} s" and f: "f < pool_size s" and wb: "written_back f s d"
    and new: "page_table s pid = None" "valid_pno (pid_no pid)" "fd_inode d (pid_fd pid) \<noteq> None"
    and x: "length x = PAGE_SIZE" and r: "lru_inv r" "set (lru_frames r) = set (lru_frames (replacer s))"
  shows "bpm_inv (installed f pid x d r s)"
proof -
  note parts = held_inv_parts [OF inv]
  note ev = evicted_iff [OF inv f]
  have len: "length (pages s) = pool_size s" and fr: "f \<notin> set (free_list s)"
    using parts(1) by (auto simp: inv_frames_def)
  let ?t = "installed f pid x d r s"
  have "inv_frames {} ?t"
    using parts(1) x fr by (auto simp: inv_frames_def installed_def nth_list_update)
  moreover have "inv_table {} ?t"
    unfolding inv_table_def
  proof (intro conjI allI impI)
    fix p g assume g: "page_table ?t p = Some g"
    have "if p = pid then g = f else page_table s p = Some g \<and> g \<noteq> f"
      using g ev [of p g] by (auto simp: installed_def split: if_splits)
    then show "g < pool_size ?t" "pg_id (pages ?t ! g) = p" "valid_pno (pid_no p)"
      using table_id [OF parts(2), of p g] new f len
      by (auto simp: installed_def nth_list_update split: if_splits)
  next
    fix g assume g: "g < pool_size ?t" "g \<notin> set (free_list ?t)"
    show "page_table ?t (pg_id (pages ?t ! g)) = Some g"
    proof (cases "g = f")
      case True
      with f len show ?thesis by (simp add: installed_def)
    next
      case False
      with g have "page_table s (pg_id (pages s ! g)) = Some g"
        using parts(2) by (simp add: inv_table_def installed_def)
      moreover from this new have "pg_id (pages s ! g) \<noteq> pid" by auto
      ultimately show ?thesis using False ev by (simp add: installed_def)
    qed
  qed
  moreover have "inv_lru {} ?t"
    using parts(3) r f len by (auto simp: inv_lru_def installed_def nth_list_update)
  moreover have "inv_disk ?t"
    using parts(4) wb new ev f len
    by (auto simp: inv_disk_def installed_def written_back_def page_on_disk_def nth_list_update)
  ultimately show ?thesis by (simp add: held_inv_def)
qed

lemma installed_keeps:
  assumes inv: "held_inv {f} s" and f: "f < pool_size s" and wb: "written_back f s d"
    and new: "page_table s pid = None"
  shows "keeps {pid} s (installed f pid x d r s)"
proof -
  note parts = held_inv_parts [OF inv]
  note ev = evicted_iff [OF inv f]
  have len: "length (pages s) = pool_size s" and pf: "pin_count (pages s ! f) = 0"
    using parts(1) by (auto simp: inv_frames_def)
  let ?t = "installed f pid x d r s"
  have tab: "page_table ?t p = (case page_table s p of Some g \<Rightarrow> if g = f then None else Some g | None \<Rightarrow> None)"
    if "p \<noteq> pid" for p
  proof (rule option_eqI)
    fix g show "page_table ?t p = Some g \<longleftrightarrow>
        (case page_table s p of Some g \<Rightarrow> if g = f then None else Some g | None \<Rightarrow> None) = Some g"
      using that ev [of p g] by (auto simp: installed_def split: option.split)
  qed
  have pgs: "pages ?t ! g = pages s ! g" if "g \<noteq> f" for g
    using that by (simp add: installed_def)
  have disk: "page_on_disk ?t p = disk_page d (pid_fd p) (pid_no p)" for p
    by (simp add: page_on_disk_def installed_def)
  have "view ?t p = Some y" if "p \<noteq> pid" "view s p = Some y" for p y
  proof (cases "page_table s p")
    case None
    with that wb tab [OF that(1)] show ?thesis by (simp add: view_def disk written_back_def)
  next
    case (Some g)
    show ?thesis
    proof (cases "g = f")
      case True
      with Some that wb tab [OF that(1)] show ?thesis by (simp add: view_def disk written_back_def)
    next
      case False
      with Some that tab [OF that(1)] show ?thesis by (simp add: view_def pgs)
    qed
  qed
  moreover have "pins ?t p = pins s p" if "p \<noteq> pid" for p
    using that tab [OF that] pgs pf by (auto simp: pins_def split: option.splits)
  moreover have "page_table ?t p = Some g"
    if "p \<noteq> pid" "page_table s p = Some g" "0 < pin_count (pages s ! g)" for p g
    using that tab [OF that(1)] pf by auto
  moreover have "settled ?t p" if "p \<noteq> pid" "settled s p" for p
  proof -
    from that(2) obtain g where g: "page_table s p = Some g" "0 < pin_count (pages s ! g)"
        "is_dirty (pages s ! g) \<or> page_on_disk s p = Some (pg_data (pages s ! g))"
      by (auto simp: settled_def)
    then have "g \<noteq> f" using pf by auto
    then show ?thesis
      using g tab [OF that(1)] wb by (auto simp: settled_def pgs disk written_back_def)
  qed
  moreover have "evicted f s p = None" if "page_table s p = None" for p
    using that by (simp add: evicted_def)
  ultimately show ?thesis
    using wb by (auto simp: keeps_def installed_def written_back_def)
qed

lemma written_back_same:
  "written_back f s d \<Longrightarrow> dm_wf d' \<Longrightarrow> same_tables d d' \<Longrightarrow> disk_page d' = disk_page d \<Longrightarrow> written_back f s d'"
  by (simp add: written_back_def same_tables_def)

lemma page_eq: "p\<lparr>pg_data := x, pg_id := i, is_dirty := b, pin_count := n\<rparr> =
  \<lparr>pg_id = i, pg_data = x, is_dirty = b, pin_count = n\<rparr>"
  by (cases p) simp

lemma update_page_run:
  assumes inv: "held_inv {f} s" and f: "f < pool_size s"
  obtains d where "update_page f pid s =
      (Inr (), s\<lparr>pages := (pages s)[f := \<lparr>pg_id = pid, pg_data = zero_page, is_dirty = False, pin_count = 0\<rparr>],
                 page_table := (evicted f s)(pid \<mapsto> f), bpm_disk := d\<rparr>)"
    "written_back f s d" "fd2pageno d = fd2pageno (bpm_disk s)"
proof -
  note parts = held_inv_parts [OF inv]
  let ?p = "pages s ! f"
  let ?id = "pg_id ?p"
  have wf: "dm_wf (bpm_disk s)" using parts(4) by (simp add: inv_disk_def)
  have pf: "pin_count ?p = 0" "length (pg_data ?p) = PAGE_SIZE" "f \<notin> set (free_list s)"
    using parts(1) f by (auto simp: inv_frames_def)
  have res: "page_table s p = Some f \<longleftrightarrow> p = ?id \<and> pid_no ?id \<noteq> INVALID_PAGE_ID" for p
  proof
    assume "page_table s p = Some f"
    then show "p = ?id \<and> pid_no ?id \<noteq> INVALID_PAGE_ID"
      using table_id [OF parts(2), of p f] valid_pno_not_invalid by auto
  next
    assume "p = ?id \<and> pid_no ?id \<noteq> INVALID_PAGE_ID"
    then show "page_table s p = Some f"
      using parts(2) f pf(3) by (auto simp: inv_table_def)
  qed
  show ?thesis
  proof (cases "pid_no ?id \<noteq> INVALID_PAGE_ID \<and> is_dirty ?p")
    case True
    have tab: "page_table s ?id = Some f" using res True by blast
    then have v: "valid_pno (pid_no ?id)" and op: "fd_inode (bpm_disk s) (pid_fd ?id) \<noteq> None"
      using table_id [OF parts(2) tab] parts(4) by (auto simp: inv_disk_def)
    obtain d where d: "write_page (pid_fd ?id) (pid_no ?id) (pg_data ?p) (bpm_disk s) = (Inr (), d)"
        "dm_wf d" "same_tables (bpm_disk s) d"
        "disk_page d (pid_fd ?id) (pid_no ?id) = Some (pg_data ?p)"
        "\<And>g q x. (g, q) \<noteq> (pid_fd ?id, pid_no ?id) \<Longrightarrow> disk_page (bpm_disk s) g q = Some x \<Longrightarrow>
           disk_page d g q = Some x"
      using dsk.wr_open [OF wf op v pf(2)] by blast
    have "disk_page d (pid_fd p) (pid_no p) = Some x"
      if "page_table s p \<noteq> Some f" "page_on_disk s p = Some x" for p x
    proof (rule d(5))
      have "p \<noteq> ?id" using that(1) tab by auto
      then show "(pid_fd p, pid_no p) \<noteq> (pid_fd ?id, pid_no ?id)" by (simp add: PageId_eq_iff)
    qed (use that in \<open>simp add: page_on_disk_def\<close>)
    then have "written_back f s d"
      using d(2-4) res by (auto simp: written_back_def same_tables_def)
    moreover have "fd2pageno d = fd2pageno (bpm_disk s)" using d(3) by (simp add: same_tables_def)
    ultimately show ?thesis
      using that [of d] True d(1) by (simp add: update_page_def prog_simps page_eq evicted_def)
  next
    case False
    have "page_on_disk s p = Some (pg_data ?p)" if "page_table s p = Some f" for p
      using that parts(4) pf False res [of p] by (auto simp: inv_disk_def)
    then have "written_back f s (bpm_disk s)"
      using wf by (auto simp: written_back_def page_on_disk_def)
    then show ?thesis
      using that [of "bpm_disk s"] False
      by (auto simp: update_page_def prog_simps page_eq evicted_def)
  qed
qed

section \<open>Changing a resident page\<close>

lemma resident_update:
  assumes inv: "bpm_inv s" and tab: "page_table s pid = Some f"
    and p': "pg_id p' = pid" "length (pg_data p') = PAGE_SIZE" "0 \<le> pin_count p'"
    and r: "lru_inv r"
      "\<And>g. g \<in> set (lru_frames r) \<longleftrightarrow> (if g = f then pin_count p' = 0 else g \<in> set (lru_frames (replacer s)))"
    and d: "dm_wf d" "fd_inode d = fd_inode (bpm_disk s)" "fd2path d = fd2path (bpm_disk s)"
      "\<And>p x. p \<noteq> pid \<Longrightarrow> page_on_disk s p = Some x \<Longrightarrow> disk_page d (pid_fd p) (pid_no p) = Some x"
    and coh: "pin_count p' = 0 \<Longrightarrow> \<not> is_dirty p' \<Longrightarrow>
      disk_page d (pid_fd pid) (pid_no pid) = Some (pg_data p')"
  shows "bpm_inv (s\<lparr>pages := (pages s)[f := p'], replacer := r, bpm_disk := d\<rparr>)" (is "bpm_inv ?t")
    and "keeps {pid} s (s\<lparr>pages := (pages s)[f := p'], replacer := r, bpm_disk := d\<rparr>)"
    and "view (s\<lparr>pages := (pages s)[f := p'], replacer := r, bpm_disk := d\<rparr>) pid = Some (pg_data p')"
    and "pins (s\<lparr>pages := (pages s)[f := p'], replacer := r, bpm_disk := d\<rparr>) pid = pin_count p'"
proof -
  note parts = held_inv_parts [OF inv]
  have len: "length (pages s) = pool_size s" using parts(1) by (simp add: inv_frames_def)
  have f: "f < pool_size s" "pg_id (pages s ! f) = pid" "valid_pno (pid_no pid)"
    using table_id [OF parts(2) tab] by auto
  have fr: "f \<notin> set (free_list s)"
    using parts(1) f valid_pno_not_invalid by (auto simp: inv_frames_def)
  have other: "pages ?t ! g = (if g = f then p' else pages s ! g)" if "g < pool_size s" for g
    using that len f by (simp add: nth_list_update)
  have tabs: "p \<noteq> pid \<Longrightarrow> page_table s p = Some g \<Longrightarrow> g \<noteq> f" for p g
    using table_inj [OF parts(2) tab] by blast
  have "inv_frames {} ?t"
    using parts(1) p' fr f(1) by (auto simp: inv_frames_def nth_list_update)
  moreover have "inv_table {} ?t"
    unfolding inv_table_def
  proof (intro conjI allI impI)
    fix p g assume "page_table ?t p = Some g"
    then have g: "page_table s p = Some g" by simp
    then show "g < pool_size ?t" "valid_pno (pid_no p)"
      using table_id [OF parts(2) g] by auto
    show "pg_id (pages ?t ! g) = p"
      using table_id [OF parts(2) g] table_inj [OF parts(2) tab, of p] g p'(1) other by auto
  next
    fix g assume "g < pool_size ?t" "g \<notin> set (free_list ?t)"
    then show "page_table ?t (pg_id (pages ?t ! g)) = Some g"
      using parts(2) other tab p'(1) by (simp add: inv_table_def)
  qed
  moreover have "inv_lru {} ?t"
    using parts(3) r f fr len by (auto simp: inv_lru_def nth_list_update)
  moreover have "inv_disk ?t"
    unfolding inv_disk_def
  proof (intro conjI allI impI)
    show "dm_wf (bpm_disk ?t)" using d(1) by simp
    fix p g assume g: "page_table ?t p = Some g"
    then show "fd_inode (bpm_disk ?t) (pid_fd p) \<noteq> None"
      using parts(4) d(2) by (auto simp: inv_disk_def)
    assume cl: "pin_count (pages ?t ! g) = 0" "\<not> is_dirty (pages ?t ! g)"
    show "page_on_disk ?t p = Some (pg_data (pages ?t ! g))"
    proof (cases "p = pid")
      case True
      with g tab f len cl coh show ?thesis by (simp add: page_on_disk_def)
    next
      case False
      with g tabs have "g \<noteq> f" by simp
      with False g cl parts(4) d(4) show ?thesis by (simp add: page_on_disk_def inv_disk_def)
    qed
  qed
  ultimately show "bpm_inv ?t" by (simp add: held_inv_def)
  show "view ?t pid = Some (pg_data p')" "pins ?t pid = pin_count p'"
    using tab f len by (simp_all add: view_def pins_def)
  have same: "pages ?t ! g = pages s ! g" if "p \<noteq> pid" "page_table s p = Some g" for p g
    using tabs [OF that] by simp
  have "view ?t p = Some x" if "p \<noteq> pid" "view s p = Some x" for p x
  proof (cases "page_table s p")
    case None
    with that d(4) show ?thesis by (simp add: view_def page_on_disk_def)
  next
    case (Some g)
    with that same [OF that(1) Some] show ?thesis by (simp add: view_def)
  qed
  moreover have "pins ?t p = pins s p" if "p \<noteq> pid" for p
    using that same [OF that] by (cases "page_table s p") (simp_all add: pins_def)
  moreover have "settled ?t p" if "p \<noteq> pid" "settled s p" for p
    using that d(4) [OF that(1)] same [OF that(1)] by (auto simp: settled_def page_on_disk_def)
  ultimately show "keeps {pid} s ?t" using d(2,3) by (auto simp: keeps_def)
qed

section \<open>Contracts of the operations\<close>

lemma keeps_refl [simp]: "keeps P s s"
  by (simp add: keeps_def)

lemma keeps_found:
  assumes "find_victim_page s = (Inr (Some f), t)"
    and "pages t = pages s" "page_table t = page_table s" "bpm_disk t = bpm_disk s" "pool_size t = pool_size s"
  shows "keeps P s u \<longleftrightarrow> keeps P t u"
proof -
  have "view t p = view s p" and "pins t p = pins s p" and "settled t p = settled s p" for p
    using assms(2-) by (simp_all add: view_def pins_def settled_def page_on_disk_def split: option.split)
  then show ?thesis using assms(2-) by (simp add: keeps_def)
qed

lemma fetch_hit:
  assumes inv: "bpm_inv s" and tab: "page_table s pid = Some f"
  obtains t where "fetch_page pid s = (Inr (Some f), t)" "bpm_inv t" "page_table t pid = Some f"
    "view t pid = view s pid" "pins t pid = pins s pid + 1" "keeps {pid} s t"
    "fd2pageno (bpm_disk t) = fd2pageno (bpm_disk s)" "is_dirty (pages t ! f) = is_dirty (pages s ! f)"
proof -
  note parts = held_inv_parts [OF inv]
  let ?p = "(pages s ! f)\<lparr>pin_count := pin_count (pages s ! f) + 1\<rparr>"
  let ?t = "s\<lparr>pages := (pages s)[f := ?p], replacer := pin f (replacer s), bpm_disk := bpm_disk s\<rparr>"
  have f: "f < pool_size s" "pg_id (pages s ! f) = pid" using table_id [OF parts(2) tab] by auto
  have li: "lru_inv (replacer s)" and wf: "dm_wf (bpm_disk s)"
    using parts by (auto simp: inv_lru_def inv_disk_def)
  have pos: "0 \<le> pin_count (pages s ! f)" "length (pg_data (pages s ! f)) = PAGE_SIZE"
      "length (pages s) = pool_size s"
    using parts(1) f by (auto simp: inv_frames_def)
  have run: "fetch_page pid s = (Inr (Some f), ?t)"
    by (simp add: fetch_page_def prog_simps tab)
  have lru: "g \<in> set (lru_frames (pin f (replacer s))) \<longleftrightarrow>
      (if g = f then pin_count ?p = 0 else g \<in> set (lru_frames (replacer s)))" for g
    using lru.set_pin [OF li, of f] pos by auto
  note upd = resident_update [OF inv tab, of ?p "pin f (replacer s)" "bpm_disk s",
      OF _ _ _ lru.pin_inv [OF li] lru wf refl refl]
  have "bpm_inv ?t" "keeps {pid} s ?t" "view ?t pid = Some (pg_data ?p)" "pins ?t pid = pin_count ?p"
    by (rule upd; use f pos in \<open>auto simp: page_on_disk_def\<close>)+
  then show ?thesis
    using that [OF run] tab f pos by (simp add: view_def pins_def)
qed

lemma fetch_miss:
  assumes inv: "bpm_inv s" and tab: "page_table s pid = None" and v: "valid_pno (pid_no pid)"
    and x: "page_on_disk s pid = Some x" and fv: "find_victim_page s = (Inr (Some f), u)"
    and u: "held_inv {f} u" "f < pool_size s" "pages u = pages s" "page_table u = page_table s"
      "bpm_disk u = bpm_disk s" "pool_size u = pool_size s"
  obtains t where "fetch_page pid s = (Inr (Some f), t)" "bpm_inv t" "page_table t pid = Some f"
    "view t pid = Some x" "pins t pid = 1" "keeps {pid} s t"
    "fd2pageno (bpm_disk t) = fd2pageno (bpm_disk s)" "\<not> is_dirty (pages t ! f)"
    "page_on_disk t pid = Some x"
proof -
  have fu: "f < pool_size u" using u by simp
  obtain d where up: "update_page f pid u =
      (Inr (), u\<lparr>pages := (pages u)[f := \<lparr>pg_id = pid, pg_data = zero_page, is_dirty = False, pin_count = 0\<rparr>],
                 page_table := (evicted f u)(pid \<mapsto> f), bpm_disk := d\<rparr>)"
    and wb: "written_back f u d" and pn: "fd2pageno d = fd2pageno (bpm_disk u)"
    by (rule update_page_run [OF u(1) fu])
  have len: "length (pages u) = pool_size u" using u(1) by (simp add: held_inv_def inv_frames_def)
  have dx: "disk_page d (pid_fd pid) (pid_no pid) = Some x"
    using wb x tab u by (simp add: written_back_def page_on_disk_def)
  have dwf: "dm_wf d" using wb by (simp add: written_back_def)
  obtain rr bs d' where rd: "read_page_io (pid_fd pid) (pid_no pid) PAGE_SIZE d = (Inr (rr, bs), d')"
      "dm_wf d'" "same_tables d d'" "disk_page d' = disk_page d"
      "\<forall>x. disk_page d (pid_fd pid) (pid_no pid) = Some x \<longrightarrow> rr = int PAGE_SIZE \<and> bs = x"
    by (rule read_page_io_page [OF dwf v])
  have bs: "rr = int PAGE_SIZE" "bs = x" using rd(5) dx by auto
  have xl: "length x = PAGE_SIZE" by (rule disk_page_length [OF dx])
  have wb': "written_back f u d'" by (rule written_back_same [OF wb rd(2-4)])
  have li: "lru_inv (replacer u)" using u(1) by (simp add: held_inv_def inv_lru_def)
  have nf: "f \<notin> set (lru_frames (replacer u))" using u(1) by (simp add: held_inv_def inv_lru_def)
  let ?t = "installed f pid x d' (pin f (replacer u)) u"
  have full: "write_at zero_page 0 x = x" using xl by (simp add: write_at_def zero_page_def)
  have run: "fetch_page pid s = (Inr (Some f), ?t)"
    using fv up rd(1) bs len fu full tab
    by (simp add: fetch_page_def prog_simps read_page_check_def installed_def)
  have op: "fd_inode d' (pid_fd pid) \<noteq> None"
    using disk_page_open [OF dx] rd(3) by (simp add: same_tables_def)
  have inv': "bpm_inv ?t"
    by (rule installed_inv [OF u(1) fu wb' _ v op xl lru.pin_inv [OF li]])
      (use tab u nf lru.set_pin [OF li, of f] in auto)
  have k: "keeps {pid} s ?t"
    using installed_keeps [OF u(1) fu wb', of pid x "pin f (replacer u)"] tab u(4)
    by (simp add: keeps_found [OF fv u(3-6)])
  show ?thesis
    by (rule that [OF run inv' _ _ _ k])
      (use fu len pn rd(3,4) u(5) dx in
        \<open>simp_all add: installed_def view_def pins_def same_tables_def page_on_disk_def\<close>)
qed

lemma fetch_ok:
  assumes inv: "bpm_inv s" and v: "valid_pno (pid_no pid)" and x: "view s pid = Some x"
  obtains (found) f t where "fetch_page pid s = (Inr (Some f), t)" "bpm_inv t" "page_table t pid = Some f"
      "view t pid = Some x" "pins t pid = pins s pid + 1" "keeps {pid} s t"
      "fd2pageno (bpm_disk t) = fd2pageno (bpm_disk s)"
      "is_dirty (pages t ! f) \<or> pins s pid \<noteq> 0 \<or> page_on_disk t pid = Some x"
  | (full) "fetch_page pid s = (Inr None, s)" "page_table s pid = None"
      "\<forall>f < pool_size s. 0 < pin_count (pages s ! f)"
proof (cases "page_table s pid")
  case (Some f)
  obtain t where t: "fetch_page pid s = (Inr (Some f), t)" "bpm_inv t" "page_table t pid = Some f"
      "view t pid = view s pid" "pins t pid = pins s pid + 1" "keeps {pid} s t"
      "fd2pageno (bpm_disk t) = fd2pageno (bpm_disk s)" "is_dirty (pages t ! f) = is_dirty (pages s ! f)"
    by (rule fetch_hit [OF inv Some])
  have "is_dirty (pages t ! f) \<or> pins s pid \<noteq> 0 \<or> page_on_disk s pid = Some x"
    using held_inv_parts(4) [OF inv] Some x t(8) by (auto simp: inv_disk_def view_def pins_def)
  moreover have "page_on_disk t pid = page_on_disk s pid"
    using t(1) Some by (simp add: fetch_page_def prog_simps page_on_disk_def) auto
  ultimately show ?thesis using found [OF t(1-3) _ t(5-7)] t(4) x by simp
next
  case None
  with x have d: "page_on_disk s pid = Some x" by (simp add: view_def)
  from inv show ?thesis
  proof (cases rule: find_victim_cases)
    case none
    with None show ?thesis by (intro full) (simp_all add: fetch_page_def prog_simps)
  next
    case (some f u)
    obtain t where t: "fetch_page pid s = (Inr (Some f), t)" "bpm_inv t" "page_table t pid = Some f"
        "view t pid = Some x" "pins t pid = 1" "keeps {pid} s t"
        "fd2pageno (bpm_disk t) = fd2pageno (bpm_disk s)" "\<not> is_dirty (pages t ! f)"
        "page_on_disk t pid = Some x"
      by (rule fetch_miss [OF inv None v d some])
    show ?thesis by (rule found [OF t(1-4) _ t(6,7)]) (use t None in \<open>simp_all add: pins_def\<close>)
  qed
qed

text \<open>A client writes through the pointer of a page it has pinned.\<close>

definition set_data :: "frame_id \<Rightarrow> byte list \<Rightarrow> (BufferPoolManager, unit) prog" where
  "set_data f x = upd_page f (\<lambda>p. p\<lparr>pg_data := x\<rparr>)"

lemma set_data_ok:
  assumes inv: "bpm_inv s" and tab: "page_table s pid = Some f" and pinned: "0 < pins s pid"
    and x: "length x = PAGE_SIZE"
  obtains t where "set_data f x s = (Inr (), t)" "bpm_inv t" "page_table t = page_table s"
    "view t pid = Some x" "pins t pid = pins s pid" "keeps {pid} s t"
    "bpm_disk t = bpm_disk s"
proof -
  note parts = held_inv_parts [OF inv]
  let ?p = "(pages s ! f)\<lparr>pg_data := x\<rparr>"
  let ?t = "s\<lparr>pages := (pages s)[f := ?p], replacer := replacer s, bpm_disk := bpm_disk s\<rparr>"
  have f: "f < pool_size s" "pg_id (pages s ! f) = pid" using table_id [OF parts(2) tab] by auto
  have li: "lru_inv (replacer s)" and wf: "dm_wf (bpm_disk s)"
    using parts by (auto simp: inv_lru_def inv_disk_def)
  have pos: "0 < pin_count (pages s ! f)" "length (pages s) = pool_size s"
    using parts(1) f pinned tab by (auto simp: inv_frames_def pins_def)
  have lru: "g \<in> set (lru_frames (replacer s)) \<longleftrightarrow>
      (if g = f then pin_count ?p = 0 else g \<in> set (lru_frames (replacer s)))" for g
    using parts(3) pos by (auto simp: inv_lru_def)
  note upd = resident_update [OF inv tab, of ?p "replacer s" "bpm_disk s", OF _ _ _ li lru wf refl refl]
  have "bpm_inv ?t" "keeps {pid} s ?t" "view ?t pid = Some (pg_data ?p)" "pins ?t pid = pin_count ?p"
    by (rule upd; use f pos x in \<open>auto simp: page_on_disk_def\<close>)+
  moreover have "set_data f x s = (Inr (), ?t)"
    by (simp add: set_data_def prog_simps)
  ultimately show ?thesis using that [of ?t] tab by (simp add: pins_def)
qed

lemma unpin_ok:
  assumes inv: "bpm_inv s" and tab: "page_table s pid = Some f" and pinned: "0 < pins s pid"
    and clean: "dirty \<or> is_dirty (pages s ! f) \<or> 1 < pins s pid \<or> page_on_disk s pid = view s pid"
  obtains t where "unpin_page pid dirty s = (Inr True, t)" "bpm_inv t" "page_table t = page_table s"
    "view t pid = view s pid" "pins t pid = pins s pid - 1" "keeps {pid} s t" "bpm_disk t = bpm_disk s"
proof -
  note parts = held_inv_parts [OF inv]
  let ?old = "pages s ! f"
  let ?p = "?old\<lparr>pin_count := pin_count ?old - 1, is_dirty := dirty \<or> is_dirty ?old\<rparr>"
  let ?r = "if pin_count ?old = 1 then unpin f (replacer s) else replacer s"
  let ?t = "s\<lparr>pages := (pages s)[f := ?p], replacer := ?r, bpm_disk := bpm_disk s\<rparr>"
  have f: "f < pool_size s" "pg_id ?old = pid" using table_id [OF parts(2) tab] by auto
  have li: "lru_inv (replacer s)" and wf: "dm_wf (bpm_disk s)"
    using parts by (auto simp: inv_lru_def inv_disk_def)
  have pos: "0 < pin_count ?old" "length (pg_data ?old) = PAGE_SIZE" "length (pages s) = pool_size s"
    using parts(1) f pinned tab by (auto simp: inv_frames_def pins_def)
  have rinv: "lru_inv ?r" using li by (simp add: lru.unpin_inv)
  have nf: "f \<notin> set (lru_frames (replacer s))" using parts(3) pos by (simp add: inv_lru_def)
  have lru: "g \<in> set (lru_frames ?r) \<longleftrightarrow>
      (if g = f then pin_count ?p = 0 else g \<in> set (lru_frames (replacer s)))" for g
    using lru.set_unpin [OF li, of f] nf pos by auto
  have coh: "disk_page (bpm_disk s) (pid_fd pid) (pid_no pid) = Some (pg_data ?p)"
    if "pin_count ?p = 0" "\<not> is_dirty ?p"
    using that clean tab by (auto simp: page_on_disk_def view_def pins_def)
  note upd = resident_update [OF inv tab, of ?p ?r "bpm_disk s", OF _ _ _ rinv lru wf refl refl]
  have "bpm_inv ?t" "keeps {pid} s ?t" "view ?t pid = Some (pg_data ?p)" "pins ?t pid = pin_count ?p"
    by (rule upd; use f pos coh in \<open>simp add: page_on_disk_def\<close>)+
  moreover have "unpin_page pid dirty s = (Inr True, ?t)"
    using tab pos f
    by (cases ?old) (simp add: unpin_page_def prog_simps)
  ultimately show ?thesis using that [of ?t] tab f pos by (simp add: view_def pins_def)
qed

lemma same_os:
  assumes "dm_os d = dm_os d'"
  shows "fd_inode d = fd_inode d'" "disk_page d = disk_page d'" "dm_wf d = dm_wf d'"
proof -
  show i: "fd_inode d = fd_inode d'" using assms by (simp add: fd_inode_def fun_eq_iff)
  have "fd_data d fd = fd_data d' fd" for fd
    using assms by (simp add: fd_data_def i split: option.split)
  then show "disk_page d = disk_page d'" by (simp add: disk_page_def Let_def fun_eq_iff)
  show "dm_wf d = dm_wf d'" by (simp add: dm_wf_def i)
qed

lemma same_os_inv:
  assumes "held_inv H s" and "dm_os d = dm_os (bpm_disk s)" shows "held_inv H (s\<lparr>bpm_disk := d\<rparr>)"
  using assms same_os [OF assms(2)]
  by (simp add: held_inv_def inv_frames_def inv_table_def inv_lru_def inv_disk_def page_on_disk_def)

lemma new_page_ok:
  assumes inv: "bpm_inv s" and op: "fd_inode (bpm_disk s) fd \<noteq> None" and fd: "0 \<le> fd" "fd < MAX_FD"
    and pid: "pid = \<lparr>pid_fd = fd, pid_no = fd2pageno (bpm_disk s) fd\<rparr>"
    and v: "valid_pno (pid_no pid)" and new: "page_table s pid = None"
  obtains (made) f t where "new_page fd s = (Inr (Some (pid, f)), t)" "bpm_inv t" "page_table t pid = Some f"
      "view t pid = Some zero_page" "pins t pid = 1" "keeps {pid} s t"
      "fd2pageno (bpm_disk t) = (fd2pageno (bpm_disk s))(fd := pid_no pid + 1)"
  | (full) "new_page fd s = (Inr None, s)" "\<forall>f < pool_size s. 0 < pin_count (pages s ! f)"
  using inv
proof (cases rule: find_victim_cases)
  case none
  then show ?thesis by (intro full) (simp_all add: new_page_def prog_simps)
next
  case (some f u)
  let ?d0 = "(bpm_disk u)\<lparr>fd2pageno := (fd2pageno (bpm_disk u))(fd := pid_no pid + 1)\<rparr>"
  let ?u = "u\<lparr>bpm_disk := ?d0\<rparr>"
  have held: "held_inv {f} ?u" and fu: "f < pool_size ?u"
    using some(2,3,7) by (auto intro: same_os_inv)
  obtain d where up: "update_page f pid ?u =
      (Inr (), ?u\<lparr>pages := (pages ?u)[f := \<lparr>pg_id = pid, pg_data = zero_page, is_dirty = False, pin_count = 0\<rparr>],
                 page_table := (evicted f ?u)(pid \<mapsto> f), bpm_disk := d\<rparr>)"
    and wb: "written_back f ?u d" and pn: "fd2pageno d = fd2pageno (bpm_disk ?u)"
    by (rule update_page_run [OF held fu])
  have len: "length (pages u) = pool_size u" and li: "lru_inv (replacer u)"
      and nf: "f \<notin> set (lru_frames (replacer u))"
    using some(2) by (simp_all add: held_inv_def inv_frames_def inv_lru_def)
  let ?t = "installed f pid zero_page d (pin f (replacer u)) ?u"
  have alloc: "wrap32 (pid_no pid + 1) = pid_no pid + 1"
    using v by (intro wrap32_id) (simp_all add: valid_pno_def)
  have run: "new_page fd s = (Inr (Some (pid, f)), ?t)"
    using some(1,4-7) up len fu alloc fd pid
    by (simp add: new_page_def prog_simps allocate_page_def installed_def Let_def)
  have o: "fd_inode d (pid_fd pid) \<noteq> None"
    using op pid wb some(6) by (simp add: written_back_def fd_inode_def)
  have inv': "bpm_inv ?t"
    by (rule installed_inv [OF held fu wb _ v o _ lru.pin_inv [OF li]])
      (use new some(5) nf lru.set_pin [OF li, of f] in \<open>auto simp: zero_page_def\<close>)
  have "keeps {pid} ?u ?t"
    by (rule installed_keeps [OF held fu wb]) (use new some(5) in simp)
  moreover have "keeps {pid} ?u ?t \<longleftrightarrow> keeps {pid} u ?t"
  proof -
    have "view ?u p = view u p" "pins ?u p = pins u p" "settled ?u p = settled u p" for p
      by (simp_all add: view_def pins_def settled_def page_on_disk_def same_os [of ?d0 "bpm_disk u"] split: option.split)
    then show ?thesis by (simp add: keeps_def same_os [of ?d0 "bpm_disk u"])
  qed
  ultimately have k: "keeps {pid} s ?t" using keeps_found [OF some(1,4-7)] by blast
  show ?thesis
    by (rule made [OF run inv' _ _ _ k])
      (use fu len pn some(6) in \<open>simp_all add: installed_def view_def pins_def\<close>)
qed

lemma flush_resident:
  assumes inv: "bpm_inv s" and tab: "page_table s pid = Some f"
  obtains d where
    "write_page (pid_fd pid) (pid_no pid) (pg_data (pages s ! f)) (bpm_disk s) = (Inr (), d)"
    "bpm_inv (s\<lparr>pages := (pages s)[f := (pages s ! f)\<lparr>is_dirty := False\<rparr>], bpm_disk := d\<rparr>)"
    "keeps {pid} s (s\<lparr>pages := (pages s)[f := (pages s ! f)\<lparr>is_dirty := False\<rparr>], bpm_disk := d\<rparr>)"
    "same_tables (bpm_disk s) d" "disk_page d (pid_fd pid) (pid_no pid) = Some (pg_data (pages s ! f))"
    "\<forall>p x. p \<noteq> pid \<longrightarrow> page_on_disk s p = Some x \<longrightarrow> disk_page d (pid_fd p) (pid_no p) = Some x"
proof -
  note parts = held_inv_parts [OF inv]
  let ?p = "(pages s ! f)\<lparr>is_dirty := False\<rparr>"
  have f: "f < pool_size s" "pg_id (pages s ! f) = pid" "valid_pno (pid_no pid)"
    using table_id [OF parts(2) tab] by auto
  have li: "lru_inv (replacer s)" and wf: "dm_wf (bpm_disk s)"
      and op: "fd_inode (bpm_disk s) (pid_fd pid) \<noteq> None"
    using parts tab by (auto simp: inv_lru_def inv_disk_def)
  have pos: "0 \<le> pin_count (pages s ! f)" "length (pg_data (pages s ! f)) = PAGE_SIZE"
      "f \<notin> set (free_list s)"
    using parts(1) f valid_pno_not_invalid by (auto simp: inv_frames_def)
  obtain d where d: "write_page (pid_fd pid) (pid_no pid) (pg_data (pages s ! f)) (bpm_disk s) = (Inr (), d)"
      "dm_wf d" "same_tables (bpm_disk s) d"
      "disk_page d (pid_fd pid) (pid_no pid) = Some (pg_data (pages s ! f))"
      "\<And>g q x. (g, q) \<noteq> (pid_fd pid, pid_no pid) \<Longrightarrow> disk_page (bpm_disk s) g q = Some x \<Longrightarrow>
         disk_page d g q = Some x"
    using dsk.wr_open [OF wf op f(3) pos(2)] by blast
  have other: "disk_page d (pid_fd p) (pid_no p) = Some x"
    if "p \<noteq> pid" "page_on_disk s p = Some x" for p x
    using that d(5) [of "pid_fd p" "pid_no p" x] by (auto simp: PageId_eq_iff page_on_disk_def)
  have lru: "g \<in> set (lru_frames (replacer s)) \<longleftrightarrow>
      (if g = f then pin_count ?p = 0 else g \<in> set (lru_frames (replacer s)))" for g
    using parts(3) f pos by (auto simp: inv_lru_def)
  have tabs: "fd_inode d = fd_inode (bpm_disk s)" "fd2path d = fd2path (bpm_disk s)"
    using d(3) by (simp_all add: same_tables_def)
  note upd = resident_update [OF inv tab, of ?p "replacer s" d, OF _ _ _ li lru d(2) tabs other]
  have same: "s\<lparr>pages := (pages s)[f := ?p], replacer := replacer s, bpm_disk := d\<rparr> =
      s\<lparr>pages := (pages s)[f := ?p], bpm_disk := d\<rparr>" by simp
  have "bpm_inv (s\<lparr>pages := (pages s)[f := ?p], bpm_disk := d\<rparr>)"
    "keeps {pid} s (s\<lparr>pages := (pages s)[f := ?p], bpm_disk := d\<rparr>)"
    by (rule upd [unfolded same]; use f pos d(4) in simp)+
  then show ?thesis using that [OF d(1) _ _ d(3,4)] other by blast
qed

lemma keeps_emptyI:
  assumes "keeps {pid} s t" "view t pid = view s pid" "pins t pid = pins s pid"
    "page_table t pid = page_table s pid" "settled s pid \<Longrightarrow> settled t pid"
  shows "keeps {} s t"
  unfolding keeps_def
proof (intro conjI allI impI)
  fix p x assume "view s p = Some x"
  then show "view t p = Some x" using assms by (cases "p = pid") (auto simp: keeps_def)
next
  fix p show "pins t p = pins s p" using assms by (cases "p = pid") (auto simp: keeps_def)
next
  fix p f assume "page_table s p = Some f" "0 < pin_count (pages s ! f)"
  then show "page_table t p = Some f" using assms by (cases "p = pid") (auto simp: keeps_def)
next
  fix p assume "page_table s p = None"
  then show "page_table t p = None" using assms by (cases "p = pid") (auto simp: keeps_def)
next
  fix p assume "settled s p"
  then show "settled t p" using assms by (cases "p = pid") (auto simp: keeps_def)
qed (use assms(1) in \<open>auto simp: keeps_def\<close>)

lemma keeps_trans: "keeps P s t \<Longrightarrow> keeps P t u \<Longrightarrow> keeps P s u"
  unfolding keeps_def
proof (intro conjI allI impI, goal_cases)
  case (3 p f)
  then have "page_table t p = Some f" "pins t p = pins s p" by auto
  moreover from this 3 have "0 < pin_count (pages t ! f)" by (simp add: pins_def)
  ultimately show ?case using 3 by blast
qed auto

lemma keeps_view: "keeps P s t \<Longrightarrow> q \<notin> P \<Longrightarrow> view s q = Some x \<Longrightarrow> view t q = Some x"
  by (simp add: keeps_def)

lemma keeps_pins: "keeps P s t \<Longrightarrow> q \<notin> P \<Longrightarrow> pins t q = pins s q"
  by (simp add: keeps_def)

lemma flush_page_ok:
  assumes inv: "bpm_inv s" and tab: "page_table s pid = Some f"
  obtains t where "flush_page pid s = (Inr True, t)" "bpm_inv t" "keeps {} s t"
    "page_on_disk t pid = view s pid"
proof -
  note parts = held_inv_parts [OF inv]
  have f: "f < length (pages s)"
    using table_id [OF parts(2) tab] parts(1) by (simp add: inv_frames_def)
  obtain d where d: "write_page (pid_fd pid) (pid_no pid) (pg_data (pages s ! f)) (bpm_disk s) = (Inr (), d)"
    "bpm_inv (s\<lparr>pages := (pages s)[f := (pages s ! f)\<lparr>is_dirty := False\<rparr>], bpm_disk := d\<rparr>)"
    "keeps {pid} s (s\<lparr>pages := (pages s)[f := (pages s ! f)\<lparr>is_dirty := False\<rparr>], bpm_disk := d\<rparr>)"
    "same_tables (bpm_disk s) d" "disk_page d (pid_fd pid) (pid_no pid) = Some (pg_data (pages s ! f))"
    by (rule flush_resident [OF inv tab])
  let ?t = "s\<lparr>pages := (pages s)[f := (pages s ! f)\<lparr>is_dirty := False\<rparr>], bpm_disk := d\<rparr>"
  have run: "flush_page pid s = (Inr True, ?t)"
    using tab d(1) by (simp add: flush_page_def prog_simps)
  have "view ?t pid = view s pid" "pins ?t pid = pins s pid"
    using tab f by (simp_all add: view_def pins_def)
  then have k: "keeps {} s ?t"
    by (intro keeps_emptyI [OF d(3)]) (use tab f d(5) in \<open>auto simp: settled_def page_on_disk_def\<close>)
  show ?thesis
    by (rule that [OF run d(2) k]) (use tab d(5) in \<open>simp add: page_on_disk_def view_def\<close>)
qed

lemma flush_frames_ok:
  assumes "bpm_inv s" and "\<forall>f \<in> set fs. f < pool_size s"
  shows "\<exists>t. flush_frames fd fs s = (Inr (), t) \<and> bpm_inv t \<and> keeps {} s t \<and> page_table t = page_table s \<and>
     same_tables (bpm_disk s) (bpm_disk t) \<and> (\<forall>g. pg_data (pages t ! g) = pg_data (pages s ! g)) \<and>
     (\<forall>pid g. page_table s pid = Some g \<longrightarrow> pid_fd pid = fd \<longrightarrow>
        g \<in> set fs \<or> page_on_disk s pid = Some (pg_data (pages s ! g)) \<longrightarrow>
        page_on_disk t pid = Some (pg_data (pages s ! g)))"
  using assms
proof (induction fs arbitrary: s)
  case Nil
  then show ?case by (auto simp: ret_def)
next
  case (Cons f fs)
  note parts = held_inv_parts [OF Cons.prems(1)]
  let ?page = "pages s ! f"
  have f: "f < pool_size s" "length (pages s) = pool_size s"
    using Cons.prems parts(1) by (auto simp: inv_frames_def)
  show ?case
  proof (cases "pid_no (pg_id ?page) \<noteq> INVALID_PAGE_ID \<and> pid_fd (pg_id ?page) = fd")
    case True
    let ?pid = "pg_id ?page"
    have tab: "page_table s ?pid = Some f"
      using parts(1,2) f True by (auto simp: inv_table_def inv_frames_def)
    obtain d where d: "write_page (pid_fd ?pid) (pid_no ?pid) (pg_data ?page) (bpm_disk s) = (Inr (), d)"
      "bpm_inv (s\<lparr>pages := (pages s)[f := ?page\<lparr>is_dirty := False\<rparr>], bpm_disk := d\<rparr>)"
      "keeps {?pid} s (s\<lparr>pages := (pages s)[f := ?page\<lparr>is_dirty := False\<rparr>], bpm_disk := d\<rparr>)"
      "same_tables (bpm_disk s) d" "disk_page d (pid_fd ?pid) (pid_no ?pid) = Some (pg_data ?page)"
      "\<forall>p x. p \<noteq> ?pid \<longrightarrow> page_on_disk s p = Some x \<longrightarrow> disk_page d (pid_fd p) (pid_no p) = Some x"
      by (rule flush_resident [OF Cons.prems(1) tab])
    let ?u = "s\<lparr>pages := (pages s)[f := ?page\<lparr>is_dirty := False\<rparr>], bpm_disk := d\<rparr>"
    have k: "keeps {} s ?u"
      by (rule keeps_emptyI [OF d(3)])
        (use tab f d(5) in \<open>auto simp: view_def pins_def settled_def page_on_disk_def\<close>)
    have data: "pg_data ((pages s)[f := ?page\<lparr>is_dirty := False\<rparr>] ! g) = pg_data (pages s ! g)" for g
      using f by (cases "g = f") simp_all
    have swap: "s\<lparr>bpm_disk := d, pages := ps\<rparr> = s\<lparr>pages := ps, bpm_disk := d\<rparr>" for ps by simp
    have run: "flush_frames fd (f # fs) s = flush_frames fd fs ?u"
      using True d(1) by (simp add: prog_simps) (simp only: swap)
    obtain t where t: "flush_frames fd fs ?u = (Inr (), t)" "bpm_inv t" "keeps {} ?u t"
        "page_table t = page_table s" "same_tables d (bpm_disk t)"
        "\<And>g. pg_data (pages t ! g) = pg_data (pages s ! g)"
        "\<And>pid g. page_table s pid = Some g \<Longrightarrow> pid_fd pid = fd \<Longrightarrow>
           g \<in> set fs \<or> page_on_disk ?u pid = Some (pg_data (pages s ! g)) \<Longrightarrow>
           page_on_disk t pid = Some (pg_data (pages s ! g))"
      using Cons.IH [OF d(2)] Cons.prems(2) by (auto simp: data)
    have "page_on_disk t pid = Some (pg_data (pages s ! g))"
      if "page_table s pid = Some g" "pid_fd pid = fd"
        "g \<in> set (f # fs) \<or> page_on_disk s pid = Some (pg_data (pages s ! g))" for pid g
    proof (cases "pid = ?pid")
      case True
      then show ?thesis using that tab d(5) by (intro t(7)) (auto simp: page_on_disk_def)
    next
      case False
      then have "g \<noteq> f" using that(1) tab table_inj [OF parts(2)] by blast
      then show ?thesis using that d(6) False by (intro t(7)) (auto simp: page_on_disk_def)
    qed
    then show ?thesis
      using run t(1-6) keeps_trans [OF k t(3)] same_tables_trans [OF d(4) t(5)] by auto
  next
    case False
    have run: "flush_frames fd (f # fs) s = flush_frames fd fs s"
      using False by (auto simp: prog_simps)
    have nt: "g \<noteq> f" if "page_table s pid = Some g" "pid_fd pid = fd" for pid g
      using False table_id [OF parts(2) that(1)] that(2) valid_pno_not_invalid by auto
    show ?thesis
      using Cons.IH [OF Cons.prems(1)] Cons.prems(2) nt unfolding run by simp
  qed
qed

lemma flush_all_ok:
  assumes inv: "bpm_inv s"
  obtains t where "flush_all_pages fd s = (Inr (), t)" "bpm_inv t" "keeps {} s t" "page_table t = page_table s"
    "same_tables (bpm_disk s) (bpm_disk t)"
    "\<forall>pid x. pid_fd pid = fd \<longrightarrow> view s pid = Some x \<longrightarrow> page_on_disk t pid = Some x"
proof -
  obtain t where t: "flush_frames fd [0..<pool_size s] s = (Inr (), t)" "bpm_inv t" "keeps {} s t"
      "page_table t = page_table s" "same_tables (bpm_disk s) (bpm_disk t)"
      "\<And>pid g. page_table s pid = Some g \<Longrightarrow> pid_fd pid = fd \<Longrightarrow> g < pool_size s \<Longrightarrow>
         page_on_disk t pid = Some (pg_data (pages s ! g))"
    using flush_frames_ok [OF inv, of "[0..<pool_size s]" fd] by auto
  have "page_on_disk t pid = Some x" if "pid_fd pid = fd" "view s pid = Some x" for pid x
  proof (cases "page_table s pid")
    case None
    then have "view t pid = Some x" using t(3) that by (simp add: keeps_def)
    then show ?thesis using None t(4) by (simp add: view_def)
  next
    case (Some g)
    with that t(6) table_id [OF held_inv_parts(2) [OF inv] Some] show ?thesis by (simp add: view_def)
  qed
  with t(1-5) show ?thesis by (intro that [of t]) (simp_all add: flush_all_pages_def prog_simps)
qed

section \<open>Room for pins\<close>

text \<open>\<open>room k s\<close>: a client may pin \<open>k\<close> more distinct pages.\<close>

definition pinned :: "BufferPoolManager \<Rightarrow> nat" where
  "pinned s = card {pid. 0 < pins s pid}"

definition room :: "nat \<Rightarrow> BufferPoolManager \<Rightarrow> bool" where
  "room k s \<longleftrightarrow> pinned s + k \<le> pool_size s"

lemma finite_pinned:
  assumes "bpm_inv s" shows "finite {pid. 0 < pins s pid}"
proof (rule finite_subset)
  show "{pid. 0 < pins s pid} \<subseteq> (\<lambda>f. pg_id (pages s ! f)) ` {..<pool_size s}"
    using table_id [OF held_inv_parts(2) [OF assms]] by (force simp: pins_def split: option.splits)
qed simp

lemma full_no_room:
  assumes inv: "bpm_inv s" and full: "\<forall>f < pool_size s. 0 < pin_count (pages s ! f)"
  shows "\<not> room 1 s"
proof -
  note parts = held_inv_parts [OF inv]
  have tab: "page_table s (pg_id (pages s ! f)) = Some f" if "f < pool_size s" for f
  proof -
    have "f \<notin> set (free_list s)" using full that parts(1) by (force simp: inv_frames_def)
    then show ?thesis using parts(2) that by (simp add: inv_table_def)
  qed
  have "inj_on (\<lambda>f. pg_id (pages s ! f)) {..<pool_size s}"
    using tab by (metis (no_types, lifting) inj_onI lessThan_iff option.inject)
  then have "pool_size s = card ((\<lambda>f. pg_id (pages s ! f)) ` {..<pool_size s})"
    by (simp add: card_image)
  also have "\<dots> \<le> pinned s"
    unfolding pinned_def
    by (rule card_mono [OF finite_pinned [OF inv]]) (use tab full in \<open>auto simp: pins_def\<close>)
  finally show ?thesis by (simp add: room_def)
qed

lemma pinned_insert:
  assumes "bpm_inv s" and pins: "\<And>q. q \<noteq> pid \<Longrightarrow> pins t q = pins s q"
  shows "pinned t \<le> pinned s + 1"
proof -
  have "{p. 0 < pins t p} \<subseteq> insert pid {p. 0 < pins s p}" using pins by auto
  then have "pinned t \<le> card (insert pid {p. 0 < pins s p})"
    unfolding pinned_def by (rule card_mono [rotated]) (simp add: finite_pinned [OF assms(1)])
  then show ?thesis
    using finite_pinned [OF assms(1)] by (simp add: pinned_def card_insert_if split: if_splits)
qed

lemma room_insert:
  "bpm_inv s \<Longrightarrow> keeps P s t \<Longrightarrow> (\<And>q. q \<noteq> pid \<Longrightarrow> pins t q = pins s q) \<Longrightarrow> room (Suc k) s \<Longrightarrow> room k t"
  using pinned_insert [of s pid t] by (simp add: room_def keeps_def)

lemma room_same: "pins t = pins s \<Longrightarrow> pool_size t = pool_size s \<Longrightarrow> room k t = room k s"
  by (simp add: room_def pinned_def)

lemma room_mono: "room k s \<Longrightarrow> l \<le> k \<Longrightarrow> room l s"
  by (simp add: room_def)

section \<open>The interface of the page cache\<close>

text \<open>
  What the record files and the indexes rely on: a pinned page's frame is stable, fetching and
  unpinning show the contents of the page whatever was evicted in between, and pages other than
  the one worked on keep their contents and pins.
\<close>

locale page_cache =
  fixes inv :: "'s \<Rightarrow> bool"
    and content :: "'s \<Rightarrow> PageId \<Rightarrow> byte list option"
    and npins :: "'s \<Rightarrow> PageId \<Rightarrow> int"
    and avail :: "nat \<Rightarrow> 's \<Rightarrow> bool"
    and others :: "PageId set \<Rightarrow> 's \<Rightarrow> 's \<Rightarrow> bool"
    and holds :: "'s \<Rightarrow> PageId \<Rightarrow> frame_id \<Rightarrow> bool"
    and clean :: "'s \<Rightarrow> PageId \<Rightarrow> bool"
    and bytes :: "'s \<Rightarrow> frame_id \<Rightarrow> byte list"
    and next_no :: "'s \<Rightarrow> int \<Rightarrow> int"
    and get :: "PageId \<Rightarrow> ('s, frame_id option) prog"
    and put :: "frame_id \<Rightarrow> byte list \<Rightarrow> ('s, unit) prog"
    and release :: "PageId \<Rightarrow> bool \<Rightarrow> ('s, bool) prog"
  assumes get_ok: "inv s \<Longrightarrow> avail 1 s \<Longrightarrow> valid_pno (pid_no p) \<Longrightarrow> content s p = Some x \<Longrightarrow>
      \<exists>f t. get p s = (Inr (Some f), t) \<and> inv t \<and> holds t p f \<and> clean t p \<and> content t p = Some x \<and>
            npins t p = npins s p + 1 \<and> others {p} s t \<and> next_no t = next_no s"
    and put_ok: "inv s \<Longrightarrow> holds s p f \<Longrightarrow> length y = PAGE_SIZE \<Longrightarrow>
      \<exists>t. put f y s = (Inr (), t) \<and> inv t \<and> holds t p f \<and> content t p = Some y \<and>
          npins t p = npins s p \<and> others {p} s t \<and> next_no t = next_no s"
    and release_ok: "inv s \<Longrightarrow> holds s p f \<Longrightarrow> d \<or> clean s p \<Longrightarrow>
      \<exists>t. release p d s = (Inr True, t) \<and> inv t \<and> content t p = content s p \<and>
          npins t p = npins s p - 1 \<and> others {p} s t \<and> next_no t = next_no s"
    and holds_bytes: "inv s \<Longrightarrow> holds s p f \<Longrightarrow> content s p = Some (bytes s f)"
    and others_trans: "others P s t \<Longrightarrow> others P t u \<Longrightarrow> others P s u"
    and others_content: "others P s t \<Longrightarrow> q \<notin> P \<Longrightarrow> content s q = Some x \<Longrightarrow> content t q = Some x"
    and others_npins: "others P s t \<Longrightarrow> q \<notin> P \<Longrightarrow> npins t q = npins s q"
    and others_holds: "others P s t \<Longrightarrow> q \<notin> P \<Longrightarrow> holds s q f \<Longrightarrow> holds t q f"
    and others_clean: "others P s t \<Longrightarrow> q \<notin> P \<Longrightarrow> holds s q f \<Longrightarrow> clean s q \<Longrightarrow> clean t q"
    and others_mono: "others P s t \<Longrightarrow> P \<subseteq> Q \<Longrightarrow> others Q s t"
    and avail_less: "inv s \<Longrightarrow> others P s t \<Longrightarrow> (\<And>q. q \<noteq> p \<Longrightarrow> npins t q = npins s q) \<Longrightarrow> avail (Suc k) s \<Longrightarrow> avail k t"
    and avail_same: "others P s t \<Longrightarrow> npins t = npins s \<Longrightarrow> avail k t = avail k s"
begin

definition edit :: "PageId \<Rightarrow> (byte list \<Rightarrow> byte list) \<Rightarrow> ('s, byte list) prog" where
  "edit p g = bindE (get p) (\<lambda>r. case r of
       None \<Rightarrow> raise NullPointer
     | Some f \<Rightarrow> bindE (gets (\<lambda>s. bytes s f)) (\<lambda>x.
         thenE (put f (g x)) (thenE (release p True) (ret x))))"

definition look :: "PageId \<Rightarrow> ('s, byte list) prog" where
  "look p = bindE (get p) (\<lambda>r. case r of
       None \<Rightarrow> raise NullPointer
     | Some f \<Rightarrow> bindE (gets (\<lambda>s. bytes s f)) (\<lambda>x. thenE (release p False) (ret x)))"

lemma npins_back:
  assumes "others {p} s t" and "npins t p = npins s p" shows "npins t = npins s"
  using assms others_npins [OF assms(1)] by (metis ext singletonD)

text \<open>
  \<open>session s n p f c x t\<close>: since \<open>s\<close> a client has pinned \<open>p\<close> once in frame \<open>f\<close>, whose bytes are now
  \<open>x\<close>, and no other page has changed; \<open>n\<close> are the next page numbers of the files; with \<open>c\<close> the client has not written to it.
\<close>

definition session :: "'s \<Rightarrow> (int \<Rightarrow> int) \<Rightarrow> PageId \<Rightarrow> frame_id \<Rightarrow> bool \<Rightarrow> byte list \<Rightarrow> 's \<Rightarrow> bool" where
  "session s n p f c x t \<longleftrightarrow> inv t \<and> holds t p f \<and> (c \<longrightarrow> clean t p) \<and> content t p = Some x \<and> bytes t f = x \<and>
     npins t p = npins s p + 1 \<and> others {p} s t \<and> next_no t = n"

lemma session_get:
  assumes "inv s" "avail 1 s" "valid_pno (pid_no p)" "content s p = Some x"
  obtains f t where "get p s = (Inr (Some f), t)" "session s (next_no s) p f True x t"
proof -
  obtain f t where t: "get p s = (Inr (Some f), t)" "inv t" "holds t p f" "clean t p" "content t p = Some x"
      "npins t p = npins s p + 1" "others {p} s t" "next_no t = next_no s"
    using get_ok [OF assms] by blast
  have "bytes t f = x" using holds_bytes [OF t(2,3)] t(5) by simp
  with t that show ?thesis by (simp add: session_def)
qed

lemma session_put:
  assumes "session s n p f c x t" "length y = PAGE_SIZE"
  obtains u where "put f y t = (Inr (), u)" "session s n p f False y u"
proof -
  obtain u where u: "put f y t = (Inr (), u)" "inv u" "holds u p f" "content u p = Some y"
      "npins u p = npins t p" "others {p} t u" "next_no u = next_no t"
    using put_ok [of t p f y] assms by (auto simp: session_def)
  have "bytes u f = y" using holds_bytes [OF u(2,3)] u(4) by simp
  moreover have "others {p} s u" using others_trans [of "{p}" s t u] u(6) assms(1) by (simp add: session_def)
  ultimately show ?thesis using u assms(1) by (intro that [OF u(1)]) (simp add: session_def)
qed

lemma session_end:
  assumes "session s n p f c x t" "d \<or> c"
  obtains u where "release p d t = (Inr True, u)" "inv u" "content u p = Some x" "npins u = npins s"
    "others {p} s u" "next_no u = n"
proof -
  obtain u where u: "release p d t = (Inr True, u)" "inv u" "content u p = content t p"
      "npins u p = npins t p - 1" "others {p} t u" "next_no u = next_no t"
    using release_ok [of t p f d] assms by (auto simp: session_def)
  have o: "others {p} s u" using others_trans [of "{p}" s t u] u(5) assms(1) by (simp add: session_def)
  have "npins u = npins s" by (rule npins_back [OF o]) (use u assms in \<open>simp add: session_def\<close>)
  with o u assms(1) show ?thesis by (intro that [OF u(1)]) (simp_all add: session_def)
qed

text \<open>
  \<open>at_page T s n p f c x t\<close>: the same for a client that walked over the pages of \<open>T\<close> and now stands on \<open>p\<close>:
  \<open>p\<close> is the only page that has changed, and the only one with one more pin.
\<close>

definition at_page :: "PageId set \<Rightarrow> 's \<Rightarrow> (int \<Rightarrow> int) \<Rightarrow> PageId \<Rightarrow> frame_id \<Rightarrow> bool \<Rightarrow> byte list \<Rightarrow> 's \<Rightarrow> bool" where
  "at_page T s n p f c x t \<longleftrightarrow> inv t \<and> holds t p f \<and> (c \<longrightarrow> clean t p) \<and> content t p = Some x \<and> bytes t f = x \<and>
     npins t p = npins s p + 1 \<and> (\<forall>q. q \<noteq> p \<longrightarrow> npins t q = npins s q) \<and>
     (\<forall>q y. q \<noteq> p \<longrightarrow> content s q = Some y \<longrightarrow> content t q = Some y) \<and> p \<in> T \<and> others T s t \<and> next_no t = n"

lemma session_at: "session s n p f c x t \<Longrightarrow> at_page {p} s n p f c x t"
  by (auto simp: session_def at_page_def others_npins others_content)

lemma at_page_put:
  assumes "at_page T s n p f c x t" "length y = PAGE_SIZE"
  obtains u where "put f y t = (Inr (), u)" "at_page T s n p f False y u"
proof -
  have t: "inv t" "holds t p f" "p \<in> T" "others T s t" using assms(1) by (simp_all add: at_page_def)
  obtain u where u: "put f y t = (Inr (), u)" "inv u" "holds u p f" "content u p = Some y"
      "npins u p = npins t p" "others {p} t u" "next_no u = next_no t"
    using put_ok [OF t(1,2) assms(2)] by blast
  have "bytes u f = y" using holds_bytes [OF u(2,3)] u(4) by simp
  moreover have "others T s u" using others_trans [OF t(4) others_mono [OF u(6)]] t(3) by simp
  moreover have "npins u q = npins s q" if "q \<noteq> p" for q
    using that assms(1) others_npins [OF u(6), of q] by (simp add: at_page_def)
  moreover have "content u q = Some z" if "q \<noteq> p" "content s q = Some z" for q z
    using that assms(1) others_content [OF u(6), of q] by (simp add: at_page_def)
  ultimately show ?thesis using u assms(1) by (intro that [OF u(1)]) (simp add: at_page_def)
qed

lemma at_page_end:
  assumes "at_page T s n p f c x t" "d \<or> c"
  obtains u where "release p d t = (Inr True, u)" "inv u" "content u p = Some x" "npins u = npins s"
    "\<And>q y. q \<noteq> p \<Longrightarrow> content s q = Some y \<Longrightarrow> content u q = Some y" "others T s u" "next_no u = n"
proof -
  have t: "inv t" "holds t p f" "p \<in> T" "others T s t" "d \<or> clean t p" using assms by (auto simp: at_page_def)
  obtain u where u: "release p d t = (Inr True, u)" "inv u" "content u p = content t p"
      "npins u p = npins t p - 1" "others {p} t u" "next_no u = next_no t"
    using release_ok [OF t(1,2,5)] by blast
  have o: "others T s u" using others_trans [OF t(4) others_mono [OF u(5)]] t(3) by simp
  have "npins u q = npins s q" for q
    using assms(1) u(4) others_npins [OF u(5), of q] by (cases "q = p") (simp_all add: at_page_def)
  then have "npins u = npins s" by blast
  moreover have "content u q = Some y" if "q \<noteq> p" "content s q = Some y" for q y
    using that assms(1) others_content [OF u(5), of q] by (simp add: at_page_def)
  ultimately show ?thesis using o u assms(1) by (intro that [OF u(1)]) (simp_all add: at_page_def)
qed

text \<open>One step of a walk: fetch the next page, then unpin the one that was left.\<close>

lemma at_page_step:
  assumes s: "inv s" "avail 2 s" and at: "at_page T s n p f True x t"
    and q: "q \<noteq> p" "valid_pno (pid_no q)" "content s q = Some y" and x: "content s p = Some x"
  obtains g u v where "get q t = (Inr (Some g), u)" "bytes u f = x" "holds u p f" "inv u"
    "release p False u = (Inr True, v)" "at_page (insert q T) s n q g True y v"
proof -
  have t: "inv t" "holds t p f" "clean t p" "p \<in> T" "others T s t" "content t q = Some y" "next_no t = n"
      "npins t p = npins s p + 1" "\<And>r. r \<noteq> p \<Longrightarrow> npins t r = npins s r" "content t p = Some x"
      "\<And>r z. r \<noteq> p \<Longrightarrow> content s r = Some z \<Longrightarrow> content t r = Some z"
    using at q by (auto simp: at_page_def)
  have "avail 1 t" by (rule avail_less [OF s(1) t(5) t(9)]) (use s(2) in \<open>simp_all add: numeral_2_eq_2\<close>)
  then obtain g u where u: "get q t = (Inr (Some g), u)" "session t (next_no t) q g True y u"
    by (rule session_get [OF t(1) _ q(2) t(6)])
  have o: "others {q} t u" and inv: "inv u" using u(2) by (simp_all add: session_def)
  have pu: "holds u p f" "clean u p" "content u p = Some x" "npins u p = npins t p"
    using others_holds [OF o _ t(2)] others_clean [OF o _ t(2,3)] others_content [OF o _ t(10)] others_npins [OF o] q(1)
    by auto
  obtain v where v: "release p False u = (Inr True, v)" "inv v" "content v p = content u p"
      "npins v p = npins u p - 1" "others {p} u v" "next_no v = next_no u"
    using release_ok [OF inv pu(1), of False] pu(2) by blast
  have qu: "holds u q g" "clean u q" "content u q = Some y" "npins u q = npins t q + 1" "next_no u = next_no t"
    using u(2) by (simp_all add: session_def)
  have qv: "holds v q g" "clean v q" "content v q = Some y" "npins v q = npins u q"
    using others_holds [OF v(5) _ qu(1)] others_clean [OF v(5) _ qu(1,2)] others_content [OF v(5) _ qu(3)]
      others_npins [OF v(5)] q(1) by auto
  have "others (insert q T) s v"
    using others_trans [OF others_mono [OF t(5)] others_trans [OF others_mono [OF o] others_mono [OF v(5)]], of "insert q T"]
      t(4) by auto
  moreover have "npins v r = npins s r" if "r \<noteq> q" for r
    using that t(8,9) pu(4) v(4) others_npins [OF v(5), of r] others_npins [OF o, of r] by (cases "r = p") auto
  moreover have "content v r = Some z" if "r \<noteq> q" "content s r = Some z" for r z
  proof (cases "r = p")
    case True
    then have "z = x" using that(2) x by simp
    then show ?thesis using v(3) pu(3) True by simp
  next
    case False
    then show ?thesis using that t(11) others_content [OF o] others_content [OF v(5)] by auto
  qed
  moreover have "bytes v g = y" using holds_bytes [OF v(2) qv(1)] qv(3) by simp
  ultimately have "at_page (insert q T) s n q g True y v"
    using v qv qu t(7,9) q(1) by (simp add: at_page_def)
  moreover have "bytes u f = x" using holds_bytes [OF inv pu(1)] pu(3) by simp
  ultimately show ?thesis by (intro that [OF u(1) _ pu(1) inv v(1)])
qed

lemma edit_ok:
  assumes "inv s" "avail 1 s" "valid_pno (pid_no p)" "content s p = Some x" "length (g x) = PAGE_SIZE"
  shows "\<exists>t. edit p g s = (Inr x, t) \<and> inv t \<and> content t p = Some (g x) \<and> npins t = npins s \<and>
             others {p} s t \<and> next_no t = next_no s"
proof -
  obtain f t1 where 1: "get p s = (Inr (Some f), t1)" "session s (next_no s) p f True x t1"
    by (rule session_get [OF assms(1-4)])
  obtain t2 where 2: "put f (g x) t1 = (Inr (), t2)" "session s (next_no s) p f False (g x) t2"
    by (rule session_put [OF 1(2) assms(5)])
  obtain t3 where 3: "release p True t2 = (Inr True, t3)" "inv t3" "content t3 p = Some (g x)"
      "npins t3 = npins s" "others {p} s t3" "next_no t3 = next_no s"
    by (rule session_end [OF 2(2)]) auto
  have "bytes t1 f = x" using 1(2) by (simp add: session_def)
  with 1(1) 2(1) 3 show ?thesis by (simp add: edit_def prog_simps)
qed

lemma look_ok:
  assumes "inv s" "avail 1 s" "valid_pno (pid_no p)" "content s p = Some x"
  shows "\<exists>t. look p s = (Inr x, t) \<and> inv t \<and> content t p = Some x \<and> npins t = npins s \<and> others {p} s t \<and>
             next_no t = next_no s"
proof -
  obtain f t1 where 1: "get p s = (Inr (Some f), t1)" "session s (next_no s) p f True x t1"
    by (rule session_get [OF assms])
  obtain t3 where 3: "release p False t1 = (Inr True, t3)" "inv t3" "content t3 p = Some x"
      "npins t3 = npins s" "others {p} s t3" "next_no t3 = next_no s"
    by (rule session_end [OF 1(2)]) auto
  have "bytes t1 f = x" using 1(2) by (simp add: session_def)
  with 1(1) 3 show ?thesis by (simp add: look_def prog_simps)
qed

end

definition frame_held :: "BufferPoolManager \<Rightarrow> PageId \<Rightarrow> frame_id \<Rightarrow> bool" where
  "frame_held s p f \<longleftrightarrow> page_table s p = Some f \<and> 0 < pins s p"

definition written_or_clean :: "BufferPoolManager \<Rightarrow> PageId \<Rightarrow> bool" where
  "written_or_clean s p \<longleftrightarrow>
     (\<exists>f. page_table s p = Some f \<and> is_dirty (pages s ! f)) \<or> 1 < pins s p \<or> page_on_disk s p = view s p"

lemma pins_nonneg: "bpm_inv s \<Longrightarrow> 0 \<le> pins s p"
  using table_id [OF held_inv_parts(2)] held_inv_parts(1)
  by (force simp: pins_def inv_frames_def split: option.split)

lemma fetch_page_held:
  assumes inv: "bpm_inv s" and room: "room 1 s" and v: "valid_pno (pid_no p)" and x: "view s p = Some x"
  shows "\<exists>f t. fetch_page p s = (Inr (Some f), t) \<and> bpm_inv t \<and> frame_held t p f \<and> written_or_clean t p \<and>
     view t p = Some x \<and> pins t p = pins s p + 1 \<and> keeps {p} s t \<and>
     fd2pageno (bpm_disk t) = fd2pageno (bpm_disk s)"
  using inv v x
proof (cases rule: fetch_ok)
  case (found f t)
  have pos: "0 < pins t p" "pins s p \<noteq> 0 \<longrightarrow> 1 < pins t p" using found pins_nonneg [OF inv, of p] by auto
  then have "written_or_clean t p" using found by (auto simp: written_or_clean_def)
  then show ?thesis using found pos by (auto simp: frame_held_def)
next
  case full
  with full_no_room [OF inv] room show ?thesis by blast
qed

lemma keeps_held: "keeps P s t \<Longrightarrow> q \<notin> P \<Longrightarrow> frame_held s q f \<Longrightarrow> frame_held t q f"
  by (auto simp: keeps_def frame_held_def pins_def)

lemma keeps_clean:
  assumes k: "keeps P s t" "q \<notin> P" and f: "frame_held s q f" and c: "written_or_clean s q"
  shows "written_or_clean t q"
proof (cases "1 < pins s q")
  case True
  then show ?thesis using keeps_pins [OF k] by (simp add: written_or_clean_def)
next
  case False
  then have "settled s q" using f c by (auto simp: written_or_clean_def settled_def frame_held_def pins_def view_def)
  then have "settled t q" using k by (simp add: keeps_def)
  then show ?thesis by (auto simp: written_or_clean_def settled_def view_def)
qed

lemma keeps_mono: "keeps P s t \<Longrightarrow> P \<subseteq> Q \<Longrightarrow> keeps Q s t"
  unfolding keeps_def by blast

interpretation pool: page_cache bpm_inv view pins room keeps frame_held written_or_clean
  "\<lambda>s f. pg_data (pages s ! f)" "\<lambda>s. fd2pageno (bpm_disk s)" fetch_page set_data unpin_page
proof unfold_locales
  show "\<exists>t. set_data f y s = (Inr (), t) \<and> bpm_inv t \<and> frame_held t p f \<and> view t p = Some y \<and>
          pins t p = pins s p \<and> keeps {p} s t \<and> fd2pageno (bpm_disk t) = fd2pageno (bpm_disk s)"
    if inv: "bpm_inv s" and f: "frame_held s p f" and len: "length y = PAGE_SIZE" for s p f y
  proof -
    have tab: "page_table s p = Some f" and pinned: "0 < pins s p" using f by (simp_all add: frame_held_def)
    show ?thesis
      by (rule set_data_ok [OF inv tab pinned len]) (use f in \<open>auto simp: frame_held_def\<close>)
  qed
  show "\<exists>t. unpin_page p d s = (Inr True, t) \<and> bpm_inv t \<and> view t p = view s p \<and>
          pins t p = pins s p - 1 \<and> keeps {p} s t \<and> fd2pageno (bpm_disk t) = fd2pageno (bpm_disk s)"
    if inv: "bpm_inv s" and f: "frame_held s p f" and c: "d \<or> written_or_clean s p" for s p f d
  proof -
    have tab: "page_table s p = Some f" and pinned: "0 < pins s p" using f by (simp_all add: frame_held_def)
    have "d \<or> is_dirty (pages s ! f) \<or> 1 < pins s p \<or> page_on_disk s p = view s p"
      using c tab by (auto simp: written_or_clean_def)
    then show ?thesis by (rule unpin_ok [OF inv tab pinned]) auto
  qed
  show "room k t = room k s" if "keeps P s t" "pins t = pins s" for P s t k
    using that by (intro room_same) (simp_all add: keeps_def)
  show "view s p = Some (pg_data (pages s ! f))" if "bpm_inv s" "frame_held s p f" for s p f
    using that(2) by (simp add: frame_held_def view_def)
qed (fact fetch_page_held keeps_trans keeps_view keeps_pins keeps_held keeps_clean keeps_mono room_insert)+

section \<open>Sequences of client commands\<close>

text \<open>
  The way every client uses a page: fetch it, work on the bytes, unpin it. A null page is
  dereferenced there. The reference machine is a plain memory of pages with no cache and no disk.
\<close>

datatype page_cmd = ReadPage PageId | WritePage PageId "byte list" | FlushPage PageId | FlushAll int

definition read_session :: "PageId \<Rightarrow> (BufferPoolManager, byte list) prog" where
  "read_session p = bindE (fetch_page p) (\<lambda>r. case r of
       None \<Rightarrow> raise NullPointer
     | Some f \<Rightarrow> bindE (gets (\<lambda>s. pg_data (pages s ! f))) (\<lambda>x. thenE (unpin_page p False) (ret x)))"

definition write_session :: "PageId \<Rightarrow> (byte list \<Rightarrow> byte list) \<Rightarrow> (BufferPoolManager, byte list) prog" where
  "write_session p g = bindE (fetch_page p) (\<lambda>r. case r of
       None \<Rightarrow> raise NullPointer
     | Some f \<Rightarrow> bindE (gets (\<lambda>s. pg_data (pages s ! f))) (\<lambda>x.
         thenE (set_data f (g x)) (thenE (unpin_page p True) (ret x))))"

fun run_cmd :: "page_cmd \<Rightarrow> (BufferPoolManager, byte list) prog" where
  "run_cmd (ReadPage p) = read_session p"
| "run_cmd (WritePage p y) = write_session p (\<lambda>_. y)"
| "run_cmd (FlushPage p) = thenE (flush_page p) (ret [])"
| "run_cmd (FlushAll fd) = thenE (flush_all_pages fd) (ret [])"

fun run_cmds :: "page_cmd list \<Rightarrow> (BufferPoolManager, byte list list) prog" where
  "run_cmds [] = ret []"
| "run_cmds (c # cs) = bindE (run_cmd c) (\<lambda>x. bindE (run_cmds cs) (\<lambda>xs. ret (x # xs)))"

fun ref_cmd :: "page_cmd \<Rightarrow> (PageId \<Rightarrow> byte list option) \<Rightarrow> byte list \<times> (PageId \<Rightarrow> byte list option)" where
  "ref_cmd (ReadPage p) m = (the (m p), m)"
| "ref_cmd (WritePage p y) m = (the (m p), m(p \<mapsto> y))"
| "ref_cmd (FlushPage p) m = ([], m)"
| "ref_cmd (FlushAll fd) m = ([], m)"

fun ref_cmds :: "page_cmd list \<Rightarrow> (PageId \<Rightarrow> byte list option) \<Rightarrow> byte list list \<times> (PageId \<Rightarrow> byte list option)" where
  "ref_cmds [] m = ([], m)"
| "ref_cmds (c # cs) m = (case ref_cmd c m of (x, m1) \<Rightarrow> case ref_cmds cs m1 of (xs, m2) \<Rightarrow> (x # xs, m2))"

fun cmd_ok :: "(PageId \<Rightarrow> byte list option) \<Rightarrow> page_cmd \<Rightarrow> bool" where
  "cmd_ok m (ReadPage p) \<longleftrightarrow> valid_pno (pid_no p) \<and> m p \<noteq> None"
| "cmd_ok m (WritePage p y) \<longleftrightarrow> valid_pno (pid_no p) \<and> m p \<noteq> None \<and> length y = PAGE_SIZE"
| "cmd_ok m (FlushPage p) \<longleftrightarrow> True"
| "cmd_ok m (FlushAll fd) \<longleftrightarrow> True"

lemma read_session_look: "read_session p = pool.look p"
  by (simp add: read_session_def pool.look_def)

lemma write_session_edit: "write_session p g = pool.edit p g"
  by (simp add: write_session_def pool.edit_def)

definition shows_at_least :: "BufferPoolManager \<Rightarrow> (PageId \<Rightarrow> byte list option) \<Rightarrow> bool" where
  "shows_at_least s m \<longleftrightarrow> bpm_inv s \<and> room 1 s \<and> (\<forall>p x. m p = Some x \<longrightarrow> view s p = Some x)"

lemma shows_keeps:
  assumes s: "shows_at_least s m" and t: "bpm_inv t" "pins t = pins s" "keeps P s t"
    and P: "\<forall>p \<in> P. \<forall>x. m' p = Some x \<longrightarrow> view t p = Some x"
    and out: "\<forall>p x. p \<notin> P \<longrightarrow> m' p = Some x \<longrightarrow> m p = Some x"
  shows "shows_at_least t m'"
proof -
  have "room 1 t" using s pool.avail_same [OF t(3,2)] by (simp add: shows_at_least_def)
  moreover have "view t p = Some x" if "m' p = Some x" for p x
  proof (cases "p \<in> P")
    case True
    then show ?thesis using that P by blast
  next
    case False
    then have "view s p = Some x" using that s out by (simp add: shows_at_least_def)
    then show ?thesis by (rule keeps_view [OF t(3) False])
  qed
  ultimately show ?thesis using t(1) by (simp add: shows_at_least_def)
qed

lemma keeps_empty_pins: "keeps {} s t \<Longrightarrow> pins t = pins s"
  by (auto simp: keeps_def)

lemma run_cmd_refines:
  assumes s: "shows_at_least s m" and c: "cmd_ok m c"
  shows "\<exists>t. run_cmd c s = (Inr (fst (ref_cmd c m)), t) \<and> shows_at_least t (snd (ref_cmd c m))"
proof (cases c)
  case (ReadPage p)
  with c obtain x where x: "m p = Some x" "valid_pno (pid_no p)" by auto
  obtain t where t: "read_session p s = (Inr x, t)" "bpm_inv t" "view t p = Some x" "pins t = pins s" "keeps {p} s t"
    using pool.look_ok [of s p x] s x unfolding read_session_look shows_at_least_def by blast
  have "shows_at_least t m" by (rule shows_keeps [OF s t(2,4,5)]) (use t x in auto)
  with t x ReadPage show ?thesis by auto
next
  case (WritePage p y)
  with c obtain x where x: "m p = Some x" "valid_pno (pid_no p)" "length y = PAGE_SIZE" by auto
  obtain t where t: "write_session p (\<lambda>_. y) s = (Inr x, t)" "bpm_inv t" "view t p = Some y" "pins t = pins s"
      "keeps {p} s t"
    using pool.edit_ok [of s p x "\<lambda>_. y"] s x unfolding write_session_edit shows_at_least_def by blast
  have "shows_at_least t (m(p \<mapsto> y))" by (rule shows_keeps [OF s t(2,4,5)]) (use t x in auto)
  with t x WritePage show ?thesis by auto
next
  case (FlushPage p)
  have inv: "bpm_inv s" using s by (simp add: shows_at_least_def)
  show ?thesis
  proof (cases "page_table s p")
    case None
    then show ?thesis using FlushPage s by (simp add: flush_page_def prog_simps)
  next
    case (Some f)
    obtain t where t: "flush_page p s = (Inr True, t)" "bpm_inv t" "keeps {} s t"
      by (rule flush_page_ok [OF inv Some])
    have "shows_at_least t m" by (rule shows_keeps [OF s t(2) keeps_empty_pins [OF t(3)] t(3)]) auto
    with t FlushPage show ?thesis by (simp add: prog_simps)
  qed
next
  case (FlushAll fd)
  have inv: "bpm_inv s" using s by (simp add: shows_at_least_def)
  obtain t where t: "flush_all_pages fd s = (Inr (), t)" "bpm_inv t" "keeps {} s t"
    by (rule flush_all_ok [OF inv])
  have "shows_at_least t m" by (rule shows_keeps [OF s t(2) keeps_empty_pins [OF t(3)] t(3)]) auto
  with t FlushAll show ?thesis by (simp add: prog_simps)
qed

lemma cmd_ok_dom: "dom m \<subseteq> dom m' \<Longrightarrow> cmd_ok m c \<Longrightarrow> cmd_ok m' c"
  by (cases c) auto

lemma ref_cmd_dom: "dom m \<subseteq> dom (snd (ref_cmd c m))"
  by (cases c) auto

lemma run_cmds_refines:
  "shows_at_least s m \<Longrightarrow> \<forall>c \<in> set cs. cmd_ok m c \<Longrightarrow>
   \<exists>t. run_cmds cs s = (Inr (fst (ref_cmds cs m)), t) \<and> shows_at_least t (snd (ref_cmds cs m))"
proof (induction cs arbitrary: s m)
  case Nil
  then show ?case by (simp add: prog_simps)
next
  case (Cons c cs)
  obtain t where t: "run_cmd c s = (Inr (fst (ref_cmd c m)), t)" "shows_at_least t (snd (ref_cmd c m))"
    using run_cmd_refines [OF Cons.prems(1)] Cons.prems(2) by auto
  have "\<forall>c' \<in> set cs. cmd_ok (snd (ref_cmd c m)) c'"
    using Cons.prems(2) cmd_ok_dom [OF ref_cmd_dom] by auto
  from Cons.IH [OF t(2) this] t(1) show ?case
    by (auto simp: prog_simps split: prod.split)
qed

section \<open>Deleting a page and failed reads\<close>

lemma delete_page_frees:
  assumes inv: "bpm_inv s" and tab: "page_table s pid = Some f" and unpinned: "pins s pid = 0"
  obtains t where "delete_page pid s = (Inr True, t)" "bpm_inv t" "page_table t pid = None"
    "free_list t = free_list s @ [f]" "view t pid = view s pid" "keeps {} s t"
proof -
  note parts = held_inv_parts [OF inv]
  have f: "f < pool_size s" "pg_id (pages s ! f) = pid" "length (pages s) = pool_size s"
      "pin_count (pages s ! f) = 0" "f \<notin> set (free_list s)" "distinct (free_list s)"
    using table_id [OF parts(2) tab] parts(1) unpinned tab valid_pno_not_invalid
    by (auto simp: inv_frames_def pins_def)
  obtain d where d: "write_page (pid_fd pid) (pid_no pid) (pg_data (pages s ! f)) (bpm_disk s) = (Inr (), d)"
    "same_tables (bpm_disk s) d" "disk_page d (pid_fd pid) (pid_no pid) = Some (pg_data (pages s ! f))"
    "\<forall>p x. p \<noteq> pid \<longrightarrow> page_on_disk s p = Some x \<longrightarrow> disk_page d (pid_fd p) (pid_no p) = Some x"
    by (rule flush_resident [OF inv tab])
  have li: "lru_inv (replacer s)" using parts(3) by (simp add: inv_lru_def)
  let ?p = "\<lparr>pg_id = \<lparr>pid_fd = pid_fd pid, pid_no = INVALID_PAGE_ID\<rparr>, pg_data = zero_page, is_dirty = False,
             pin_count = 0\<rparr>"
  let ?t = "s\<lparr>pages := (pages s)[f := ?p], page_table := (page_table s)(pid := None),
             free_list := free_list s @ [f], replacer := pin f (replacer s), bpm_disk := d\<rparr>"
  have run: "delete_page pid s = (Inr True, ?t)"
    using tab f d(1) by (simp add: delete_page_def prog_simps) (simp add: page_eq)
  have other: "page_table s q = Some g \<Longrightarrow> q \<noteq> pid \<Longrightarrow> g \<noteq> f" for q g
    using table_inj [OF parts(2) tab] by blast
  have "inv_frames {} ?t" using parts(1) f by (auto simp: inv_frames_def nth_list_update zero_page_def)
  moreover have "inv_table {} ?t"
    unfolding inv_table_def
  proof (intro conjI allI impI)
    fix q g assume "page_table ?t q = Some g"
    then have q: "q \<noteq> pid" "page_table s q = Some g" by (auto split: if_splits)
    with other [OF q(2,1)] table_id [OF parts(2) q(2)]
    show "g < pool_size ?t" "pg_id (pages ?t ! g) = q" "valid_pno (pid_no q)" by auto
  next
    fix g assume g: "g < pool_size ?t" "g \<notin> set (free_list ?t)"
    then have "page_table s (pg_id (pages s ! g)) = Some g" "g \<noteq> f"
      using parts(2) by (auto simp: inv_table_def)
    moreover from this have "pg_id (pages s ! g) \<noteq> pid" using tab by auto
    ultimately show "page_table ?t (pg_id (pages ?t ! g)) = Some g" by simp
  qed
  moreover have "inv_lru {} ?t"
    using parts(3) f lru.set_pin [OF li, of f] lru.pin_inv [OF li, of f]
    by (auto simp: inv_lru_def nth_list_update)
  moreover have "inv_disk ?t"
    using parts(4) d(2,4) same_tables_wf [OF d(2)] other f
    by (auto simp: inv_disk_def page_on_disk_def nth_list_update same_tables_def)
  ultimately have "bpm_inv ?t" by (simp add: held_inv_def)
  moreover have v: "view ?t pid = view s pid" using tab d(3) by (simp add: view_def page_on_disk_def)
  moreover have "keeps {} s ?t"
    unfolding keeps_def
  proof (intro conjI allI impI)
    fix q x assume q: "view s q = Some x"
    then show "view ?t q = Some x"
    proof (cases "q = pid")
      case True
      then show ?thesis using v q by simp
    next
      case False
      then show ?thesis using q d(4) other [of q]
        by (auto simp: view_def page_on_disk_def nth_list_update split: option.splits)
    qed
  next
    fix q show "pins ?t q = pins s q"
      using unpinned other [of q] by (auto simp: pins_def nth_list_update split: option.splits)
  next
    fix q g assume "page_table s q = Some g" "0 < pin_count (pages s ! g)"
    then show "page_table ?t q = Some g" using tab f by auto
  next
    fix q assume "settled s q"
    then obtain g where g: "page_table s q = Some g" "0 < pin_count (pages s ! g)"
        "is_dirty (pages s ! g) \<or> page_on_disk s q = Some (pg_data (pages s ! g))"
      by (auto simp: settled_def)
    then have "q \<noteq> pid" "g \<noteq> f" using tab f(4) by auto
    then show "settled ?t q" using g d(4) by (auto simp: settled_def page_on_disk_def)
  qed (use d(2) in \<open>auto simp: same_tables_def\<close>)
  ultimately show ?thesis by (intro that [OF run]) simp_all
qed

lemma fetch_unreadable:
  assumes inv: "bpm_inv s" and v: "valid_pno (pid_no pid)" and no: "view s pid = None"
    and fl: "free_list s = f # rest"
  obtains t where "fetch_page pid s = (Inl (InternalError ''DiskManager::read_page Error''), t)"
    "page_table t pid = Some f" "free_list t = rest" "f \<notin> set (lru_frames (replacer t))"
    "pin_count (pages t ! f) = 0" "page_on_disk t pid = None"
proof -
  note parts = held_inv_parts [OF inv]
  have tab: "page_table s pid = None" and x: "disk_page (bpm_disk s) (pid_fd pid) (pid_no pid) = None"
    using no by (auto simp: view_def page_on_disk_def split: option.splits)
  have f: "f < length (pages s)" "pid_no (pg_id (pages s ! f)) = INVALID_PAGE_ID"
    and nl: "f \<notin> set (lru_frames (replacer s))" and wf: "dm_wf (bpm_disk s)"
    using parts fl by (auto simp: inv_frames_def inv_lru_def inv_disk_def)
  obtain r bs d where io: "read_page_io (pid_fd pid) (pid_no pid) PAGE_SIZE (bpm_disk s) = (Inr (r, bs), d)"
      "disk_page d = disk_page (bpm_disk s)" "r \<noteq> int PAGE_SIZE"
    using read_page_io_page [OF wf v, of "pid_fd pid"] x by metis
  let ?t = "snd (fetch_page pid s)"
  have "fst (fetch_page pid s) = Inl (InternalError ''DiskManager::read_page Error'')"
    "page_table ?t pid = Some f" "free_list ?t = rest" "replacer ?t = replacer s"
    "pin_count (pages ?t ! f) = 0" "bpm_disk ?t = d"
    using tab fl f io(1,3)
    by (simp_all add: fetch_page_def find_victim_page_def update_page_def prog_simps read_page_check_def)
  with nl io(2) x show ?thesis
    by (intro that [of ?t]) (simp_all add: page_on_disk_def prod_eq_iff)
qed

section \<open>Properties\<close>

text \<open>A pool of two frames over one file with one page of ones, for the examples below.\<close>

definition demo_pool :: BufferPoolManager where
  "demo_pool = new_BufferPoolManager 2 (new_DiskManager (one_file_os (replicate PAGE_SIZE 1)))"

definition demo_pid :: PageId where
  "demo_pid = \<lparr>pid_fd = 3, pid_no = 0\<rparr>"

lemma demo_pool_inv: "bpm_inv demo_pool"
  unfolding demo_pool_def by (rule bpm_inv_new [OF one_file_wf])

lemma demo_pool_empty:
  "page_table demo_pool p = None" "pool_size demo_pool = 2" "free_list demo_pool = [0, 1]"
  by (simp_all add: demo_pool_def new_BufferPoolManager_def upt_rec)

lemma demo_pool_unpinned: "\<not> (\<forall>f < pool_size demo_pool. 0 < pin_count (pages demo_pool ! f))"
  by (rule notI, drule spec [of _ 0]) (simp add: demo_pool_def new_BufferPoolManager_def new_Page_def)

lemma demo_pool_view: "view demo_pool demo_pid = Some (replicate PAGE_SIZE 1)"
  by (simp add: demo_pool_empty view_def page_on_disk_def)
    (simp add: demo_pool_def new_BufferPoolManager_def demo_pid_def disk_page_def fd_data_def one_file_inode
      valid_pno_def read_at_def, simp add: new_DiskManager_def one_file_os_def)

lemma demo_pool_room: "room k demo_pool \<longleftrightarrow> k \<le> 2"
  by (simp add: room_def pinned_def pins_def demo_pool_empty)

lemma demo_pid_valid: "valid_pno (pid_no demo_pid)"
  by (simp add: demo_pid_def valid_pno_def)

text \<open>C1 The buffer pool is transparent: any sequence of page reads, page writes and flushes through
  \<open>fetch_page\<close> and \<open>unpin_page\<close> returns what a plain memory of pages would return, whatever the
  LRU replacer evicts and writes back meanwhile, and at the end the pool shows the memory's contents.\<close>

theorem pool_refines_memory:
  assumes "bpm_inv s" and "room 1 s" and "\<forall>c \<in> set cs. cmd_ok (view s) c"
  shows "\<exists>t. run_cmds cs s = (Inr (fst (ref_cmds cs (view s))), t) \<and> bpm_inv t \<and>
     (\<forall>p x. snd (ref_cmds cs (view s)) p = Some x \<longrightarrow> view t p = Some x)"
  using run_cmds_refines [of s "view s" cs] assms by (auto simp: shows_at_least_def)

theorem pool_refines_memory_witness:
  "\<exists>t. run_cmds [WritePage demo_pid (replicate PAGE_SIZE 9), ReadPage demo_pid] demo_pool =
     (Inr [replicate PAGE_SIZE 1, replicate PAGE_SIZE 9], t) \<and> bpm_inv t"
  using pool_refines_memory [OF demo_pool_inv, of "[WritePage demo_pid (replicate PAGE_SIZE 9), ReadPage demo_pid]"]
    demo_pool_view demo_pool_room demo_pid_valid by auto

text \<open>C24 \<open>fetch_page\<close> returns a pinned frame with the page's current content while every other page
  keeps its content and every pinned page its frame; it returns the null page only when the page is
  not resident and every frame is pinned, and then changes nothing.\<close>

theorem fetch_page_correct:
  assumes "bpm_inv s" and "valid_pno (pid_no pid)" and "view s pid = Some x"
  shows "(\<exists>f t. fetch_page pid s = (Inr (Some f), t) \<and> bpm_inv t \<and> page_table t pid = Some f \<and>
            pg_data (pages t ! f) = x \<and> pins t pid = pins s pid + 1 \<and> keeps {pid} s t) \<or>
     (fetch_page pid s = (Inr None, s) \<and> page_table s pid = None \<and>
        (\<forall>f < pool_size s. 0 < pin_count (pages s ! f)))"
  using assms by (cases rule: fetch_ok) (auto simp: view_def)

theorem fetch_page_correct_witness:
  "\<exists>f t. fetch_page demo_pid demo_pool = (Inr (Some f), t) \<and> bpm_inv t \<and>
     pg_data (pages t ! f) = replicate PAGE_SIZE 1"
proof -
  show ?thesis
    using demo_pool_unpinned fetch_page_correct [OF demo_pool_inv demo_pid_valid demo_pool_view] by auto
qed

text \<open>C25 Durability: after \<open>flush_all_pages\<close> of a file, a fresh pool opened on the same disk shows
  every page of that file exactly as the old pool showed it.\<close>

theorem flush_all_durable:
  assumes "bpm_inv s"
  shows "\<exists>t. flush_all_pages fd s = (Inr (), t) \<and> bpm_inv t \<and>
     (\<forall>pid x. pid_fd pid = fd \<longrightarrow> view s pid = Some x \<longrightarrow>
        view (new_BufferPoolManager n (bpm_disk t)) pid = Some x)"
proof -
  obtain t where "flush_all_pages fd s = (Inr (), t)" "bpm_inv t"
      "\<forall>pid x. pid_fd pid = fd \<longrightarrow> view s pid = Some x \<longrightarrow> page_on_disk t pid = Some x"
    by (rule flush_all_ok [OF assms])
  then show ?thesis by (auto simp: view_def new_BufferPoolManager_def page_on_disk_def)
qed

theorem flush_all_durable_witness:
  "\<exists>t. flush_all_pages 3 demo_pool = (Inr (), t) \<and>
     view (new_BufferPoolManager 1 (bpm_disk t)) demo_pid = Some (replicate PAGE_SIZE 1)"
proof -
  have "pid_fd demo_pid = 3" by (simp add: demo_pid_def)
  with flush_all_durable [OF demo_pool_inv, of 3 1] demo_pool_view show ?thesis by blast
qed

text \<open>C32 \<open>new_page\<close> hands out the next page number of the file, zeroed and pinned once, and keeps every
  other page; with all frames pinned it returns null and changes nothing.\<close>

theorem new_page_correct:
  assumes "bpm_inv s" and "fd_inode (bpm_disk s) fd \<noteq> None" and "0 \<le> fd" and "fd < MAX_FD"
    and "valid_pno (fd2pageno (bpm_disk s) fd)"
    and "page_table s \<lparr>pid_fd = fd, pid_no = fd2pageno (bpm_disk s) fd\<rparr> = None"
  shows "(\<exists>f t. new_page fd s = (Inr (Some (\<lparr>pid_fd = fd, pid_no = fd2pageno (bpm_disk s) fd\<rparr>, f)), t) \<and>
            bpm_inv t \<and> view t \<lparr>pid_fd = fd, pid_no = fd2pageno (bpm_disk s) fd\<rparr> = Some zero_page \<and>
            pins t \<lparr>pid_fd = fd, pid_no = fd2pageno (bpm_disk s) fd\<rparr> = 1 \<and>
            fd2pageno (bpm_disk t) fd = fd2pageno (bpm_disk s) fd + 1 \<and>
            keeps {\<lparr>pid_fd = fd, pid_no = fd2pageno (bpm_disk s) fd\<rparr>} s t) \<or>
     (new_page fd s = (Inr None, s) \<and> (\<forall>f < pool_size s. 0 < pin_count (pages s ! f)))"
proof -
  let ?pid = "\<lparr>pid_fd = fd, pid_no = fd2pageno (bpm_disk s) fd\<rparr>"
  have v: "valid_pno (pid_no ?pid)" using assms(5) by simp
  show ?thesis
    by (rule new_page_ok [OF assms(1-4) refl v assms(6)]) auto
qed

theorem new_page_correct_witness:
  "\<exists>f t. new_page 3 demo_pool = (Inr (Some (\<lparr>pid_fd = 3, pid_no = 0\<rparr>, f)), t) \<and>
     view t \<lparr>pid_fd = 3, pid_no = 0\<rparr> = Some zero_page"
proof -
  have d: "bpm_disk demo_pool = new_DiskManager (one_file_os (replicate PAGE_SIZE 1))"
      "fd2pageno (bpm_disk demo_pool) 3 = 0"
    by (simp_all add: demo_pool_def new_BufferPoolManager_def new_DiskManager_def)
  show ?thesis
    using demo_pool_unpinned new_page_correct [OF demo_pool_inv, of 3] d demo_pool_empty(1)
    by (simp add: one_file_inode valid_pno_def MAX_FD_def) blast
qed

text \<open>C33 A read that fails inside \<open>fetch_page\<close> poisons the pool: the exception leaves the page in the
  table on an unpinned frame that is neither free nor evictable, so the frame is lost, and the next
  \<open>fetch_page\<close> of the same page returns that frame as if the page had been read.\<close>

theorem fetch_page_failed_read:
  assumes "bpm_inv s" and "valid_pno (pid_no pid)" and "view s pid = None" and "free_list s = f # rest"
  shows "\<exists>t. fetch_page pid s = (Inl (InternalError ''DiskManager::read_page Error''), t) \<and>
     pin_count (pages t ! f) = 0 \<and> f \<notin> set (free_list t) \<and> f \<notin> set (lru_frames (replacer t)) \<and>
     page_on_disk t pid = None \<and> fst (fetch_page pid t) = Inr (Some f)"
proof -
  have "f \<notin> set rest" using held_inv_parts(1) [OF assms(1)] assms(4) by (simp add: inv_frames_def)
  moreover have "fst (fetch_page pid t) = Inr (Some f)" if "page_table t pid = Some f" for t
    using that by (simp add: fetch_page_def prog_simps)
  ultimately show ?thesis by (auto intro: fetch_unreadable [OF assms])
qed

theorem fetch_page_failed_read_witness:
  "\<exists>t. fetch_page \<lparr>pid_fd = 9, pid_no = 0\<rparr> demo_pool =
       (Inl (InternalError ''DiskManager::read_page Error''), t) \<and>
     fst (fetch_page \<lparr>pid_fd = 9, pid_no = 0\<rparr> t) = Inr (Some 0)"
proof -
  have "view demo_pool \<lparr>pid_fd = 9, pid_no = 0\<rparr> = None"
    by (simp add: demo_pool_empty view_def page_on_disk_def)
      (simp add: demo_pool_def new_BufferPoolManager_def disk_page_def fd_data_def one_file_inode)
  then show ?thesis
    using fetch_page_failed_read [OF demo_pool_inv, of "\<lparr>pid_fd = 9, pid_no = 0\<rparr>" 0 "[1]"] demo_pool_empty(3)
    by (auto simp: valid_pno_def)
qed

end
