(* ===== verification/Bitmap.thy ===== *)
theory Bitmap
  imports Prelude
begin

text \<open>
  \<^verbatim>\<open>record/bitmap.h\<close>: the slot bitmap of a record page, most significant bit first, on the
  bytes themselves. The searches are shown to return the least matching position, or the limit.
\<close>

unbundle bit_operations_syntax

definition BITMAP_WIDTH :: nat where
  "BITMAP_WIDTH = 8"

definition BITMAP_HIGHEST_BIT :: byte where
  "BITMAP_HIGHEST_BIT = 0x80"

definition get_bucket :: "nat \<Rightarrow> nat" where
  "get_bucket pos = pos div BITMAP_WIDTH"

definition get_bit :: "nat \<Rightarrow> byte" where
  "get_bit pos = drop_bit (pos mod BITMAP_WIDTH) BITMAP_HIGHEST_BIT"

definition bm_init :: "nat \<Rightarrow> byte list" where
  "bm_init sz = replicate sz 0"

definition bm_set :: "byte list \<Rightarrow> nat \<Rightarrow> byte list" where
  "bm_set bm pos = bm[get_bucket pos := bm ! get_bucket pos OR get_bit pos]"

definition bm_reset :: "byte list \<Rightarrow> nat \<Rightarrow> byte list" where
  "bm_reset bm pos = bm[get_bucket pos := bm ! get_bucket pos AND NOT (get_bit pos)]"

definition is_set :: "byte list \<Rightarrow> nat \<Rightarrow> bool" where
  "is_set bm pos \<longleftrightarrow> bm ! get_bucket pos AND get_bit pos \<noteq> 0"

text \<open>The loop of \<open>next_bit\<close> from index \<open>i\<close>.\<close>

function next_from :: "bool \<Rightarrow> byte list \<Rightarrow> nat \<Rightarrow> nat \<Rightarrow> nat" where
  "next_from b bm max_n i =
     (if i < max_n then if is_set bm i = b then i else next_from b bm max_n (i + 1) else max_n)"
  by pat_completeness auto
termination by (relation "measure (\<lambda>(b, bm, max_n, i). max_n - i)") auto

declare next_from.simps [simp del]

definition next_bit :: "bool \<Rightarrow> byte list \<Rightarrow> nat \<Rightarrow> int \<Rightarrow> nat" where
  "next_bit b bm max_n cur = next_from b bm max_n (nat (cur + 1))"

definition first_bit :: "bool \<Rightarrow> byte list \<Rightarrow> nat \<Rightarrow> nat" where
  "first_bit b bm max_n = next_bit b bm max_n (-1)"

section \<open>Single bits\<close>

lemma bit_get_bit: "bit (get_bit pos) k \<longleftrightarrow> k = 7 - pos mod 8"
proof -
  have "bit (2 ^ 7 :: byte) n \<longleftrightarrow> n = 7" for n
    unfolding bit_exp_iff by (auto simp: possible_bit_word)
  then have "bit (128 :: byte) n \<longleftrightarrow> n = 7" for n by simp
  then have "bit (get_bit pos) k \<longleftrightarrow> pos mod 8 + k = 7"
    by (simp add: get_bit_def BITMAP_HIGHEST_BIT_def BITMAP_WIDTH_def bit_drop_bit_eq)
  also have "\<dots> \<longleftrightarrow> k = 7 - pos mod 8"
    using mod_less_divisor [of 8 pos] by linarith
  finally show ?thesis .
qed

lemma is_set_bit: "is_set bm pos \<longleftrightarrow> bit (bm ! (pos div 8)) (7 - pos mod 8)"
proof -
  have "is_set bm pos \<longleftrightarrow> (\<exists>k. bit (bm ! (pos div 8) AND get_bit pos) k)"
    unfolding is_set_def get_bucket_def BITMAP_WIDTH_def by (metis bit_eqI bit_0_eq bot_apply bot_bool_def)
  then show ?thesis by (auto simp: bit_and_iff bit_get_bit)
qed

lemma pos_eq_iff: "pos div 8 = q div 8 \<Longrightarrow> 7 - pos mod 8 = 7 - q mod (8::nat) \<Longrightarrow> pos = q"
proof -
  assume d: "pos div 8 = q div 8" and m: "7 - pos mod 8 = 7 - q mod 8"
  have "pos mod 8 < 8" "q mod 8 < 8" by simp_all
  with m have "pos mod 8 = q mod 8" by linarith
  with d show "pos = q" by (metis div_mult_mod_eq)
qed

lemma length_bm_set [simp]: "length (bm_set bm pos) = length bm"
  by (simp add: bm_set_def)

lemma length_bm_reset [simp]: "length (bm_reset bm pos) = length bm"
  by (simp add: bm_reset_def)

lemma length_bm_init [simp]: "length (bm_init n) = n"
  by (simp add: bm_init_def)

lemma is_set_bm_set:
  assumes "pos div 8 < length bm"
  shows "is_set (bm_set bm pos) q \<longleftrightarrow> q = pos \<or> is_set bm q"
proof (cases "q div 8 = pos div 8")
  case True
  then show ?thesis
    using assms pos_eq_iff [of q pos]
    by (auto simp: is_set_bit bm_set_def get_bucket_def BITMAP_WIDTH_def bit_or_iff bit_get_bit)
next
  case False
  then show ?thesis by (auto simp: is_set_bit bm_set_def get_bucket_def BITMAP_WIDTH_def)
qed

lemma is_set_bm_reset:
  assumes "pos div 8 < length bm"
  shows "is_set (bm_reset bm pos) q \<longleftrightarrow> q \<noteq> pos \<and> is_set bm q"
proof (cases "q div 8 = pos div 8")
  case True
  have "7 - q mod 8 < (8::nat)" by simp
  with True show ?thesis
    using assms pos_eq_iff [of q pos]
    by (auto simp: is_set_bit bm_reset_def get_bucket_def BITMAP_WIDTH_def bit_and_iff bit_not_iff bit_get_bit)
next
  case False
  then show ?thesis by (auto simp: is_set_bit bm_reset_def get_bucket_def BITMAP_WIDTH_def)
qed

lemma is_set_bm_init: "pos div 8 < n \<Longrightarrow> \<not> is_set (bm_init n) pos"
  by (simp add: is_set_bit bm_init_def)

section \<open>Searches\<close>

lemma next_from_spec:
  "i \<le> max_n \<Longrightarrow> next_from b bm max_n i \<le> max_n \<and> i \<le> next_from b bm max_n i \<and>
     (\<forall>j. i \<le> j \<longrightarrow> j < next_from b bm max_n i \<longrightarrow> is_set bm j \<noteq> b) \<and>
     (next_from b bm max_n i < max_n \<longrightarrow> is_set bm (next_from b bm max_n i) = b)"
proof (induction b bm max_n i rule: next_from.induct)
  case (1 b bm max_n i)
  show ?case
  proof (cases "i < max_n \<and> is_set bm i \<noteq> b")
    case True
    then have step: "next_from b bm max_n i = next_from b bm max_n (i + 1)"
      by (subst next_from.simps) auto
    have IH: "next_from b bm max_n (i + 1) \<le> max_n \<and> i + 1 \<le> next_from b bm max_n (i + 1) \<and>
        (\<forall>j. i + 1 \<le> j \<longrightarrow> j < next_from b bm max_n (i + 1) \<longrightarrow> is_set bm j \<noteq> b) \<and>
        (next_from b bm max_n (i + 1) < max_n \<longrightarrow> is_set bm (next_from b bm max_n (i + 1)) = b)"
      using "1.IH" True by auto
    show ?thesis
      unfolding step
    proof (intro conjI allI impI)
      fix j assume "i \<le> j" "j < next_from b bm max_n (i + 1)"
      then show "is_set bm j \<noteq> b" using IH True by (cases "j = i") auto
    qed (use IH in auto)
  next
    case False
    then have "next_from b bm max_n i = (if i < max_n then i else max_n)"
      by (subst next_from.simps) auto
    with False 1 show ?thesis by auto
  qed
qed

lemma next_from_unique:
  assumes "i \<le> m" "m \<le> max_n" "\<forall>j. i \<le> j \<longrightarrow> j < m \<longrightarrow> is_set bm j \<noteq> b" "m < max_n \<longrightarrow> is_set bm m = b"
  shows "next_from b bm max_n i = m"
proof -
  note spec = next_from_spec [of i max_n b bm]
  have "\<not> next_from b bm max_n i < m" using spec assms by (metis order.strict_trans2 order.trans)
  moreover have "\<not> m < next_from b bm max_n i" using spec assms by (metis order.strict_trans2 order.trans)
  ultimately show ?thesis by simp
qed

text \<open>\<open>Bitmap::next_bit\<close> returns the least position above \<open>cur\<close> and below \<open>max_n\<close> whose bit has the
  wanted value, and \<open>max_n\<close> when there is none.\<close>

lemma next_bit_correct:
  assumes "-1 \<le> cur" and "cur + 1 \<le> int max_n"
  shows "next_bit b bm max_n cur = (if \<exists>p < max_n. cur < int p \<and> is_set bm p = b
     then LEAST p. cur < int p \<and> is_set bm p = b else max_n)"
proof (cases "\<exists>p < max_n. cur < int p \<and> is_set bm p = b")
  case True
  let ?P = "\<lambda>p. cur < int p \<and> is_set bm p = b"
  obtain p where p: "p < max_n" "?P p" using True by blast
  have "?P (LEAST p. ?P p)" using p(2) by (rule LeastI)
  moreover have "(LEAST p. ?P p) < max_n" using Least_le [of ?P, OF p(2)] p(1) by linarith
  moreover have "is_set bm j \<noteq> b" if "nat (cur + 1) \<le> j" "j < (LEAST p. ?P p)" for j
    using not_less_Least [OF that(2)] that(1) assms by (auto simp: nat_le_iff)
  ultimately have "next_from b bm max_n (nat (cur + 1)) = (LEAST p. ?P p)"
    using assms by (intro next_from_unique) auto
  with True show ?thesis by (simp add: next_bit_def)
next
  case False
  then have "next_from b bm max_n (nat (cur + 1)) = max_n"
    using assms by (intro next_from_unique) (auto simp: nat_le_iff)
  then show ?thesis unfolding next_bit_def if_not_P [OF False] .
qed

section \<open>Facts for the record pages\<close>

lemma first_bit_spec:
  "first_bit b bm n \<le> n \<and> (\<forall>j < first_bit b bm n. is_set bm j \<noteq> b) \<and>
   (first_bit b bm n < n \<longrightarrow> is_set bm (first_bit b bm n) = b)"
  using next_from_spec [of 0 n b bm] by (simp add: first_bit_def next_bit_def)

lemma first_bit_less: "i < n \<Longrightarrow> is_set bm i = b \<Longrightarrow> first_bit b bm n < n"
  using first_bit_spec [of b bm n] by (metis le_neq_implies_less)

definition bit_count :: "byte list \<Rightarrow> nat \<Rightarrow> nat" where
  "bit_count bm n = card {i. i < n \<and> is_set bm i}"

lemma bit_count_le: "bit_count bm n \<le> n"
proof -
  have "bit_count bm n \<le> card {..<n}" unfolding bit_count_def by (rule card_mono) auto
  then show ?thesis by simp
qed

lemma bit_count_full: "bit_count bm n = n \<longleftrightarrow> (\<forall>i < n. is_set bm i)"
proof
  assume "bit_count bm n = n"
  then have "{i. i < n \<and> is_set bm i} = {..<n}"
    unfolding bit_count_def by (intro card_subset_eq) auto
  then show "\<forall>i < n. is_set bm i" by auto
next
  assume "\<forall>i < n. is_set bm i"
  then have "{i. i < n \<and> is_set bm i} = {..<n}" by auto
  then show "bit_count bm n = n" by (simp add: bit_count_def)
qed

lemma bit_count_set:
  assumes "pos < n" "n \<le> 8 * length bm" "\<not> is_set bm pos"
  shows "bit_count (bm_set bm pos) n = bit_count bm n + 1"
proof -
  have "pos div 8 < length bm" using assms by linarith
  then have "{i. i < n \<and> is_set (bm_set bm pos) i} = insert pos {i. i < n \<and> is_set bm i}"
    using assms by (auto simp: is_set_bm_set)
  then show ?thesis using assms by (simp add: bit_count_def)
qed

lemma bit_count_reset:
  assumes "pos < n" "n \<le> 8 * length bm" "is_set bm pos"
  shows "bit_count (bm_reset bm pos) n = bit_count bm n - 1" and "0 < bit_count bm n"
proof -
  have "pos div 8 < length bm" using assms by linarith
  then have "{i. i < n \<and> is_set (bm_reset bm pos) i} = {i. i < n \<and> is_set bm i} - {pos}"
    using assms by (auto simp: is_set_bm_reset)
  then show "bit_count (bm_reset bm pos) n = bit_count bm n - 1"
    using assms by (simp add: bit_count_def)
  show "0 < bit_count bm n" using assms unfolding bit_count_def by (subst card_gt_0_iff) auto
qed

lemma bit_count_init: "n \<le> 8 * sz \<Longrightarrow> bit_count (bm_init sz) n = 0"
proof -
  assume "n \<le> 8 * sz"
  then have "{i. i < n \<and> is_set (bm_init sz) i} = {}" by (auto simp: is_set_bm_init)
  then show ?thesis by (simp add: bit_count_def)
qed

end
