(* ===== verification/Record_File.thy ===== *)
theory Record_File
  imports Prelude Bitmap Buffer_Pool
begin

text \<open>
  \<^verbatim>\<open>record/rm_defs.h\<close>, \<^verbatim>\<open>record/rm_file_handle.{h,cpp}\<close> and
  \<^verbatim>\<open>record/rm_manager.h\<close>: heap files of fixed-size records over the buffer pool. A page
  keeps the log sequence number at byte 0, the next free page at 4, the number of records at 8, the
  slot bitmap from 12 and then the slots. A page handle is the pinned frame. An access to a slot the
  page does not have is the error value \<open>OutOfBounds\<close>; a page that could not be fetched is
  dereferenced, the error value \<open>NullPointer\<close>. The operations are shown to implement a map from
  record ids to records and to keep the chain of pages with free slots.
\<close>

section \<open>Headers and layout\<close>

definition RM_NO_PAGE :: int where
  "RM_NO_PAGE = -1"

definition RM_FILE_HDR_PAGE :: int where
  "RM_FILE_HDR_PAGE = 0"

definition RM_FIRST_RECORD_PAGE :: int where
  "RM_FIRST_RECORD_PAGE = 1"

definition RM_MAX_RECORD_SIZE :: int where
  "RM_MAX_RECORD_SIZE = 512"

record RmFileHdr =
  record_size :: int
  num_pages :: int
  num_records_per_page :: int
  first_free_page_no :: int
  bitmap_size :: int

record RmPageHdr =
  next_free_page_no :: int
  num_records :: int

text \<open>The bytes of the header as \<^verbatim>\<open>write_page\<close> copies them from memory.\<close>

definition enc_RmFileHdr :: "RmFileHdr \<Rightarrow> byte list" where
  "enc_RmFileHdr h = enc_le 4 (record_size h) @ enc_le 4 (num_pages h) @ enc_le 4 (num_records_per_page h) @
     enc_le 4 (first_free_page_no h) @ enc_le 4 (bitmap_size h)"

definition dec_RmFileHdr :: "byte list \<Rightarrow> RmFileHdr" where
  "dec_RmFileHdr bs = \<lparr>record_size = get_i32 bs 0, num_pages = get_i32 bs 4, num_records_per_page = get_i32 bs 8,
     first_free_page_no = get_i32 bs 12, bitmap_size = get_i32 bs 16\<rparr>"

record RmFileHandle =
  fh_fd :: int
  file_hdr :: RmFileHdr

record RmState =
  rm_pool :: BufferPoolManager
  rm_fh :: RmFileHandle

text \<open>\<^verbatim>\<open>RmPageHandle\<close>: the parts of a page's bytes.\<close>

definition page_hdr :: "byte list \<Rightarrow> RmPageHdr" where
  "page_hdr d = \<lparr>next_free_page_no = get_i32 d 4, num_records = get_i32 d 8\<rparr>"

definition set_next_free :: "int \<Rightarrow> byte list \<Rightarrow> byte list" where
  "set_next_free n d = put_i32 d 4 n"

definition set_num_records :: "int \<Rightarrow> byte list \<Rightarrow> byte list" where
  "set_num_records n d = put_i32 d 8 n"

definition bitmap :: "RmFileHdr \<Rightarrow> byte list \<Rightarrow> byte list" where
  "bitmap h d = read_at d 12 (nat (bitmap_size h))"

definition set_bitmap :: "byte list \<Rightarrow> byte list \<Rightarrow> byte list" where
  "set_bitmap bm d = write_at d 12 bm"

definition slot_offset :: "RmFileHdr \<Rightarrow> nat \<Rightarrow> nat" where
  "slot_offset h s = 12 + nat (bitmap_size h) + s * nat (record_size h)"

definition get_slot :: "RmFileHdr \<Rightarrow> nat \<Rightarrow> byte list \<Rightarrow> byte list" where
  "get_slot h s d = read_at d (slot_offset h s) (nat (record_size h))"

definition put_slot :: "RmFileHdr \<Rightarrow> nat \<Rightarrow> byte list \<Rightarrow> byte list \<Rightarrow> byte list" where
  "put_slot h s buf d = write_at d (slot_offset h s) (take (nat (record_size h)) buf)"

section \<open>File handles\<close>

definition on_pool :: "(BufferPoolManager, 'a) prog \<Rightarrow> (RmState, 'a) prog" where
  "on_pool m = zoom rm_pool (\<lambda>b s. s\<lparr>rm_pool := b\<rparr>) m"

definition hdr :: "RmState \<Rightarrow> RmFileHdr" where
  "hdr s = file_hdr (rm_fh s)"

definition upd_hdr :: "(RmFileHdr \<Rightarrow> RmFileHdr) \<Rightarrow> (RmState, unit) prog" where
  "upd_hdr g = modify (\<lambda>s. s\<lparr>rm_fh := (rm_fh s)\<lparr>file_hdr := g (file_hdr (rm_fh s))\<rparr>\<rparr>)"

definition page_bytes :: "frame_id \<Rightarrow> (RmState, byte list) prog" where
  "page_bytes f = gets (\<lambda>s. pg_data (pages (rm_pool s) ! f))"

definition edit_bytes :: "frame_id \<Rightarrow> (byte list \<Rightarrow> byte list) \<Rightarrow> (RmState, unit) prog" where
  "edit_bytes f g = bindE (page_bytes f) (\<lambda>d. on_pool (set_data f (g d)))"

definition unpin_handle :: "frame_id \<Rightarrow> bool \<Rightarrow> (RmState, unit) prog" where
  "unpin_handle f dirty =
     bindE (gets (\<lambda>s. pg_id (pages (rm_pool s) ! f))) (\<lambda>pid. thenE (on_pool (unpin_page pid dirty)) (ret ()))"

definition check_slot :: "int \<Rightarrow> (RmState, nat) prog" where
  "check_slot s = bindE (gets hdr) (\<lambda>h.
     if 0 \<le> s \<and> s < num_records_per_page h then ret (nat s) else raise OutOfBounds)"

definition fetch_page_handle :: "int \<Rightarrow> (RmState, frame_id) prog" where
  "fetch_page_handle pno =
     bindE (gets rm_fh) (\<lambda>fh.
       if pno < RM_FIRST_RECORD_PAGE \<or> num_pages (file_hdr fh) \<le> pno
       then bindE (on_pool (on_disk (get_file_name (fh_fd fh)))) (\<lambda>n. raise (PageNotExistError n pno))
       else bindE (on_pool (fetch_page \<lparr>pid_fd = fh_fd fh, pid_no = pno\<rparr>)) (\<lambda>r.
         case r of None \<Rightarrow> raise NullPointer | Some f \<Rightarrow> ret f))"

definition create_new_page_handle :: "(RmState, frame_id) prog" where
  "create_new_page_handle =
     bindE (gets rm_fh) (\<lambda>fh.
     bindE (on_pool (new_page (fh_fd fh))) (\<lambda>r.
       case r of
         None \<Rightarrow> raise AssertionFailure
       | Some (page_id, f) \<Rightarrow>
           thenE (edit_bytes f (set_next_free (first_free_page_no (file_hdr fh))))
           (thenE (edit_bytes f (set_num_records 0))
           (thenE (edit_bytes f (set_bitmap (bm_init (nat (bitmap_size (file_hdr fh))))))
           (thenE (upd_hdr (\<lambda>h. h\<lparr>first_free_page_no := pid_no page_id\<rparr>))
           (thenE (upd_hdr (\<lambda>h. h\<lparr>num_pages := num_pages h + 1\<rparr>))
           (ret f)))))))"

definition create_page_handle :: "(RmState, frame_id) prog" where
  "create_page_handle =
     bindE (gets hdr) (\<lambda>h.
       if first_free_page_no h = RM_NO_PAGE then create_new_page_handle
       else fetch_page_handle (first_free_page_no h))"

definition release_page_handle :: "frame_id \<Rightarrow> (RmState, unit) prog" where
  "release_page_handle f =
     bindE (gets hdr) (\<lambda>h.
     thenE (edit_bytes f (set_next_free (first_free_page_no h)))
     (bindE (gets (\<lambda>s. pg_id (pages (rm_pool s) ! f))) (\<lambda>pid.
       upd_hdr (\<lambda>h. h\<lparr>first_free_page_no := pid_no pid\<rparr>))))"

definition is_record :: "Rid \<Rightarrow> (RmState, bool) prog" where
  "is_record rid =
     bindE (fetch_page_handle (page_no rid)) (\<lambda>f.
     bindE (check_slot (slot_no rid)) (\<lambda>s.
     bindE (page_bytes f) (\<lambda>d.
     bindE (gets hdr) (\<lambda>h. ret (is_set (bitmap h d) s)))))"

definition get_record :: "Rid \<Rightarrow> (RmState, byte list) prog" where
  "get_record rid =
     bindE (fetch_page_handle (page_no rid)) (\<lambda>f.
     bindE (check_slot (slot_no rid)) (\<lambda>s.
     bindE (page_bytes f) (\<lambda>d.
     bindE (gets hdr) (\<lambda>h.
     thenE (unpin_handle f False) (ret (get_slot h s d))))))"

definition insert_record :: "byte list \<Rightarrow> (RmState, Rid) prog" where
  "insert_record buf =
     bindE create_page_handle (\<lambda>f.
     bindE (gets hdr) (\<lambda>h.
     bindE (page_bytes f) (\<lambda>d0.
     let slot = first_bit False (bitmap h d0) (nat (num_records_per_page h)) in
     thenE (assertE (int slot < num_records_per_page h))
     (thenE (edit_bytes f (put_slot h slot buf))
     (thenE (edit_bytes f (\<lambda>d. set_bitmap (bm_set (bitmap h d) slot) d))
     (thenE (edit_bytes f (\<lambda>d. set_num_records (num_records (page_hdr d) + 1) d))
     (bindE (gets (\<lambda>s. pg_id (pages (rm_pool s) ! f))) (\<lambda>pid.
     bindE (page_bytes f) (\<lambda>d.
     thenE (if num_records (page_hdr d) = num_records_per_page h
            then upd_hdr (\<lambda>h. h\<lparr>first_free_page_no := next_free_page_no (page_hdr d)\<rparr>)
            else ret ())
     (thenE (unpin_handle f True)
     (ret \<lparr>page_no = pid_no pid, slot_no = int slot\<rparr>)))))))))))"

text \<open>The branch of \<open>insert_record_at\<close> for a slot that was free.\<close>

definition mark_slot :: "frame_id \<Rightarrow> RmFileHdr \<Rightarrow> nat \<Rightarrow> (RmState, unit) prog" where
  "mark_slot f h s =
     bindE (page_bytes f) (\<lambda>d1.
       if \<not> is_set (bitmap h d1) s
       then thenE (edit_bytes f (\<lambda>d. set_bitmap (bm_set (bitmap h d) s) d))
                  (edit_bytes f (\<lambda>d. set_num_records (num_records (page_hdr d) + 1) d))
       else ret ())"

definition insert_record_at :: "Rid \<Rightarrow> byte list \<Rightarrow> (RmState, unit) prog" where
  "insert_record_at rid buf =
     bindE (fetch_page_handle (page_no rid)) (\<lambda>f.
     bindE (check_slot (slot_no rid)) (\<lambda>s.
     bindE (gets hdr) (\<lambda>h.
     thenE (edit_bytes f (put_slot h s buf))
     (thenE (mark_slot f h s)
     (bindE (page_bytes f) (\<lambda>d.
     thenE (if num_records (page_hdr d) = num_records_per_page h
            then upd_hdr (\<lambda>h. h\<lparr>first_free_page_no := next_free_page_no (page_hdr d)\<rparr>)
            else ret ())
     (unpin_handle f True)))))))"

definition delete_record :: "Rid \<Rightarrow> (RmState, unit) prog" where
  "delete_record rid =
     bindE (fetch_page_handle (page_no rid)) (\<lambda>f.
     bindE (check_slot (slot_no rid)) (\<lambda>s.
     bindE (gets hdr) (\<lambda>h.
     bindE (page_bytes f) (\<lambda>d0.
     let was_full = (num_records (page_hdr d0) = num_records_per_page h) in
     thenE (if is_set (bitmap h d0) s
            then thenE (edit_bytes f (\<lambda>d. set_bitmap (bm_reset (bitmap h d) s) d))
                 (thenE (edit_bytes f (\<lambda>d. set_num_records (num_records (page_hdr d) - 1) d))
                 (if was_full then release_page_handle f else ret ()))
            else ret ())
     (unpin_handle f True)))))"

definition update_record :: "Rid \<Rightarrow> byte list \<Rightarrow> (RmState, unit) prog" where
  "update_record rid buf =
     bindE (fetch_page_handle (page_no rid)) (\<lambda>f.
     bindE (check_slot (slot_no rid)) (\<lambda>s.
     bindE (gets hdr) (\<lambda>h.
     thenE (edit_bytes f (put_slot h s buf))
     (unpin_handle f True))))"

section \<open>The file manager\<close>

definition records_per_page :: "int \<Rightarrow> int" where
  "records_per_page rs = (int BITMAP_WIDTH * (int PAGE_SIZE - 1 - 20) + 1) div (1 + rs * int BITMAP_WIDTH)"

definition new_file_hdr :: "int \<Rightarrow> RmFileHdr" where
  "new_file_hdr rs = \<lparr>record_size = rs, num_pages = 1, num_records_per_page = records_per_page rs,
     first_free_page_no = RM_NO_PAGE,
     bitmap_size = (records_per_page rs + int BITMAP_WIDTH - 1) div int BITMAP_WIDTH\<rparr>"

definition rm_create_file :: "string \<Rightarrow> int \<Rightarrow> (BufferPoolManager, unit) prog" where
  "rm_create_file filename rs =
     (if rs < 1 \<or> RM_MAX_RECORD_SIZE < rs then raise (InvalidRecordSizeError rs)
      else thenE (on_disk (create_file filename))
           (bindE (on_disk (open_file filename)) (\<lambda>fd.
            thenE (on_disk (write_page fd RM_FILE_HDR_PAGE (enc_RmFileHdr (new_file_hdr rs))))
            (on_disk (close_file fd)))))"

definition rm_destroy_file :: "string \<Rightarrow> (BufferPoolManager, unit) prog" where
  "rm_destroy_file filename = on_disk (destroy_file filename)"

text \<open>The constructor of \<^verbatim>\<open>RmFileHandle\<close>.\<close>

definition new_RmFileHandle :: "int \<Rightarrow> (BufferPoolManager, RmFileHandle) prog" where
  "new_RmFileHandle fd =
     bindE (on_disk (read_page fd RM_FILE_HDR_PAGE 20)) (\<lambda>bs.
     let h = dec_RmFileHdr bs in
     thenE (on_disk (set_fd2pageno fd (num_pages h)))
     (ret \<lparr>fh_fd = fd, file_hdr = h\<rparr>))"

definition rm_open_file :: "string \<Rightarrow> (BufferPoolManager, RmFileHandle) prog" where
  "rm_open_file filename = bindE (on_disk (open_file filename)) new_RmFileHandle"

definition rm_close_file :: "RmFileHandle \<Rightarrow> (BufferPoolManager, unit) prog" where
  "rm_close_file fh =
     thenE (on_disk (write_page (fh_fd fh) RM_FILE_HDR_PAGE (enc_RmFileHdr (file_hdr fh))))
     (thenE (flush_all_pages (fh_fd fh))
     (on_disk (close_file (fh_fd fh))))"

section \<open>The abstract file\<close>

text \<open>The records of one page, of a whole file given by its pages, and of a handle.\<close>

definition page_recs :: "RmFileHdr \<Rightarrow> byte list \<Rightarrow> nat \<Rightarrow> byte list option" where
  "page_recs h d s =
     (if s < nat (num_records_per_page h) \<and> is_set (bitmap h d) s then Some (get_slot h s d) else None)"

definition file_page :: "RmState \<Rightarrow> int \<Rightarrow> byte list option" where
  "file_page s p = view (rm_pool s) \<lparr>pid_fd = fh_fd (rm_fh s), pid_no = p\<rparr>"

definition file_recs :: "RmFileHdr \<Rightarrow> (int \<Rightarrow> byte list option) \<Rightarrow> Rid \<Rightarrow> byte list option" where
  "file_recs h F rid =
     (if RM_FIRST_RECORD_PAGE \<le> page_no rid \<and> page_no rid < num_pages h \<and> 0 \<le> slot_no rid
      then case F (page_no rid) of None \<Rightarrow> None | Some d \<Rightarrow> page_recs h d (nat (slot_no rid))
      else None)"

definition rm_recs :: "RmState \<Rightarrow> Rid \<Rightarrow> byte list option" where
  "rm_recs s = file_recs (hdr s) (file_page s)"

definition hdr_wf :: "RmFileHdr \<Rightarrow> bool" where
  "hdr_wf h \<longleftrightarrow> 1 \<le> record_size h \<and> record_size h \<le> RM_MAX_RECORD_SIZE \<and>
     num_records_per_page h = records_per_page (record_size h) \<and>
     bitmap_size h = (num_records_per_page h + int BITMAP_WIDTH - 1) div int BITMAP_WIDTH \<and>
     1 \<le> num_pages h \<and> num_pages h \<le> 524288"

definition page_ok :: "RmFileHdr \<Rightarrow> byte list \<Rightarrow> bool" where
  "page_ok h d \<longleftrightarrow> length d = PAGE_SIZE \<and>
     num_records (page_hdr d) = int (bit_count (bitmap h d) (nat (num_records_per_page h)))"

definition page_full :: "RmFileHdr \<Rightarrow> byte list \<Rightarrow> bool" where
  "page_full h d \<longleftrightarrow> num_records (page_hdr d) = num_records_per_page h"

text \<open>The pages from \<open>p\<close> on along \<^verbatim>\<open>next_free_page_no\<close>.\<close>

fun free_chain :: "(int \<Rightarrow> byte list option) \<Rightarrow> int \<Rightarrow> int list \<Rightarrow> bool" where
  "free_chain F p [] \<longleftrightarrow> p = RM_NO_PAGE"
| "free_chain F p (q # qs) \<longleftrightarrow>
     p = q \<and> (case F q of None \<Rightarrow> False | Some d \<Rightarrow> free_chain F (next_free_page_no (page_hdr d)) qs)"

definition data_pages :: "RmFileHdr \<Rightarrow> int set" where
  "data_pages h = {RM_FIRST_RECORD_PAGE ..< num_pages h}"

definition pages_ok :: "RmFileHdr \<Rightarrow> (int \<Rightarrow> byte list option) \<Rightarrow> bool" where
  "pages_ok h F \<longleftrightarrow> hdr_wf h \<and> (\<forall>p \<in> data_pages h. \<exists>d. F p = Some d \<and> page_ok h d)"

text \<open>Exactly the pages with a free slot are on the chain.\<close>

definition chain_ok :: "RmFileHdr \<Rightarrow> (int \<Rightarrow> byte list option) \<Rightarrow> bool" where
  "chain_ok h F \<longleftrightarrow> (\<exists>ps. free_chain F (first_free_page_no h) ps \<and> distinct ps \<and>
     set ps = {p \<in> data_pages h. \<exists>d. F p = Some d \<and> \<not> page_full h d})"

definition rm_pool_ok :: "RmState \<Rightarrow> bool" where
  "rm_pool_ok s \<longleftrightarrow> bpm_inv (rm_pool s) \<and> room 1 (rm_pool s) \<and>
     fd_inode (bpm_disk (rm_pool s)) (fh_fd (rm_fh s)) \<noteq> None \<and>
     0 \<le> fh_fd (rm_fh s) \<and> fh_fd (rm_fh s) < MAX_FD \<and>
     fd2pageno (bpm_disk (rm_pool s)) (fh_fd (rm_fh s)) = num_pages (hdr s) \<and>
     (\<forall>p \<ge> num_pages (hdr s). page_table (rm_pool s) \<lparr>pid_fd = fh_fd (rm_fh s), pid_no = p\<rparr> = None)"

definition rm_inv :: "RmState \<Rightarrow> bool" where
  "rm_inv s \<longleftrightarrow> rm_pool_ok s \<and> pages_ok (hdr s) (file_page s) \<and> chain_ok (hdr s) (file_page s)"

section \<open>Layout of a page\<close>

named_theorems layout \<open>parts of a page after a write to another part\<close>

lemma layout_arith:
  fixes rs :: int
  assumes "1 \<le> rs" and "rs \<le> 512"
  defines "n \<equiv> 32601 div (1 + rs * 8)"
  shows "12 + (n + 7) div 8 + n * rs \<le> 4096 \<and> 1 \<le> n \<and> n \<le> 8 * ((n + 7) div 8)"
proof -
  have p: "0 < 1 + rs * 8" using assms by simp
  have "n * (1 + rs * 8) \<le> 32601"
    unfolding n_def using p by (metis minus_mod_eq_div_mult pos_mod_sign diff_le_eq le_add_same_cancel1)
  then have a: "n + 8 * (n * rs) \<le> 32601" by (simp add: algebra_simps)
  have "1 \<le> n" unfolding n_def using assms p by (simp add: pos_imp_zdiv_pos_iff int_one_le_iff_zero_less)
  moreover have "n \<le> 8 * ((n + 7) div 8)" by linarith
  moreover have "12 + (n + 7) div 8 + n * rs \<le> 4096" using a by linarith
  ultimately show ?thesis by blast
qed

lemma records_per_page_eq: "records_per_page rs = 32601 div (1 + rs * 8)"
  by (simp add: records_per_page_def BITMAP_WIDTH_def PAGE_SIZE_def)

lemma hdr_wf_bounds:
  assumes "hdr_wf h"
  shows "12 + nat (bitmap_size h) + nat (num_records_per_page h) * nat (record_size h) \<le> PAGE_SIZE"
    and "1 \<le> num_records_per_page h" and "nat (num_records_per_page h) \<le> 8 * nat (bitmap_size h)"
    and "1 \<le> record_size h" and "num_records_per_page h \<le> 32601"
proof -
  let ?n = "num_records_per_page h"
  have rs: "1 \<le> record_size h" "record_size h \<le> 512"
    and n: "?n = 32601 div (1 + record_size h * 8)" and b: "bitmap_size h = (?n + 7) div 8"
    using assms by (auto simp: hdr_wf_def RM_MAX_RECORD_SIZE_def BITMAP_WIDTH_def records_per_page_eq)
  have a: "12 + bitmap_size h + ?n * record_size h \<le> 4096" "1 \<le> ?n" "?n \<le> 8 * bitmap_size h"
    using layout_arith [OF rs] unfolding n [symmetric] b [symmetric] by auto
  have "0 \<le> bitmap_size h" "0 \<le> ?n * record_size h" using a rs by auto
  with a(1) have "12 + nat (bitmap_size h) + nat (?n * record_size h) \<le> 4096" by linarith
  then show "12 + nat (bitmap_size h) + nat ?n * nat (record_size h) \<le> PAGE_SIZE"
    using a by (simp add: PAGE_SIZE_def nat_mult_distrib)
  show "1 \<le> ?n" "nat ?n \<le> 8 * nat (bitmap_size h)" "1 \<le> record_size h" using a rs by auto
  have "?n \<le> ?n * record_size h" using a rs by (simp add: mult_le_cancel_left1)
  then show "?n \<le> 32601" using a by linarith
qed

lemma slot_bounds:
  assumes "hdr_wf h" and "s < nat (num_records_per_page h)"
  shows "slot_offset h s + nat (record_size h) \<le> PAGE_SIZE"
proof -
  have "(s + 1) * nat (record_size h) \<le> nat (num_records_per_page h) * nat (record_size h)"
    using assms(2) by (intro mult_le_mono1) simp
  then show ?thesis using hdr_wf_bounds(1) [OF assms(1)] by (simp add: slot_offset_def)
qed

lemma slot_disjoint:
  assumes "s \<noteq> t"
  shows "slot_offset h s + nat (record_size h) \<le> slot_offset h t \<or>
         slot_offset h t + nat (record_size h) \<le> slot_offset h s"
proof -
  have "(s + 1) * nat (record_size h) \<le> t * nat (record_size h) \<or>
        (t + 1) * nat (record_size h) \<le> s * nat (record_size h)"
    using assms by (metis Suc_eq_plus1 Suc_leI linorder_neqE_nat mult_le_mono1)
  then show ?thesis by (simp add: slot_offset_def algebra_simps)
qed

lemma slot_after_bitmap: "12 + nat (bitmap_size h) \<le> slot_offset h s"
  by (simp add: slot_offset_def)

lemma bitmap_in_page: "hdr_wf h \<Longrightarrow> 12 + nat (bitmap_size h) \<le> PAGE_SIZE"
  using hdr_wf_bounds(1) [of h] by linarith

lemma PAGE_SIZE_ge: "12 \<le> PAGE_SIZE" "8 \<le> PAGE_SIZE"
  by (simp_all add: PAGE_SIZE_def)

lemma length_set_parts [layout]:
  "length d = PAGE_SIZE \<Longrightarrow> length (set_next_free n d) = PAGE_SIZE"
  "length d = PAGE_SIZE \<Longrightarrow> length (set_num_records n d) = PAGE_SIZE"
  "hdr_wf h \<Longrightarrow> length d = PAGE_SIZE \<Longrightarrow> length bm = nat (bitmap_size h) \<Longrightarrow>
     length (set_bitmap bm d) = PAGE_SIZE"
  "hdr_wf h \<Longrightarrow> length d = PAGE_SIZE \<Longrightarrow> s < nat (num_records_per_page h) \<Longrightarrow>
     nat (record_size h) \<le> length buf \<Longrightarrow> length (put_slot h s buf d) = PAGE_SIZE"
  using PAGE_SIZE_ge bitmap_in_page [of h] slot_bounds [of h s]
  by (simp_all add: set_next_free_def set_num_records_def set_bitmap_def put_slot_def)

lemma length_bitmap [layout]: "hdr_wf h \<Longrightarrow> length d = PAGE_SIZE \<Longrightarrow> length (bitmap h d) = nat (bitmap_size h)"
  using bitmap_in_page [of h] by (simp add: bitmap_def)

lemma page_hdr_set_next [layout]:
  "length d = PAGE_SIZE \<Longrightarrow> fits_signed 4 n \<Longrightarrow> page_hdr (set_next_free n d) = (page_hdr d)\<lparr>next_free_page_no := n\<rparr>"
  using PAGE_SIZE_ge by (simp add: page_hdr_def set_next_free_def mem_simps)

lemma page_hdr_set_num [layout]:
  "length d = PAGE_SIZE \<Longrightarrow> fits_signed 4 n \<Longrightarrow> page_hdr (set_num_records n d) = (page_hdr d)\<lparr>num_records := n\<rparr>"
  using PAGE_SIZE_ge by (simp add: page_hdr_def set_num_records_def mem_simps)

lemma page_hdr_set_bitmap [layout]:
  "hdr_wf h \<Longrightarrow> length d = PAGE_SIZE \<Longrightarrow> length bm = nat (bitmap_size h) \<Longrightarrow> page_hdr (set_bitmap bm d) = page_hdr d"
  using PAGE_SIZE_ge bitmap_in_page [of h] by (simp add: page_hdr_def set_bitmap_def mem_simps)

lemma page_hdr_put_slot [layout]:
  assumes "hdr_wf h" "length d = PAGE_SIZE" "s < nat (num_records_per_page h)" "nat (record_size h) \<le> length buf"
  shows "page_hdr (put_slot h s buf d) = page_hdr d"
  using assms PAGE_SIZE_ge slot_bounds [of h s] slot_after_bitmap [of h s]
  by (simp add: page_hdr_def put_slot_def mem_simps)

lemma bitmap_set_hdr [layout]:
  assumes "hdr_wf h" "length d = PAGE_SIZE"
  shows "bitmap h (set_next_free n d) = bitmap h d" "bitmap h (set_num_records n d) = bitmap h d"
  using assms PAGE_SIZE_ge bitmap_in_page [of h]
  by (simp_all add: bitmap_def set_next_free_def set_num_records_def mem_simps)

lemma bitmap_set_bitmap [layout]:
  assumes "hdr_wf h" "length d = PAGE_SIZE" "length bm = nat (bitmap_size h)"
  shows "bitmap h (set_bitmap bm d) = bm"
  using assms PAGE_SIZE_ge bitmap_in_page [of h] by (simp add: bitmap_def set_bitmap_def mem_simps)

lemma bitmap_put_slot [layout]:
  assumes "hdr_wf h" "length d = PAGE_SIZE" "s < nat (num_records_per_page h)" "nat (record_size h) \<le> length buf"
  shows "bitmap h (put_slot h s buf d) = bitmap h d"
  using assms slot_bounds [of h s] slot_after_bitmap [of h s] bitmap_in_page [of h]
  by (simp add: bitmap_def put_slot_def mem_simps)

lemma get_slot_set_parts [layout]:
  assumes "hdr_wf h" "length d = PAGE_SIZE" "s < nat (num_records_per_page h)"
  shows "get_slot h s (set_next_free n d) = get_slot h s d" "get_slot h s (set_num_records n d) = get_slot h s d"
    "length bm = nat (bitmap_size h) \<Longrightarrow> get_slot h s (set_bitmap bm d) = get_slot h s d"
  using assms PAGE_SIZE_ge slot_bounds [of h s] slot_after_bitmap [of h s] bitmap_in_page [of h]
  by (simp_all add: get_slot_def set_next_free_def set_num_records_def set_bitmap_def mem_simps)

lemma get_slot_put_slot [layout]:
  assumes "hdr_wf h" "length d = PAGE_SIZE" "s < nat (num_records_per_page h)" "t < nat (num_records_per_page h)"
    and "length buf = nat (record_size h)"
  shows "get_slot h t (put_slot h s buf d) = (if t = s then buf else get_slot h t d)"
proof (cases "t = s")
  case True
  then show ?thesis using assms slot_bounds [of h s] by (simp add: get_slot_def put_slot_def mem_simps)
next
  case False
  then show ?thesis
    using assms slot_bounds [of h s] slot_bounds [of h t] slot_disjoint [of s t h]
    by (simp add: get_slot_def put_slot_def) (rule read_write_disjoint, auto)
qed

section \<open>Effects on one page\<close>

text \<open>The writes of each operation to a page, composed in the order of the code.\<close>

definition page_add :: "RmFileHdr \<Rightarrow> nat \<Rightarrow> byte list \<Rightarrow> byte list" where
  "page_add h s d = (let d1 = set_bitmap (bm_set (bitmap h d) s) d in
     set_num_records (num_records (page_hdr d1) + 1) d1)"

definition page_remove :: "RmFileHdr \<Rightarrow> nat \<Rightarrow> byte list \<Rightarrow> byte list" where
  "page_remove h s d = (let d1 = set_bitmap (bm_reset (bitmap h d) s) d in
     set_num_records (num_records (page_hdr d1) - 1) d1)"

lemma count_fits:
  "hdr_wf h \<Longrightarrow> fits_signed 4 (int (bit_count bm (nat (num_records_per_page h))))"
  "hdr_wf h \<Longrightarrow> fits_signed 4 (int (bit_count bm (nat (num_records_per_page h))) + 1)"
  "hdr_wf h \<Longrightarrow> fits_signed 4 (int (bit_count bm (nat (num_records_per_page h))) - 1)"
  using bit_count_le [of bm "nat (num_records_per_page h)"] hdr_wf_bounds(5) [of h]
  by (auto simp: fits_signed_def)

lemma page_ok_length: "page_ok h d \<Longrightarrow> length d = PAGE_SIZE"
  by (simp add: page_ok_def)

lemma page_put_slot:
  assumes "hdr_wf h" "page_ok h d" "s < nat (num_records_per_page h)" "length buf = nat (record_size h)"
  shows "page_ok h (put_slot h s buf d)" "page_hdr (put_slot h s buf d) = page_hdr d"
    "is_set (bitmap h d) s \<Longrightarrow> page_recs h (put_slot h s buf d) = (page_recs h d)(s \<mapsto> buf)"
  using assms by (auto simp: page_ok_def layout page_recs_def fun_eq_iff)

lemma page_add_ok:
  assumes "hdr_wf h" "page_ok h d" "s < nat (num_records_per_page h)" "\<not> is_set (bitmap h d) s"
  shows "page_ok h (page_add h s d)"
    "page_hdr (page_add h s d) = (page_hdr d)\<lparr>num_records := num_records (page_hdr d) + 1\<rparr>"
    "page_recs h (page_add h s d) = (page_recs h d)(s \<mapsto> get_slot h s d)"
proof -
  let ?n = "nat (num_records_per_page h)"
  have len: "length d = PAGE_SIZE" using assms by (simp add: page_ok_def)
  have lb: "length (bitmap h d) = nat (bitmap_size h)" using assms len by (simp add: layout)
  have n: "num_records (page_hdr d) = int (bit_count (bitmap h d) ?n)" using assms by (simp add: page_ok_def)
  have "s div 8 < length (bitmap h d)" using assms hdr_wf_bounds(3) [OF assms(1)] lb by linarith
  note set = is_set_bm_set [OF this]
  have cnt: "bit_count (bm_set (bitmap h d) s) ?n = bit_count (bitmap h d) ?n + 1"
    using assms hdr_wf_bounds(3) [OF assms(1)] lb by (intro bit_count_set) auto
  show "page_hdr (page_add h s d) = (page_hdr d)\<lparr>num_records := num_records (page_hdr d) + 1\<rparr>"
    using assms len lb count_fits [OF assms(1)] by (simp add: page_add_def Let_def layout n)
  then show "page_ok h (page_add h s d)"
    using assms len lb cnt n by (simp add: page_ok_def) (simp add: page_add_def Let_def layout)
  show "page_recs h (page_add h s d) = (page_recs h d)(s \<mapsto> get_slot h s d)"
    using assms len lb set by (auto simp: page_recs_def page_add_def Let_def layout fun_eq_iff)
qed

lemma page_remove_ok:
  assumes "hdr_wf h" "page_ok h d" "s < nat (num_records_per_page h)" "is_set (bitmap h d) s"
  shows "page_ok h (page_remove h s d)"
    "page_hdr (page_remove h s d) = (page_hdr d)\<lparr>num_records := num_records (page_hdr d) - 1\<rparr>"
    "page_recs h (page_remove h s d) = (page_recs h d)(s := None)"
proof -
  let ?n = "nat (num_records_per_page h)"
  have len: "length d = PAGE_SIZE" using assms by (simp add: page_ok_def)
  have lb: "length (bitmap h d) = nat (bitmap_size h)" using assms len by (simp add: layout)
  have n: "num_records (page_hdr d) = int (bit_count (bitmap h d) ?n)" using assms by (simp add: page_ok_def)
  have "s div 8 < length (bitmap h d)" using assms hdr_wf_bounds(3) [OF assms(1)] lb by linarith
  note set = is_set_bm_reset [OF this]
  have cnt: "int (bit_count (bm_reset (bitmap h d) s) ?n) = int (bit_count (bitmap h d) ?n) - 1"
    using bit_count_reset [of s ?n "bitmap h d"] assms hdr_wf_bounds(3) [OF assms(1)] lb by auto
  show "page_hdr (page_remove h s d) = (page_hdr d)\<lparr>num_records := num_records (page_hdr d) - 1\<rparr>"
    using assms len lb count_fits [OF assms(1)] by (simp add: page_remove_def Let_def layout n)
  then show "page_ok h (page_remove h s d)"
    using assms len lb cnt n by (simp add: page_ok_def) (simp add: page_remove_def Let_def layout)
  show "page_recs h (page_remove h s d) = (page_recs h d)(s := None)"
    using assms len lb set by (auto simp: page_recs_def page_remove_def Let_def layout fun_eq_iff)
qed

lemma page_set_next_ok:
  assumes "hdr_wf h" "page_ok h d" "fits_signed 4 q"
  shows "page_ok h (set_next_free q d)" "page_hdr (set_next_free q d) = (page_hdr d)\<lparr>next_free_page_no := q\<rparr>"
    "page_recs h (set_next_free q d) = page_recs h d"
  using assms by (auto simp: page_ok_def layout page_recs_def fun_eq_iff)

lemma page_not_full:
  assumes "hdr_wf h" "page_ok h d"
  shows "\<not> page_full h d \<longleftrightarrow> first_bit False (bitmap h d) (nat (num_records_per_page h)) < nat (num_records_per_page h)"
proof -
  let ?n = "nat (num_records_per_page h)"
  have "page_full h d \<longleftrightarrow> bit_count (bitmap h d) ?n = ?n"
    using assms hdr_wf_bounds(2) [OF assms(1)] by (auto simp: page_full_def page_ok_def)
  also have "\<dots> \<longleftrightarrow> (\<forall>i < ?n. is_set (bitmap h d) i)" by (rule bit_count_full)
  finally show ?thesis using first_bit_spec [of False "bitmap h d" ?n] first_bit_less [of _ ?n "bitmap h d" False]
    by (metis less_le_trans)
qed

section \<open>Effects on the chain\<close>

definition changed :: "(int \<Rightarrow> byte list option) \<Rightarrow> (int \<Rightarrow> byte list option) \<Rightarrow> int \<Rightarrow> byte list \<Rightarrow> bool" where
  "changed F F' p d \<longleftrightarrow> F' p = Some d \<and> (\<forall>q x. q \<noteq> p \<longrightarrow> F q = Some x \<longrightarrow> F' q = Some x)"

lemma free_chain_avoid: "free_chain F q ps \<Longrightarrow> p \<notin> set ps \<Longrightarrow> changed F F' p d \<Longrightarrow> free_chain F' q ps"
  by (induction ps arbitrary: q) (auto simp: changed_def split: option.splits)

lemma free_chain_same:
  assumes "changed F F' p d" "F p = Some d0" "next_free_page_no (page_hdr d) = next_free_page_no (page_hdr d0)"
  shows "free_chain F q ps \<Longrightarrow> free_chain F' q ps"
proof (induction ps arbitrary: q)
  case (Cons a ps)
  then obtain x where "F a = Some x" "free_chain F (next_free_page_no (page_hdr x)) ps" "q = a"
    by (auto split: option.splits)
  with Cons.IH assms show ?case by (cases "a = p") (auto simp: changed_def)
qed simp

lemma changed_known:
  assumes "changed F F' p d" "\<forall>q \<in> D. F q \<noteq> None" "q \<in> D" "q \<noteq> p"
  shows "F' q = F q"
  using assms by (auto simp: changed_def)

lemma pages_ok_known: "pages_ok h F \<Longrightarrow> \<forall>q \<in> data_pages h. F q \<noteq> None"
  by (auto simp: pages_ok_def)

lemma pages_ok_changed:
  "pages_ok h F \<Longrightarrow> changed F F' p d \<Longrightarrow> page_ok h d \<Longrightarrow> pages_ok h F'"
  unfolding pages_ok_def changed_def by metis

text \<open>The set of pages with a free slot after page \<open>p\<close> became \<open>d\<close>.\<close>

lemma free_set_changed:
  assumes "pages_ok h F" "changed F F' p d" "p \<in> data_pages h"
  shows "{q \<in> data_pages h. \<exists>d. F' q = Some d \<and> \<not> page_full h d} =
     (if page_full h d then {q \<in> data_pages h. \<exists>d. F q = Some d \<and> \<not> page_full h d} - {p}
      else insert p {q \<in> data_pages h. \<exists>d. F q = Some d \<and> \<not> page_full h d})"
  using assms changed_known [OF assms(2) pages_ok_known [OF assms(1)]]
  by (auto simp: changed_def split: if_splits) (metis option.inject)+

lemma chain_keep:
  assumes ok: "pages_ok h F" and ch: "changed F F' p d" "p \<in> data_pages h" "F p = Some d0"
    and same: "next_free_page_no (page_hdr d) = next_free_page_no (page_hdr d0)" "page_full h d = page_full h d0"
    and chain: "chain_ok h F"
  shows "chain_ok h F'"
proof -
  have "{q \<in> data_pages h. \<exists>d. F' q = Some d \<and> \<not> page_full h d} =
        {q \<in> data_pages h. \<exists>d. F q = Some d \<and> \<not> page_full h d}"
    unfolding free_set_changed [OF ok ch(1,2)] using ch(2,3) same(2) by auto
  then show ?thesis
    using chain free_chain_same [OF ch(1,3) same(1)] unfolding chain_ok_def by metis
qed

lemma chain_head:
  assumes chain: "chain_ok h F" and first: "first_free_page_no h \<noteq> RM_NO_PAGE"
  shows "first_free_page_no h \<in> data_pages h" "\<exists>d. F (first_free_page_no h) = Some d \<and> \<not> page_full h d"
proof -
  obtain ps where ps: "free_chain F (first_free_page_no h) ps"
      "set ps = {p \<in> data_pages h. \<exists>d. F p = Some d \<and> \<not> page_full h d}"
    using chain by (auto simp: chain_ok_def)
  with first obtain qs where "ps = first_free_page_no h # qs" by (cases ps) auto
  then have "first_free_page_no h \<in> set ps" by simp
  with ps(2) show "first_free_page_no h \<in> data_pages h" "\<exists>d. F (first_free_page_no h) = Some d \<and> \<not> page_full h d"
    by auto
qed

text \<open>The head page fills up and leaves the chain.\<close>

lemma chain_pop:
  assumes ok: "pages_ok h F" and ch: "changed F F' p d" and p: "p = first_free_page_no h" "p \<noteq> RM_NO_PAGE"
    and d0: "F p = Some d0" "next_free_page_no (page_hdr d) = next_free_page_no (page_hdr d0)"
    and full: "page_full h d" and chain: "chain_ok h F"
    and h': "h' = h\<lparr>first_free_page_no := next_free_page_no (page_hdr d)\<rparr>"
  shows "chain_ok h' F'"
proof -
  obtain ps where ps: "free_chain F p ps" "distinct ps"
      "set ps = {p \<in> data_pages h. \<exists>d. F p = Some d \<and> \<not> page_full h d}"
    using chain p by (auto simp: chain_ok_def)
  with p obtain qs where qs: "ps = p # qs" by (cases ps) auto
  have pd: "p \<in> data_pages h" using ps(3) qs by auto
  have "free_chain F (next_free_page_no (page_hdr d)) qs" using ps(1) qs d0 by simp
  then have "free_chain F' (first_free_page_no h') qs" using free_chain_avoid [OF _ _ ch] ps(2) qs h' by simp
  moreover have "set qs = {p \<in> data_pages h. \<exists>d. F' p = Some d \<and> \<not> page_full h d}"
    unfolding free_set_changed [OF ok ch pd] using full ps(2,3) qs by auto
  moreover have "data_pages h' = data_pages h" "page_full h' = page_full h"
    using h' by (auto simp: data_pages_def page_full_def fun_eq_iff)
  ultimately show ?thesis using ps(2) qs by (auto simp: chain_ok_def)
qed

text \<open>A full page gets a free slot and becomes the head.\<close>

lemma chain_push:
  assumes ok: "pages_ok h F" and ch: "changed F F' p d" and p: "p \<in> data_pages h" "F p = Some d0"
    and full: "page_full h d0" "\<not> page_full h d" and nxt: "next_free_page_no (page_hdr d) = first_free_page_no h"
    and chain: "chain_ok h F" and h': "h' = h\<lparr>first_free_page_no := p\<rparr>"
  shows "chain_ok h' F'"
proof -
  obtain ps where ps: "free_chain F (first_free_page_no h) ps" "distinct ps"
      "set ps = {p \<in> data_pages h. \<exists>d. F p = Some d \<and> \<not> page_full h d}"
    using chain by (auto simp: chain_ok_def)
  have new: "p \<notin> set ps" using ps(3) p full by auto
  have "free_chain F' p (p # ps)"
    using free_chain_avoid [OF ps(1) new ch] ch nxt by (simp add: changed_def)
  moreover have "set (p # ps) = {p \<in> data_pages h. \<exists>d. F' p = Some d \<and> \<not> page_full h d}"
    unfolding free_set_changed [OF ok ch p(1)] using full ps(3) by auto
  moreover have "data_pages h' = data_pages h" "page_full h' = page_full h" "first_free_page_no h' = p"
    using h' by (auto simp: data_pages_def page_full_def fun_eq_iff)
  ultimately show ?thesis using ps(2) new unfolding chain_ok_def by (intro exI [of _ "p # ps"]) simp
qed

text \<open>A new page is appended to the file and becomes the head.\<close>

lemma chain_grow:
  assumes ok: "pages_ok h F" and ch: "changed F F' p d" and p: "p = num_pages h"
    and full: "\<not> page_full h d" and nxt: "next_free_page_no (page_hdr d) = first_free_page_no h"
    and chain: "chain_ok h F" and h': "h' = h\<lparr>first_free_page_no := p, num_pages := num_pages h + 1\<rparr>"
  shows "chain_ok h' F'"
proof -
  obtain ps where ps: "free_chain F (first_free_page_no h) ps" "distinct ps"
      "set ps = {p \<in> data_pages h. \<exists>d. F p = Some d \<and> \<not> page_full h d}"
    using chain by (auto simp: chain_ok_def)
  have new: "p \<notin> set ps" using ps(3) p by (auto simp: data_pages_def)
  have dp: "data_pages h' = insert p (data_pages h)" "page_full h' = page_full h" "first_free_page_no h' = p"
    using h' p ok by (auto simp: data_pages_def page_full_def fun_eq_iff pages_ok_def hdr_wf_def RM_FIRST_RECORD_PAGE_def)
  have "free_chain F' p (p # ps)"
    using free_chain_avoid [OF ps(1) new ch] ch nxt by (simp add: changed_def)
  moreover have "set (p # ps) = {p \<in> data_pages h'. \<exists>d. F' p = Some d \<and> \<not> page_full h' d}"
    using changed_known [OF ch pages_ok_known [OF ok]] ch full ps(3) new dp p
    by (auto simp: changed_def) (auto simp: data_pages_def)
  ultimately show ?thesis using ps(2) new dp(3) unfolding chain_ok_def by (intro exI [of _ "p # ps"]) simp
qed

section \<open>Running the operations\<close>

lemma on_pool_run [prog_simps]:
  "on_pool m s = (case m (rm_pool s) of (r, b) \<Rightarrow> (r, s\<lparr>rm_pool := b\<rparr>))"
  by (simp add: on_pool_def prog_simps)

lemma upd_hdr_run [prog_simps]:
  "upd_hdr g s = (Inr (), s\<lparr>rm_fh := (rm_fh s)\<lparr>file_hdr := g (file_hdr (rm_fh s))\<rparr>\<rparr>)"
  by (simp add: upd_hdr_def prog_simps)

lemma hdr_pool [simp]: "hdr (s\<lparr>rm_pool := u\<rparr>) = hdr s"
  by (simp add: hdr_def)

lemma session_frame:
  assumes "pool.session b n pid f c x t"
  shows "pg_data (pages t ! f) = x" "pg_id (pages t ! f) = pid"
  using assms table_id [OF held_inv_parts(2), of "{}" t pid f]
  by (auto simp: pool.session_def frame_held_def)

lemma page_bytes_run:
  "pool.session b n pid f c x u \<Longrightarrow> rm_pool t = u \<Longrightarrow> page_bytes f t = (Inr x, t)"
  by (simp add: page_bytes_def prog_simps session_frame)

lemma edit_bytes_run:
  assumes "pool.session b n pid f c x u" "length (g x) = PAGE_SIZE"
  obtains v where "\<forall>t. rm_pool t = u \<longrightarrow> edit_bytes f g t = (Inr (), t\<lparr>rm_pool := v\<rparr>)"
    "pool.session b n pid f False (g x) v"
  by (rule pool.session_put [OF assms])
    (rule that, simp_all add: edit_bytes_def prog_simps page_bytes_run [OF assms(1)])

lemma unpin_handle_run:
  assumes "pool.session b n pid f c x u" "d \<or> c"
  obtains v where "\<forall>t. rm_pool t = u \<longrightarrow> unpin_handle f d t = (Inr (), t\<lparr>rm_pool := v\<rparr>)" "bpm_inv v"
    "view v pid = Some x" "pins v = pins b" "keeps {pid} b v" "fd2pageno (bpm_disk v) = n"
  by (rule pool.session_end [OF assms])
    (rule that, simp_all add: unpin_handle_def prog_simps session_frame [OF assms(1)])

lemma data_page_valid:
  "hdr_wf h \<Longrightarrow> p \<in> data_pages h \<Longrightarrow> valid_pno p"
  by (auto simp: hdr_wf_def data_pages_def valid_pno_def RM_FIRST_RECORD_PAGE_def)

lemma fetch_page_handle_run:
  assumes "rm_pool_ok s" "hdr_wf (hdr s)" "p \<in> data_pages (hdr s)" "file_page s p = Some d"
  obtains f u where "fetch_page_handle p s = (Inr f, s\<lparr>rm_pool := u\<rparr>)"
    "pool.session (rm_pool s) (fd2pageno (bpm_disk (rm_pool s))) \<lparr>pid_fd = fh_fd (rm_fh s), pid_no = p\<rparr> f True d u"
proof -
  let ?pid = "\<lparr>pid_fd = fh_fd (rm_fh s), pid_no = p\<rparr>"
  have "bpm_inv (rm_pool s)" "room 1 (rm_pool s)" using assms(1) by (simp_all add: rm_pool_ok_def)
  moreover have "valid_pno (pid_no ?pid)" using data_page_valid assms(2,3) by simp
  moreover have "view (rm_pool s) ?pid = Some d" using assms(4) by (simp add: file_page_def)
  ultimately obtain f u where u: "fetch_page ?pid (rm_pool s) = (Inr (Some f), u)"
    "pool.session (rm_pool s) (fd2pageno (bpm_disk (rm_pool s))) ?pid f True d u"
    by (rule pool.session_get)
  have "\<not> (p < RM_FIRST_RECORD_PAGE \<or> num_pages (file_hdr (rm_fh s)) \<le> p)"
    using assms(3) by (simp add: data_pages_def hdr_def)
  with u(1) have "fetch_page_handle p s = (Inr f, s\<lparr>rm_pool := u\<rparr>)"
    by (simp add: fetch_page_handle_def prog_simps)
  with u(2) show ?thesis by (rule that [rotated])
qed

lemma page_not_exist:
  "p \<notin> data_pages (hdr s) \<Longrightarrow> fd2path (bpm_disk (rm_pool s)) (fh_fd (rm_fh s)) = Some n \<Longrightarrow>
   fetch_page_handle p s = (Inl (PageNotExistError n p), s)"
  by (auto simp: fetch_page_handle_def prog_simps data_pages_def hdr_def get_file_name_def)

lemma check_slot_run:
  "0 \<le> k \<Longrightarrow> k < num_records_per_page (hdr s) \<Longrightarrow> check_slot k s = (Inr (nat k), s)"
  by (simp add: check_slot_def prog_simps)

text \<open>The state after an operation that worked on page \<open>p\<close> of the file.\<close>

lemma rm_pool_ok_after:
  assumes s: "rm_pool_ok s" and fh: "fh_fd fh' = fh_fd (rm_fh s)"
    and u: "bpm_inv u" "pins u = pins (rm_pool s)"
      "keeps {\<lparr>pid_fd = fh_fd (rm_fh s), pid_no = p\<rparr>} (rm_pool s) u"
      "fd2pageno (bpm_disk u) (fh_fd (rm_fh s)) = num_pages (file_hdr fh')"
    and n: "num_pages (hdr s) \<le> num_pages (file_hdr fh')" "p < num_pages (file_hdr fh')"
  shows "rm_pool_ok (s\<lparr>rm_pool := u, rm_fh := fh'\<rparr>)"
proof -
  have "room 1 u" using pool.avail_same [OF u(3,2)] s by (simp add: rm_pool_ok_def)
  moreover have "page_table u \<lparr>pid_fd = fh_fd (rm_fh s), pid_no = q\<rparr> = None" if "num_pages (file_hdr fh') \<le> q" for q
    using that s n u(3) by (auto simp: rm_pool_ok_def keeps_def)
  ultimately show ?thesis using s fh u n by (auto simp: rm_pool_ok_def hdr_def keeps_def)
qed

lemma file_page_after:
  assumes "fh_fd fh' = fh_fd (rm_fh s)" "keeps {\<lparr>pid_fd = fh_fd (rm_fh s), pid_no = p\<rparr>} (rm_pool s) u"
    "view u \<lparr>pid_fd = fh_fd (rm_fh s), pid_no = p\<rparr> = Some d"
  shows "changed (file_page s) (file_page (s\<lparr>rm_pool := u, rm_fh := fh'\<rparr>)) p d"
  using assms keeps_view [OF assms(2)] by (auto simp: changed_def file_page_def)

definition same_layout :: "RmFileHdr \<Rightarrow> RmFileHdr \<Rightarrow> bool" where
  "same_layout h h' \<longleftrightarrow> record_size h' = record_size h \<and> num_records_per_page h' = num_records_per_page h \<and>
     bitmap_size h' = bitmap_size h"

lemma same_layout_page:
  "same_layout h h' \<Longrightarrow> page_recs h' = page_recs h" "same_layout h h' \<Longrightarrow> page_ok h' = page_ok h"
  "same_layout h h' \<Longrightarrow> page_full h' = page_full h"
  by (auto simp: same_layout_def page_recs_def page_ok_def page_full_def bitmap_def get_slot_def slot_offset_def
      fun_eq_iff)

lemma pages_ok_layout:
  "pages_ok h F \<Longrightarrow> same_layout h h' \<Longrightarrow> num_pages h' = num_pages h \<Longrightarrow> pages_ok h' F"
  using same_layout_page(2) [of h h'] by (simp add: pages_ok_def hdr_wf_def data_pages_def same_layout_def)

lemma file_recs_changed:
  assumes ok: "pages_ok h F" and p: "p \<in> data_pages h" "F p = Some d0" and ch: "changed F F' p d"
    and h: "same_layout h h'" "num_pages h' = num_pages h"
    and recs: "page_recs h d = (page_recs h d0)(k := v)"
  shows "file_recs h' F' = (file_recs h F)(\<lparr>page_no = p, slot_no = int k\<rparr> := v)"
proof
  fix rid :: Rid
  obtain q j where rid: "rid = \<lparr>page_no = q, slot_no = j\<rparr>" by (cases rid)
  have pg: "F' q = (if q = p then Some d else F q)" if "q \<in> data_pages h"
    using changed_known [OF ch pages_ok_known [OF ok] that] ch by (simp add: changed_def)
  show "file_recs h' F' rid = ((file_recs h F)(\<lparr>page_no = p, slot_no = int k\<rparr> := v)) rid"
  proof (cases "q \<in> data_pages h \<and> 0 \<le> j")
    case True
    then have "file_recs h' F' rid = (case F' q of None \<Rightarrow> None | Some d \<Rightarrow> page_recs h d (nat j))"
      "file_recs h F rid = (case F q of None \<Rightarrow> None | Some d \<Rightarrow> page_recs h d (nat j))"
      using h same_layout_page(1) [OF h(1)] by (auto simp: file_recs_def rid data_pages_def split: option.split)
    with True pg p recs rid show ?thesis by (auto simp: nat_eq_iff)
  next
    case False
    then have "file_recs h' F' rid = None" "file_recs h F rid = None" "rid \<noteq> \<lparr>page_no = p, slot_no = int k\<rparr>"
      using h p by (auto simp: file_recs_def rid data_pages_def)
    then show ?thesis by simp
  qed
qed

lemma rm_recs_Some:
  assumes "rm_recs s rid = Some r"
  obtains d k where "page_no rid \<in> data_pages (hdr s)" "file_page s (page_no rid) = Some d"
    "slot_no rid = int k" "k < nat (num_records_per_page (hdr s))" "is_set (bitmap (hdr s) d) k"
    "r = get_slot (hdr s) k d"
proof -
  obtain d where d: "file_page s (page_no rid) = Some d" "page_no rid \<in> data_pages (hdr s)" "0 \<le> slot_no rid"
      "page_recs (hdr s) d (nat (slot_no rid)) = Some r"
    using assms by (auto simp: rm_recs_def file_recs_def data_pages_def split: if_splits option.splits)
  show ?thesis
    by (rule that [OF d(2,1), of "nat (slot_no rid)"])
      (use d in \<open>auto simp: page_recs_def split: if_splits\<close>)
qed

lemma rm_inv_parts:
  assumes "rm_inv s"
  shows "rm_pool_ok s" "hdr_wf (hdr s)" "pages_ok (hdr s) (file_page s)" "chain_ok (hdr s) (file_page s)"
    and "p \<in> data_pages (hdr s) \<Longrightarrow> file_page s p = Some d \<Longrightarrow> page_ok (hdr s) d"
  using assms by (auto simp: rm_inv_def pages_ok_def)

text \<open>An operation that changed page \<open>p\<close> and left the header alone.\<close>

lemma rm_inv_same_hdr:
  assumes s: "rm_inv s" and p: "p \<in> data_pages (hdr s)" "file_page s p = Some d0"
    and u: "bpm_inv u" "view u \<lparr>pid_fd = fh_fd (rm_fh s), pid_no = p\<rparr> = Some d" "pins u = pins (rm_pool s)"
      "keeps {\<lparr>pid_fd = fh_fd (rm_fh s), pid_no = p\<rparr>} (rm_pool s) u"
      "fd2pageno (bpm_disk u) = fd2pageno (bpm_disk (rm_pool s))"
    and d: "page_ok (hdr s) d" "next_free_page_no (page_hdr d) = next_free_page_no (page_hdr d0)"
      "page_full (hdr s) d = page_full (hdr s) d0"
  shows "rm_inv (s\<lparr>rm_pool := u\<rparr>)"
    and "page_recs (hdr s) d = (page_recs (hdr s) d0)(k := v) \<Longrightarrow>
      rm_recs (s\<lparr>rm_pool := u\<rparr>) = (rm_recs s)(\<lparr>page_no = p, slot_no = int k\<rparr> := v)"
proof -
  note parts = rm_inv_parts [OF s]
  let ?t = "s\<lparr>rm_pool := u\<rparr>"
  have ch: "changed (file_page s) (file_page ?t) p d"
    using file_page_after [of "rm_fh s" s p u d] u(2,4) by simp
  have h: "hdr ?t = hdr s" by (simp add: hdr_def)
  have "rm_pool_ok (s\<lparr>rm_pool := u, rm_fh := rm_fh s\<rparr>)"
    using u p parts(1) by (intro rm_pool_ok_after [OF parts(1)]) (auto simp: rm_pool_ok_def hdr_def data_pages_def)
  then have "rm_pool_ok ?t" by simp
  moreover have "pages_ok (hdr s) (file_page ?t)" by (rule pages_ok_changed [OF parts(3) ch d(1)])
  moreover have "chain_ok (hdr s) (file_page ?t)" by (rule chain_keep [OF parts(3) ch p d(2,3) parts(4)])
  ultimately show "rm_inv ?t" by (simp add: rm_inv_def h)
  show "rm_recs ?t = (rm_recs s)(\<lparr>page_no = p, slot_no = int k\<rparr> := v)"
    if "page_recs (hdr s) d = (page_recs (hdr s) d0)(k := v)"
    unfolding rm_recs_def by (rule file_recs_changed [OF parts(3) p ch _ _ that]) (simp_all add: h same_layout_def)
qed

lemma get_record_ok:
  assumes s: "rm_inv s" and r: "rm_recs s rid = Some r"
  obtains t where "get_record rid s = (Inr r, t)" "rm_inv t" "rm_recs t = rm_recs s" "hdr t = hdr s"
proof -
  note parts = rm_inv_parts [OF s]
  let ?h = "hdr s"
  obtain d k where rid: "page_no rid \<in> data_pages ?h" "file_page s (page_no rid) = Some d"
      "slot_no rid = int k" "k < nat (num_records_per_page ?h)" "is_set (bitmap ?h d) k" "r = get_slot ?h k d"
    by (rule rm_recs_Some [OF r])
  obtain f u where f: "fetch_page_handle (page_no rid) s = (Inr f, s\<lparr>rm_pool := u\<rparr>)"
    "pool.session (rm_pool s) (fd2pageno (bpm_disk (rm_pool s)))
        \<lparr>pid_fd = fh_fd (rm_fh s), pid_no = page_no rid\<rparr> f True d u"
    by (rule fetch_page_handle_run [OF parts(1,2) rid(1,2)])
  obtain v where v: "\<forall>t. rm_pool t = u \<longrightarrow> unpin_handle f False t = (Inr (), t\<lparr>rm_pool := v\<rparr>)" "bpm_inv v"
      "view v \<lparr>pid_fd = fh_fd (rm_fh s), pid_no = page_no rid\<rparr> = Some d" "pins v = pins (rm_pool s)"
      "keeps {\<lparr>pid_fd = fh_fd (rm_fh s), pid_no = page_no rid\<rparr>} (rm_pool s) v"
      "fd2pageno (bpm_disk v) = fd2pageno (bpm_disk (rm_pool s))"
    by (rule unpin_handle_run [OF f(2)]) auto
  have run: "get_record rid s = (Inr r, s\<lparr>rm_pool := v\<rparr>)"
    using f(1) v(1) rid by (simp add: get_record_def prog_simps check_slot_run page_bytes_run [OF f(2)])
  note after = rm_inv_same_hdr [OF s rid(1,2) v(2-6) parts(5) [OF rid(1,2)] refl refl]
  have "rm_recs (s\<lparr>rm_pool := v\<rparr>) = (rm_recs s)(\<lparr>page_no = page_no rid, slot_no = int k\<rparr> := page_recs ?h d k)"
    by (rule after(2)) simp
  moreover have "rid = \<lparr>page_no = page_no rid, slot_no = int k\<rparr>" using rid(3) by (cases rid) simp
  moreover have "page_recs ?h d k = Some r" using rid by (simp add: page_recs_def)
  ultimately have "rm_recs (s\<lparr>rm_pool := v\<rparr>) = rm_recs s" using r by (metis fun_upd_triv)
  with run after(1) show ?thesis by (rule that) simp
qed

lemma Rid_eq: "slot_no rid = int k \<Longrightarrow> \<lparr>page_no = page_no rid, slot_no = int k\<rparr> = (rid :: Rid)"
  by (cases rid) simp

lemma update_record_ok:
  assumes s: "rm_inv s" and r: "rm_recs s rid = Some r" and buf: "length buf = nat (record_size (hdr s))"
  obtains t where "update_record rid buf s = (Inr (), t)" "rm_inv t" "rm_recs t = (rm_recs s)(rid \<mapsto> buf)"
    "hdr t = hdr s"
proof -
  note parts = rm_inv_parts [OF s]
  let ?h = "hdr s"
  obtain d k where rid: "page_no rid \<in> data_pages ?h" "file_page s (page_no rid) = Some d"
      "slot_no rid = int k" "k < nat (num_records_per_page ?h)" "is_set (bitmap ?h d) k"
    by (rule rm_recs_Some [OF r])
  note ok = page_put_slot [OF parts(2) parts(5) [OF rid(1,2)] rid(4) buf]
  obtain f u where f: "fetch_page_handle (page_no rid) s = (Inr f, s\<lparr>rm_pool := u\<rparr>)"
    "pool.session (rm_pool s) (fd2pageno (bpm_disk (rm_pool s)))
        \<lparr>pid_fd = fh_fd (rm_fh s), pid_no = page_no rid\<rparr> f True d u"
    by (rule fetch_page_handle_run [OF parts(1,2) rid(1,2)])
  obtain u1 where u1: "\<forall>t. rm_pool t = u \<longrightarrow> edit_bytes f (put_slot ?h k buf) t = (Inr (), t\<lparr>rm_pool := u1\<rparr>)"
    "pool.session (rm_pool s) (fd2pageno (bpm_disk (rm_pool s)))
        \<lparr>pid_fd = fh_fd (rm_fh s), pid_no = page_no rid\<rparr> f False (put_slot ?h k buf d) u1"
    by (rule edit_bytes_run [OF f(2), where g = "put_slot ?h k buf"]) (use page_ok_length [OF ok(1)] in auto)
  obtain v where v: "\<forall>t. rm_pool t = u1 \<longrightarrow> unpin_handle f True t = (Inr (), t\<lparr>rm_pool := v\<rparr>)" "bpm_inv v"
      "view v \<lparr>pid_fd = fh_fd (rm_fh s), pid_no = page_no rid\<rparr> = Some (put_slot ?h k buf d)" "pins v = pins (rm_pool s)"
      "keeps {\<lparr>pid_fd = fh_fd (rm_fh s), pid_no = page_no rid\<rparr>} (rm_pool s) v"
      "fd2pageno (bpm_disk v) = fd2pageno (bpm_disk (rm_pool s))"
    by (rule unpin_handle_run [OF u1(2)]) auto
  have run: "update_record rid buf s = (Inr (), s\<lparr>rm_pool := v\<rparr>)"
    using f(1) u1(1) v(1) rid by (simp add: update_record_def prog_simps check_slot_run)
  have "next_free_page_no (page_hdr (put_slot ?h k buf d)) = next_free_page_no (page_hdr d)"
    "page_full ?h (put_slot ?h k buf d) = page_full ?h d"
    using ok(2) by (simp_all add: page_full_def)
  note after = rm_inv_same_hdr [OF s rid(1,2) v(2-6) ok(1) this]
  show ?thesis by (rule that [OF run after(1)]) (use after(2) [OF ok(3) [OF rid(5)]] Rid_eq [OF rid(3)] in simp_all)
qed

text \<open>Deleting from a page: the edits of the page, and of the header when the page was full.\<close>

lemma rm_inv_new_hdr:
  assumes s: "rm_inv s" and p: "p \<in> data_pages (hdr s)" "file_page s p = Some d0"
    and u: "bpm_inv u" "view u \<lparr>pid_fd = fh_fd (rm_fh s), pid_no = p\<rparr> = Some d" "pins u = pins (rm_pool s)"
      "keeps {\<lparr>pid_fd = fh_fd (rm_fh s), pid_no = p\<rparr>} (rm_pool s) u"
      "fd2pageno (bpm_disk u) = fd2pageno (bpm_disk (rm_pool s))"
    and d: "page_ok (hdr s) d" and h': "h' = (hdr s)\<lparr>first_free_page_no := q\<rparr>"
    and chain: "changed (file_page s) (file_page (s\<lparr>rm_pool := u, rm_fh := (rm_fh s)\<lparr>file_hdr := h'\<rparr>\<rparr>)) p d \<Longrightarrow>
      chain_ok h' (file_page (s\<lparr>rm_pool := u, rm_fh := (rm_fh s)\<lparr>file_hdr := h'\<rparr>\<rparr>))"
    and recs: "page_recs (hdr s) d = (page_recs (hdr s) d0)(k := v)"
  shows "rm_inv (s\<lparr>rm_pool := u, rm_fh := (rm_fh s)\<lparr>file_hdr := h'\<rparr>\<rparr>)"
    and "rm_recs (s\<lparr>rm_pool := u, rm_fh := (rm_fh s)\<lparr>file_hdr := h'\<rparr>\<rparr>) =
       (rm_recs s)(\<lparr>page_no = p, slot_no = int k\<rparr> := v)"
proof -
  note parts = rm_inv_parts [OF s]
  let ?t = "s\<lparr>rm_pool := u, rm_fh := (rm_fh s)\<lparr>file_hdr := h'\<rparr>\<rparr>"
  have ch: "changed (file_page s) (file_page ?t) p d" using u by (intro file_page_after) auto
  have lay: "same_layout (hdr s) h'" "num_pages h' = num_pages (hdr s)" "hdr ?t = h'"
    using h' by (auto simp: same_layout_def hdr_def)
  have "rm_pool_ok ?t"
    using u p parts(1) lay by (intro rm_pool_ok_after [OF parts(1)]) (auto simp: rm_pool_ok_def hdr_def data_pages_def)
  moreover have "pages_ok (hdr s) (file_page ?t)" by (rule pages_ok_changed [OF parts(3) ch d])
  then have "pages_ok h' (file_page ?t)"
    using h' same_layout_page(2) [OF lay(1)] by (simp add: pages_ok_def hdr_wf_def data_pages_def)
  ultimately show "rm_inv ?t" using chain [OF ch] lay by (simp add: rm_inv_def)
  show "rm_recs ?t = (rm_recs s)(\<lparr>page_no = p, slot_no = int k\<rparr> := v)"
    unfolding rm_recs_def by (rule file_recs_changed [OF parts(3) p ch _ _ recs]) (simp_all add: lay)
qed

lemma first_free_fits: "pages_ok h F \<Longrightarrow> chain_ok h F \<Longrightarrow> fits_signed 4 (first_free_page_no h)"
  using chain_head [of h F]
  by (cases "first_free_page_no h = RM_NO_PAGE")
    (auto simp: RM_NO_PAGE_def fits_signed_def data_pages_def RM_FIRST_RECORD_PAGE_def pages_ok_def hdr_wf_def)

text \<open>The two page edits that set or clear a slot's bit and adjust the record count.\<close>

lemma edit_add_run:
  assumes ses: "pool.session b n pid f c d u" and h: "hdr_wf h" "page_ok h d" "k < nat (num_records_per_page h)"
    "\<not> is_set (bitmap h d) k"
  obtains u1 v where "\<forall>t. rm_pool t = u \<longrightarrow>
      edit_bytes f (\<lambda>d. set_bitmap (bm_set (bitmap h d) k) d) t = (Inr (), t\<lparr>rm_pool := u1\<rparr>)"
    "\<forall>t. rm_pool t = u1 \<longrightarrow>
      edit_bytes f (\<lambda>d. set_num_records (num_records (page_hdr d) + 1) d) t = (Inr (), t\<lparr>rm_pool := v\<rparr>)"
    "pool.session b n pid f False (page_add h k d) v"
proof -
  let ?g1 = "\<lambda>d. set_bitmap (bm_set (bitmap h d) k) d"
  let ?g2 = "\<lambda>d. set_num_records (num_records (page_hdr d) + 1) d"
  have len: "length d = PAGE_SIZE" using h by (simp add: page_ok_def)
  then have l1: "length (?g1 d) = PAGE_SIZE" using h by (simp add: layout)
  obtain u1 where u1: "\<forall>t. rm_pool t = u \<longrightarrow> edit_bytes f ?g1 t = (Inr (), t\<lparr>rm_pool := u1\<rparr>)"
      "pool.session b n pid f False (?g1 d) u1"
    by (rule edit_bytes_run [OF ses, where g = ?g1]) (use l1 in auto)
  obtain u2 where u2: "\<forall>t. rm_pool t = u1 \<longrightarrow> edit_bytes f ?g2 t = (Inr (), t\<lparr>rm_pool := u2\<rparr>)"
      "pool.session b n pid f False (?g2 (?g1 d)) u2"
    by (rule edit_bytes_run [OF u1(2), where g = ?g2]) (use l1 in \<open>auto simp: layout\<close>)
  show ?thesis by (rule that [OF u1(1) u2(1)]) (use u2 in \<open>simp add: page_add_def Let_def\<close>)
qed

lemma edit_remove_run:
  assumes ses: "pool.session b n pid f c d u" and h: "hdr_wf h" "page_ok h d" "k < nat (num_records_per_page h)"
    "is_set (bitmap h d) k"
  obtains u1 v where "\<forall>t. rm_pool t = u \<longrightarrow>
      edit_bytes f (\<lambda>d. set_bitmap (bm_reset (bitmap h d) k) d) t = (Inr (), t\<lparr>rm_pool := u1\<rparr>)"
    "\<forall>t. rm_pool t = u1 \<longrightarrow>
      edit_bytes f (\<lambda>d. set_num_records (num_records (page_hdr d) - 1) d) t = (Inr (), t\<lparr>rm_pool := v\<rparr>)"
    "pool.session b n pid f False (page_remove h k d) v"
proof -
  let ?g1 = "\<lambda>d. set_bitmap (bm_reset (bitmap h d) k) d"
  let ?g2 = "\<lambda>d. set_num_records (num_records (page_hdr d) - 1) d"
  have len: "length d = PAGE_SIZE" using h by (simp add: page_ok_def)
  then have l1: "length (?g1 d) = PAGE_SIZE" using h by (simp add: layout)
  obtain u1 where u1: "\<forall>t. rm_pool t = u \<longrightarrow> edit_bytes f ?g1 t = (Inr (), t\<lparr>rm_pool := u1\<rparr>)"
      "pool.session b n pid f False (?g1 d) u1"
    by (rule edit_bytes_run [OF ses, where g = ?g1]) (use l1 in auto)
  obtain u2 where u2: "\<forall>t. rm_pool t = u1 \<longrightarrow> edit_bytes f ?g2 t = (Inr (), t\<lparr>rm_pool := u2\<rparr>)"
      "pool.session b n pid f False (?g2 (?g1 d)) u2"
    by (rule edit_bytes_run [OF u1(2), where g = ?g2]) (use l1 in \<open>auto simp: layout\<close>)
  show ?thesis by (rule that [OF u1(1) u2(1)]) (use u2 in \<open>simp add: page_remove_def Let_def\<close>)
qed

lemma delete_record_ok:
  assumes s: "rm_inv s" and r: "rm_recs s rid = Some r"
  obtains t where "delete_record rid s = (Inr (), t)" "rm_inv t" "rm_recs t = (rm_recs s)(rid := None)"
    "same_layout (hdr s) (hdr t)" "num_pages (hdr t) = num_pages (hdr s)"
proof -
  note parts = rm_inv_parts [OF s]
  let ?h = "hdr s" and ?b = "rm_pool s" and ?n = "fd2pageno (bpm_disk (rm_pool s))"
    and ?pid = "\<lparr>pid_fd = fh_fd (rm_fh s), pid_no = page_no rid\<rparr>"
  obtain d k where rid: "page_no rid \<in> data_pages ?h" "file_page s (page_no rid) = Some d"
      "slot_no rid = int k" "k < nat (num_records_per_page ?h)" "is_set (bitmap ?h d) k"
    by (rule rm_recs_Some [OF r])
  note dok = parts(5) [OF rid(1,2)]
  note ok = page_remove_ok [OF parts(2) dok rid(4,5)]
  obtain f u where f: "fetch_page_handle (page_no rid) s = (Inr f, s\<lparr>rm_pool := u\<rparr>)"
      "pool.session ?b ?n ?pid f True d u"
    by (rule fetch_page_handle_run [OF parts(1,2) rid(1,2)])
  obtain u1 u2 where e: "\<forall>t. rm_pool t = u \<longrightarrow>
      edit_bytes f (\<lambda>d. set_bitmap (bm_reset (bitmap ?h d) k) d) t = (Inr (), t\<lparr>rm_pool := u1\<rparr>)"
    "\<forall>t. rm_pool t = u1 \<longrightarrow>
      edit_bytes f (\<lambda>d. set_num_records (num_records (page_hdr d) - 1) d) t = (Inr (), t\<lparr>rm_pool := u2\<rparr>)"
    "pool.session ?b ?n ?pid f False (page_remove ?h k d) u2"
    by (rule edit_remove_run [OF f(2) parts(2) dok rid(4,5)])
  have nf: "\<not> page_full ?h (page_remove ?h k d)"
    using ok(2) dok bit_count_le [of "bitmap ?h d" "nat (num_records_per_page ?h)"] hdr_wf_bounds(2) [OF parts(2)]
    by (auto simp: page_full_def page_ok_def)
  show ?thesis
  proof (cases "page_full ?h d")
    case False
    obtain v where v: "\<forall>t. rm_pool t = u2 \<longrightarrow> unpin_handle f True t = (Inr (), t\<lparr>rm_pool := v\<rparr>)" "bpm_inv v"
        "view v ?pid = Some (page_remove ?h k d)" "pins v = pins ?b" "keeps {?pid} ?b v"
        "fd2pageno (bpm_disk v) = ?n"
      by (rule unpin_handle_run [OF e(3)]) auto
    have run: "delete_record rid s = (Inr (), s\<lparr>rm_pool := v\<rparr>)"
      using f(1) e(1,2) v(1) rid False page_bytes_run [OF f(2)]
      by (simp add: delete_record_def prog_simps check_slot_run page_full_def)
    have "next_free_page_no (page_hdr (page_remove ?h k d)) = next_free_page_no (page_hdr d)"
      "page_full ?h (page_remove ?h k d) = page_full ?h d"
      using ok(2) nf False by simp_all
    note after = rm_inv_same_hdr [OF s rid(1,2) v(2-6) ok(1) this]
    show ?thesis by (rule that [OF run after(1)]) (use after(2) [OF ok(3)] Rid_eq [OF rid(3)] in \<open>simp_all add: same_layout_def\<close>)
  next
    case True
    let ?q = "first_free_page_no ?h"
    note nok = page_set_next_ok [OF parts(2) ok(1) first_free_fits [OF parts(3,4)]]
    obtain u3 where u3: "\<forall>t. rm_pool t = u2 \<longrightarrow> edit_bytes f (set_next_free ?q) t = (Inr (), t\<lparr>rm_pool := u3\<rparr>)"
        "pool.session ?b ?n ?pid f False (set_next_free ?q (page_remove ?h k d)) u3"
      by (rule edit_bytes_run [OF e(3), where g = "set_next_free ?q"]) (use page_ok_length [OF nok(1)] in auto)
    obtain v where v: "\<forall>t. rm_pool t = u3 \<longrightarrow> unpin_handle f True t = (Inr (), t\<lparr>rm_pool := v\<rparr>)" "bpm_inv v"
        "view v ?pid = Some (set_next_free ?q (page_remove ?h k d))" "pins v = pins ?b" "keeps {?pid} ?b v"
        "fd2pageno (bpm_disk v) = ?n"
      by (rule unpin_handle_run [OF u3(2)]) auto
    let ?h' = "?h\<lparr>first_free_page_no := page_no rid\<rparr>"
    let ?t = "s\<lparr>rm_pool := v, rm_fh := (rm_fh s)\<lparr>file_hdr := ?h'\<rparr>\<rparr>"
    have run: "delete_record rid s = (Inr (), ?t)"
      using f(1) e(1,2) u3(1) v(1) rid True page_bytes_run [OF f(2)] session_frame(2) [OF u3(2)]
      by (simp add: delete_record_def release_page_handle_def prog_simps check_slot_run page_full_def)
        (simp add: hdr_def)
    have ch: "chain_ok ?h' (file_page ?t)"
      if "changed (file_page s) (file_page ?t) (page_no rid) (set_next_free ?q (page_remove ?h k d))"
      using nf nok(2) by (intro chain_push [OF parts(3) that rid(1,2) True _ _ parts(4) refl]) (auto simp: page_full_def)
    note after = rm_inv_new_hdr [OF s rid(1,2) v(2-6) nok(1) refl ch, unfolded nok(3), OF _ ok(3)]
    show ?thesis by (rule that [OF run after(1)]) (use after(2) Rid_eq [OF rid(3)] in \<open>simp_all add: same_layout_def hdr_def\<close>)
  qed
qed

section \<open>Inserting\<close>

definition fresh_page :: "RmFileHdr \<Rightarrow> byte list" where
  "fresh_page h = set_bitmap (bm_init (nat (bitmap_size h)))
     (set_num_records 0 (set_next_free (first_free_page_no h) zero_page))"

lemma fresh_page_ok:
  assumes "hdr_wf h" "fits_signed 4 (first_free_page_no h)"
  shows "page_ok h (fresh_page h)" "next_free_page_no (page_hdr (fresh_page h)) = first_free_page_no h"
    "\<not> page_full h (fresh_page h)" "page_recs h (fresh_page h) = Map.empty"
proof -
  have z: "length zero_page = PAGE_SIZE" by (simp add: zero_page_def)
  have f0: "fits_signed 4 0" by (simp add: fits_signed_def)
  have hd: "page_hdr (fresh_page h) = \<lparr>next_free_page_no = first_free_page_no h, num_records = 0\<rparr>"
    using assms z f0 by (simp add: fresh_page_def layout)
  have bm: "bitmap h (fresh_page h) = bm_init (nat (bitmap_size h))"
    using assms z by (simp add: fresh_page_def layout)
  show "next_free_page_no (page_hdr (fresh_page h)) = first_free_page_no h" by (simp add: hd)
  show "\<not> page_full h (fresh_page h)" using hdr_wf_bounds(2) [OF assms(1)] by (simp add: page_full_def hd)
  show "page_ok h (fresh_page h)"
    using assms z bit_count_init [OF hdr_wf_bounds(3) [OF assms(1)]]
    by (simp add: page_ok_def hd bm) (simp add: fresh_page_def layout)
  have "\<not> is_set (bm_init (nat (bitmap_size h))) k" if "k < nat (num_records_per_page h)" for k
    using that hdr_wf_bounds(3) [OF assms(1)] by (intro is_set_bm_init) linarith
  then show "page_recs h (fresh_page h) = Map.empty" by (simp add: page_recs_def bm fun_eq_iff)
qed

lemma create_new_run:
  assumes s: "rm_inv s" and small: "num_pages (hdr s) < 524288"
  obtains f u where "create_new_page_handle s = (Inr f, s\<lparr>rm_pool := u,
      rm_fh := (rm_fh s)\<lparr>file_hdr := (hdr s)\<lparr>first_free_page_no := num_pages (hdr s), num_pages := num_pages (hdr s) + 1\<rparr>\<rparr>\<rparr>)"
    "pool.session (rm_pool s) ((fd2pageno (bpm_disk (rm_pool s)))(fh_fd (rm_fh s) := num_pages (hdr s) + 1))
       \<lparr>pid_fd = fh_fd (rm_fh s), pid_no = num_pages (hdr s)\<rparr> f False (fresh_page (hdr s)) u"
proof -
  note parts = rm_inv_parts [OF s]
  let ?h = "hdr s" and ?b = "rm_pool s" and ?fd = "fh_fd (rm_fh s)"
  let ?pid = "\<lparr>pid_fd = ?fd, pid_no = num_pages ?h\<rparr>" and ?n = "(fd2pageno (bpm_disk (rm_pool s)))(fh_fd (rm_fh s) := num_pages (hdr s) + 1)"
  have b: "bpm_inv ?b" "fd_inode (bpm_disk ?b) ?fd \<noteq> None" "0 \<le> ?fd" "?fd < MAX_FD" "room 1 ?b"
      "page_table ?b ?pid = None" "fd2pageno (bpm_disk ?b) ?fd = num_pages ?h"
    using parts(1) by (auto simp: rm_pool_ok_def)
  have v: "valid_pno (pid_no ?pid)" using parts(2) small by (simp add: valid_pno_def hdr_wf_def)
  have pid: "?pid = \<lparr>pid_fd = ?fd, pid_no = fd2pageno (bpm_disk ?b) ?fd\<rparr>" using b(7) by simp
  obtain f u where u: "new_page ?fd ?b = (Inr (Some (?pid, f)), u)" "pool.session ?b ?n ?pid f False zero_page u"
    using b(1-4) pid v b(6)
  proof (cases rule: new_page_ok)
    case (made f t)
    have "pool.session ?b ?n ?pid f False zero_page t"
      using made b(6,7) unfolding pool.session_def
      by (auto simp: frame_held_def view_def pins_def)
    with made(1) show ?thesis by (rule that)
  next
    case full
    then show ?thesis using full_no_room [OF b(1)] b(5) by blast
  qed
  note fresh = fresh_page_ok [OF parts(2) first_free_fits [OF parts(3,4)]]
  let ?g1 = "set_next_free (first_free_page_no ?h)" and ?g2 = "set_num_records 0"
    and ?g3 = "set_bitmap (bm_init (nat (bitmap_size ?h)))"
  have z: "length zero_page = PAGE_SIZE" by (simp add: zero_page_def)
  obtain u1 where u1: "\<forall>t. rm_pool t = u \<longrightarrow> edit_bytes f ?g1 t = (Inr (), t\<lparr>rm_pool := u1\<rparr>)"
      "pool.session ?b ?n ?pid f False (?g1 zero_page) u1"
    by (rule edit_bytes_run [OF u(2), where g = ?g1]) (use z in \<open>auto simp: layout\<close>)
  obtain u2 where u2: "\<forall>t. rm_pool t = u1 \<longrightarrow> edit_bytes f ?g2 t = (Inr (), t\<lparr>rm_pool := u2\<rparr>)"
      "pool.session ?b ?n ?pid f False (?g2 (?g1 zero_page)) u2"
    by (rule edit_bytes_run [OF u1(2), where g = ?g2]) (use z in \<open>auto simp: layout\<close>)
  obtain u3 where u3: "\<forall>t. rm_pool t = u2 \<longrightarrow> edit_bytes f ?g3 t = (Inr (), t\<lparr>rm_pool := u3\<rparr>)"
      "pool.session ?b ?n ?pid f False (?g3 (?g2 (?g1 zero_page))) u3"
    by (rule edit_bytes_run [OF u2(2), where g = ?g3])
      (use page_ok_length [OF fresh(1)] in \<open>auto simp: fresh_page_def\<close>)
  have "create_new_page_handle s = (Inr f, s\<lparr>rm_pool := u3,
      rm_fh := (rm_fh s)\<lparr>file_hdr := ?h\<lparr>first_free_page_no := num_pages ?h, num_pages := num_pages ?h + 1\<rparr>\<rparr>\<rparr>)"
    using u(1) u1(1) u2(1) u3(1) by (simp add: create_new_page_handle_def prog_simps hdr_def)
  then show ?thesis by (rule that) (use u3(2) in \<open>simp add: fresh_page_def\<close>)
qed

text \<open>
  \<open>handle_ready\<close>: a pinned page \<open>p\<close> that heads the chain, with the header \<open>h\<close> and the pages the file
  would have if it were unpinned now.
\<close>

definition handle_ready :: "RmState \<Rightarrow> RmFileHdr \<Rightarrow> int \<Rightarrow> byte list \<Rightarrow> bool" where
  "handle_ready s h p d \<longleftrightarrow> pages_ok h ((file_page s)(p \<mapsto> d)) \<and> chain_ok h ((file_page s)(p \<mapsto> d)) \<and>
     first_free_page_no h = p \<and> p \<noteq> RM_NO_PAGE \<and> p \<in> data_pages h \<and> \<not> page_full h d \<and>
     same_layout (hdr s) h \<and> num_pages (hdr s) \<le> num_pages h \<and> num_pages h \<le> num_pages (hdr s) + 1 \<and>
     file_recs h ((file_page s)(p \<mapsto> d)) = rm_recs s"

lemma create_page_handle_run:
  assumes s: "rm_inv s" and small: "num_pages (hdr s) < 524288"
  obtains f u h n p c d where
    "create_page_handle s = (Inr f, s\<lparr>rm_pool := u, rm_fh := (rm_fh s)\<lparr>file_hdr := h\<rparr>\<rparr>)"
    "pool.session (rm_pool s) n \<lparr>pid_fd = fh_fd (rm_fh s), pid_no = p\<rparr> f c d u"
    "n (fh_fd (rm_fh s)) = num_pages h" "handle_ready s h p d"
proof (cases "first_free_page_no (hdr s) = RM_NO_PAGE")
  case False
  note parts = rm_inv_parts [OF s]
  let ?p = "first_free_page_no (hdr s)"
  have p: "?p \<in> data_pages (hdr s)" by (rule chain_head(1) [OF parts(4) False])
  obtain d where d: "file_page s ?p = Some d" "\<not> page_full (hdr s) d"
    using chain_head(2) [OF parts(4) False] by blast
  obtain f u where f: "fetch_page_handle ?p s = (Inr f, s\<lparr>rm_pool := u\<rparr>)"
      "pool.session (rm_pool s) (fd2pageno (bpm_disk (rm_pool s))) \<lparr>pid_fd = fh_fd (rm_fh s), pid_no = ?p\<rparr> f True d u"
    by (rule fetch_page_handle_run [OF parts(1,2) p d(1)])
  have "(file_page s)(?p \<mapsto> d) = file_page s" using d(1) by (simp add: fun_upd_idem)
  then have ready: "handle_ready s (hdr s) ?p d"
    using parts False p d by (simp add: handle_ready_def same_layout_def rm_recs_def)
  have "create_page_handle s = (Inr f, s\<lparr>rm_pool := u, rm_fh := (rm_fh s)\<lparr>file_hdr := hdr s\<rparr>\<rparr>)"
    using False f(1) by (simp add: create_page_handle_def prog_simps hdr_def)
  then show ?thesis by (rule that [OF _ f(2) _ ready]) (use parts(1) in \<open>simp add: rm_pool_ok_def\<close>)
next
  case True
  note parts = rm_inv_parts [OF s]
  let ?h = "hdr s" and ?p = "num_pages (hdr s)"
  let ?h1 = "?h\<lparr>first_free_page_no := ?p, num_pages := ?p + 1\<rparr>"
  let ?F = "(file_page s)(?p \<mapsto> fresh_page ?h)"
  note fresh = fresh_page_ok [OF parts(2) first_free_fits [OF parts(3,4)]]
  have ch: "changed (file_page s) ?F ?p (fresh_page ?h)" by (simp add: changed_def)
  have lay: "same_layout ?h ?h1" by (simp add: same_layout_def)
  have p1: "1 \<le> ?p" using parts(2) by (simp add: hdr_wf_def)
  have dp: "data_pages ?h1 = insert ?p (data_pages ?h)" "?p \<notin> data_pages ?h"
    using p1 by (auto simp: data_pages_def RM_FIRST_RECORD_PAGE_def)
  have ok: "pages_ok ?h1 ?F"
    using parts(3) fresh(1) small same_layout_page(2) [OF lay] dp unfolding pages_ok_def
    by (auto simp: hdr_wf_def)
  have chain: "chain_ok ?h1 ?F"
    by (rule chain_grow [OF parts(3) ch refl fresh(3,2) parts(4)]) simp
  have recs: "file_recs ?h1 ?F = rm_recs s"
    using same_layout_page(1) [OF lay] fresh(4) p1
    by (auto simp: rm_recs_def file_recs_def fun_eq_iff RM_FIRST_RECORD_PAGE_def split: option.split)
  have ready: "handle_ready s ?h1 ?p (fresh_page ?h)"
    using ok chain recs lay fresh(3) same_layout_page(3) [OF lay] p1 dp
    by (simp add: handle_ready_def RM_NO_PAGE_def)
  obtain f u where f: "create_new_page_handle s = (Inr f, s\<lparr>rm_pool := u, rm_fh := (rm_fh s)\<lparr>file_hdr := ?h1\<rparr>\<rparr>)"
    "pool.session (rm_pool s) ((fd2pageno (bpm_disk (rm_pool s)))(fh_fd (rm_fh s) := ?p + 1))
       \<lparr>pid_fd = fh_fd (rm_fh s), pid_no = ?p\<rparr> f False (fresh_page ?h) u"
    by (rule create_new_run [OF s small])
  have "create_page_handle s = (Inr f, s\<lparr>rm_pool := u, rm_fh := (rm_fh s)\<lparr>file_hdr := ?h1\<rparr>\<rparr>)"
    using True f(1) by (simp add: create_page_handle_def prog_simps)
  then show ?thesis by (rule that [OF _ f(2) _ ready]) simp
qed

lemma insert_record_ok:
  assumes s: "rm_inv s" and small: "num_pages (hdr s) < 524288" and buf: "length buf = nat (record_size (hdr s))"
  obtains rid t where "insert_record buf s = (Inr rid, t)" "rm_inv t" "rm_recs s rid = None"
    "rm_recs t = (rm_recs s)(rid \<mapsto> buf)" "same_layout (hdr s) (hdr t)" "num_pages (hdr t) \<le> num_pages (hdr s) + 1"
proof -
  note parts = rm_inv_parts [OF s]
  obtain f u h n p c d where cr:
      "create_page_handle s = (Inr f, s\<lparr>rm_pool := u, rm_fh := (rm_fh s)\<lparr>file_hdr := h\<rparr>\<rparr>)"
      "pool.session (rm_pool s) n \<lparr>pid_fd = fh_fd (rm_fh s), pid_no = p\<rparr> f c d u"
      "n (fh_fd (rm_fh s)) = num_pages h" and ready: "handle_ready s h p d"
    by (rule create_page_handle_run [OF s small])
  let ?b = "rm_pool s" and ?F = "(file_page s)(p \<mapsto> d)" and ?pid = "\<lparr>pid_fd = fh_fd (rm_fh s), pid_no = p\<rparr>"
  have wf: "hdr_wf h" and dok: "page_ok h d" and p: "p \<in> data_pages h"
    using ready unfolding handle_ready_def pages_ok_def by force+
  let ?k = "first_bit False (bitmap h d) (nat (num_records_per_page h))"
  have k: "?k < nat (num_records_per_page h)" "\<not> is_set (bitmap h d) ?k"
    using page_not_full [OF wf dok] ready first_bit_spec [of False "bitmap h d" "nat (num_records_per_page h)"]
    by (auto simp: handle_ready_def)
  have bl: "length buf = nat (record_size h)" using ready buf by (simp add: handle_ready_def same_layout_def)
  note ps = page_put_slot [OF wf dok k(1) bl]
  let ?d1 = "put_slot h ?k buf d"
  have k1: "\<not> is_set (bitmap h ?d1) ?k" using k wf dok bl by (simp add: layout page_ok_def)
  note ok = page_add_ok [OF wf ps(1) k(1) k1]
  let ?d2 = "page_add h ?k ?d1"
  have recs: "page_recs h ?d2 = (page_recs h d)(?k \<mapsto> buf)"
  proof -
    have "page_recs h ?d1 j = page_recs h d j" if "j \<noteq> ?k" for j
      using that wf dok k(1) bl by (auto simp: page_recs_def layout page_ok_def)
    moreover have "get_slot h ?k ?d1 = buf" using wf dok k(1) bl by (simp add: layout page_ok_def)
    ultimately show ?thesis using ok(3) by (auto simp: fun_eq_iff)
  qed
  obtain u1 where u1: "\<forall>t. rm_pool t = u \<longrightarrow> edit_bytes f (put_slot h ?k buf) t = (Inr (), t\<lparr>rm_pool := u1\<rparr>)"
      "pool.session ?b n ?pid f False ?d1 u1"
    by (rule edit_bytes_run [OF cr(2), where g = "put_slot h ?k buf"]) (use page_ok_length [OF ps(1)] in auto)
  obtain u1' u2 where u2: "\<forall>t. rm_pool t = u1 \<longrightarrow>
      edit_bytes f (\<lambda>d. set_bitmap (bm_set (bitmap h d) ?k) d) t = (Inr (), t\<lparr>rm_pool := u1'\<rparr>)"
      "\<forall>t. rm_pool t = u1' \<longrightarrow>
      edit_bytes f (\<lambda>d. set_num_records (num_records (page_hdr d) + 1) d) t = (Inr (), t\<lparr>rm_pool := u2\<rparr>)"
      "pool.session ?b n ?pid f False ?d2 u2"
    by (rule edit_add_run [OF u1(2) wf ps(1) k(1) k1])
  obtain v where v: "\<forall>t. rm_pool t = u2 \<longrightarrow> unpin_handle f True t = (Inr (), t\<lparr>rm_pool := v\<rparr>)" "bpm_inv v"
      "view v ?pid = Some ?d2" "pins v = pins ?b" "keeps {?pid} ?b v" "fd2pageno (bpm_disk v) = n"
    by (rule unpin_handle_run [OF u2(3)]) auto
  let ?h' = "if page_full h ?d2 then h\<lparr>first_free_page_no := next_free_page_no (page_hdr ?d2)\<rparr> else h"
  let ?t = "s\<lparr>rm_pool := v, rm_fh := (rm_fh s)\<lparr>file_hdr := ?h'\<rparr>\<rparr>"
  let ?rid = "\<lparr>page_no = p, slot_no = int ?k\<rparr>"
  have run: "insert_record buf s = (Inr ?rid, ?t)"
  proof -
    have "int ?k < num_records_per_page h" using k(1) by linarith
    then show ?thesis
      using cr(1) u1(1) u2(1,2) v(1) session_frame(2) [OF u2(3)]
        page_bytes_run [OF cr(2)] page_bytes_run [OF u2(3)]
      by (simp add: insert_record_def prog_simps hdr_def page_full_def Let_def)
  qed
  have chF: "changed ?F (file_page ?t) p ?d2"
    using file_page_after [of "(rm_fh s)\<lparr>file_hdr := ?h'\<rparr>" s p v ?d2] v(3,5) by (auto simp: changed_def)
  have nx: "next_free_page_no (page_hdr ?d2) = next_free_page_no (page_hdr d)" using ok(2) ps(2) by simp
  have pok: "pages_ok h ?F" "chain_ok h ?F" "first_free_page_no h = p" "p \<noteq> RM_NO_PAGE" "\<not> page_full h d"
    using ready by (auto simp: handle_ready_def)
  have chain: "chain_ok ?h' (file_page ?t)"
  proof (cases "page_full h ?d2")
    case True
    show ?thesis
      by (rule chain_pop [OF pok(1) chF pok(3) [symmetric] pok(4) _ nx True pok(2)]) (simp_all add: True)
  next
    case False
    then show ?thesis using chain_keep [OF pok(1) chF p _ nx _ pok(2)] pok(5) by simp
  qed
  have lay: "same_layout h ?h'" "num_pages ?h' = num_pages h" by (auto simp: same_layout_def)
  have "pages_ok h (file_page ?t)" by (rule pages_ok_changed [OF pok(1) chF ok(1)])
  then have pgs: "pages_ok ?h' (file_page ?t)" by (rule pages_ok_layout [OF _ lay])
  have pl: "rm_pool_ok ?t"
    using v cr(3) lay(2) ready p
    by (intro rm_pool_ok_after [OF parts(1)]) (auto simp: handle_ready_def data_pages_def)
  have inv: "rm_inv ?t" using pl pgs chain by (simp add: rm_inv_def hdr_def)
  have rc: "rm_recs ?t = (rm_recs s)(?rid \<mapsto> buf)"
    using file_recs_changed [OF pok(1) p _ chF lay recs] ready
    by (simp add: rm_recs_def [of ?t] hdr_def handle_ready_def)
  have none: "rm_recs s ?rid = None"
  proof -
    have "rm_recs s ?rid = file_recs h ?F ?rid" using ready by (simp add: handle_ready_def)
    then show ?thesis using k(2) by (simp add: file_recs_def page_recs_def)
  qed
  show ?thesis by (rule that [OF run inv none rc]) (use ready in \<open>auto simp: hdr_def handle_ready_def same_layout_def\<close>)
qed

section \<open>The interface of a record store\<close>

text \<open>
  What the executors and the transaction code rely on: the store behaves as a map from record ids
  to records in which the store chooses the id of an inserted record.
\<close>

locale record_store =
  fixes inv :: "'s \<Rightarrow> bool"
    and recs :: "'s \<Rightarrow> Rid \<Rightarrow> byte list option"
    and rsize :: "'s \<Rightarrow> nat"
    and grow :: "'s \<Rightarrow> nat"
    and get :: "Rid \<Rightarrow> ('s, byte list) prog"
    and ins :: "byte list \<Rightarrow> ('s, Rid) prog"
    and upd :: "Rid \<Rightarrow> byte list \<Rightarrow> ('s, unit) prog"
    and del :: "Rid \<Rightarrow> ('s, unit) prog"
  assumes get_ok: "inv s \<Longrightarrow> recs s rid = Some r \<Longrightarrow>
      \<exists>t. get rid s = (Inr r, t) \<and> inv t \<and> recs t = recs s \<and> rsize t = rsize s \<and> grow t = grow s"
    and ins_ok: "inv s \<Longrightarrow> 0 < grow s \<Longrightarrow> length buf = rsize s \<Longrightarrow>
      \<exists>rid t. ins buf s = (Inr rid, t) \<and> inv t \<and> recs s rid = None \<and> recs t = (recs s)(rid \<mapsto> buf) \<and>
              rsize t = rsize s \<and> grow s - 1 \<le> grow t"
    and upd_ok: "inv s \<Longrightarrow> recs s rid = Some r \<Longrightarrow> length buf = rsize s \<Longrightarrow>
      \<exists>t. upd rid buf s = (Inr (), t) \<and> inv t \<and> recs t = (recs s)(rid \<mapsto> buf) \<and> rsize t = rsize s \<and> grow t = grow s"
    and del_ok: "inv s \<Longrightarrow> recs s rid = Some r \<Longrightarrow>
      \<exists>t. del rid s = (Inr (), t) \<and> inv t \<and> recs t = (recs s)(rid := None) \<and> rsize t = rsize s \<and> grow t = grow s"
begin

fun ins_all :: "byte list list \<Rightarrow> ('s, Rid list) prog" where
  "ins_all [] = ret []"
| "ins_all (b # bs) = bindE (ins b) (\<lambda>rid. bindE (ins_all bs) (\<lambda>rids. ret (rid # rids)))"

fun get_all :: "Rid list \<Rightarrow> ('s, byte list list) prog" where
  "get_all [] = ret []"
| "get_all (rid # rids) = bindE (get rid) (\<lambda>r. bindE (get_all rids) (\<lambda>rs. ret (r # rs)))"

lemma get_all_ok:
  "inv s \<Longrightarrow> list_all2 (\<lambda>rid r. recs s rid = Some r) rids rs \<Longrightarrow>
   \<exists>t. get_all rids s = (Inr rs, t) \<and> inv t \<and> recs t = recs s"
proof (induction rids arbitrary: rs s)
  case Nil
  then show ?case by (simp add: prog_simps)
next
  case (Cons rid rids)
  then obtain r rs' where rs: "rs = r # rs'" "recs s rid = Some r" "list_all2 (\<lambda>rid r. recs s rid = Some r) rids rs'"
    by (cases rs) auto
  obtain t where t: "get rid s = (Inr r, t)" "inv t" "recs t = recs s" using get_ok [OF Cons.prems(1) rs(2)] by blast
  with Cons.IH [OF t(2), of rs'] rs show ?case by (auto simp: prog_simps)
qed

lemma ins_all_ok:
  "inv s \<Longrightarrow> length bs \<le> grow s \<Longrightarrow> \<forall>b \<in> set bs. length b = rsize s \<Longrightarrow>
   \<exists>rids t. ins_all bs s = (Inr rids, t) \<and> inv t \<and> distinct rids \<and> length rids = length bs \<and>
     (\<forall>rid \<in> set rids. recs s rid = None) \<and> list_all2 (\<lambda>rid r. recs t rid = Some r) rids bs \<and>
     (\<forall>rid. rid \<notin> set rids \<longrightarrow> recs t rid = recs s rid)"
proof (induction bs arbitrary: s)
  case Nil
  then show ?case by (simp add: prog_simps)
next
  case (Cons b bs)
  obtain rid t where t: "ins b s = (Inr rid, t)" "inv t" "recs s rid = None" "recs t = (recs s)(rid \<mapsto> b)"
      "rsize t = rsize s" "grow s - 1 \<le> grow t"
    using ins_ok [OF Cons.prems(1), of b] Cons.prems by auto
  have room: "length bs \<le> grow t" using Cons.prems(2) t(6) by simp
  obtain rids u where u: "ins_all bs t = (Inr rids, u)" "inv u" "distinct rids" "length rids = length bs"
      "\<forall>r \<in> set rids. recs t r = None" "list_all2 (\<lambda>rid r. recs u rid = Some r) rids bs"
      "\<forall>r. r \<notin> set rids \<longrightarrow> recs u r = recs t r"
    using Cons.IH [OF t(2)] Cons.prems(3) t(5) room by auto
  have new: "rid \<notin> set rids" using u(5) t(4) by auto
  have run: "ins_all (b # bs) s = (Inr (rid # rids), u)" using t(1) u(1) by (simp add: prog_simps)
  have old: "recs s r = None" if "r \<in> set rids" for r using that u(5) t(4) new by (metis fun_upd_other)
  have "recs u rid = Some b" using u(7) new t(4) by simp
  moreover have "recs u r = recs s r" if "r \<notin> set (rid # rids)" for r using that u(7) t(4) by simp
  ultimately show ?case using run u new old t(3) by (intro exI [of _ "rid # rids"] exI [of _ u]) auto
qed

lemma ins_all_get_all:
  assumes "inv s" "length bs \<le> grow s" "\<forall>b \<in> set bs. length b = rsize s"
  shows "\<exists>t. bindE (ins_all bs) get_all s = (Inr bs, t) \<and> inv t \<and>
     (\<forall>rid r. recs s rid = Some r \<longrightarrow> recs t rid = Some r)"
proof -
  obtain rids t where t: "ins_all bs s = (Inr rids, t)" "inv t" "\<forall>rid \<in> set rids. recs s rid = None"
      "list_all2 (\<lambda>rid r. recs t rid = Some r) rids bs" "\<forall>rid. rid \<notin> set rids \<longrightarrow> recs t rid = recs s rid"
    using ins_all_ok [OF assms] by blast
  obtain u where "get_all rids t = (Inr bs, u)" "inv u" "recs u = recs t" using get_all_ok [OF t(2,4)] by blast
  moreover from this t have "recs u rid = Some r" if "recs s rid = Some r" for rid r using that by (metis option.distinct(1))
  ultimately show ?thesis using t(1) by (simp add: bindE_def)
qed

end

interpretation rm: record_store rm_inv rm_recs "\<lambda>s. nat (record_size (hdr s))" "\<lambda>s. nat (524288 - num_pages (hdr s))"
  get_record insert_record update_record delete_record
proof unfold_locales
  fix s rid r
  assume s: "rm_inv s" and r: "rm_recs s rid = Some r"
  show "\<exists>t. get_record rid s = (Inr r, t) \<and> rm_inv t \<and> rm_recs t = rm_recs s \<and>
      nat (record_size (hdr t)) = nat (record_size (hdr s)) \<and> nat (524288 - num_pages (hdr t)) = nat (524288 - num_pages (hdr s))"
    by (rule get_record_ok [OF s r]) auto
  show "\<exists>t. delete_record rid s = (Inr (), t) \<and> rm_inv t \<and> rm_recs t = (rm_recs s)(rid := None) \<and>
      nat (record_size (hdr t)) = nat (record_size (hdr s)) \<and> nat (524288 - num_pages (hdr t)) = nat (524288 - num_pages (hdr s))"
    by (rule delete_record_ok [OF s r]) (auto simp: same_layout_def)
next
  fix s rid r and buf :: "byte list"
  assume s: "rm_inv s" and r: "rm_recs s rid = Some r" and buf: "length buf = nat (record_size (hdr s))"
  show "\<exists>t. update_record rid buf s = (Inr (), t) \<and> rm_inv t \<and> rm_recs t = (rm_recs s)(rid \<mapsto> buf) \<and>
      nat (record_size (hdr t)) = nat (record_size (hdr s)) \<and> nat (524288 - num_pages (hdr t)) = nat (524288 - num_pages (hdr s))"
    by (rule update_record_ok [OF s r buf]) auto
next
  fix s and buf :: "byte list"
  assume s: "rm_inv s" and g: "0 < nat (524288 - num_pages (hdr s))" and buf: "length buf = nat (record_size (hdr s))"
  have small: "num_pages (hdr s) < 524288" using g by simp
  show "\<exists>rid t. insert_record buf s = (Inr rid, t) \<and> rm_inv t \<and> rm_recs s rid = None \<and>
      rm_recs t = (rm_recs s)(rid \<mapsto> buf) \<and> nat (record_size (hdr t)) = nat (record_size (hdr s)) \<and>
      nat (524288 - num_pages (hdr s)) - 1 \<le> nat (524288 - num_pages (hdr t))"
    by (rule insert_record_ok [OF s small buf]) (auto simp: same_layout_def)
qed

section \<open>Inserting at a given place\<close>

text \<open>The page after \<^verbatim>\<open>insert_record(rid, buf)\<close>.\<close>

definition page_put :: "RmFileHdr \<Rightarrow> nat \<Rightarrow> byte list \<Rightarrow> byte list \<Rightarrow> byte list" where
  "page_put h k buf d =
     (if is_set (bitmap h d) k then put_slot h k buf d else page_add h k (put_slot h k buf d))"

lemma page_put_ok:
  assumes wf: "hdr_wf h" and d: "page_ok h d" and k: "k < nat (num_records_per_page h)"
    and bl: "length buf = nat (record_size h)"
  shows "page_ok h (page_put h k buf d)"
    "next_free_page_no (page_hdr (page_put h k buf d)) = next_free_page_no (page_hdr d)"
    "page_recs h (page_put h k buf d) = (page_recs h d)(k \<mapsto> buf)"
    "page_full h d \<Longrightarrow> page_full h (page_put h k buf d)"
proof -
  note ps = page_put_slot [OF wf d k bl]
  let ?d1 = "put_slot h k buf d"
  have bm: "bitmap h ?d1 = bitmap h d" using wf d k bl by (simp add: layout page_ok_def)
  have sl: "get_slot h k ?d1 = buf" using wf d k bl by (simp add: layout page_ok_def)
  have other: "page_recs h ?d1 j = page_recs h d j" if "j \<noteq> k" for j
    using that wf d k bl by (auto simp: page_recs_def layout page_ok_def)
  show "page_ok h (page_put h k buf d)"
    "next_free_page_no (page_hdr (page_put h k buf d)) = next_free_page_no (page_hdr d)"
    using ps page_add_ok [OF wf ps(1) k] bm by (auto simp: page_put_def)
  show "page_recs h (page_put h k buf d) = (page_recs h d)(k \<mapsto> buf)"
  proof (cases "is_set (bitmap h d) k")
    case False
    then show ?thesis using page_add_ok(3) [OF wf ps(1) k] bm sl other by (auto simp: page_put_def fun_eq_iff)
  qed (simp add: page_put_def ps(3))
  show "page_full h (page_put h k buf d)" if full: "page_full h d"
  proof -
    have "is_set (bitmap h d) k"
      using full d k bit_count_full [of "bitmap h d" "nat (num_records_per_page h)"] hdr_wf_bounds(2) [OF wf]
      by (auto simp: page_full_def page_ok_def)
    then show ?thesis using full ps(2) by (simp add: page_put_def page_full_def)
  qed
qed

lemma insert_record_at_run:
  assumes s: "rm_inv s" and p: "page_no rid \<in> data_pages (hdr s)" "file_page s (page_no rid) = Some d"
    and k: "slot_no rid = int k" "k < nat (num_records_per_page (hdr s))"
    and buf: "length buf = nat (record_size (hdr s))"
  defines "d' \<equiv> page_put (hdr s) k buf d"
  obtains v where "insert_record_at rid buf s = (Inr (), s\<lparr>rm_pool := v, rm_fh := (rm_fh s)\<lparr>file_hdr :=
      (hdr s)\<lparr>first_free_page_no := if page_full (hdr s) d' then next_free_page_no (page_hdr d)
                                  else first_free_page_no (hdr s)\<rparr>\<rparr>\<rparr>)"
    "bpm_inv v" "view v \<lparr>pid_fd = fh_fd (rm_fh s), pid_no = page_no rid\<rparr> = Some d'" "pins v = pins (rm_pool s)"
    "keeps {\<lparr>pid_fd = fh_fd (rm_fh s), pid_no = page_no rid\<rparr>} (rm_pool s) v"
    "fd2pageno (bpm_disk v) = fd2pageno (bpm_disk (rm_pool s))"
proof -
  note parts = rm_inv_parts [OF s]
  let ?h = "hdr s" and ?b = "rm_pool s" and ?n = "fd2pageno (bpm_disk (rm_pool s))"
    and ?pid = "\<lparr>pid_fd = fh_fd (rm_fh s), pid_no = page_no rid\<rparr>" and ?d1 = "put_slot (hdr s) k buf d"
  note dok = parts(5) [OF p]
  note ps = page_put_slot [OF parts(2) dok k(2) buf]
  note po = page_put_ok [OF parts(2) dok k(2) buf, folded d'_def]
  obtain f u where f: "fetch_page_handle (page_no rid) s = (Inr f, s\<lparr>rm_pool := u\<rparr>)"
      "pool.session ?b ?n ?pid f True d u"
    by (rule fetch_page_handle_run [OF parts(1,2) p])
  obtain u1 where u1: "\<forall>t. rm_pool t = u \<longrightarrow> edit_bytes f (put_slot ?h k buf) t = (Inr (), t\<lparr>rm_pool := u1\<rparr>)"
      "pool.session ?b ?n ?pid f False ?d1 u1"
    by (rule edit_bytes_run [OF f(2), where g = "put_slot ?h k buf"]) (use page_ok_length [OF ps(1)] in auto)
  have bm: "bitmap ?h ?d1 = bitmap ?h d" using parts(2) dok k buf by (simp add: layout page_ok_def)
  note pb1 = page_bytes_run [OF u1(2)]
  obtain u2 where u2: "\<forall>t. rm_pool t = u1 \<longrightarrow> mark_slot f ?h k t = (Inr (), t\<lparr>rm_pool := u2\<rparr>)"
      "pool.session ?b ?n ?pid f False d' u2"
  proof (cases "is_set (bitmap ?h d) k")
    case True
    then have "d' = ?d1" by (simp add: d'_def page_put_def)
    with u1(2) True bm show ?thesis by (intro that [of u1]) (auto simp: mark_slot_def prog_simps pb1)
  next
    case False
    with bm have n1: "\<not> is_set (bitmap ?h ?d1) k" by simp
    show ?thesis
      by (rule edit_add_run [OF u1(2) parts(2) ps(1) k(2) n1])
        (rule that, use False bm in \<open>auto simp: mark_slot_def prog_simps pb1 d'_def page_put_def\<close>)
  qed
  obtain v where v: "\<forall>t. rm_pool t = u2 \<longrightarrow> unpin_handle f True t = (Inr (), t\<lparr>rm_pool := v\<rparr>)" "bpm_inv v"
      "view v ?pid = Some d'" "pins v = pins ?b" "keeps {?pid} ?b v" "fd2pageno (bpm_disk v) = ?n"
    by (rule unpin_handle_run [OF u2(2)]) auto
  have run: "insert_record_at rid buf s = (Inr (), s\<lparr>rm_pool := v, rm_fh := (rm_fh s)\<lparr>file_hdr :=
      ?h\<lparr>first_free_page_no := if page_full ?h d' then next_free_page_no (page_hdr d)
                             else first_free_page_no ?h\<rparr>\<rparr>\<rparr>)"
    using f(1) u1(1) u2(1) v(1) k po(2) page_bytes_run [OF u2(2)]
    by (simp add: insert_record_at_def prog_simps check_slot_run page_full_def) (simp add: hdr_def)
  show ?thesis by (rule that [OF run v(2-6)])
qed

end
