(* ===== verification/Record_Spec.thy ===== *)
theory Record_Spec
  imports Record_File
begin

text \<open>
  What the record files promise, stated on \<^verbatim>\<open>record/rm_file_handle.cpp\<close>: every operation
  implements the map from record ids to records, and the chain of pages with free slots is kept by
  all operations but an overwrite of a full page with \<^verbatim>\<open>insert_record(rid, buf)\<close>.
\<close>

section \<open>An example file\<close>

text \<open>Three pages: the header, a page of seven records of 512 bytes, and an empty page.\<close>

definition demo_hdr :: RmFileHdr where
  "demo_hdr = (new_file_hdr 512)\<lparr>num_pages := 3, first_free_page_no := 2\<rparr>"

definition demo_full :: "byte list" where
  "demo_full = set_bitmap [0xFE] (set_num_records 7 (set_next_free RM_NO_PAGE zero_page))"

definition demo_free :: "byte list" where
  "demo_free = set_bitmap [0] (set_num_records 0 (set_next_free RM_NO_PAGE zero_page))"

definition demo_rm :: RmState where
  "demo_rm = \<lparr>rm_pool = new_BufferPoolManager 4
       ((new_DiskManager (one_file_os (zero_page @ demo_full @ demo_free)))\<lparr>fd2pageno := (\<lambda>_. 3)\<rparr>),
     rm_fh = \<lparr>fh_fd = 3, file_hdr = demo_hdr\<rparr>\<rparr>"

text \<open>The insertions and the lookups of a client as one program.\<close>

fun insert_records :: "byte list list \<Rightarrow> (RmState, Rid list) prog" where
  "insert_records [] = ret []"
| "insert_records (b # bs) = bindE (insert_record b) (\<lambda>rid. bindE (insert_records bs) (\<lambda>rids. ret (rid # rids)))"

fun get_records :: "Rid list \<Rightarrow> (RmState, byte list list) prog" where
  "get_records [] = ret []"
| "get_records (rid # rids) = bindE (get_record rid) (\<lambda>r. bindE (get_records rids) (\<lambda>rs. ret (r # rs)))"

lemma demo_hdr_fields:
  "record_size demo_hdr = 512" "num_pages demo_hdr = 3" "num_records_per_page demo_hdr = 7"
  "first_free_page_no demo_hdr = 2" "bitmap_size demo_hdr = 1" "hdr demo_rm = demo_hdr"
  by (simp_all add: demo_hdr_def new_file_hdr_def records_per_page_eq BITMAP_WIDTH_def demo_rm_def hdr_def)

lemma demo_hdr_wf: "hdr_wf demo_hdr"
  by (simp add: hdr_wf_def demo_hdr_fields RM_MAX_RECORD_SIZE_def records_per_page_eq BITMAP_WIDTH_def)

lemma demo_full_set: "k < 7 \<Longrightarrow> is_set [0xFE] k"
proof -
  assume "k < 7"
  then consider "k = 0" | "k = 1" | "k = 2" | "k = 3" | "k = 4" | "k = 5" | "k = 6" by linarith
  then show ?thesis
    by cases (simp_all add: is_set_def get_bucket_def get_bit_def BITMAP_WIDTH_def BITMAP_HIGHEST_BIT_def)
qed

lemma fits_small: "- 1 \<le> v \<Longrightarrow> v \<le> 1000 \<Longrightarrow> fits_signed 4 v"
  by (simp add: fits_signed_def)

lemma zero_page_length [simp]: "length zero_page = PAGE_SIZE"
  by (simp add: zero_page_def)

lemma demo_full_parts:
  "length demo_full = PAGE_SIZE" "bitmap demo_hdr demo_full = [0xFE]"
  "page_hdr demo_full = \<lparr>next_free_page_no = RM_NO_PAGE, num_records = 7\<rparr>"
  using demo_hdr_wf
  by (simp_all add: demo_full_def layout demo_hdr_fields fits_small RM_NO_PAGE_def)

lemma demo_free_parts:
  "length demo_free = PAGE_SIZE" "bitmap demo_hdr demo_free = [0]"
  "page_hdr demo_free = \<lparr>next_free_page_no = RM_NO_PAGE, num_records = 0\<rparr>"
  using demo_hdr_wf
  by (simp_all add: demo_free_def layout demo_hdr_fields fits_small RM_NO_PAGE_def)

lemma demo_pages_ok:
  "page_ok demo_hdr demo_full" "page_full demo_hdr demo_full"
  "page_ok demo_hdr demo_free" "\<not> page_full demo_hdr demo_free"
proof -
  have "bit_count [0xFE] 7 = 7" using demo_full_set by (simp add: bit_count_full)
  moreover have "bit_count [0] 7 = 0" using bit_count_init [of 7 1] by (simp add: bm_init_def)
  ultimately show "page_ok demo_hdr demo_full" "page_full demo_hdr demo_full"
    "page_ok demo_hdr demo_free" "\<not> page_full demo_hdr demo_free"
    by (simp_all add: page_ok_def page_full_def demo_full_parts demo_free_parts demo_hdr_fields)
qed

lemma demo_pool_fields:
  "page_table (rm_pool demo_rm) q = None" "pool_size (rm_pool demo_rm) = 4"
  "fd2pageno (bpm_disk (rm_pool demo_rm)) g = 3" "fh_fd (rm_fh demo_rm) = 3"
  by (simp_all add: demo_rm_def new_BufferPoolManager_def)

lemma demo_inode: "fd_inode (bpm_disk (rm_pool demo_rm)) fd = (if fd = 3 then Some 0 else None)"
  by (simp add: demo_rm_def new_BufferPoolManager_def fd_inode_def new_DiskManager_def one_file_os_def)

lemma demo_data: "fd_data (bpm_disk (rm_pool demo_rm)) 3 = zero_page @ demo_full @ demo_free"
  by (simp add: fd_data_def demo_inode)
    (simp add: demo_rm_def new_BufferPoolManager_def new_DiskManager_def one_file_os_def)

lemma demo_file_page: "file_page demo_rm 1 = Some demo_full" "file_page demo_rm 2 = Some demo_free"
  by (simp_all add: file_page_def view_def demo_pool_fields page_on_disk_def disk_page_def demo_data
      valid_pno_def demo_full_parts demo_free_parts read_at_def)

lemma demo_pages: "data_pages demo_hdr = {1, 2}"
  by (auto simp: data_pages_def demo_hdr_fields RM_FIRST_RECORD_PAGE_def)

lemma demo_rm_inv: "rm_inv demo_rm"
proof -
  have "dm_wf ((new_DiskManager (one_file_os (zero_page @ demo_full @ demo_free)))\<lparr>fd2pageno := (\<lambda>_. 3)\<rparr>)"
    by (simp add: dm_wf_def fd_inode_def new_DiskManager_def one_file_os_def)
  then have "bpm_inv (rm_pool demo_rm)" by (simp add: demo_rm_def bpm_inv_new)
  moreover have "room 1 (rm_pool demo_rm)" by (simp add: room_def pinned_def pins_def demo_pool_fields)
  ultimately have "rm_pool_ok demo_rm"
    by (simp add: rm_pool_ok_def demo_pool_fields demo_inode demo_hdr_fields MAX_FD_def)
  moreover have "pages_ok (hdr demo_rm) (file_page demo_rm)"
    by (simp add: pages_ok_def demo_hdr_fields demo_hdr_wf demo_pages demo_file_page demo_pages_ok)
  moreover have "chain_ok (hdr demo_rm) (file_page demo_rm)"
    unfolding chain_ok_def
    by (rule exI [of _ "[2]"])
      (auto simp: demo_hdr_fields demo_pages demo_file_page demo_pages_ok demo_free_parts)
  ultimately show ?thesis by (simp add: rm_inv_def)
qed

lemma demo_recs: "rm_recs demo_rm \<lparr>page_no = 1, slot_no = 0\<rparr> = Some (get_slot demo_hdr 0 demo_full)"
  by (simp add: rm_recs_def file_recs_def demo_hdr_fields demo_file_page page_recs_def demo_full_parts
      demo_full_set RM_FIRST_RECORD_PAGE_def)

lemma demo_slot_length: "length (get_slot demo_hdr 0 demo_full) = 512"
  using slot_bounds [OF demo_hdr_wf, of 0]
  by (simp add: get_slot_def demo_hdr_fields demo_full_parts)

section \<open>Properties\<close>

text \<open>C30 The records and the bitmap of a page fit into it: with the number of slots that
  \<open>create_file\<close> computes, the page header, the bitmap and all slots stay within \<open>PAGE_SIZE\<close>, there is
  at least one slot, and the bitmap has a bit for each.\<close>

theorem record_layout_fits:
  assumes "1 \<le> rs" and "rs \<le> RM_MAX_RECORD_SIZE"
  shows "12 + bitmap_size (new_file_hdr rs) + num_records_per_page (new_file_hdr rs) * rs \<le> int PAGE_SIZE \<and>
     1 \<le> num_records_per_page (new_file_hdr rs) \<and>
     num_records_per_page (new_file_hdr rs) \<le> 8 * bitmap_size (new_file_hdr rs)"
  using layout_arith [of rs] assms
  by (simp add: new_file_hdr_def records_per_page_eq BITMAP_WIDTH_def PAGE_SIZE_def RM_MAX_RECORD_SIZE_def add.commute)

theorem record_layout_fits_witness:
  "12 + bitmap_size (new_file_hdr 100) + num_records_per_page (new_file_hdr 100) * 100 \<le> int PAGE_SIZE"
  using record_layout_fits [of 100] by (simp add: RM_MAX_RECORD_SIZE_def)

text \<open>C2 \<open>insert_record\<close> stores the record under an id that held none, keeps every other record, and
  keeps the file's invariant (record counts, free-page chain, page cache), whether it reuses a page
  with a free slot or appends a page.\<close>

theorem insert_record_correct:
  assumes "rm_inv s" and "num_pages (hdr s) < 524288" and "length buf = nat (record_size (hdr s))"
  shows "\<exists>rid t. insert_record buf s = (Inr rid, t) \<and> rm_inv t \<and> rm_recs s rid = None \<and>
     rm_recs t = (rm_recs s)(rid \<mapsto> buf)"
  by (rule insert_record_ok [OF assms]) auto

theorem insert_record_correct_witness:
  "\<exists>rid t. insert_record (replicate 512 5) demo_rm = (Inr rid, t) \<and> rm_inv t \<and>
     rm_recs t rid = Some (replicate 512 5)"
proof -
  obtain rid t where "insert_record (replicate 512 5) demo_rm = (Inr rid, t)" "rm_inv t"
      "rm_recs t = (rm_recs demo_rm)(rid \<mapsto> replicate 512 5)"
    using insert_record_correct [OF demo_rm_inv, of "replicate 512 5"] by (auto simp: demo_hdr_fields)
  then show ?thesis by auto
qed

text \<open>C3 Reading, updating and deleting a stored record behave as lookup, update and removal in the map
  of records; deleting from a full page puts that page back on the free-page chain.\<close>

theorem record_ops_correct:
  assumes "rm_inv s" and "rm_recs s rid = Some r" and "length buf = nat (record_size (hdr s))"
  shows "(\<exists>t. get_record rid s = (Inr r, t) \<and> rm_inv t \<and> rm_recs t = rm_recs s) \<and>
     (\<exists>t. update_record rid buf s = (Inr (), t) \<and> rm_inv t \<and> rm_recs t = (rm_recs s)(rid \<mapsto> buf)) \<and>
     (\<exists>t. delete_record rid s = (Inr (), t) \<and> rm_inv t \<and> rm_recs t = (rm_recs s)(rid := None))"
  using rm.get_ok [OF assms(1,2)] rm.upd_ok [OF assms] rm.del_ok [OF assms(1,2)] by blast

theorem record_ops_correct_witness:
  "(\<exists>t. get_record \<lparr>page_no = 1, slot_no = 0\<rparr> demo_rm = (Inr (get_slot demo_hdr 0 demo_full), t)) \<and>
   (\<exists>t. delete_record \<lparr>page_no = 1, slot_no = 0\<rparr> demo_rm = (Inr (), t) \<and> rm_inv t \<and>
      rm_recs t \<lparr>page_no = 1, slot_no = 0\<rparr> = None)"
proof -
  note use = record_ops_correct [OF demo_rm_inv demo_recs, of "get_slot demo_hdr 0 demo_full"]
  have "length (get_slot demo_hdr 0 demo_full) = nat (record_size (hdr demo_rm))"
    by (simp add: demo_slot_length demo_hdr_fields)
  from use [OF this] show ?thesis by (metis fun_upd_same)
qed

lemma insert_records_all: "insert_records bs = rm.ins_all bs"
  by (induction bs) simp_all

lemma get_records_all: "get_records rids = rm.get_all rids"
  by (induction rids) simp_all

text \<open>Inserting any number of records and reading them back by the returned ids yields the records
  in order, and the records stored before are still there.\<close>

lemma insert_get_roundtrip:
  assumes "rm_inv s" and "int (length bs) \<le> 524288 - num_pages (hdr s)"
    and "\<forall>b \<in> set bs. length b = nat (record_size (hdr s))"
  shows "\<exists>t. bindE (insert_records bs) get_records s = (Inr bs, t) \<and> rm_inv t \<and>
     (\<forall>rid r. rm_recs s rid = Some r \<longrightarrow> rm_recs t rid = Some r)"
proof -
  have eq: "insert_records = rm.ins_all" "get_records = rm.get_all"
    by (simp_all add: fun_eq_iff insert_records_all get_records_all)
  show ?thesis unfolding eq by (rule rm.ins_all_get_all) (use assms in auto)
qed

lemma insert_get_roundtrip_witness:
  "\<exists>t. bindE (insert_records [replicate 512 1, replicate 512 2]) get_records demo_rm =
     (Inr [replicate 512 1, replicate 512 2], t)"
  using insert_get_roundtrip [OF demo_rm_inv, of "[replicate 512 1, replicate 512 2]"]
  by (auto simp: demo_hdr_fields)

lemma insert_record_at_ok:
  assumes "rm_inv s" and "page_no rid \<in> data_pages (hdr s)" and "file_page s (page_no rid) = Some d"
    and "0 \<le> slot_no rid" and "slot_no rid < num_records_per_page (hdr s)"
    and "length buf = nat (record_size (hdr s))"
    and "\<not> page_full (hdr s) (page_put (hdr s) (nat (slot_no rid)) buf d) \<or>
         page_no rid = first_free_page_no (hdr s)"
  obtains t where "insert_record_at rid buf s = (Inr (), t)" "rm_inv t" "rm_recs t = (rm_recs s)(rid \<mapsto> buf)"
    "same_layout (hdr s) (hdr t)" "num_pages (hdr t) = num_pages (hdr s)"
proof -
  let ?k = "nat (slot_no rid)" and ?h = "hdr s"
  let ?d' = "page_put ?h ?k buf d"
  have k: "slot_no rid = int ?k" "?k < nat (num_records_per_page ?h)" using assms(4,5) by auto
  note parts = rm_inv_parts [OF assms(1)]
  note po = page_put_ok [OF parts(2) parts(5) [OF assms(2,3)] k(2) assms(6)]
  let ?q = "if page_full ?h ?d' then next_free_page_no (page_hdr d) else first_free_page_no ?h"
  let ?h' = "?h\<lparr>first_free_page_no := ?q\<rparr>"
  obtain v where v: "insert_record_at rid buf s =
        (Inr (), s\<lparr>rm_pool := v, rm_fh := (rm_fh s)\<lparr>file_hdr := ?h'\<rparr>\<rparr>)"
      "bpm_inv v" "view v \<lparr>pid_fd = fh_fd (rm_fh s), pid_no = page_no rid\<rparr> = Some ?d'" "pins v = pins (rm_pool s)"
      "keeps {\<lparr>pid_fd = fh_fd (rm_fh s), pid_no = page_no rid\<rparr>} (rm_pool s) v"
      "fd2pageno (bpm_disk v) = fd2pageno (bpm_disk (rm_pool s))"
    by (rule insert_record_at_run [OF assms(1-3) k assms(6)])
  let ?t = "s\<lparr>rm_pool := v, rm_fh := (rm_fh s)\<lparr>file_hdr := ?h'\<rparr>\<rparr>"
  have chain: "chain_ok ?h' (file_page ?t)" if ch: "changed (file_page s) (file_page ?t) (page_no rid) ?d'"
  proof (cases "page_full ?h ?d'")
    case True
    with assms(7) have p: "page_no rid = first_free_page_no ?h" by blast
    have "page_no rid \<noteq> RM_NO_PAGE" using assms(2) by (auto simp: data_pages_def RM_NO_PAGE_def RM_FIRST_RECORD_PAGE_def)
    from chain_pop [OF parts(3) ch p this assms(3) po(2) True parts(4)] show ?thesis using True po(2) by simp
  next
    case False
    then have "page_full ?h ?d' = page_full ?h d" using po(4) by blast
    from chain_keep [OF parts(3) ch assms(2,3) po(2) this parts(4)] show ?thesis using False by simp
  qed
  note after = rm_inv_new_hdr [OF assms(1-3) v(2-6) po(1) refl chain po(3)]
  have "rm_recs ?t = (rm_recs s)(rid \<mapsto> buf)" using after(2) Rid_eq [OF k(1)] by simp
  then show ?thesis using that [OF v(1) after(1)] by (simp add: same_layout_def hdr_def)
qed

text \<open>C31 \<open>insert_record(rid, buf)\<close>, which recovery and rollback use, stores the record under \<open>rid\<close> whether
  or not the slot was in use, and keeps the invariant whenever the page is not full afterwards or was
  the first page of the chain.\<close>

theorem insert_record_at_correct:
  assumes "rm_inv s" and "page_no rid \<in> data_pages (hdr s)" and "file_page s (page_no rid) = Some d"
    and "0 \<le> slot_no rid" and "slot_no rid < num_records_per_page (hdr s)"
    and "length buf = nat (record_size (hdr s))"
    and "\<not> page_full (hdr s) (page_put (hdr s) (nat (slot_no rid)) buf d) \<or>
         page_no rid = first_free_page_no (hdr s)"
  shows "\<exists>t. insert_record_at rid buf s = (Inr (), t) \<and> rm_inv t \<and> rm_recs t = (rm_recs s)(rid \<mapsto> buf)"
  by (rule insert_record_at_ok [OF assms]) blast

theorem insert_record_at_correct_witness:
  "\<exists>t. insert_record_at \<lparr>page_no = 2, slot_no = 3\<rparr> (replicate 512 4) demo_rm = (Inr (), t) \<and> rm_inv t \<and>
     rm_recs t \<lparr>page_no = 2, slot_no = 3\<rparr> = Some (replicate 512 4)"
proof -
  let ?rid = "\<lparr>page_no = 2, slot_no = 3\<rparr> :: Rid"
  have "\<exists>t. insert_record_at ?rid (replicate 512 4) demo_rm = (Inr (), t) \<and> rm_inv t \<and>
      rm_recs t = (rm_recs demo_rm)(?rid \<mapsto> replicate 512 4)"
    by (rule insert_record_at_correct [OF demo_rm_inv]) (simp_all add: demo_hdr_fields demo_pages demo_file_page)
  then show ?thesis by auto
qed

lemma broken_chain:
  assumes "q \<in> data_pages h" "F q = Some e" "\<not> page_full h e" "first_free_page_no h = RM_NO_PAGE"
  shows "\<not> chain_ok h F"
proof
  assume "chain_ok h F"
  then obtain ps where ps: "free_chain F RM_NO_PAGE ps"
      "set ps = {p \<in> data_pages h. \<exists>d. F p = Some d \<and> \<not> page_full h d}"
    using assms(4) by (auto simp: chain_ok_def)
  have "q \<in> set ps" using ps(2) assms(1-3) by auto
  then obtain p qs where c: "ps = p # qs" by (cases ps) auto
  have "p \<in> data_pages h" using ps(2) c by auto
  with ps(1) c show False by (auto simp: data_pages_def RM_NO_PAGE_def RM_FIRST_RECORD_PAGE_def)
qed

text \<open>C34 Overwriting a record of a full page with \<open>insert_record(rid, buf)\<close> makes the stale successor of
  that page the head of the free-page chain: when the page's old successor is the end of the list,
  every page with free slots is lost to later insertions.\<close>

theorem insert_record_at_loses_chain:
  assumes "rm_inv s" and "page_no rid \<in> data_pages (hdr s)" and "file_page s (page_no rid) = Some d"
    and "0 \<le> slot_no rid" and "slot_no rid < num_records_per_page (hdr s)"
    and "length buf = nat (record_size (hdr s))"
    and "page_full (hdr s) d" and "next_free_page_no (page_hdr d) = RM_NO_PAGE"
    and "first_free_page_no (hdr s) \<noteq> RM_NO_PAGE"
  shows "\<exists>t. insert_record_at rid buf s = (Inr (), t) \<and> first_free_page_no (hdr t) = RM_NO_PAGE \<and>
     \<not> chain_ok (hdr t) (file_page t)"
proof -
  let ?k = "nat (slot_no rid)" and ?h = "hdr s"
  let ?d' = "page_put ?h ?k buf d" and ?q = "first_free_page_no (hdr s)"
  have k: "slot_no rid = int ?k" "?k < nat (num_records_per_page ?h)" using assms(4,5) by auto
  note parts = rm_inv_parts [OF assms(1)]
  note po = page_put_ok [OF parts(2) parts(5) [OF assms(2,3)] k(2) assms(6)]
  let ?h' = "?h\<lparr>first_free_page_no := RM_NO_PAGE\<rparr>"
  obtain v where v: "insert_record_at rid buf s =
        (Inr (), s\<lparr>rm_pool := v, rm_fh := (rm_fh s)\<lparr>file_hdr := ?h'\<rparr>\<rparr>)"
      "view v \<lparr>pid_fd = fh_fd (rm_fh s), pid_no = page_no rid\<rparr> = Some ?d'"
      "keeps {\<lparr>pid_fd = fh_fd (rm_fh s), pid_no = page_no rid\<rparr>} (rm_pool s) v"
    by (rule insert_record_at_run [OF assms(1-3) k assms(6)]) (use po(4) [OF assms(7)] assms(8) in simp)
  let ?t = "s\<lparr>rm_pool := v, rm_fh := (rm_fh s)\<lparr>file_hdr := ?h'\<rparr>\<rparr>"
  have ch: "changed (file_page s) (file_page ?t) (page_no rid) ?d'" using v by (intro file_page_after) auto
  obtain e where e: "?q \<in> data_pages ?h" "file_page s ?q = Some e" "\<not> page_full ?h e"
    using chain_head [OF parts(4) assms(9)] by blast
  have "?q \<noteq> page_no rid" using e assms(3,7) by auto
  then have fp: "file_page ?t ?q = Some e" using ch e(2) by (simp add: changed_def)
  have "\<not> chain_ok ?h' (file_page ?t)"
    by (rule broken_chain [where q = ?q and e = e]) (use e fp in \<open>auto simp: data_pages_def page_full_def\<close>)
  with v(1) show ?thesis by (auto simp: hdr_def)
qed

theorem insert_record_at_loses_chain_witness:
  "\<exists>t. insert_record_at \<lparr>page_no = 1, slot_no = 0\<rparr> (replicate 512 4) demo_rm = (Inr (), t) \<and>
     first_free_page_no (hdr t) = RM_NO_PAGE \<and> \<not> chain_ok (hdr t) (file_page t)"
  by (rule insert_record_at_loses_chain [OF demo_rm_inv, where d = demo_full])
    (simp_all add: demo_hdr_fields demo_pages demo_file_page demo_pages_ok demo_full_parts, simp add: RM_NO_PAGE_def)

end
