(* ===== verification/Rm_Scan.thy ===== *)
theory Rm_Scan
  imports Record_Spec
begin

text \<open>
  \<^verbatim>\<open>record/rm_scan.{h,cpp}\<close>: the sequential scan of a record file. The scan object is its current
  record id; the loop over the pages is a recursive function whose measure is the number of pages
  left. A client that steps the scan to its end is shown to see every record exactly once, in the
  order of pages and slots, and to reach the end.
\<close>

section \<open>The scan\<close>

text \<open>Fetch a page, look at its bytes, unpin it.\<close>

definition scan_page :: "int \<Rightarrow> (RmFileHdr \<Rightarrow> byte list \<Rightarrow> 'a) \<Rightarrow> (RmState, 'a) prog" where
  "scan_page p g =
     bindE (fetch_page_handle p) (\<lambda>f.
     bindE (page_bytes f) (\<lambda>d.
     bindE (gets hdr) (\<lambda>h.
     thenE (unpin_handle f False) (ret (g h d)))))"

function scan_pages :: "int \<Rightarrow> int \<Rightarrow> (RmState, Rid) prog" where
  "scan_pages n p =
     (if p < n then
        bindE (scan_page p (\<lambda>h d. first_bit True (bitmap h d) (nat (num_records_per_page h)))) (\<lambda>slot.
        bindE (gets hdr) (\<lambda>h.
          if int slot < num_records_per_page h then ret \<lparr>page_no = p, slot_no = int slot\<rparr>
          else scan_pages n (p + 1)))
      else ret \<lparr>page_no = n, slot_no = 0\<rparr>)"
  by pat_completeness auto
termination by (relation "measure (\<lambda>(n, p). nat (n - p))") auto

declare scan_pages.simps [simp del]

definition new_RmScan :: "(RmState, Rid) prog" where
  "new_RmScan = bindE (gets hdr) (\<lambda>h. scan_pages (num_pages h) RM_FIRST_RECORD_PAGE)"

definition scan_is_end :: "RmState \<Rightarrow> Rid \<Rightarrow> bool" where
  "scan_is_end s rid \<longleftrightarrow> num_pages (hdr s) \<le> page_no rid"

definition scan_next :: "Rid \<Rightarrow> (RmState, Rid) prog" where
  "scan_next rid =
     bindE (gets (\<lambda>s. scan_is_end s rid)) (\<lambda>e.
     thenE (assertE (\<not> e))
     (bindE (scan_page (page_no rid)
        (\<lambda>h d. next_bit True (bitmap h d) (nat (num_records_per_page h)) (slot_no rid))) (\<lambda>slot.
     bindE (gets hdr) (\<lambda>h.
       if int slot < num_records_per_page h then ret (rid\<lparr>slot_no := int slot\<rparr>)
       else scan_pages (num_pages h) (page_no rid + 1)))))"

text \<open>A client's loop \<^verbatim>\<open>for (; !scan.is_end(); scan.next())\<close>; \<open>None\<close> when the fuel runs out.\<close>

fun scan_loop :: "nat \<Rightarrow> Rid \<Rightarrow> (RmState, Rid list option) prog" where
  "scan_loop 0 rid = ret None"
| "scan_loop (Suc n) rid =
     bindE (gets (\<lambda>s. scan_is_end s rid)) (\<lambda>e.
       if e then ret (Some [])
       else bindE (scan_next rid) (\<lambda>rid'.
            bindE (scan_loop n rid') (\<lambda>rids. ret (map_option (Cons rid) rids))))"

definition scan_all :: "nat \<Rightarrow> (RmState, Rid list option) prog" where
  "scan_all n = bindE new_RmScan (scan_loop n)"

section \<open>The list of records\<close>

definition slots_from :: "RmFileHdr \<Rightarrow> byte list \<Rightarrow> nat \<Rightarrow> nat list" where
  "slots_from h d k = filter (is_set (bitmap h d)) [k..<nat (num_records_per_page h)]"

definition rids_in :: "RmFileHdr \<Rightarrow> (int \<Rightarrow> byte list option) \<Rightarrow> int \<Rightarrow> nat \<Rightarrow> Rid list" where
  "rids_in h F p k = map (\<lambda>j. \<lparr>page_no = p, slot_no = int j\<rparr>) (slots_from h (the (F p)) k)"

definition pages_from :: "RmFileHdr \<Rightarrow> (int \<Rightarrow> byte list option) \<Rightarrow> int \<Rightarrow> Rid list" where
  "pages_from h F p = concat (map (\<lambda>q. rids_in h F q 0) [p..num_pages h - 1])"

definition file_rids :: "RmState \<Rightarrow> Rid list" where
  "file_rids s = pages_from (hdr s) (file_page s) RM_FIRST_RECORD_PAGE"

definition rest :: "RmFileHdr \<Rightarrow> (int \<Rightarrow> byte list option) \<Rightarrow> Rid \<Rightarrow> Rid list" where
  "rest h F rid = (if num_pages h \<le> page_no rid then []
     else rids_in h F (page_no rid) (nat (slot_no rid)) @ pages_from h F (page_no rid + 1))"

lemma slots_from_next:
  fixes h d k
  defines "n \<equiv> nat (num_records_per_page h)"
  defines "j \<equiv> next_from True (bitmap h d) n k"
  assumes "k \<le> n"
  shows "slots_from h d k = (if j < n then j # slots_from h d (Suc j) else [])"
proof -
  have j: "j \<le> n" "k \<le> j" "\<And>i. k \<le> i \<Longrightarrow> i < j \<Longrightarrow> \<not> is_set (bitmap h d) i" "j < n \<Longrightarrow> is_set (bitmap h d) j"
    using next_from_spec [OF assms(3), of True "bitmap h d"] by (auto simp: j_def)
  have split: "[k..<n] = [k..<j] @ [j..<n]" using j(1,2) by (metis upt_add_eq_append le_add_diff_inverse)
  have none: "filter (is_set (bitmap h d)) [k..<j] = []" using j(3) by (auto simp: filter_empty_conv)
  show ?thesis using none j(4) by (auto simp: slots_from_def split n_def [symmetric] upt_conv_Cons)
qed

lemma pages_from_step:
  "pages_from h F p = (if p < num_pages h then rids_in h F p 0 @ pages_from h F (p + 1) else [])"
  by (auto simp: pages_from_def upto.simps [of p])

lemma pages_from_cong:
  assumes "\<And>q. q \<in> data_pages h \<Longrightarrow> F q = G q" "RM_FIRST_RECORD_PAGE \<le> p"
  shows "pages_from h F p = pages_from h G p"
  using assms by (auto simp: pages_from_def rids_in_def data_pages_def intro!: arg_cong [of _ _ concat])

section \<open>Reading leaves the file as it is\<close>

text \<open>What reading a file \<open>fd\<close> leaves of the pool: no pin is kept and no page of another file is touched.\<close>

definition read_only :: "int \<Rightarrow> BufferPoolManager \<Rightarrow> BufferPoolManager \<Rightarrow> bool" where
  "read_only fd b u \<longleftrightarrow> bpm_inv u \<and> pins u = pins b \<and> fd2pageno (bpm_disk u) = fd2pageno (bpm_disk b) \<and>
     keeps {pid. pid_fd pid = fd} b u"

definition same_file :: "RmState \<Rightarrow> RmState \<Rightarrow> bool" where
  "same_file s t \<longleftrightarrow> rm_inv t \<and> hdr t = hdr s \<and> (\<forall>q \<in> data_pages (hdr s). file_page t q = file_page s q) \<and>
     rm_fh t = rm_fh s \<and> read_only (fh_fd (rm_fh s)) (rm_pool s) (rm_pool t)"

lemma same_file_refl: "rm_inv s \<Longrightarrow> same_file s s"
  by (simp add: same_file_def read_only_def keeps_refl rm_inv_def rm_pool_ok_def)

lemma same_file_trans:
  assumes "same_file s t" "same_file t u"
  shows "same_file s u"
proof -
  have "keeps {pid. pid_fd pid = fh_fd (rm_fh s)} (rm_pool s) (rm_pool u)"
    using assms keeps_trans [of "{pid. pid_fd pid = fh_fd (rm_fh s)}" "rm_pool s" "rm_pool t" "rm_pool u"]
    by (simp add: same_file_def read_only_def)
  then show ?thesis using assms by (simp add: same_file_def read_only_def)
qed

lemma scan_page_run:
  assumes s: "rm_inv s" and p: "p \<in> data_pages (hdr s)"
  obtains t where "scan_page p g s = (Inr (g (hdr s) (the (file_page s p))), t)" "same_file s t"
proof -
  note parts = rm_inv_parts [OF s]
  obtain d where d: "file_page s p = Some d" using parts(3) p by (auto simp: pages_ok_def)
  obtain f u where f: "fetch_page_handle p s = (Inr f, s\<lparr>rm_pool := u\<rparr>)"
    "pool.session (rm_pool s) (fd2pageno (bpm_disk (rm_pool s))) \<lparr>pid_fd = fh_fd (rm_fh s), pid_no = p\<rparr> f True d u"
    by (rule fetch_page_handle_run [OF parts(1,2) p d])
  obtain v where v: "\<forall>t. rm_pool t = u \<longrightarrow> unpin_handle f False t = (Inr (), t\<lparr>rm_pool := v\<rparr>)" "bpm_inv v"
      "view v \<lparr>pid_fd = fh_fd (rm_fh s), pid_no = p\<rparr> = Some d" "pins v = pins (rm_pool s)"
      "keeps {\<lparr>pid_fd = fh_fd (rm_fh s), pid_no = p\<rparr>} (rm_pool s) v"
      "fd2pageno (bpm_disk v) = fd2pageno (bpm_disk (rm_pool s))"
    by (rule unpin_handle_run [OF f(2)]) auto
  have run: "scan_page p g s = (Inr (g (hdr s) d), s\<lparr>rm_pool := v\<rparr>)"
    using f(1) v(1) by (simp add: scan_page_def prog_simps page_bytes_run [OF f(2)])
  have inv: "rm_inv (s\<lparr>rm_pool := v\<rparr>)"
    by (rule rm_inv_same_hdr(1) [OF s p d v(2-6) parts(5) [OF p d] refl refl])
  have chg: "changed (file_page s) (file_page (s\<lparr>rm_pool := v\<rparr>)) p d"
    using file_page_after [of "rm_fh s" s p v d] v(3,5) by simp
  have ch1: "file_page (s\<lparr>rm_pool := v\<rparr>) p = Some d" using chg by (simp add: changed_def)
  note ch2 = changed_known [OF chg pages_ok_known [OF parts(3)]]
  have "file_page (s\<lparr>rm_pool := v\<rparr>) q = file_page s q" if "q \<in> data_pages (hdr s)" for q
    using ch1 ch2 [OF that] d by (cases "q = p") simp_all
  moreover have "keeps {pid. pid_fd pid = fh_fd (rm_fh s)} (rm_pool s) v" by (rule keeps_mono [OF v(5)]) auto
  ultimately have "same_file s (s\<lparr>rm_pool := v\<rparr>)" using inv v(2,4,6) by (simp add: same_file_def read_only_def hdr_def)
  moreover have "g (hdr s) (the (file_page s p)) = g (hdr s) d" using d by simp
  ultimately show ?thesis using run by (intro that [of "s\<lparr>rm_pool := v\<rparr>"]) simp_all
qed

lemma scan_pages_run:
  assumes "rm_inv s" "n = num_pages (hdr s)" "RM_FIRST_RECORD_PAGE \<le> p"
  shows "\<exists>rid t. scan_pages n p s = (Inr rid, t) \<and> same_file s t \<and>
     rest (hdr s) (file_page s) rid = pages_from (hdr s) (file_page s) p \<and>
     RM_FIRST_RECORD_PAGE \<le> page_no rid \<and>
     (page_no rid < n \<longrightarrow> 0 \<le> slot_no rid \<and> slot_no rid < num_records_per_page (hdr s) \<and>
        is_set (bitmap (hdr s) (the (file_page s (page_no rid)))) (nat (slot_no rid)))"
  using assms
proof (induction n p arbitrary: s rule: scan_pages.induct)
  case (1 n p)
  note n = "1.prems"(2)
  show ?case
  proof (cases "p < n")
    case False
    then have "pages_from (hdr s) (file_page s) p = []"
      using n by (simp add: pages_from_def)
    moreover have "rest (hdr s) (file_page s) \<lparr>page_no = n, slot_no = 0\<rparr> = []" using n by (simp add: rest_def)
    moreover have "1 \<le> n" using rm_inv_parts(2) [OF "1.prems"(1)] n by (simp add: hdr_wf_def)
    ultimately show ?thesis using False same_file_refl [OF "1.prems"(1)]
      by (subst scan_pages.simps) (simp add: prog_simps RM_FIRST_RECORD_PAGE_def)
  next
    case True
    let ?h = "hdr s" and ?F = "file_page s" and ?N = "nat (num_records_per_page (hdr s))"
    let ?d = "the (?F p)"
    let ?k = "first_bit True (bitmap ?h ?d) ?N"
    have p: "p \<in> data_pages ?h" using True n "1.prems"(3) by (simp add: data_pages_def)
    obtain t where t: "scan_page p (\<lambda>h d. first_bit True (bitmap h d) (nat (num_records_per_page h))) s = (Inr ?k, t)"
        "same_file s t"
      by (rule scan_page_run [OF "1.prems"(1) p])
    have ht: "hdr t = ?h" "rm_inv t" using t(2) by (simp_all add: same_file_def)
    have sl: "slots_from ?h ?d 0 = (if ?k < ?N then ?k # slots_from ?h ?d (Suc ?k) else [])"
      using slots_from_next [of 0 ?h ?d] by (simp add: first_bit_def next_bit_def)
    have ki: "int ?k < num_records_per_page ?h \<longleftrightarrow> ?k < ?N" by linarith
    show ?thesis
    proof (cases "?k < ?N")
      case k: True
      let ?rid = "\<lparr>page_no = p, slot_no = int ?k\<rparr>"
      have "slots_from ?h ?d ?k = ?k # slots_from ?h ?d (Suc ?k)"
      proof -
        have "is_set (bitmap ?h ?d) ?k" using first_bit_spec [of True "bitmap ?h ?d" ?N] k by simp
        then show ?thesis using k by (simp add: slots_from_def upt_conv_Cons)
      qed
      then have "rest ?h ?F ?rid = pages_from ?h ?F p"
        using True n sl k by (subst pages_from_step) (simp add: rest_def rids_in_def)
      moreover have "scan_pages n p s = (Inr ?rid, t)"
        using True t(1) k ht ki by (subst scan_pages.simps) (simp add: prog_simps del: zless_nat_conj)
      moreover have "is_set (bitmap ?h ?d) ?k" using first_bit_spec [of True "bitmap ?h ?d" ?N] k by simp
      ultimately show ?thesis using t(2) k "1.prems"(3) by auto
    next
      case k: False
      have run: "scan_pages n p s = scan_pages n (p + 1) t"
        using True t(1) k ht ki by (subst scan_pages.simps) (simp add: prog_simps del: zless_nat_conj)
      have pf: "pages_from ?h ?F p = pages_from ?h ?F (p + 1)"
        using True n sl k by (subst pages_from_step) (simp add: rids_in_def)
      have same: "q \<in> data_pages ?h \<Longrightarrow> file_page t q = ?F q" for q using t(2) by (simp add: same_file_def)
      have "\<exists>rid u. scan_pages n (p + 1) t = (Inr rid, u) \<and> same_file t u \<and>
         rest ?h (file_page t) rid = pages_from ?h (file_page t) (p + 1) \<and> RM_FIRST_RECORD_PAGE \<le> page_no rid \<and>
         (page_no rid < n \<longrightarrow> 0 \<le> slot_no rid \<and> slot_no rid < num_records_per_page ?h \<and>
            is_set (bitmap ?h (the (file_page t (page_no rid)))) (nat (slot_no rid)))"
        using "1.IH" [of ?k ?h t] True k ki ht n "1.prems"(3) by simp
      then obtain rid u where u: "scan_pages n (p + 1) t = (Inr rid, u)" "same_file t u"
         "rest ?h (file_page t) rid = pages_from ?h (file_page t) (p + 1)" "RM_FIRST_RECORD_PAGE \<le> page_no rid"
         "page_no rid < n \<longrightarrow> 0 \<le> slot_no rid \<and> slot_no rid < num_records_per_page ?h \<and>
            is_set (bitmap ?h (the (file_page t (page_no rid)))) (nat (slot_no rid))"
        by blast
      have "pages_from ?h (file_page t) (p + 1) = pages_from ?h ?F (p + 1)"
        using same "1.prems"(3) by (intro pages_from_cong) auto
      moreover have "rest ?h (file_page t) rid = rest ?h ?F rid"
        using u(4) same pages_from_cong [of ?h "file_page t" ?F "page_no rid + 1"]
        by (auto simp: rest_def rids_in_def data_pages_def)
      moreover have "page_no rid < n \<Longrightarrow> file_page t (page_no rid) = ?F (page_no rid)"
        using same u(4) n by (simp add: data_pages_def)
      ultimately show ?thesis using run pf u same_file_trans [OF t(2) u(2)] by auto
    qed
  qed
qed

lemma rest_same:
  assumes "same_file s t" "RM_FIRST_RECORD_PAGE \<le> page_no rid"
  shows "rest (hdr t) (file_page t) rid = rest (hdr s) (file_page s) rid"
proof -
  have h: "hdr t = hdr s" and same: "\<And>q. q \<in> data_pages (hdr s) \<Longrightarrow> file_page t q = file_page s q"
    using assms(1) by (simp_all add: same_file_def)
  have "pages_from (hdr s) (file_page t) (page_no rid + 1) = pages_from (hdr s) (file_page s) (page_no rid + 1)"
    using same assms(2) by (intro pages_from_cong) auto
  then show ?thesis using same assms(2) by (auto simp: rest_def h rids_in_def data_pages_def)
qed

text \<open>\<open>on_record s rid\<close>: the scan stands on a record, or at its end.\<close>

definition on_record :: "RmState \<Rightarrow> Rid \<Rightarrow> bool" where
  "on_record s rid \<longleftrightarrow> RM_FIRST_RECORD_PAGE \<le> page_no rid \<and>
     (page_no rid < num_pages (hdr s) \<longrightarrow> 0 \<le> slot_no rid \<and> slot_no rid < num_records_per_page (hdr s) \<and>
        is_set (bitmap (hdr s) (the (file_page s (page_no rid)))) (nat (slot_no rid)))"

lemma on_record_same: "same_file s t \<Longrightarrow> on_record t rid = on_record s rid"
  by (auto simp: on_record_def same_file_def data_pages_def)

lemma scan_next_run:
  assumes s: "rm_inv s" and r: "on_record s rid" "\<not> scan_is_end s rid"
  obtains rid' t where "scan_next rid s = (Inr rid', t)" "same_file s t" "on_record s rid'"
    "rest (hdr s) (file_page s) rid = rid # rest (hdr s) (file_page s) rid'"
proof -
  let ?h = "hdr s" and ?F = "file_page s" and ?p = "page_no rid" and ?N = "nat (num_records_per_page (hdr s))"
  let ?d = "the (?F ?p)" and ?i = "nat (slot_no rid)"
  have p: "?p < num_pages ?h" "?p \<in> data_pages ?h" and i: "0 \<le> slot_no rid" "?i < ?N" "is_set (bitmap ?h ?d) ?i"
    using r by (auto simp: on_record_def scan_is_end_def data_pages_def)
  let ?k = "next_bit True (bitmap ?h ?d) ?N (slot_no rid)"
  have kf: "?k = next_from True (bitmap ?h ?d) ?N (Suc ?i)" using i by (simp add: next_bit_def nat_add_distrib)
  have sl: "slots_from ?h ?d (Suc ?i) = (if ?k < ?N then ?k # slots_from ?h ?d (Suc ?k) else [])"
    unfolding kf by (rule slots_from_next) (use i(2) in linarith)
  have si: "slots_from ?h ?d ?i = ?i # slots_from ?h ?d (Suc ?i)" using i by (simp add: slots_from_def upt_conv_Cons)
  have ri: "rest ?h ?F rid = rid # rids_in ?h ?F ?p (Suc ?i) @ pages_from ?h ?F (?p + 1)"
    using p i(1) si by (simp add: rest_def rids_in_def)
  obtain t where t: "scan_page ?p (\<lambda>h d. next_bit True (bitmap h d) (nat (num_records_per_page h)) (slot_no rid)) s = (Inr ?k, t)"
      "same_file s t"
    by (rule scan_page_run [OF s p(2)])
  have ht: "hdr t = ?h" "rm_inv t" using t(2) by (simp_all add: same_file_def)
  have ki: "int ?k < num_records_per_page ?h \<longleftrightarrow> ?k < ?N" by linarith
  show ?thesis
  proof (cases "?k < ?N")
    case True
    have set: "is_set (bitmap ?h ?d) ?k"
      using next_from_spec [of "Suc ?i" ?N True "bitmap ?h ?d"] i True kf by auto
    then have sk: "slots_from ?h ?d ?k = ?k # slots_from ?h ?d (Suc ?k)" using True by (simp add: slots_from_def upt_conv_Cons)
    have run: "scan_next rid s = (Inr (rid\<lparr>slot_no := int ?k\<rparr>), t)"
      using r(2) t(1) ht ki True by (simp add: scan_next_def prog_simps del: zless_nat_conj)
    have "rest ?h ?F rid = rid # rest ?h ?F (rid\<lparr>slot_no := int ?k\<rparr>)"
      using ri p(1) sl sk True by (simp add: rest_def rids_in_def)
    moreover have "on_record s (rid\<lparr>slot_no := int ?k\<rparr>)" using r(1) set ki True by (simp add: on_record_def)
    ultimately show ?thesis using that run t(2) by blast
  next
    case False
    have p1: "RM_FIRST_RECORD_PAGE \<le> ?p + 1" using r(1) by (simp add: on_record_def)
    have n: "num_pages ?h = num_pages (hdr t)" by (simp add: ht)
    obtain rid' u where u: "scan_pages (num_pages ?h) (?p + 1) t = (Inr rid', u)" "same_file t u"
        "rest (hdr t) (file_page t) rid' = pages_from (hdr t) (file_page t) (?p + 1)" "on_record t rid'"
      using scan_pages_run [OF ht(2) n p1] n by (auto simp: on_record_def)
    have run: "scan_next rid s = (Inr rid', u)"
      using r(2) t(1) ht ki False u(1) by (simp add: scan_next_def prog_simps del: zless_nat_conj)
    have pf: "pages_from (hdr t) (file_page t) (?p + 1) = pages_from ?h ?F (?p + 1)"
      unfolding ht(1) using t(2) p1 by (intro pages_from_cong) (auto simp: same_file_def)
    have on: "on_record s rid'" using u(4) on_record_same [OF t(2)] by simp
    then have "rest ?h ?F rid' = pages_from ?h ?F (?p + 1)"
      using u(3) pf rest_same [OF t(2), of rid'] by (simp add: on_record_def)
    then have "rest ?h ?F rid = rid # rest ?h ?F rid'" using ri sl False by (simp add: rids_in_def)
    with run on same_file_trans [OF t(2) u(2)] show ?thesis by (intro that)
  qed
qed

lemma scan_loop_run:
  "rm_inv s \<Longrightarrow> on_record s rid \<Longrightarrow> length (rest (hdr s) (file_page s) rid) < n \<Longrightarrow>
   \<exists>t. scan_loop n rid s = (Inr (Some (rest (hdr s) (file_page s) rid)), t) \<and> same_file s t"
proof (induction n arbitrary: rid s)
  case 0
  then show ?case by simp
next
  case (Suc n)
  show ?case
  proof (cases "scan_is_end s rid")
    case True
    then show ?thesis using same_file_refl [OF Suc.prems(1)]
      by (auto simp: prog_simps rest_def scan_is_end_def)
  next
    case False
    obtain rid' t where t: "scan_next rid s = (Inr rid', t)" "same_file s t" "on_record s rid'"
        "rest (hdr s) (file_page s) rid = rid # rest (hdr s) (file_page s) rid'"
      by (rule scan_next_run [OF Suc.prems(1,2) False])
    have on: "on_record t rid'" using t(3) on_record_same [OF t(2)] by simp
    have rs: "rest (hdr t) (file_page t) rid' = rest (hdr s) (file_page s) rid'"
      using t(3) by (intro rest_same [OF t(2)]) (simp add: on_record_def)
    have "rm_inv t" using t(2) by (simp add: same_file_def)
    from Suc.IH [OF this on] Suc.prems(3) t(4) rs
    obtain u where "scan_loop n rid' t = (Inr (Some (rest (hdr s) (file_page s) rid')), u)" "same_file t u" by auto
    with t False same_file_trans [OF t(2)] show ?thesis by (auto simp: prog_simps)
  qed
qed

lemma set_file_rids:
  assumes "rm_inv s" shows "set (file_rids s) = {rid. rm_recs s rid \<noteq> None}"
proof -
  have "rm_recs s rid \<noteq> None \<longleftrightarrow> rid \<in> set (file_rids s)" for rid
  proof -
    obtain p j where rid: "rid = \<lparr>page_no = p, slot_no = j\<rparr>" by (cases rid)
    let ?N = "nat (num_records_per_page (hdr s))"
    have mem: "rid \<in> set (file_rids s) \<longleftrightarrow> p \<in> data_pages (hdr s) \<and> 0 \<le> j \<and> nat j < ?N \<and>
        is_set (bitmap (hdr s) (the (file_page s p))) (nat j)"
    proof -
      have "rid \<in> set (file_rids s) \<longleftrightarrow> p \<in> data_pages (hdr s) \<and> rid \<in> set (rids_in (hdr s) (file_page s) p 0)"
        by (auto simp: rid file_rids_def pages_from_def data_pages_def rids_in_def)
      moreover have "rid \<in> set (rids_in (hdr s) (file_page s) p 0) \<longleftrightarrow>
          (\<exists>k < ?N. is_set (bitmap (hdr s) (the (file_page s p))) k \<and> j = int k)"
        by (auto simp: rid rids_in_def slots_from_def)
      moreover have "\<dots> \<longleftrightarrow> 0 \<le> j \<and> nat j < ?N \<and> is_set (bitmap (hdr s) (the (file_page s p))) (nat j)"
        by (metis int_nat_eq nat_int of_nat_0_le_iff)
      ultimately show ?thesis by blast
    qed
    show ?thesis
    proof (cases "p \<in> data_pages (hdr s)")
      case True
      then obtain d where "file_page s p = Some d" using rm_inv_parts(3) [OF assms] by (auto simp: pages_ok_def)
      with True show ?thesis
        unfolding mem by (auto simp: rid rm_recs_def file_recs_def page_recs_def data_pages_def)
    next
      case False
      then show ?thesis unfolding mem by (auto simp: rid rm_recs_def file_recs_def data_pages_def)
    qed
  qed
  then show ?thesis by auto
qed

lemma distinct_file_rids: "distinct (file_rids s)"
proof -
  have d: "distinct (rids_in h F q 0)" for h F q
    by (simp add: rids_in_def slots_from_def distinct_map inj_on_def)
  have p: "rid \<in> set (rids_in h F q 0) \<Longrightarrow> page_no rid = q" for h F q rid by (auto simp: rids_in_def)
  have "distinct (concat (map (\<lambda>q. rids_in h F q 0) qs))" if "distinct qs" for h F qs
    using that
  proof (induction qs)
    case (Cons q qs)
    have "set (rids_in h F q 0) \<inter> set (rids_in h F q' 0) = {}" if "q' \<in> set qs" for q'
      using that Cons.prems p [of _ h F q] p [of _ h F q'] by fastforce
    then show ?case using Cons d by auto
  qed simp
  then show ?thesis by (simp add: file_rids_def pages_from_def)
qed

section \<open>Properties\<close>

text \<open>C17 A scan that is stepped until \<open>is_end\<close> terminates, visits every record of the file exactly once
  in the order of pages and slots, and leaves the file as it was.\<close>

theorem scan_visits_every_record:
  assumes "rm_inv s" and "length (file_rids s) < n"
  shows "\<exists>t. scan_all n s = (Inr (Some (file_rids s)), t) \<and> distinct (file_rids s) \<and>
     set (file_rids s) = {rid. rm_recs s rid \<noteq> None} \<and> same_file s t"
proof -
  obtain rid t where t: "scan_pages (num_pages (hdr s)) RM_FIRST_RECORD_PAGE s = (Inr rid, t)" "same_file s t"
      "rest (hdr s) (file_page s) rid = file_rids s" "on_record s rid"
    using scan_pages_run [OF assms(1) refl order.refl] by (auto simp: on_record_def file_rids_def)
  have tt: "rm_inv t" "on_record t rid" "rest (hdr t) (file_page t) rid = file_rids s"
    using t on_record_same [OF t(2)] rest_same [OF t(2), of rid] by (auto simp: same_file_def on_record_def)
  obtain u where "scan_loop n rid t = (Inr (Some (file_rids s)), u)" "same_file t u"
    using scan_loop_run [OF tt(1,2), of n] tt(3) assms(2) by auto
  then show ?thesis
    using t same_file_trans [OF t(2)] distinct_file_rids [of s] set_file_rids [OF assms(1)]
    by (auto simp: scan_all_def new_RmScan_def prog_simps)
qed

lemma demo_file_rids: "file_rids demo_rm = map (\<lambda>j. \<lparr>page_no = 1, slot_no = int j\<rparr>) [0..<7]"
proof -
  have "slots_from demo_hdr demo_full 0 = [0..<7]"
    by (simp add: slots_from_def demo_hdr_fields demo_full_parts filter_id_conv demo_full_set)
  moreover have "slots_from demo_hdr demo_free 0 = []"
    using is_set_bm_init [of _ 1] by (auto simp: slots_from_def demo_hdr_fields demo_free_parts filter_empty_conv bm_init_def)
  moreover have "[RM_FIRST_RECORD_PAGE..num_pages (hdr demo_rm) - 1] = [1, 2]"
    by (simp add: demo_hdr_fields RM_FIRST_RECORD_PAGE_def upto.simps)
  ultimately show ?thesis
    by (simp add: file_rids_def pages_from_def rids_in_def demo_hdr_fields demo_file_page)
qed

theorem scan_visits_every_record_witness:
  "\<exists>t. scan_all 8 demo_rm = (Inr (Some (map (\<lambda>j. \<lparr>page_no = 1, slot_no = int j\<rparr>) [0..<7])), t)"
  using scan_visits_every_record [OF demo_rm_inv, of 8] by (auto simp: demo_file_rids)

end
