(* ===== verification/Txn_Defs.thy ===== *)
theory Txn_Defs
  imports Prelude
begin

text \<open>
  \<^verbatim>\<open>transaction/txn_defs.h\<close> and \<^verbatim>\<open>transaction/transaction.h\<close>: the data of a transaction. A write
  record keeps the table, the record id and the bytes needed to undo the write. The two page sets of
  the index latches are not kept: no modelled operation reads them.
\<close>

datatype TransactionState = DEFAULT | GROWING | SHRINKING | COMMITTED | ABORTED

datatype IsolationLevel = READ_UNCOMMITTED | REPEATABLE_READ | READ_COMMITTED | SERIALIZABLE

datatype WType = INSERT_TUPLE | DELETE_TUPLE | UPDATE_TUPLE

record WriteRecord =
  wtype :: WType
  wr_tab_name :: string
  wr_rid :: Rid
  wr_record :: "byte list"
  wr_new_rid :: "Rid option"

definition new_WriteRecord :: "WType \<Rightarrow> string \<Rightarrow> Rid \<Rightarrow> byte list \<Rightarrow> WriteRecord" where
  "new_WriteRecord wt tab rid rec =
     \<lparr>wtype = wt, wr_tab_name = tab, wr_rid = rid, wr_record = rec, wr_new_rid = None\<rparr>"

definition set_new_rid :: "Rid \<Rightarrow> WriteRecord \<Rightarrow> WriteRecord" where
  "set_new_rid r wr = wr\<lparr>wr_new_rid := Some r\<rparr>"

definition has_new_rid :: "WriteRecord \<Rightarrow> bool" where
  "has_new_rid wr \<longleftrightarrow> wr_new_rid wr \<noteq> None"

datatype LockDataType = TABLE | RECORD

record LockDataId =
  lk_fd :: int
  lk_rid :: Rid
  lk_type :: LockDataType

text \<open>The two constructors; the second takes the record id.\<close>

definition table_LockDataId :: "int \<Rightarrow> LockDataId" where
  "table_LockDataId fd = \<lparr>lk_fd = fd, lk_rid = \<lparr>page_no = -1, slot_no = -1\<rparr>, lk_type = TABLE\<rparr>"

definition record_LockDataId :: "int \<Rightarrow> Rid \<Rightarrow> LockDataId" where
  "record_LockDataId fd rid = \<lparr>lk_fd = fd, lk_rid = rid, lk_type = RECORD\<rparr>"

record Transaction =
  txn_mode :: bool
  txn_state :: TransactionState
  isolation_level :: IsolationLevel
  prev_lsn :: int
  txn_id :: int
  start_ts :: int
  write_set :: "WriteRecord list"
  lock_set :: "LockDataId list"

text \<open>The uninitialised \<^verbatim>\<open>txn_mode_\<close> and \<^verbatim>\<open>start_ts_\<close> are given here as false and 0.\<close>

definition new_Transaction :: "int \<Rightarrow> Transaction" where
  "new_Transaction i = \<lparr>txn_mode = False, txn_state = DEFAULT, isolation_level = SERIALIZABLE,
     prev_lsn = INVALID_LSN, txn_id = i, start_ts = 0, write_set = [], lock_set = []\<rparr>"

definition append_write_record :: "WriteRecord \<Rightarrow> Transaction \<Rightarrow> Transaction" where
  "append_write_record wr t = t\<lparr>write_set := write_set t @ [wr]\<rparr>"

text \<open>\<^verbatim>\<open>std::unordered_set::insert\<close>, with the elements kept in a list.\<close>

definition add_lock :: "LockDataId \<Rightarrow> Transaction \<Rightarrow> Transaction" where
  "add_lock lid t = t\<lparr>lock_set := List.insert lid (lock_set t)\<rparr>"

lemma lock_data_id_distinct: "table_LockDataId fd \<noteq> record_LockDataId fd' rid"
  by (simp add: table_LockDataId_def record_LockDataId_def)

end
