(* ===== verification/Lock_Manager.thy ===== *)
theory Lock_Manager
  imports Txn_Defs
begin

text \<open>
  \<^verbatim>\<open>transaction/concurrency/lock_manager.{h,cpp}\<close>: the multi-granularity lock table with no-wait
  deadlock prevention. An operation runs under the latch, so it is one step on the lock table and the
  transaction that calls it. Every lock table reachable by the steps of any transactions grants only
  compatible modes on an item; a request that a held weaker mode meets is shown to return success
  without the mode in the cases the code does not upgrade.
\<close>

section \<open>The lock table\<close>

datatype LockMode = SHARED | EXLUCSIVE | INTENTION_SHARED | INTENTION_EXCLUSIVE | S_IX

datatype GroupLockMode = GM_NON_LOCK | GM_IS | GM_IX | GM_S | GM_X | GM_SIX

record LockRequest =
  lr_txn_id :: int
  lock_mode :: LockMode
  granted :: bool

record LockRequestQueue =
  request_queue :: "LockRequest list"
  group_lock_mode :: GroupLockMode

definition new_LockRequestQueue :: LockRequestQueue where
  "new_LockRequestQueue = \<lparr>request_queue = [], group_lock_mode = GM_NON_LOCK\<rparr>"

type_synonym lock_table = "LockDataId \<Rightarrow> LockRequestQueue option"

record LockEnv =
  lk_table :: lock_table
  lk_txn :: Transaction

fun compatible :: "LockMode \<Rightarrow> GroupLockMode \<Rightarrow> bool" where
  "compatible requested held =
     (if held = GM_NON_LOCK then True
      else case requested of
        SHARED \<Rightarrow> held = GM_IS \<or> held = GM_S
      | EXLUCSIVE \<Rightarrow> False
      | INTENTION_SHARED \<Rightarrow> held \<noteq> GM_X
      | INTENTION_EXCLUSIVE \<Rightarrow> held = GM_IS \<or> held = GM_IX
      | S_IX \<Rightarrow> held = GM_IS)"

fun upgrade_group :: "GroupLockMode \<Rightarrow> LockMode \<Rightarrow> GroupLockMode" where
  "upgrade_group cur added =
     (if cur = GM_X \<or> added = EXLUCSIVE then GM_X
      else if cur = GM_S \<and> added = INTENTION_EXCLUSIVE then GM_SIX
      else if cur = GM_IX \<and> added = SHARED then GM_SIX
      else if cur = GM_SIX then GM_SIX
      else case added of
        SHARED \<Rightarrow> if cur = GM_IS \<or> cur = GM_NON_LOCK then GM_S else GM_S
      | INTENTION_EXCLUSIVE \<Rightarrow> if cur = GM_IS \<or> cur = GM_NON_LOCK then GM_IX else GM_IX
      | INTENTION_SHARED \<Rightarrow> if cur = GM_NON_LOCK then GM_IS else cur
      | S_IX \<Rightarrow> GM_SIX
      | EXLUCSIVE \<Rightarrow> cur)"

definition mine :: "int \<Rightarrow> LockRequest \<Rightarrow> bool" where
  "mine tid r \<longleftrightarrow> lr_txn_id r = tid \<and> granted r"

definition others_granted :: "int \<Rightarrow> LockRequest \<Rightarrow> bool" where
  "others_granted tid r \<longleftrightarrow> lr_txn_id r \<noteq> tid \<and> granted r"

text \<open>Change the first request that satisfies \<open>P\<close>, as the loops with \<^verbatim>\<open>break\<close> do; and erase it.\<close>

fun upd_first :: "('a \<Rightarrow> bool) \<Rightarrow> ('a \<Rightarrow> 'a) \<Rightarrow> 'a list \<Rightarrow> 'a list" where
  "upd_first P f [] = []"
| "upd_first P f (x # xs) = (if P x then f x # xs else x # upd_first P f xs)"

fun del_first :: "('a \<Rightarrow> bool) \<Rightarrow> 'a list \<Rightarrow> 'a list" where
  "del_first P [] = []"
| "del_first P (x # xs) = (if P x then xs else x # del_first P xs)"

definition put_queue :: "LockDataId \<Rightarrow> LockRequestQueue \<Rightarrow> (LockEnv, unit) prog" where
  "put_queue lid q = modify (\<lambda>s. s\<lparr>lk_table := (lk_table s)(lid \<mapsto> q)\<rparr>)"

definition remember_lock :: "LockDataId \<Rightarrow> (LockEnv, unit) prog" where
  "remember_lock lid = modify (\<lambda>s. s\<lparr>lk_txn := add_lock lid (lk_txn s)\<rparr>)"

definition upgrade_to_X :: "LockDataId \<Rightarrow> LockRequestQueue \<Rightarrow> int \<Rightarrow> (LockEnv, bool) prog" where
  "upgrade_to_X lid q tid =
     (if \<exists>r \<in> set (request_queue q). others_granted tid r
      then raise (TransactionAbortException tid UPGRADE_CONFLICT)
      else thenE (put_queue lid \<lparr>request_queue = upd_first (mine tid) (\<lambda>r. r\<lparr>lock_mode := EXLUCSIVE\<rparr>) (request_queue q),
                                 group_lock_mode = upgrade_group (group_lock_mode q) EXLUCSIVE\<rparr>)
           (thenE (remember_lock lid) (ret True)))"

definition upgrade_to_SIX :: "LockDataId \<Rightarrow> LockRequestQueue \<Rightarrow> int \<Rightarrow> (LockEnv, bool) prog" where
  "upgrade_to_SIX lid q tid =
     (if \<exists>r \<in> set (request_queue q). others_granted tid r \<and> lock_mode r = SHARED
      then raise (TransactionAbortException tid UPGRADE_CONFLICT)
      else thenE (put_queue lid \<lparr>request_queue = upd_first (mine tid) (\<lambda>r. r\<lparr>lock_mode := S_IX\<rparr>) (request_queue q),
                                 group_lock_mode = upgrade_group (group_lock_mode q) INTENTION_EXCLUSIVE\<rparr>)
           (thenE (remember_lock lid) (ret True)))"

definition grant :: "LockDataId \<Rightarrow> LockRequestQueue \<Rightarrow> int \<Rightarrow> LockMode \<Rightarrow> (LockEnv, bool) prog" where
  "grant lid q tid mode =
     (if \<not> compatible mode (group_lock_mode q) \<or> (\<exists>r \<in> set (request_queue q). \<not> granted r)
      then raise (TransactionAbortException tid DEADLOCK_PREVENTION)
      else thenE (put_queue lid \<lparr>request_queue = request_queue q @ [\<lparr>lr_txn_id = tid, lock_mode = mode, granted = True\<rparr>],
                                 group_lock_mode = upgrade_group (group_lock_mode q) mode\<rparr>)
           (thenE (remember_lock lid) (ret True)))"

text \<open>\<^verbatim>\<open>lock_table_[lid]\<close> inserts an empty queue when there is none, before anything can be thrown.\<close>

definition lock :: "LockDataId \<Rightarrow> LockMode \<Rightarrow> (LockEnv, bool) prog" where
  "lock lid mode =
     bindE (gets (\<lambda>s. case lk_table s lid of None \<Rightarrow> new_LockRequestQueue | Some q \<Rightarrow> q)) (\<lambda>q.
     thenE (put_queue lid q)
     (bindE (gets (\<lambda>s. txn_id (lk_txn s))) (\<lambda>tid.
       case List.find (mine tid) (request_queue q) of
         Some r \<Rightarrow>
           if mode = lock_mode r then ret True
           else if mode = EXLUCSIVE \<and> lock_mode r = SHARED then upgrade_to_X lid q tid
           else if mode = INTENTION_EXCLUSIVE \<and> lock_mode r = SHARED then upgrade_to_SIX lid q tid
           else ret True
       | None \<Rightarrow> grant lid q tid mode)))"

definition regroup :: "LockRequest list \<Rightarrow> GroupLockMode" where
  "regroup rs = foldl (\<lambda>g r. if granted r then upgrade_group g (lock_mode r) else g) GM_NON_LOCK rs"

definition unlock :: "LockDataId \<Rightarrow> (LockEnv, bool) prog" where
  "unlock lid =
     bindE (gets (\<lambda>s. lk_table s lid)) (\<lambda>it.
       case it of
         None \<Rightarrow> ret True
       | Some q \<Rightarrow>
           bindE (gets (\<lambda>s. txn_id (lk_txn s))) (\<lambda>tid.
           let rs = del_first (mine tid) (request_queue q) in
           thenE (if rs = [] then modify (\<lambda>s. s\<lparr>lk_table := (lk_table s)(lid := None)\<rparr>)
                  else put_queue lid \<lparr>request_queue = rs, group_lock_mode = regroup rs\<rparr>)
           (ret True)))"

definition lock_shared_on_record :: "Rid \<Rightarrow> int \<Rightarrow> (LockEnv, bool) prog" where
  "lock_shared_on_record rid tab_fd = lock (record_LockDataId tab_fd rid) SHARED"

definition lock_exclusive_on_record :: "Rid \<Rightarrow> int \<Rightarrow> (LockEnv, bool) prog" where
  "lock_exclusive_on_record rid tab_fd = lock (record_LockDataId tab_fd rid) EXLUCSIVE"

definition lock_shared_on_table :: "int \<Rightarrow> (LockEnv, bool) prog" where
  "lock_shared_on_table tab_fd = lock (table_LockDataId tab_fd) SHARED"

definition lock_exclusive_on_table :: "int \<Rightarrow> (LockEnv, bool) prog" where
  "lock_exclusive_on_table tab_fd = lock (table_LockDataId tab_fd) EXLUCSIVE"

definition lock_IS_on_table :: "int \<Rightarrow> (LockEnv, bool) prog" where
  "lock_IS_on_table tab_fd = lock (table_LockDataId tab_fd) INTENTION_SHARED"

definition lock_IX_on_table :: "int \<Rightarrow> (LockEnv, bool) prog" where
  "lock_IX_on_table tab_fd = lock (table_LockDataId tab_fd) INTENTION_EXCLUSIVE"

section \<open>Interleavings of transactions\<close>

text \<open>The steps any transaction may take on the shared table, successful or not.\<close>

inductive lock_step :: "lock_table \<Rightarrow> lock_table \<Rightarrow> bool" where
  step_lock: "snd (lock lid mode \<lparr>lk_table = T, lk_txn = t\<rparr>) = s \<Longrightarrow> lock_step T (lk_table s)"
| step_unlock: "snd (unlock lid \<lparr>lk_table = T, lk_txn = t\<rparr>) = s \<Longrightarrow> lock_step T (lk_table s)"

inductive_cases lock_stepE: "lock_step T T'"

text \<open>The compatibility matrix of multi-granularity locking.\<close>

fun mode_compat :: "LockMode \<Rightarrow> LockMode \<Rightarrow> bool" where
  "mode_compat INTENTION_SHARED m = (m \<noteq> EXLUCSIVE)"
| "mode_compat INTENTION_EXCLUSIVE m = (m = INTENTION_SHARED \<or> m = INTENTION_EXCLUSIVE)"
| "mode_compat SHARED m = (m = INTENTION_SHARED \<or> m = SHARED)"
| "mode_compat S_IX m = (m = INTENTION_SHARED)"
| "mode_compat EXLUCSIVE m = False"

text \<open>The modes a group mode stands for.\<close>

fun covers :: "GroupLockMode \<Rightarrow> LockMode \<Rightarrow> bool" where
  "covers GM_NON_LOCK m = False"
| "covers GM_IS m = (m = INTENTION_SHARED)"
| "covers GM_IX m = (m = INTENTION_SHARED \<or> m = INTENTION_EXCLUSIVE)"
| "covers GM_S m = (m = INTENTION_SHARED \<or> m = SHARED)"
| "covers GM_SIX m = (m \<noteq> EXLUCSIVE)"
| "covers GM_X m = True"

definition pair_ok :: "LockRequest \<Rightarrow> LockRequest \<Rightarrow> bool" where
  "pair_ok r q \<longleftrightarrow> lr_txn_id r \<noteq> lr_txn_id q \<and> mode_compat (lock_mode r) (lock_mode q)"

definition queue_ok :: "LockRequestQueue \<Rightarrow> bool" where
  "queue_ok q \<longleftrightarrow> (\<forall>r \<in> set (request_queue q). granted r \<and> covers (group_lock_mode q) (lock_mode r)) \<and>
     pairwise pair_ok (set (request_queue q)) \<and> distinct (request_queue q)"

definition table_ok :: "lock_table \<Rightarrow> bool" where
  "table_ok T \<longleftrightarrow> (\<forall>lid q. T lid = Some q \<longrightarrow> queue_ok q)"

section \<open>Lemmas\<close>

lemma mode_compat_sym: "mode_compat a b = mode_compat b a"
  by (cases a; cases b) auto

lemma pair_ok_sym: "pair_ok r q = pair_ok q r"
  by (auto simp: pair_ok_def mode_compat_sym)

lemma compatible_covers: "compatible m g \<Longrightarrow> covers g m' \<Longrightarrow> mode_compat m m'"
  by (cases m; cases g; cases m') auto

lemma covers_upgrade: "covers (upgrade_group g m) m" "covers g m' \<Longrightarrow> covers (upgrade_group g m) m'"
  by (cases g; cases m; simp) (cases g; cases m; cases m'; simp)

lemma covers_fold:
  "covers g m \<or> (\<exists>r \<in> set rs. granted r \<and> lock_mode r = m) \<Longrightarrow>
   covers (foldl (\<lambda>g r. if granted r then upgrade_group g (lock_mode r) else g) g rs) m"
proof (induction rs arbitrary: g)
  case (Cons r rs)
  have "covers (if granted r then upgrade_group g (lock_mode r) else g) m \<or>
        (\<exists>r \<in> set rs. granted r \<and> lock_mode r = m)"
    using Cons.prems covers_upgrade by (auto simp del: upgrade_group.simps)
  then show ?case using Cons.IH by (simp del: upgrade_group.simps)
qed simp

lemma covers_regroup: "r \<in> set rs \<Longrightarrow> granted r \<Longrightarrow> covers (regroup rs) (lock_mode r)"
  unfolding regroup_def by (rule covers_fold) auto

lemma set_del_first: "set (del_first P xs) \<subseteq> set xs"
  by (induction xs) auto

lemma distinct_del_first: "distinct xs \<Longrightarrow> distinct (del_first P xs)"
  using set_del_first by (induction xs) fastforce+

lemma upd_first_split:
  assumes "List.find P xs = Some x"
  shows "\<exists>ys zs. xs = ys @ x # zs \<and> P x \<and> upd_first P f xs = ys @ f x # zs \<and> del_first P xs = ys @ zs"
  using assms
proof (induction xs)
  case (Cons a xs)
  show ?case
  proof (cases "P a")
    case True
    with Cons.prems show ?thesis by (intro exI [of _ "[]"] exI [of _ xs]) auto
  next
    case False
    with Cons obtain ys zs where "xs = ys @ x # zs" "P x" "upd_first P f xs = ys @ f x # zs"
        "del_first P xs = ys @ zs" by auto
    with False show ?thesis by (intro exI [of _ "a # ys"] exI [of _ zs]) simp
  qed
qed simp

lemma queue_ok_new: "queue_ok new_LockRequestQueue"
  by (simp add: queue_ok_def new_LockRequestQueue_def)

lemma queue_ok_cong_mode:
  assumes q: "queue_ok q" and split: "request_queue q = ys @ r # zs"
    and g: "covers g m" "\<And>r'. r' \<in> set (ys @ zs) \<Longrightarrow> covers g (lock_mode r') \<and> mode_compat m (lock_mode r')"
  shows "queue_ok \<lparr>request_queue = ys @ r\<lparr>lock_mode := m\<rparr> # zs, group_lock_mode = g\<rparr>"
proof -
  have all: "\<And>r'. r' \<in> set (ys @ r # zs) \<Longrightarrow> granted r'" and pw: "pairwise pair_ok (set (ys @ r # zs))"
    and d: "distinct (ys @ r # zs)"
    using q split by (auto simp: queue_ok_def)
  have rest: "pairwise pair_ok (set (ys @ zs))" by (rule pairwise_subset [OF pw]) auto
  have id: "lr_txn_id r \<noteq> lr_txn_id r'" if "r' \<in> set (ys @ zs)" for r'
    using that pw d by (auto simp: pairwise_def pair_ok_def)
  have new: "pair_ok (r\<lparr>lock_mode := m\<rparr>) r'" if "r' \<in> set (ys @ zs)" for r'
    using that id g(2) by (auto simp: pair_ok_def)
  have "pairwise pair_ok (insert (r\<lparr>lock_mode := m\<rparr>) (set (ys @ zs)))"
    using rest new pair_ok_sym by (auto simp: pairwise_insert)
  moreover have "r\<lparr>lock_mode := m\<rparr> \<notin> set (ys @ zs)"
    using id by force
  ultimately show ?thesis using all d g by (auto simp: queue_ok_def)
qed

text \<open>What a granted mode of the calling transaction says of the other granted modes.\<close>

lemma queue_others:
  assumes "queue_ok q" "request_queue q = ys @ r # zs" "r' \<in> set (ys @ zs)"
  shows "granted r'" "lr_txn_id r' \<noteq> lr_txn_id r" "mode_compat (lock_mode r) (lock_mode r')"
    "covers (group_lock_mode q) (lock_mode r')"
  using assms by (auto simp: queue_ok_def pairwise_def pair_ok_def mode_compat_sym)

lemma table_ok_put: "table_ok T \<Longrightarrow> queue_ok q \<Longrightarrow> table_ok (T(lid \<mapsto> q))"
  by (simp add: table_ok_def)

lemma upgrade_X_ok:
  assumes "queue_ok q" "List.find (mine tid) (request_queue q) = Some r"
    and "table_ok (lk_table s)"
  shows "table_ok (lk_table (snd (upgrade_to_X lid q tid s)))"
proof -
  obtain ys zs where sp: "request_queue q = ys @ r # zs" "mine tid r"
      "upd_first (mine tid) (\<lambda>r. r\<lparr>lock_mode := EXLUCSIVE\<rparr>) (request_queue q) = ys @ r\<lparr>lock_mode := EXLUCSIVE\<rparr> # zs"
    using upd_first_split [OF assms(2)] by blast
  show ?thesis
  proof (cases "\<exists>r \<in> set (request_queue q). others_granted tid r")
    case True
    then show ?thesis using assms(3) by (simp add: upgrade_to_X_def prog_simps)
  next
    case False
    have "set (ys @ zs) = {}"
    proof (rule ccontr)
      assume "set (ys @ zs) \<noteq> {}"
      then obtain r' where r': "r' \<in> set (ys @ zs)" unfolding ex_in_conv [symmetric] by blast
      from queue_others [OF assms(1) sp(1) r'] sp(2) have "others_granted tid r'"
        by (auto simp: others_granted_def mine_def)
      then show False using False r' sp(1) by auto
    qed
    then have "queue_ok \<lparr>request_queue = ys @ r\<lparr>lock_mode := EXLUCSIVE\<rparr> # zs,
        group_lock_mode = upgrade_group (group_lock_mode q) EXLUCSIVE\<rparr>"
      by (intro queue_ok_cong_mode [OF assms(1) sp(1)]) auto
    with False show ?thesis
      by (simp add: upgrade_to_X_def prog_simps put_queue_def remember_lock_def sp(3) table_ok_put assms(3))
  qed
qed

lemma upgrade_SIX_ok:
  assumes "queue_ok q" "List.find (mine tid) (request_queue q) = Some r" "lock_mode r = SHARED"
    and "table_ok (lk_table s)"
  shows "table_ok (lk_table (snd (upgrade_to_SIX lid q tid s)))"
proof -
  obtain ys zs where sp: "request_queue q = ys @ r # zs" "mine tid r"
      "upd_first (mine tid) (\<lambda>r. r\<lparr>lock_mode := S_IX\<rparr>) (request_queue q) = ys @ r\<lparr>lock_mode := S_IX\<rparr> # zs"
    using upd_first_split [OF assms(2)] by blast
  let ?g = "upgrade_group (group_lock_mode q) INTENTION_EXCLUSIVE"
  show ?thesis
  proof (cases "\<exists>r \<in> set (request_queue q). others_granted tid r \<and> lock_mode r = SHARED")
    case True
    then show ?thesis using assms(4) by (simp add: upgrade_to_SIX_def prog_simps)
  next
    case False
    have ism: "lock_mode r' = INTENTION_SHARED" if r': "r' \<in> set (ys @ zs)" for r'
    proof -
      note o = queue_others [OF assms(1) sp(1) r']
      have "others_granted tid r'" using o sp(2) by (auto simp: others_granted_def mine_def)
      moreover have "r' \<in> set (request_queue q)" using r' sp(1) by auto
      ultimately have "lock_mode r' \<noteq> SHARED" using False by blast
      with o(3) assms(3) show ?thesis by (cases "lock_mode r'") auto
    qed
    have "covers (group_lock_mode q) SHARED" using assms(1,3) sp(1) by (auto simp: queue_ok_def)
    then have g: "covers ?g S_IX" "covers ?g INTENTION_SHARED" by (cases "group_lock_mode q"; simp)+
    have "queue_ok \<lparr>request_queue = ys @ r\<lparr>lock_mode := S_IX\<rparr> # zs, group_lock_mode = ?g\<rparr>"
      by (rule queue_ok_cong_mode [OF assms(1) sp(1) g(1)]) (use ism g in \<open>auto simp del: upgrade_group.simps\<close>)
    with False show ?thesis
      by (simp add: upgrade_to_SIX_def prog_simps put_queue_def remember_lock_def sp(3) table_ok_put assms(4)
          del: upgrade_group.simps)
  qed
qed

lemma grant_ok:
  assumes "queue_ok q" "List.find (mine tid) (request_queue q) = None" "table_ok (lk_table s)"
  shows "table_ok (lk_table (snd (grant lid q tid mode s)))"
proof (cases "\<not> compatible mode (group_lock_mode q) \<or> (\<exists>r \<in> set (request_queue q). \<not> granted r)")
  case True
  then show ?thesis using assms(3) by (simp add: grant_def prog_simps del: compatible.simps)
next
  case False
  let ?r = "\<lparr>lr_txn_id = tid, lock_mode = mode, granted = True\<rparr>"
  let ?g = "upgrade_group (group_lock_mode q) mode"
  have all: "granted r \<and> covers (group_lock_mode q) (lock_mode r)" if "r \<in> set (request_queue q)" for r
    using that assms(1) by (auto simp: queue_ok_def)
  have none: "lr_txn_id r \<noteq> tid" if "r \<in> set (request_queue q)" for r
    using that assms(2) all [OF that] by (auto simp: find_None_iff mine_def)
  have po: "pair_ok ?r r" if "r \<in> set (request_queue q)" for r
    using none [OF that] compatible_covers [of mode "group_lock_mode q"] all [OF that] False
    by (auto simp: pair_ok_def simp del: compatible.simps)
  have "pairwise pair_ok (insert ?r (set (request_queue q)))"
    using assms(1) po pair_ok_sym by (auto simp: pairwise_insert queue_ok_def)
  moreover have "?r \<notin> set (request_queue q)" using none by force
  ultimately have "queue_ok \<lparr>request_queue = request_queue q @ [?r], group_lock_mode = ?g\<rparr>"
    using assms(1) covers_upgrade by (auto simp: queue_ok_def simp del: upgrade_group.simps)
  with False show ?thesis
    by (simp add: grant_def prog_simps put_queue_def remember_lock_def table_ok_put assms(3)
        del: upgrade_group.simps compatible.simps)
qed

lemma lock_ok:
  assumes "table_ok (lk_table s)"
  shows "table_ok (lk_table (snd (lock lid mode s)))"
proof -
  let ?q = "case lk_table s lid of None \<Rightarrow> new_LockRequestQueue | Some q \<Rightarrow> q"
  let ?s = "s\<lparr>lk_table := (lk_table s)(lid \<mapsto> ?q)\<rparr>"
  have q: "queue_ok ?q" using assms queue_ok_new by (auto simp: table_ok_def split: option.split)
  have s: "table_ok (lk_table ?s)" using assms q by (simp add: table_ok_put)
  show ?thesis
  proof (cases "List.find (mine (txn_id (lk_txn s))) (request_queue ?q)")
    case None
    then show ?thesis using grant_ok [OF q None s] by (simp add: lock_def prog_simps put_queue_def)
  next
    case (Some r)
    then show ?thesis
      using upgrade_X_ok [OF q Some s] upgrade_SIX_ok [OF q Some _ s] s
      by (simp add: lock_def prog_simps put_queue_def)
  qed
qed

lemma unlock_ok:
  assumes "table_ok (lk_table s)"
  shows "table_ok (lk_table (snd (unlock lid s)))"
proof (cases "lk_table s lid")
  case None
  then show ?thesis using assms by (simp add: unlock_def prog_simps)
next
  case (Some q)
  let ?rs = "del_first (mine (txn_id (lk_txn s))) (request_queue q)"
  have q: "queue_ok q" using assms Some by (simp add: table_ok_def)
  then have "queue_ok \<lparr>request_queue = ?rs, group_lock_mode = regroup ?rs\<rparr>"
    using set_del_first [of "mine (txn_id (lk_txn s))" "request_queue q"] covers_regroup [of _ ?rs]
      distinct_del_first pairwise_subset
    by (auto simp: queue_ok_def) blast+
  then show ?thesis
    using Some assms by (auto simp: unlock_def prog_simps put_queue_def table_ok_put Let_def) (auto simp: table_ok_def)
qed

lemma lock_step_ok: "lock_step T T' \<Longrightarrow> table_ok T \<Longrightarrow> table_ok T'"
  by (erule lock_stepE)
    (metis lock_ok LockEnv.select_convs(1), metis unlock_ok LockEnv.select_convs(1))

text \<open>The requests of one transaction on an item.\<close>

definition holds_on :: "lock_table \<Rightarrow> LockDataId \<Rightarrow> int \<Rightarrow> LockRequest list" where
  "holds_on T lid tid = (case T lid of None \<Rightarrow> [] | Some q \<Rightarrow> filter (mine tid) (request_queue q))"

lemma filter_del_first: "length (filter P xs) \<le> 1 \<Longrightarrow> filter P (del_first P xs) = []"
  by (induction xs) auto

lemma filter_del_first_other: "(\<And>x. P x \<Longrightarrow> \<not> Q x) \<Longrightarrow> filter Q (del_first P xs) = filter Q xs"
  by (induction xs) auto

lemma mine_once:
  assumes "queue_ok q" shows "length (filter (mine tid) (request_queue q)) \<le> 1"
proof -
  let ?ms = "filter (mine tid) (request_queue q)"
  have d: "distinct ?ms" using assms by (simp add: queue_ok_def)
  have pw: "pairwise pair_ok (set (request_queue q))" using assms by (simp add: queue_ok_def)
  have "a = b" if "a \<in> set ?ms" "b \<in> set ?ms" for a b
  proof (rule ccontr)
    assume "a \<noteq> b"
    then have "pair_ok a b" using that pw by (simp add: pairwise_def)
    then show False using that by (simp add: pair_ok_def mine_def)
  qed
  then have "card (set ?ms) \<le> 1" by (simp add: card_le_Suc0_iff_eq)
  then show ?thesis using distinct_card [OF d] by simp
qed

section \<open>Properties\<close>

text \<open>C12 In every lock table reached from the empty one by any interleaving of lock and unlock calls of
  any transactions, two granted requests on the same item belong to different transactions and have
  compatible modes: an exclusive lock is never granted together with any other.\<close>

theorem granted_locks_compatible:
  assumes "lock_step\<^sup>*\<^sup>* Map.empty T" and "T lid = Some q"
    and "r \<in> set (request_queue q)" and "r' \<in> set (request_queue q)" and "r \<noteq> r'"
  shows "granted r \<and> granted r' \<and> lr_txn_id r \<noteq> lr_txn_id r' \<and> mode_compat (lock_mode r) (lock_mode r')"
proof -
  have "table_ok T" using assms(1)
    by (induction rule: rtranclp_induct) (auto simp: table_ok_def [of Map.empty] intro: lock_step_ok)
  then have "queue_ok q" using assms(2) by (simp add: table_ok_def)
  then show ?thesis using assms(3-5) by (auto simp: queue_ok_def pairwise_def pair_ok_def)
qed

definition demo_locks :: lock_table where
  "demo_locks = [table_LockDataId 3 \<mapsto> \<lparr>request_queue =
      [\<lparr>lr_txn_id = 1, lock_mode = INTENTION_SHARED, granted = True\<rparr>,
       \<lparr>lr_txn_id = 2, lock_mode = INTENTION_EXCLUSIVE, granted = True\<rparr>], group_lock_mode = GM_IX\<rparr>]"

lemma demo_locks_reached: "lock_step\<^sup>*\<^sup>* Map.empty demo_locks"
proof -
  let ?T1 = "[table_LockDataId 3 \<mapsto> \<lparr>request_queue = [\<lparr>lr_txn_id = 1, lock_mode = INTENTION_SHARED, granted = True\<rparr>],
      group_lock_mode = GM_IS\<rparr>]"
  have "lock_step Map.empty (lk_table (snd (lock (table_LockDataId 3) INTENTION_SHARED
      \<lparr>lk_table = Map.empty, lk_txn = new_Transaction 1\<rparr>)))"
    by (rule step_lock [OF refl])
  moreover have "lk_table (snd (lock (table_LockDataId 3) INTENTION_SHARED
      \<lparr>lk_table = Map.empty, lk_txn = new_Transaction 1\<rparr>)) = ?T1"
    by (simp add: lock_def prog_simps put_queue_def new_LockRequestQueue_def grant_def remember_lock_def new_Transaction_def)
  ultimately have 1: "lock_step Map.empty ?T1" by simp
  have "lock_step ?T1 (lk_table (snd (lock (table_LockDataId 3) INTENTION_EXCLUSIVE
      \<lparr>lk_table = ?T1, lk_txn = new_Transaction 2\<rparr>)))"
    by (rule step_lock [OF refl])
  moreover have "lk_table (snd (lock (table_LockDataId 3) INTENTION_EXCLUSIVE
      \<lparr>lk_table = ?T1, lk_txn = new_Transaction 2\<rparr>)) = demo_locks"
    by (simp add: lock_def prog_simps put_queue_def grant_def remember_lock_def new_Transaction_def mine_def demo_locks_def)
  ultimately have "lock_step ?T1 demo_locks" by simp
  with 1 show ?thesis by (meson rtranclp.rtrancl_into_rtrancl rtranclp.rtrancl_refl)
qed

theorem granted_locks_compatible_witness:
  "mode_compat (lock_mode \<lparr>lr_txn_id = 1, lock_mode = INTENTION_SHARED, granted = True\<rparr>)
     (lock_mode \<lparr>lr_txn_id = 2, lock_mode = INTENTION_EXCLUSIVE, granted = True\<rparr>)"
  using granted_locks_compatible [OF demo_locks_reached, of "table_LockDataId 3" _
      "\<lparr>lr_txn_id = 1, lock_mode = INTENTION_SHARED, granted = True\<rparr>"
      "\<lparr>lr_txn_id = 2, lock_mode = INTENTION_EXCLUSIVE, granted = True\<rparr>"]
  by (simp add: demo_locks_def)

text \<open>C35 \<open>unlock\<close> takes away every lock of the transaction on the item, leaves the locks of all other
  transactions on it and all other items untouched, and drops a queue that became empty.\<close>

theorem unlock_releases:
  assumes "table_ok (lk_table s)" and "unlock lid s = (r, t)"
  shows "r = Inr True \<and> holds_on (lk_table t) lid (txn_id (lk_txn s)) = [] \<and>
     (\<forall>tid. tid \<noteq> txn_id (lk_txn s) \<longrightarrow> holds_on (lk_table t) lid tid = holds_on (lk_table s) lid tid) \<and>
     (\<forall>lid'. lid' \<noteq> lid \<longrightarrow> lk_table t lid' = lk_table s lid')"
proof (cases "lk_table s lid")
  case None
  then show ?thesis using assms(2) by (auto simp: unlock_def prog_simps holds_on_def)
next
  case (Some q)
  let ?P = "mine (txn_id (lk_txn s))"
  have "queue_ok q" using assms(1) Some by (simp add: table_ok_def)
  then have "filter ?P (del_first ?P (request_queue q)) = []" by (intro filter_del_first mine_once)
  moreover have "filter (mine tid) (del_first ?P (request_queue q)) = filter (mine tid) (request_queue q)"
    if "tid \<noteq> txn_id (lk_txn s)" for tid
    using that by (intro filter_del_first_other) (auto simp: mine_def)
  ultimately show ?thesis
    using assms(2) Some by (auto simp: unlock_def prog_simps holds_on_def put_queue_def Let_def split: if_splits)
qed

theorem unlock_releases_witness:
  "holds_on (lk_table (snd (unlock (table_LockDataId 3) \<lparr>lk_table = demo_locks, lk_txn = new_Transaction 1\<rparr>)))
     (table_LockDataId 3) 1 = []"
proof -
  have ok: "table_ok demo_locks"
    by (auto simp: table_ok_def demo_locks_def queue_ok_def pairwise_def pair_ok_def)
  let ?s = "\<lparr>lk_table = demo_locks, lk_txn = new_Transaction 1\<rparr>"
  show ?thesis
    using unlock_releases [of ?s "table_LockDataId 3" "fst (unlock (table_LockDataId 3) ?s)" "snd (unlock (table_LockDataId 3) ?s)"] ok
    by (simp add: new_Transaction_def)
qed

text \<open>C36 A lock call that returns normally leaves the transaction with exactly one granted request on the
  item; a call that throws leaves all granted requests as they were.\<close>

theorem lock_result:
  assumes "table_ok (lk_table s)" and "lock lid mode s = (r, t)"
  shows "(case r of
       Inr b \<Rightarrow> b \<and> length (holds_on (lk_table t) lid (txn_id (lk_txn s))) = 1
     | Inl e \<Rightarrow> (\<exists>why. e = TransactionAbortException (txn_id (lk_txn s)) why) \<and>
         (\<forall>lid' tid. holds_on (lk_table t) lid' tid = holds_on (lk_table s) lid' tid))"
proof -
  let ?q = "case lk_table s lid of None \<Rightarrow> new_LockRequestQueue | Some q \<Rightarrow> q"
  let ?tid = "txn_id (lk_txn s)"
  have ok: "table_ok (lk_table t)" using lock_ok [OF assms(1), of lid mode] assms(2) by simp
  have ge: "length (holds_on (lk_table t) lid ?tid) = 1"
    if "lk_table t lid = Some q" "x \<in> set (request_queue q)" "mine ?tid x" for q x
  proof -
    have "length (filter (mine ?tid) (request_queue q)) \<le> 1" using ok that(1) by (intro mine_once) (simp add: table_ok_def)
    moreover have "x \<in> set (filter (mine ?tid) (request_queue q))" using that by simp
    ultimately show ?thesis using that(1) by (cases "filter (mine ?tid) (request_queue q)") (auto simp: holds_on_def)
  qed
  have same: "holds_on ((lk_table s)(lid \<mapsto> ?q)) lid' tid = holds_on (lk_table s) lid' tid" for lid' tid
    by (auto simp: holds_on_def new_LockRequestQueue_def split: option.split)
  show ?thesis
  proof (cases "List.find (mine ?tid) (request_queue ?q)")
    case None
    then show ?thesis
      using assms(2) same ge [of _ "\<lparr>lr_txn_id = ?tid, lock_mode = mode, granted = True\<rparr>"]
      by (auto simp: lock_def prog_simps put_queue_def remember_lock_def grant_def mine_def
          simp del: compatible.simps upgrade_group.simps split: if_splits)
  next
    case (Some x)
    have sp: "\<exists>ys zs. request_queue ?q = ys @ x # zs \<and> mine ?tid x \<and> upd_first (mine ?tid) f (request_queue ?q) = ys @ f x # zs" for f
      using upd_first_split [OF Some, of f] by blast
    have x: "x \<in> set (request_queue ?q)" "mine ?tid x" using sp [of id] by auto
    have upd: "x\<lparr>lock_mode := m\<rparr> \<in> set (upd_first (mine ?tid) (\<lambda>r. r\<lparr>lock_mode := m\<rparr>) (request_queue ?q))" for m
      using sp [of "\<lambda>r. r\<lparr>lock_mode := m\<rparr>"] by auto
    have mn: "mine ?tid (x\<lparr>lock_mode := m\<rparr>)" for m using x(2) by (simp add: mine_def)
    have ge2: "length (holds_on (lk_table t) lid ?tid) = 1"
      if "lk_table t lid = Some \<lparr>request_queue = upd_first (mine ?tid) (\<lambda>r. r\<lparr>lock_mode := m\<rparr>) (request_queue ?q),
           group_lock_mode = g\<rparr>" for m g
      using ge [OF that, of "x\<lparr>lock_mode := m\<rparr>"] upd [of m] mn [of m] by simp
    show ?thesis
      using assms(2) same Some ge [of ?q x] x ge2
      by (auto simp: lock_def prog_simps put_queue_def remember_lock_def upgrade_to_X_def upgrade_to_SIX_def
          simp del: upgrade_group.simps split: if_splits)
  qed
qed

theorem lock_result_witness:
  "(case fst (lock (table_LockDataId 3) EXLUCSIVE \<lparr>lk_table = demo_locks, lk_txn = new_Transaction 7\<rparr>) of
      Inr b \<Rightarrow> False | Inl e \<Rightarrow> True)"
proof -
  let ?s = "\<lparr>lk_table = demo_locks, lk_txn = new_Transaction 7\<rparr>"
  let ?l = "lock (table_LockDataId 3) EXLUCSIVE ?s"
  have ok: "table_ok demo_locks"
    by (auto simp: table_ok_def demo_locks_def queue_ok_def pairwise_def pair_ok_def)
  have "fst ?l = Inl (TransactionAbortException 7 DEADLOCK_PREVENTION)"
    by (simp add: lock_def prog_simps put_queue_def grant_def demo_locks_def new_Transaction_def mine_def)
  then show ?thesis
    using lock_result [of ?s "table_LockDataId 3" EXLUCSIVE "fst ?l" "snd ?l"] ok by simp
qed

text \<open>C37 A transaction that holds an intention lock, or any mode but the shared one, and asks for another
  mode is told that it has it, but neither its granted mode nor the lock table changes: asking for an
  exclusive table lock over a held intention lock succeeds without excluding anybody.\<close>

theorem lock_not_upgraded:
  assumes "lk_table s lid = Some q" and "List.find (mine (txn_id (lk_txn s))) (request_queue q) = Some r"
    and "lock_mode r \<noteq> SHARED"
  shows "lock lid mode s = (Inr True, s)"
proof -
  have "s\<lparr>lk_table := (lk_table s)(lid \<mapsto> q)\<rparr> = s" using assms(1) by (simp add: fun_upd_idem)
  then show ?thesis using assms by (simp add: lock_def prog_simps put_queue_def)
qed

theorem lock_not_upgraded_witness:
  "lock (table_LockDataId 3) EXLUCSIVE \<lparr>lk_table = demo_locks, lk_txn = new_Transaction 1\<rparr> =
     (Inr True, \<lparr>lk_table = demo_locks, lk_txn = new_Transaction 1\<rparr>)"
  using lock_not_upgraded [of "\<lparr>lk_table = demo_locks, lk_txn = new_Transaction 1\<rparr>" "table_LockDataId 3" _
      "\<lparr>lr_txn_id = 1, lock_mode = INTENTION_SHARED, granted = True\<rparr>" EXLUCSIVE]
  by (simp add: demo_locks_def new_Transaction_def mine_def)

end
