(* ===== verification/Log.thy ===== *)
theory Log
  imports Disk
begin

text \<open>
  \<^verbatim>\<open>recovery/log_defs.h\<close>, \<^verbatim>\<open>recovery/log_manager.{h,cpp}\<close>: the log records with their byte
  format, the log buffer and the log manager. A record value (\<^verbatim>\<open>RmRecord\<close>) is its list of bytes,
  with \<^verbatim>\<open>size\<close> as its length. Every kind of record is shown to be read back from its bytes, and the
  log on disk followed by the buffer is shown to be the concatenation of the records in the order
  they were added.
\<close>

section \<open>Log records\<close>

definition OFFSET_LOG_TYPE :: nat where "OFFSET_LOG_TYPE = 0"
definition OFFSET_LSN :: nat where "OFFSET_LSN = 4"
definition OFFSET_LOG_TOT_LEN :: nat where "OFFSET_LOG_TOT_LEN = OFFSET_LSN + 4"
definition OFFSET_LOG_TID :: nat where "OFFSET_LOG_TID = OFFSET_LOG_TOT_LEN + 4"
definition OFFSET_PREV_LSN :: nat where "OFFSET_PREV_LSN = OFFSET_LOG_TID + 4"
definition OFFSET_LOG_DATA :: nat where "OFFSET_LOG_DATA = OFFSET_PREV_LSN + 4"
definition LOG_HEADER_SIZE :: nat where "LOG_HEADER_SIZE = OFFSET_LOG_DATA"

lemmas log_offsets = OFFSET_LOG_TYPE_def OFFSET_LSN_def OFFSET_LOG_TOT_LEN_def OFFSET_LOG_TID_def
  OFFSET_PREV_LSN_def OFFSET_LOG_DATA_def LOG_HEADER_SIZE_def

datatype LogType = LOG_UPDATE | LOG_INSERT | LOG_DELETE | LOG_begin | LOG_commit | LOG_ABORT

fun log_type_code :: "LogType \<Rightarrow> int" where
  "log_type_code LOG_UPDATE = 0"
| "log_type_code LOG_INSERT = 1"
| "log_type_code LOG_DELETE = 2"
| "log_type_code LOG_begin = 3"
| "log_type_code LOG_commit = 4"
| "log_type_code LOG_ABORT = 5"

text \<open>The members of the base class; the type is the \<^verbatim>\<open>int\<close> in memory.\<close>

record LogHeader =
  log_type :: int
  lsn :: int
  log_tot_len :: int
  log_tid :: int
  log_prev_lsn :: int

datatype LogRecord =
    BeginLogRecord LogHeader
  | CommitLogRecord LogHeader
  | AbortLogRecord LogHeader
  | InsertLogRecord LogHeader "byte list" Rid "byte list"
  | DeleteLogRecord LogHeader "byte list" Rid "byte list"
  | UpdateLogRecord LogHeader "byte list" "byte list" Rid "byte list"

fun log_header :: "LogRecord \<Rightarrow> LogHeader" where
  "log_header (BeginLogRecord h) = h"
| "log_header (CommitLogRecord h) = h"
| "log_header (AbortLogRecord h) = h"
| "log_header (InsertLogRecord h v r t) = h"
| "log_header (DeleteLogRecord h v r t) = h"
| "log_header (UpdateLogRecord h u v r t) = h"

fun set_lsn :: "int \<Rightarrow> LogRecord \<Rightarrow> LogRecord" where
  "set_lsn l (BeginLogRecord h) = BeginLogRecord (h\<lparr>lsn := l\<rparr>)"
| "set_lsn l (CommitLogRecord h) = CommitLogRecord (h\<lparr>lsn := l\<rparr>)"
| "set_lsn l (AbortLogRecord h) = AbortLogRecord (h\<lparr>lsn := l\<rparr>)"
| "set_lsn l (InsertLogRecord h v r t) = InsertLogRecord (h\<lparr>lsn := l\<rparr>) v r t"
| "set_lsn l (DeleteLogRecord h v r t) = DeleteLogRecord (h\<lparr>lsn := l\<rparr>) v r t"
| "set_lsn l (UpdateLogRecord h u v r t) = UpdateLogRecord (h\<lparr>lsn := l\<rparr>) u v r t"

fun set_prev_lsn :: "int \<Rightarrow> LogRecord \<Rightarrow> LogRecord" where
  "set_prev_lsn l (BeginLogRecord h) = BeginLogRecord (h\<lparr>log_prev_lsn := l\<rparr>)"
| "set_prev_lsn l (CommitLogRecord h) = CommitLogRecord (h\<lparr>log_prev_lsn := l\<rparr>)"
| "set_prev_lsn l (AbortLogRecord h) = AbortLogRecord (h\<lparr>log_prev_lsn := l\<rparr>)"
| "set_prev_lsn l (InsertLogRecord h v r t) = InsertLogRecord (h\<lparr>log_prev_lsn := l\<rparr>) v r t"
| "set_prev_lsn l (DeleteLogRecord h v r t) = DeleteLogRecord (h\<lparr>log_prev_lsn := l\<rparr>) v r t"
| "set_prev_lsn l (UpdateLogRecord h u v r t) = UpdateLogRecord (h\<lparr>log_prev_lsn := l\<rparr>) u v r t"

definition new_header :: "LogType \<Rightarrow> int \<Rightarrow> int \<Rightarrow> LogHeader" where
  "new_header ty tid len = \<lparr>log_type = log_type_code ty, lsn = INVALID_LSN, log_tot_len = len,
     log_tid = tid, log_prev_lsn = INVALID_LSN\<rparr>"

definition new_BeginLogRecord :: "int \<Rightarrow> LogRecord" where
  "new_BeginLogRecord tid = BeginLogRecord (new_header LOG_begin tid (int LOG_HEADER_SIZE))"

definition new_CommitLogRecord :: "int \<Rightarrow> LogRecord" where
  "new_CommitLogRecord tid = CommitLogRecord (new_header LOG_commit tid (int LOG_HEADER_SIZE))"

definition new_AbortLogRecord :: "int \<Rightarrow> LogRecord" where
  "new_AbortLogRecord tid = AbortLogRecord (new_header LOG_ABORT tid (int LOG_HEADER_SIZE))"

definition new_InsertLogRecord :: "int \<Rightarrow> byte list \<Rightarrow> Rid \<Rightarrow> byte list \<Rightarrow> LogRecord" where
  "new_InsertLogRecord tid v rid tab =
     InsertLogRecord (new_header LOG_INSERT tid (int (LOG_HEADER_SIZE + 4 + length v + 8 + (8 + length tab)))) v rid tab"

definition new_DeleteLogRecord :: "int \<Rightarrow> byte list \<Rightarrow> Rid \<Rightarrow> byte list \<Rightarrow> LogRecord" where
  "new_DeleteLogRecord tid v rid tab =
     DeleteLogRecord (new_header LOG_DELETE tid (int (LOG_HEADER_SIZE + (4 + length v + 8) + (8 + length tab)))) v rid tab"

definition new_UpdateLogRecord :: "int \<Rightarrow> byte list \<Rightarrow> byte list \<Rightarrow> Rid \<Rightarrow> byte list \<Rightarrow> LogRecord" where
  "new_UpdateLogRecord tid u v rid tab =
     UpdateLogRecord (new_header LOG_UPDATE tid
       (int (LOG_HEADER_SIZE + (4 + length u + 4 + length v + 8) + (8 + length tab)))) u v rid tab"

section \<open>Bytes\<close>

definition ser_header :: "LogHeader \<Rightarrow> byte list" where
  "ser_header h = enc_le 4 (log_type h) @ enc_le 4 (lsn h) @ enc_le 4 (log_tot_len h) @ enc_le 4 (log_tid h) @
     enc_le 4 (log_prev_lsn h)"

definition ser_rid :: "Rid \<Rightarrow> byte list" where
  "ser_rid r = enc_le 4 (page_no r) @ enc_le 4 (slot_no r)"

text \<open>Values, record id and table name as they follow each other from \<open>OFFSET_LOG_DATA\<close> on.\<close>

definition ser_value :: "byte list \<Rightarrow> byte list" where
  "ser_value v = enc_le 4 (int (length v)) @ v"

definition ser_name :: "byte list \<Rightarrow> byte list" where
  "ser_name t = enc_le 8 (int (length t)) @ t"

fun serialize :: "LogRecord \<Rightarrow> byte list" where
  "serialize (BeginLogRecord h) = ser_header h"
| "serialize (CommitLogRecord h) = ser_header h"
| "serialize (AbortLogRecord h) = ser_header h"
| "serialize (InsertLogRecord h v r t) = ser_header h @ ser_value v @ ser_rid r @ ser_name t"
| "serialize (DeleteLogRecord h v r t) = ser_header h @ ser_value v @ ser_rid r @ ser_name t"
| "serialize (UpdateLogRecord h u v r t) = ser_header h @ ser_value u @ ser_value v @ ser_rid r @ ser_name t"

definition get_u32 :: "byte list \<Rightarrow> nat \<Rightarrow> int" where
  "get_u32 d off = dec_le (read_at d off 4)"

definition get_u64 :: "byte list \<Rightarrow> nat \<Rightarrow> int" where
  "get_u64 d off = dec_le (read_at d off 8)"

definition des_header :: "byte list \<Rightarrow> LogHeader" where
  "des_header src = \<lparr>log_type = get_i32 src OFFSET_LOG_TYPE, lsn = get_i32 src OFFSET_LSN,
     log_tot_len = get_u32 src OFFSET_LOG_TOT_LEN, log_tid = get_i32 src OFFSET_LOG_TID,
     log_prev_lsn = get_i32 src OFFSET_PREV_LSN\<rparr>"

definition des_value :: "byte list \<Rightarrow> nat \<Rightarrow> byte list" where
  "des_value src off = read_at src (off + 4) (nat (get_i32 src off))"

definition des_rid :: "byte list \<Rightarrow> nat \<Rightarrow> Rid" where
  "des_rid src off = \<lparr>page_no = get_i32 src off, slot_no = get_i32 src (off + 4)\<rparr>"

definition des_name :: "byte list \<Rightarrow> nat \<Rightarrow> byte list" where
  "des_name src off = read_at src (off + 8) (nat (get_u64 src off))"

definition deserialize_insert :: "byte list \<Rightarrow> LogRecord" where
  "deserialize_insert src =
     (let v = des_value src OFFSET_LOG_DATA; off = OFFSET_LOG_DATA + length v + 4 in
      InsertLogRecord (des_header src) v (des_rid src off) (des_name src (off + 8)))"

definition deserialize_delete :: "byte list \<Rightarrow> LogRecord" where
  "deserialize_delete src =
     (let v = des_value src OFFSET_LOG_DATA; off = OFFSET_LOG_DATA + length v + 4 in
      DeleteLogRecord (des_header src) v (des_rid src off) (des_name src (off + 8)))"

definition deserialize_update :: "byte list \<Rightarrow> LogRecord" where
  "deserialize_update src =
     (let u = des_value src OFFSET_LOG_DATA; off = OFFSET_LOG_DATA + length u + 4;
          v = des_value src off; off2 = off + length v + 4 in
      UpdateLogRecord (des_header src) u v (des_rid src off2) (des_name src (off2 + 8)))"

text \<open>The choice the callers make by the type field.\<close>

definition deserialize :: "byte list \<Rightarrow> LogRecord option" where
  "deserialize src =
     (let ty = get_i32 src OFFSET_LOG_TYPE in
      if ty = log_type_code LOG_begin then Some (BeginLogRecord (des_header src))
      else if ty = log_type_code LOG_commit then Some (CommitLogRecord (des_header src))
      else if ty = log_type_code LOG_ABORT then Some (AbortLogRecord (des_header src))
      else if ty = log_type_code LOG_INSERT then Some (deserialize_insert src)
      else if ty = log_type_code LOG_DELETE then Some (deserialize_delete src)
      else if ty = log_type_code LOG_UPDATE then Some (deserialize_update src)
      else None)"

section \<open>The log manager\<close>

record LogManager =
  global_lsn :: int
  log_buffer :: "byte list"
  log_offset :: nat
  persist_lsn :: int

text \<open>\<^verbatim>\<open>persist_lsn_\<close> is uninitialised in C++ and only ever written.\<close>

definition new_LogManager :: LogManager where
  "new_LogManager = \<lparr>global_lsn = 0, log_buffer = replicate (LOG_BUFFER_SIZE + 1) 0, log_offset = 0, persist_lsn = 0\<rparr>"

record LogEnv =
  le_log :: LogManager
  le_disk :: DiskManager

definition upd_log :: "(LogManager \<Rightarrow> LogManager) \<Rightarrow> (LogEnv, unit) prog" where
  "upd_log g = modify (\<lambda>s. s\<lparr>le_log := g (le_log s)\<rparr>)"

definition on_log_disk :: "(DiskManager, 'a) prog \<Rightarrow> (LogEnv, 'a) prog" where
  "on_log_disk m = zoom le_disk (\<lambda>d s. s\<lparr>le_disk := d\<rparr>) m"

definition is_full :: "LogManager \<Rightarrow> int \<Rightarrow> bool" where
  "is_full lm append_size \<longleftrightarrow> int (log_offset lm) + append_size > int LOG_BUFFER_SIZE"

definition flush_log_to_disk :: "(LogEnv, unit) prog" where
  "flush_log_to_disk =
     bindE (gets le_log) (\<lambda>lm.
       if log_offset lm = 0 then ret ()
       else bindE (on_log_disk (get_file_fd LOG_FILE_NAME)) (\<lambda>fd.
            thenE (on_log_disk (write_log (take (log_offset lm) (log_buffer lm))))
            (upd_log (\<lambda>l. l\<lparr>persist_lsn := global_lsn l - 1, log_offset := 0,
                            log_buffer := replicate (LOG_BUFFER_SIZE + 1) 0\<rparr>))))"

text \<open>A record that does not fit even into an empty buffer is copied past its end: \<open>OutOfBounds\<close>.\<close>

definition add_log_to_buffer :: "LogRecord \<Rightarrow> (LogEnv, int) prog" where
  "add_log_to_buffer rec =
     bindE (gets (\<lambda>s. global_lsn (le_log s))) (\<lambda>l.
     thenE (upd_log (\<lambda>lm. lm\<lparr>global_lsn := wrap32 (l + 1)\<rparr>))
     (let r = set_lsn l rec in
      thenE (bindE (gets (\<lambda>s. is_full (le_log s) (log_tot_len (log_header r)))) (\<lambda>full.
               if full then flush_log_to_disk else ret ()))
      (bindE (gets le_log) (\<lambda>lm.
        if LOG_BUFFER_SIZE + 1 < log_offset lm + length (serialize r) then raise OutOfBounds
        else thenE (upd_log (\<lambda>lm. lm\<lparr>log_buffer := write_at (log_buffer lm) (log_offset lm) (serialize r),
                                   log_offset := nat (int (log_offset lm) + log_tot_len (log_header r))\<rparr>))
             (ret l)))))"

section \<open>Reading back\<close>

definition header_fits :: "LogHeader \<Rightarrow> bool" where
  "header_fits h \<longleftrightarrow> fits_signed 4 (log_type h) \<and> fits_signed 4 (lsn h) \<and> fits_unsigned 4 (log_tot_len h) \<and>
     fits_signed 4 (log_tid h) \<and> fits_signed 4 (log_prev_lsn h)"

definition rid_fits :: "Rid \<Rightarrow> bool" where
  "rid_fits r \<longleftrightarrow> fits_signed 4 (page_no r) \<and> fits_signed 4 (slot_no r)"

text \<open>A record as the constructors build it, with fields that fit their C++ types.\<close>

fun log_record_ok :: "LogRecord \<Rightarrow> bool" where
  "log_record_ok (BeginLogRecord h) \<longleftrightarrow> header_fits h \<and> log_type h = log_type_code LOG_begin \<and> log_tot_len h = 20"
| "log_record_ok (CommitLogRecord h) \<longleftrightarrow> header_fits h \<and> log_type h = log_type_code LOG_commit \<and> log_tot_len h = 20"
| "log_record_ok (AbortLogRecord h) \<longleftrightarrow> header_fits h \<and> log_type h = log_type_code LOG_ABORT \<and> log_tot_len h = 20"
| "log_record_ok (InsertLogRecord h v r t) \<longleftrightarrow> header_fits h \<and> log_type h = log_type_code LOG_INSERT \<and>
     rid_fits r \<and> log_tot_len h = int (40 + length v + length t) \<and> log_tot_len h < 2 ^ 31"
| "log_record_ok (DeleteLogRecord h v r t) \<longleftrightarrow> header_fits h \<and> log_type h = log_type_code LOG_DELETE \<and>
     rid_fits r \<and> log_tot_len h = int (40 + length v + length t) \<and> log_tot_len h < 2 ^ 31"
| "log_record_ok (UpdateLogRecord h u v r t) \<longleftrightarrow> header_fits h \<and> log_type h = log_type_code LOG_UPDATE \<and>
     rid_fits r \<and> log_tot_len h = int (44 + length u + length v + length t) \<and> log_tot_len h < 2 ^ 31"

lemma read_at_append:
  "off = length xs \<Longrightarrow> n = length ys \<Longrightarrow> read_at (xs @ ys @ zs) off n = ys"
  by (simp add: read_at_def)

lemma read_at_skip: "length xs \<le> off \<Longrightarrow> read_at (xs @ ys) off n = read_at ys (off - length xs) n"
  by (simp add: read_at_def)

lemma read_at_here: "n = length ys \<Longrightarrow> read_at (ys @ zs) 0 n = ys"
  by (simp add: read_at_def)

lemma length_ser [simp]:
  "length (ser_header h) = 20" "length (ser_rid r) = 8" "length (ser_value v) = 4 + length v"
  "length (ser_name t) = 8 + length t"
  by (simp_all add: ser_header_def ser_rid_def ser_value_def ser_name_def)

lemma length_serialize: "log_record_ok r \<Longrightarrow> int (length (serialize r)) = log_tot_len (log_header r)"
  by (cases r) auto

lemma des_header_ser: "header_fits h \<Longrightarrow> des_header (ser_header h @ rest) = h"
  by (simp add: des_header_def header_fits_def ser_header_def log_offsets get_i32_def get_u32_def
      read_at_skip read_at_here dec_signed_enc dec_le_unsigned)

lemma log_type_ser: "header_fits h \<Longrightarrow> get_i32 (ser_header h @ rest) OFFSET_LOG_TYPE = log_type h"
  by (simp add: header_fits_def ser_header_def log_offsets get_i32_def read_at_here dec_signed_enc)

lemma des_value_ser:
  assumes "off = length xs" "length v < 2 ^ 31"
  shows "des_value (xs @ ser_value v @ zs) off = v"
proof -
  have "fits_signed 4 (int (length v))" using assms(2) by (simp add: fits_signed_def)
  then have "get_i32 (xs @ ser_value v @ zs) off = int (length v)"
    using assms(1) by (simp add: get_i32_def ser_value_def read_at_skip read_at_here dec_signed_enc)
  then show ?thesis using assms(1) by (simp add: des_value_def ser_value_def read_at_skip read_at_here)
qed

lemma des_rid_ser:
  assumes "off = length xs" "rid_fits r"
  shows "des_rid (xs @ ser_rid r @ zs) off = r"
  using assms by (simp add: des_rid_def ser_rid_def rid_fits_def get_i32_def read_at_skip read_at_here dec_signed_enc)

lemma des_name_ser:
  assumes "off = length xs" "length t < 2 ^ 31"
  shows "des_name (xs @ ser_name t @ zs) off = t"
proof -
  have "fits_unsigned 8 (int (length t))" using assms(2) by (simp add: fits_unsigned_def)
  then have "get_u64 (xs @ ser_name t @ zs) off = int (length t)"
    using assms(1) by (simp add: get_u64_def ser_name_def read_at_skip read_at_here dec_le_unsigned)
  then show ?thesis using assms(1) by (simp add: des_name_def ser_name_def read_at_skip read_at_here)
qed

lemma des_one_value:
  fixes h :: LogHeader and r :: Rid and v t rest :: "byte list"
  assumes "header_fits h" "rid_fits r" "length v < 2 ^ 31" "length t < 2 ^ 31"
  defines "src \<equiv> ser_header h @ ser_value v @ ser_rid r @ ser_name t @ rest"
  shows "des_header src = h" "des_value src 20 = v" "des_rid src (24 + length v) = r"
    "des_name src (32 + length v) = t"
  using assms des_header_ser [of h] des_value_ser [of 20 "ser_header h" v]
    des_rid_ser [of "24 + length v" "ser_header h @ ser_value v" r]
    des_name_ser [of "32 + length v" "ser_header h @ ser_value v @ ser_rid r" t]
  by simp_all

lemma des_two_values:
  fixes h :: LogHeader and r :: Rid and u v t rest :: "byte list"
  assumes "header_fits h" "rid_fits r" "length u < 2 ^ 31" "length v < 2 ^ 31" "length t < 2 ^ 31"
  defines "src \<equiv> ser_header h @ ser_value u @ ser_value v @ ser_rid r @ ser_name t @ rest"
  shows "des_header src = h" "des_value src 20 = u" "des_value src (24 + length u) = v"
    "des_rid src (28 + length u + length v) = r" "des_name src (36 + length u + length v) = t"
  using assms des_header_ser [of h] des_value_ser [of 20 "ser_header h" u]
    des_value_ser [of "24 + length u" "ser_header h @ ser_value u" v]
    des_rid_ser [of "28 + length u + length v" "ser_header h @ ser_value u @ ser_value v" r]
    des_name_ser [of "36 + length u + length v" "ser_header h @ ser_value u @ ser_value v @ ser_rid r" t]
  by (simp_all add: algebra_simps)

lemma deserialize_serialize:
  assumes "log_record_ok r"
  shows "deserialize (serialize r @ rest) = Some r"
proof (cases r)
  case (InsertLogRecord h v rid t)
  have "header_fits h" "rid_fits rid" "length v < 2 ^ 31" "length t < 2 ^ 31" "log_type h = 1"
    using assms InsertLogRecord by auto
  with des_one_value [of h rid v t rest] log_type_ser [of h] InsertLogRecord show ?thesis
    by (simp add: deserialize_def deserialize_insert_def log_offsets Let_def algebra_simps)
next
  case (DeleteLogRecord h v rid t)
  have "header_fits h" "rid_fits rid" "length v < 2 ^ 31" "length t < 2 ^ 31" "log_type h = 2"
    using assms DeleteLogRecord by auto
  with des_one_value [of h rid v t rest] log_type_ser [of h] DeleteLogRecord show ?thesis
    by (simp add: deserialize_def deserialize_delete_def log_offsets Let_def algebra_simps)
next
  case (UpdateLogRecord h u v rid t)
  have "header_fits h" "rid_fits rid" "length u < 2 ^ 31" "length v < 2 ^ 31" "length t < 2 ^ 31" "log_type h = 0"
    using assms UpdateLogRecord by auto
  with des_two_values [of h rid u v t rest] log_type_ser [of h] UpdateLogRecord show ?thesis
    by (simp add: deserialize_def deserialize_update_def log_offsets Let_def algebra_simps)
qed (use assms des_header_ser log_type_ser in \<open>auto simp: deserialize_def Let_def\<close>)

text \<open>C20 Every log record that the constructors build is read back from its bytes, whatever follows it
  in the log: type, sequence numbers, transaction, values, record id and table name.\<close>

theorem log_record_roundtrip:
  assumes "log_record_ok r"
  shows "deserialize (serialize r @ rest) = Some r"
  using assms by (rule deserialize_serialize)

lemma new_InsertLogRecord_ok:
  "fits_signed 4 tid \<Longrightarrow> rid_fits r \<Longrightarrow> length v + length t < 2 ^ 30 \<Longrightarrow> log_record_ok (new_InsertLogRecord tid v r t)"
  by (simp add: new_InsertLogRecord_def new_header_def header_fits_def fits_signed_def fits_unsigned_def INVALID_LSN_def log_offsets)

theorem log_record_roundtrip_witness:
  "deserialize (serialize (new_InsertLogRecord 5 [1, 2, 3] \<lparr>page_no = 1, slot_no = 4\<rparr> [0x74]) @ [9, 9]) =
     Some (new_InsertLogRecord 5 [1, 2, 3] \<lparr>page_no = 1, slot_no = 4\<rparr> [0x74])"
  by (rule log_record_roundtrip, rule new_InsertLogRecord_ok) (simp_all add: rid_fits_def fits_signed_def)

section \<open>The log as one stream of records\<close>

lemma write_pad_end [simp]: "write_pad d (length d) bs = d @ bs"
  by (simp add: write_pad_def)

lemma write_log_appends:
  assumes "log_fd d = l" "l \<noteq> -1" "fd_inode d l = Some i"
  obtains d' where "write_log bs d = (Inr (), d')" "same_tables d d'"
    "os_data (dm_os d') = (os_data (dm_os d))(i := os_data (dm_os d) i @ bs)"
proof -
  obtain q where q: "map_of (os_fds (dm_os d)) l = Some (i, q)"
    using assms(3) by (auto simp: fd_inode_def)
  let ?r = "write_log bs d"
  have "fst ?r = Inr ()" and "same_tables d (snd ?r)"
    and "os_data (dm_os (snd ?r)) = (os_data (dm_os d))(i := os_data (dm_os d) i @ bs)"
    using q assms(1,2)
    by (simp_all add: write_log_def ensure_log_open_def prog_simps sys_def sys_do_def lseek_end_def
        os_write_def map_of_set_offset same_tables_def fd_inode_def fun_eq_iff option.map_comp comp_def
        case_prod_beta)
  then show ?thesis using that [of "snd ?r"] by (metis prod.collapse)
qed

definition log_file :: "LogEnv \<Rightarrow> byte list" where
  "log_file e = fd_data (le_disk e) (log_fd (le_disk e))"

definition log_stream :: "LogEnv \<Rightarrow> byte list" where
  "log_stream e = log_file e @ take (log_offset (le_log e)) (log_buffer (le_log e))"

definition log_open :: "DiskManager \<Rightarrow> bool" where
  "log_open d \<longleftrightarrow> log_fd d \<noteq> -1 \<and> fd_inode d (log_fd d) \<noteq> None \<and> path2fd d LOG_FILE_NAME \<noteq> None"

definition log_ok :: "LogEnv \<Rightarrow> bool" where
  "log_ok e \<longleftrightarrow> log_open (le_disk e) \<and> length (log_buffer (le_log e)) = LOG_BUFFER_SIZE + 1 \<and>
     log_offset (le_log e) \<le> LOG_BUFFER_SIZE"

text \<open>Two disks where files have only grown at their ends.\<close>

definition log_grown :: "DiskManager \<Rightarrow> DiskManager \<Rightarrow> bool" where
  "log_grown d d' \<longleftrightarrow> same_tables d d' \<and> (\<forall>j. \<exists>bs. os_data (dm_os d') j = os_data (dm_os d) j @ bs)"

lemma log_grown_refl [simp]: "log_grown d d"
  by (simp add: log_grown_def)

lemma log_grown_trans: "log_grown d e \<Longrightarrow> log_grown e f \<Longrightarrow> log_grown d f"
  unfolding log_grown_def by (metis append_assoc same_tables_trans)

lemma flush_log_correct:
  assumes ok: "log_ok e"
  obtains e' where "flush_log_to_disk e = (Inr (), e')" "log_ok e'" "log_stream e' = log_stream e"
    "log_offset (le_log e') = 0" "global_lsn (le_log e') = global_lsn (le_log e)" "log_grown (le_disk e) (le_disk e')"
proof (cases "log_offset (le_log e) = 0")
  case True
  then show ?thesis using ok that [of e] by (simp add: flush_log_to_disk_def prog_simps)
next
  case False
  let ?d = "le_disk e" and ?bs = "take (log_offset (le_log e)) (log_buffer (le_log e))"
  obtain i f where i: "log_fd ?d \<noteq> -1" "fd_inode ?d (log_fd ?d) = Some i" "path2fd ?d LOG_FILE_NAME = Some f"
    using ok by (auto simp: log_ok_def log_open_def)
  obtain d' where d': "write_log ?bs ?d = (Inr (), d')" "same_tables ?d d'"
      "os_data (dm_os d') = (os_data (dm_os ?d))(i := os_data (dm_os ?d) i @ ?bs)"
    by (rule write_log_appends [OF refl i(1,2)])
  let ?e = "e\<lparr>le_disk := d', le_log := (le_log e)\<lparr>persist_lsn := global_lsn (le_log e) - 1, log_offset := 0,
                            log_buffer := replicate (LOG_BUFFER_SIZE + 1) 0\<rparr>\<rparr>"
  have run: "flush_log_to_disk e = (Inr (), ?e)"
    using False i(3) d'(1)
    by (simp add: flush_log_to_disk_def upd_log_def on_log_disk_def get_file_fd_def prog_simps)
  have tabs: "log_fd d' = log_fd ?d" "fd_inode d' = fd_inode ?d" "path2fd d' = path2fd ?d"
    using d'(2) by (simp_all add: same_tables_def)
  show ?thesis
  proof (rule that [OF run])
    show "log_ok ?e" using i by (simp add: log_ok_def log_open_def tabs)
    show "log_stream ?e = log_stream e"
      by (simp add: log_stream_def log_file_def fd_data_def tabs i(2) d'(3))
    show "log_grown ?d (le_disk ?e)" using d'(2,3) by (simp add: log_grown_def)
  qed simp_all
qed

lemma log_header_set_lsn [simp]: "log_tot_len (log_header (set_lsn l r)) = log_tot_len (log_header r)"
  by (cases r) simp_all

lemma log_record_ok_set_lsn: "log_record_ok r \<Longrightarrow> fits_signed 4 l \<Longrightarrow> log_record_ok (set_lsn l r)"
  by (cases r) (auto simp: header_fits_def fits_signed_def fits_unsigned_def)

lemma take_write_at:
  "off + length bs \<le> length d \<Longrightarrow> take (off + length bs) (write_at d off bs) = take off d @ bs"
  by (simp add: write_at_def)

lemma add_log_correct:
  assumes ok: "log_ok e" and r: "log_record_ok r" and len: "length (serialize r) \<le> LOG_BUFFER_SIZE"
    and l: "global_lsn (le_log e) = l" "0 \<le> l" "l + 1 < 2 ^ 31"
  obtains e' where "add_log_to_buffer r e = (Inr l, e')" "log_ok e'"
    "log_stream e' = log_stream e @ serialize (set_lsn l r)" "global_lsn (le_log e') = l + 1" "log_grown (le_disk e) (le_disk e')"
proof -
  let ?r = "set_lsn l r" and ?e0 = "e\<lparr>le_log := (le_log e)\<lparr>global_lsn := l + 1\<rparr>\<rparr>"
  have r': "log_record_ok ?r"
    using r l by (intro log_record_ok_set_lsn) (simp_all add: fits_signed_def)
  have tot: "log_tot_len (log_header r) = int (length (serialize ?r))" "length (serialize ?r) = length (serialize r)"
    using length_serialize [OF r] length_serialize [OF r'] by simp_all
  have ok0: "log_ok ?e0" "log_stream ?e0 = log_stream e"
    using ok by (simp_all add: log_ok_def log_stream_def log_file_def)
  let ?flush = "bindE (gets (\<lambda>s. is_full (le_log s) (log_tot_len (log_header ?r)))) (\<lambda>full.
               if full then flush_log_to_disk else ret ())"
  obtain e1 where e1: "?flush ?e0 = (Inr (), e1)" "log_ok e1" "log_stream e1 = log_stream e"
      "global_lsn (le_log e1) = l + 1" "log_offset (le_log e1) + length (serialize ?r) \<le> LOG_BUFFER_SIZE" "log_grown (le_disk e) (le_disk e1)"
  proof (cases "is_full (le_log ?e0) (log_tot_len (log_header ?r))")
    case True
    obtain e1 where "flush_log_to_disk ?e0 = (Inr (), e1)" "log_ok e1" "log_stream e1 = log_stream ?e0"
        "log_offset (le_log e1) = 0" "global_lsn (le_log e1) = global_lsn (le_log ?e0)" "log_grown (le_disk ?e0) (le_disk e1)"
      by (rule flush_log_correct [OF ok0(1)])
    with True tot(2) len ok0(2) show ?thesis by (intro that [of e1]) (simp_all add: prog_simps)
  next
    case False
    then show ?thesis using ok0 tot by (intro that [of ?e0]) (simp_all add: prog_simps is_full_def)
  qed
  let ?lm = "le_log e1"
  let ?e2 = "e1\<lparr>le_log := ?lm\<lparr>log_buffer := write_at (log_buffer ?lm) (log_offset ?lm) (serialize ?r),
                             log_offset := log_offset ?lm + length (serialize ?r)\<rparr>\<rparr>"
  have room: "log_offset ?lm + length (serialize ?r) \<le> length (log_buffer ?lm)"
    using e1(2,5) by (simp add: log_ok_def)
  have w: "wrap32 (l + 1) = l + 1" using l by (intro wrap32_id) simp_all
  have n: "nat (int a + int b) = a + b" for a b by simp
  have run: "add_log_to_buffer r e = (Inr l, ?e2)"
    using e1(1,5) l(1) w unfolding add_log_to_buffer_def Let_def
    by (simp add: prog_simps upd_log_def tot(1) n del: of_nat_add)
  show ?thesis
  proof (rule that [OF run])
    show "log_ok ?e2" using e1(2,5) room by (simp add: log_ok_def)
    show "log_stream ?e2 = log_stream e @ serialize ?r"
      using e1(3) take_write_at [OF room] by (simp add: log_stream_def log_file_def)
  qed (use e1(4,6) in simp_all)
qed

fun add_logs :: "LogRecord list \<Rightarrow> (LogEnv, unit) prog" where
  "add_logs [] = ret ()"
| "add_logs (r # rs) = thenE (add_log_to_buffer r) (add_logs rs)"

fun number :: "int \<Rightarrow> LogRecord list \<Rightarrow> LogRecord list" where
  "number l [] = []"
| "number l (r # rs) = set_lsn l r # number (l + 1) rs"

lemma add_logs_correct:
  assumes "log_ok e" "\<forall>r\<in>set rs. log_record_ok r \<and> length (serialize r) \<le> LOG_BUFFER_SIZE"
    and "global_lsn (le_log e) = l" "0 \<le> l" "l + int (length rs) < 2 ^ 31"
  shows "\<exists>e'. add_logs rs e = (Inr (), e') \<and> log_ok e' \<and>
     log_stream e' = log_stream e @ concat (map serialize (number l rs))"
  using assms
proof (induction rs arbitrary: e l)
  case Nil
  then show ?case by (simp add: prog_simps)
next
  case (Cons r rs)
  have r: "log_record_ok r" "length (serialize r) \<le> LOG_BUFFER_SIZE" "l + 1 < 2 ^ 31"
    using Cons.prems by simp_all
  obtain e1 where e1: "add_log_to_buffer r e = (Inr l, e1)" "log_ok e1"
      "log_stream e1 = log_stream e @ serialize (set_lsn l r)" "global_lsn (le_log e1) = l + 1"
    by (rule add_log_correct [OF Cons.prems(1) r(1,2) Cons.prems(3,4) r(3)])
  obtain e' where "add_logs rs e1 = (Inr (), e')" "log_ok e'"
      "log_stream e' = log_stream e1 @ concat (map serialize (number (l + 1) rs))"
    using Cons.IH [OF e1(2) _ e1(4)] Cons.prems(2,4,5) by auto
  with e1 show ?case by (simp add: prog_simps)
qed

text \<open>C19 Records added to the log one after another, whatever flushes the full buffer forces between
  them, are in the log file after a final flush: after what was there, in the order of the calls, each
  with the next sequence number, byte for byte.\<close>

theorem log_stream_appends:
  assumes "log_ok e" "\<forall>r\<in>set rs. log_record_ok r \<and> length (serialize r) \<le> LOG_BUFFER_SIZE"
    and "0 \<le> global_lsn (le_log e)" "global_lsn (le_log e) + int (length rs) < 2 ^ 31"
  shows "\<exists>e'. thenE (add_logs rs) flush_log_to_disk e = (Inr (), e') \<and>
     log_file e' = log_stream e @ concat (map serialize (number (global_lsn (le_log e)) rs))"
proof -
  obtain e1 where e1: "add_logs rs e = (Inr (), e1)" "log_ok e1"
      "log_stream e1 = log_stream e @ concat (map serialize (number (global_lsn (le_log e)) rs))"
    using add_logs_correct [OF assms(1,2) refl assms(3,4)] by blast
  obtain e2 where "flush_log_to_disk e1 = (Inr (), e2)" "log_stream e2 = log_stream e1" "log_offset (le_log e2) = 0"
    using flush_log_correct [OF e1(2)] by blast
  with e1 show ?thesis by (auto simp: prog_simps log_stream_def)
qed

definition log_env :: LogEnv where
  "log_env = \<lparr>le_log = new_LogManager, le_disk =
     (new_DiskManager (one_file_os [1, 2]))\<lparr>log_fd := 3, path2fd := [LOG_FILE_NAME \<mapsto> 3]\<rparr>\<rparr>"

lemma log_env_ok: "log_ok log_env"
  by (simp add: log_ok_def log_open_def log_env_def new_LogManager_def fd_inode_def new_DiskManager_def one_file_os_def)

lemma log_env_stream: "log_stream log_env = [1, 2]"
  by (simp add: log_stream_def log_file_def fd_data_def log_env_def new_LogManager_def fd_inode_def new_DiskManager_def
      one_file_os_def)

theorem log_stream_appends_witness:
  "\<exists>e'. thenE (add_logs [new_BeginLogRecord 5, new_CommitLogRecord 5]) flush_log_to_disk log_env = (Inr (), e') \<and>
     log_file e' = [1, 2] @ serialize (set_lsn 0 (new_BeginLogRecord 5)) @ serialize (set_lsn 1 (new_CommitLogRecord 5))"
proof -
  have g: "global_lsn (le_log log_env) = 0" by (simp add: log_env_def new_LogManager_def)
  have "\<forall>r\<in>set [new_BeginLogRecord 5, new_CommitLogRecord 5]. log_record_ok r \<and> length (serialize r) \<le> LOG_BUFFER_SIZE"
    by (simp add: new_BeginLogRecord_def new_CommitLogRecord_def new_header_def header_fits_def fits_signed_def
        fits_unsigned_def INVALID_LSN_def log_offsets LOG_BUFFER_SIZE_def PAGE_SIZE_def)
  from log_stream_appends [OF log_env_ok this] show ?thesis by (simp add: g log_env_stream)
qed

end
