(* ===== verification/Values.thy ===== *)
theory Values
  imports Prelude
begin

text \<open>
  \<^verbatim>\<open>common/common.h\<close> and the column types of \<^verbatim>\<open>defs.h\<close>: SQL values and their byte images,
  conditions, and the packed 64-bit datetimes. A \<^verbatim>\<open>float\<close> is its 32-bit pattern; comparison,
  addition and conversion follow IEEE 754 on the patterns. The union of a value is its eight bytes.
  The text of a datetime is shown to be recovered from its packed form and the packed order to be the
  chronological one.
\<close>

section \<open>Strings and numbers\<close>

definition bytes_of :: "string \<Rightarrow> byte list" where
  "bytes_of s = map (\<lambda>c. word_of_nat (of_char c)) s"

definition str_of :: "byte list \<Rightarrow> string" where
  "str_of bs = map (\<lambda>b. char_of (unat b)) bs"

text \<open>\<^verbatim>\<open>std::string(p, len)\<close> cut by \<^verbatim>\<open>resize(strlen(c_str()))\<close>.\<close>

definition c_str :: "byte list \<Rightarrow> byte list" where
  "c_str bs = takeWhile (\<lambda>b. b \<noteq> 0) bs"

text \<open>\<^verbatim>\<open>std::string\<close>'s \<^verbatim>\<open><\<close>, which compares unsigned bytes.\<close>

fun bytes_less :: "byte list \<Rightarrow> byte list \<Rightarrow> bool" where
  "bytes_less xs [] = False"
| "bytes_less [] (y # ys) = True"
| "bytes_less (x # xs) (y # ys) = (if x = y then bytes_less xs ys else x < y)"

definition digit_char :: "nat \<Rightarrow> char" where
  "digit_char d = char_of (48 + d)"

fun show_nat :: "nat \<Rightarrow> string" where
  "show_nat n = (if n < 10 then [digit_char n] else show_nat (n div 10) @ [digit_char (n mod 10)])"

declare show_nat.simps [simp del]

definition to_string :: "int \<Rightarrow> string" where
  "to_string i = (if i < 0 then CHR ''-'' # show_nat (nat (- i)) else show_nat (nat i))"

definition is_digit :: "char \<Rightarrow> bool" where
  "is_digit c \<longleftrightarrow> 48 \<le> (of_char c :: nat) \<and> (of_char c :: nat) \<le> 57"

definition is_space :: "char \<Rightarrow> bool" where
  "is_space c \<longleftrightarrow> (of_char c :: nat) = 32 \<or> 9 \<le> (of_char c :: nat) \<and> (of_char c :: nat) \<le> 13"

definition digits_val :: "string \<Rightarrow> nat" where
  "digits_val ds = foldl (\<lambda>n c. 10 * n + (of_char c - 48)) 0 ds"

text \<open>\<^verbatim>\<open>std::stoi\<close> on strings too short to overflow: leading blanks, a sign, then the longest run of digits.\<close>

definition stoi :: "string \<Rightarrow> ('s, int) prog" where
  "stoi str =
     (let t = dropWhile is_space str;
          neg = (t \<noteq> [] \<and> hd t = CHR ''-'');
          u = (if t \<noteq> [] \<and> (hd t = CHR ''-'' \<or> hd t = CHR ''+'') then tl t else t);
          ds = takeWhile is_digit u in
      if ds = [] then raise (StdException ''std::invalid_argument'')
      else ret (if neg then - int (digits_val ds) else int (digits_val ds)))"

section \<open>Floats\<close>

type_synonym f32 = int

definition f32_mag :: "f32 \<Rightarrow> int" where "f32_mag a = a mod 2 ^ 31"
definition f32_neg :: "f32 \<Rightarrow> bool" where "f32_neg a \<longleftrightarrow> 2 ^ 31 \<le> a"
definition f32_inf :: int where "f32_inf = 255 * 2 ^ 23"
definition f32_nan :: "f32 \<Rightarrow> bool" where "f32_nan a \<longleftrightarrow> f32_mag a > f32_inf"

definition f32_key :: "f32 \<Rightarrow> int" where
  "f32_key a = (if f32_neg a then - f32_mag a else f32_mag a)"

definition f32_less :: "f32 \<Rightarrow> f32 \<Rightarrow> bool" where
  "f32_less a b \<longleftrightarrow> \<not> f32_nan a \<and> \<not> f32_nan b \<and> f32_key a < f32_key b"

definition f32_eq :: "f32 \<Rightarrow> f32 \<Rightarrow> bool" where
  "f32_eq a b \<longleftrightarrow> \<not> f32_nan a \<and> \<not> f32_nan b \<and> f32_key a = f32_key b"

text \<open>A finite pattern is \<open>f32_man a * 2 ^ (f32_exp a - 149)\<close>; \<open>f32_round neg m e\<close> is the pattern nearest to
  \<open>m * 2 ^ (e - 149)\<close>, ties to even, with overflow to infinity.\<close>

definition f32_exp :: "f32 \<Rightarrow> nat" where
  "f32_exp a = nat (f32_mag a div 2 ^ 23) - 1"

definition f32_man :: "f32 \<Rightarrow> int" where
  "f32_man a =
     (let m = f32_mag a mod 2 ^ 23 + (if f32_mag a < 2 ^ 23 then 0 else 2 ^ 23) in
      if f32_neg a then - m else m)"

function bit_len :: "int \<Rightarrow> nat" where
  "bit_len n = (if n \<le> 0 then 0 else Suc (bit_len (n div 2)))"
  by pat_completeness auto
termination by (relation "measure nat") auto

declare bit_len.simps [simp del]

definition f32_round :: "bool \<Rightarrow> int \<Rightarrow> nat \<Rightarrow> f32" where
  "f32_round neg m e =
     (let t = e + bit_len m - 24;
          q = (if t \<le> e then m * 2 ^ (e - t)
               else let s = 2 ^ (t - e); d = m div s; r = 2 * (m mod s) in
                    if s < r \<or> r = s \<and> odd d then d + 1 else d);
          p = min (int t * 2 ^ 23 + q) f32_inf in
      if neg then 2 ^ 31 + p else p)"

definition f32_of_int :: "int \<Rightarrow> f32" where
  "f32_of_int i = f32_round (i < 0) \<bar>i\<bar> 149"

definition f32_add :: "f32 \<Rightarrow> f32 \<Rightarrow> f32" where
  "f32_add a b =
     (if f32_nan a then a else if f32_nan b then b
      else if f32_mag a = f32_inf then (if f32_mag b = f32_inf \<and> f32_neg a \<noteq> f32_neg b then 0xFFC00000 else a)
      else if f32_mag b = f32_inf then b
      else let e = min (f32_exp a) (f32_exp b);
               m = f32_man a * 2 ^ (f32_exp a - e) + f32_man b * 2 ^ (f32_exp b - e) in
           if m = 0 then (if f32_neg a \<and> f32_neg b then 2 ^ 31 else 0)
           else f32_round (m < 0) \<bar>m\<bar> e)"

section \<open>Values and conditions\<close>

datatype AggType = AGG_NONE | AGG_SUM | AGG_MAX | AGG_MIN | AGG_COUNT | AGG_COUNT_STAR

fun coltype2str :: "ColType \<Rightarrow> string" where
  "coltype2str TYPE_INT = ''INT''"
| "coltype2str TYPE_FLOAT = ''FLOAT''"
| "coltype2str TYPE_STRING = ''STRING''"
| "coltype2str TYPE_BIGINT = ''BIGINT''"
| "coltype2str TYPE_DATETIME = ''DATETIME''"

record TabCol =
  tc_tab_name :: string
  tc_col_name :: string
  tc_alias :: string
  tc_agg_type :: AggType

definition pair_less :: "(string \<times> string) \<Rightarrow> (string \<times> string) \<Rightarrow> bool" where
  "pair_less x y \<longleftrightarrow> bytes_less (bytes_of (fst x)) (bytes_of (fst y)) \<or>
     fst x = fst y \<and> bytes_less (bytes_of (snd x)) (bytes_of (snd y))"

definition TabCol_less :: "TabCol \<Rightarrow> TabCol \<Rightarrow> bool" where
  "TabCol_less x y \<longleftrightarrow> pair_less (tc_tab_name x, tc_col_name x) (tc_tab_name y, tc_col_name y)"

text \<open>\<open>v_union\<close> holds the eight bytes of the anonymous union; \<open>v_raw\<close> is the shared record, if any.\<close>

record Value =
  v_type :: ColType
  v_union :: "byte list"
  str_val :: "byte list"
  v_raw :: "byte list option"

definition bigint_val :: "Value \<Rightarrow> int" where
  "bigint_val v = dec_signed 8 (v_union v)"

definition datetime_val :: "Value \<Rightarrow> int" where
  "datetime_val v = dec_signed 8 (v_union v)"

definition float_val :: "Value \<Rightarrow> f32" where
  "float_val v = dec_le (take 4 (v_union v))"

definition set_int :: "int \<Rightarrow> Value \<Rightarrow> Value" where
  "set_int i v = v\<lparr>v_type := TYPE_INT, v_union := enc_le 8 i\<rparr>"

definition set_float :: "f32 \<Rightarrow> Value \<Rightarrow> Value" where
  "set_float f v = v\<lparr>v_type := TYPE_FLOAT, v_union := write_at (v_union v) 0 (enc_le 4 f)\<rparr>"

definition set_str :: "byte list \<Rightarrow> Value \<Rightarrow> Value" where
  "set_str s v = v\<lparr>v_type := TYPE_STRING, str_val := s\<rparr>"

definition set_bigint :: "int \<Rightarrow> Value \<Rightarrow> Value" where
  "set_bigint i v = v\<lparr>v_type := TYPE_BIGINT, v_union := enc_le 8 i\<rparr>"

definition set_datetime :: "int \<Rightarrow> Value \<Rightarrow> Value" where
  "set_datetime i v = v\<lparr>v_type := TYPE_DATETIME, v_union := enc_le 8 i\<rparr>"

text \<open>The record buffer is not initialised in C++; every branch that returns fills all of it.\<close>

definition init_raw :: "int \<Rightarrow> Value \<Rightarrow> ('s, Value) prog" where
  "init_raw len v =
     thenE (assertE (v_raw v = None))
     (case v_type v of
        TYPE_INT \<Rightarrow> thenE (assertE (len = 4)) (ret (v\<lparr>v_raw := Some (enc_le 4 (bigint_val v))\<rparr>))
      | TYPE_BIGINT \<Rightarrow> thenE (assertE (len = 8)) (ret (v\<lparr>v_raw := Some (enc_le 8 (bigint_val v))\<rparr>))
      | TYPE_DATETIME \<Rightarrow> thenE (assertE (len = 8)) (ret (v\<lparr>v_raw := Some (enc_le 8 (datetime_val v))\<rparr>))
      | TYPE_FLOAT \<Rightarrow> thenE (assertE (len = 4)) (ret (v\<lparr>v_raw := Some (enc_le 4 (float_val v))\<rparr>))
      | TYPE_STRING \<Rightarrow>
          if len < int (length (str_val v)) then raise StringOverflowError
          else ret (v\<lparr>v_raw := Some (str_val v @ replicate (nat len - length (str_val v)) 0)\<rparr>))"

datatype CompOp = OP_EQ | OP_NE | OP_LT | OP_GT | OP_LE | OP_GE

record Condition =
  lhs_col :: TabCol
  c_op :: CompOp
  is_rhs_val :: bool
  rhs_col :: TabCol
  rhs_val :: Value

record SetClause =
  sc_lhs :: TabCol
  sc_rhs :: Value

section \<open>Datetimes\<close>

definition days_in_month :: "int \<Rightarrow> int \<Rightarrow> int" where
  "days_in_month year month =
     (let ds = [31, 28, 31, 30, 31, 30, 31, 31, 30, 31, 30, 31];
          ds' = (if year mod 4 = 0 \<and> year mod 100 \<noteq> 0 \<or> year mod 400 = 0 then ds[1 := 29] else ds) in
      ds' ! nat (month - 1))"

definition substr :: "string \<Rightarrow> nat \<Rightarrow> nat \<Rightarrow> string" where
  "substr s off n = take n (drop off s)"

text \<open>The fields are packed into disjoint bit ranges of an \<^verbatim>\<open>int64_t\<close>.\<close>

definition pack_datetime :: "int \<Rightarrow> int \<Rightarrow> int \<Rightarrow> int \<Rightarrow> int \<Rightarrow> int \<Rightarrow> int" where
  "pack_datetime year month day hour minute second =
     or (or (or (or (or second (push_bit 6 minute)) (push_bit 12 hour)) (push_bit 17 day)) (push_bit 22 month))
        (push_bit 26 year)"

definition check_datetime :: "int \<Rightarrow> int \<Rightarrow> int \<Rightarrow> int \<Rightarrow> int \<Rightarrow> int \<Rightarrow> ('s, int) prog" where
  "check_datetime year month day hour minute second =
     (if year < 1000 \<or> year > 9999 then raise (RMDBError ''Invalid datetime: year out of range'')
      else if month < 1 \<or> month > 12 then raise (RMDBError ''Invalid datetime: month out of range'')
      else if day < 1 \<or> day > 31 then raise (RMDBError ''Invalid datetime: day out of range'')
      else if hour < 0 \<or> hour > 23 then raise (RMDBError ''Invalid datetime: hour out of range'')
      else if minute < 0 \<or> minute > 59 then raise (RMDBError ''Invalid datetime: minute out of range'')
      else if second < 0 \<or> second > 59 then raise (RMDBError ''Invalid datetime: second out of range'')
      else if day > days_in_month year month then
        raise (RMDBError ''Invalid datetime: day out of range for month'')
      else ret (pack_datetime year month day hour minute second))"

definition parse_datetime :: "string \<Rightarrow> ('s, int) prog" where
  "parse_datetime str =
     (if length str \<noteq> 19 then raise (RMDBError ''Invalid datetime format'')
      else if str ! 4 \<noteq> CHR ''-'' \<or> str ! 7 \<noteq> CHR ''-'' \<or> str ! 10 \<noteq> CHR '' '' \<or> str ! 13 \<noteq> CHR '':'' \<or>
              str ! 16 \<noteq> CHR '':'' then raise (RMDBError ''Invalid datetime format'')
      else
        bindE (stoi (substr str 0 4)) (\<lambda>year.
        bindE (stoi (substr str 5 2)) (\<lambda>month.
        bindE (stoi (substr str 8 2)) (\<lambda>day.
        bindE (stoi (substr str 11 2)) (\<lambda>hour.
        bindE (stoi (substr str 14 2)) (\<lambda>minute.
        bindE (stoi (substr str 17 2)) (\<lambda>second. check_datetime year month day hour minute second)))))))"

text \<open>\<^verbatim>\<open>%0wd\<close> of a nonnegative number.\<close>

definition pad_num :: "nat \<Rightarrow> int \<Rightarrow> string" where
  "pad_num w i = (let s = show_nat (nat i) in replicate (w - length s) (CHR ''0'') @ s)"

text \<open>\<^verbatim>\<open>snprintf\<close> cuts the text to the 19 characters that fit the buffer.\<close>

definition format_datetime :: "int \<Rightarrow> string" where
  "format_datetime dt =
     (let second = and dt 0x3F; minute = and (drop_bit 6 dt) 0x3F; hour = and (drop_bit 12 dt) 0x1F;
          day = and (drop_bit 17 dt) 0x1F; month = and (drop_bit 22 dt) 0xF; year = and (drop_bit 26 dt) 0x3FFF in
      take 19 (pad_num 4 year @ ''-'' @ pad_num 2 month @ ''-'' @ pad_num 2 day @ '' '' @ pad_num 2 hour @ '':'' @
        pad_num 2 minute @ '':'' @ pad_num 2 second))"

section \<open>Text and packed form\<close>

lemma or_push_bit: "0 \<le> a \<Longrightarrow> a < 2 ^ n \<Longrightarrow> or a (push_bit n b) = a + 2 ^ n * (b :: int)"
proof -
  assume "0 \<le> a" "a < 2 ^ n"
  then have "take_bit n a = a" by (simp add: take_bit_int_eq_self)
  then have "and a (push_bit n b) = 0"
    by (metis (no_types) bit_eq_iff bit_and_iff bit_push_bit_iff bit_take_bit_iff bit_0_eq bot_apply bot_bool_def linorder_not_le)
  then show ?thesis by (simp add: disjunctive_add_eq_or [symmetric]) (simp add: push_bit_eq_mult)
qed

definition dt_fields :: "int \<Rightarrow> int \<Rightarrow> int \<Rightarrow> int \<Rightarrow> int \<Rightarrow> int \<Rightarrow> bool" where
  "dt_fields year month day hour minute second \<longleftrightarrow>
     1000 \<le> year \<and> year \<le> 9999 \<and> 1 \<le> month \<and> month \<le> 12 \<and> 1 \<le> day \<and> day \<le> 31 \<and>
     day \<le> days_in_month year month \<and> 0 \<le> hour \<and> hour \<le> 23 \<and> 0 \<le> minute \<and> minute \<le> 59 \<and> 0 \<le> second \<and> second \<le> 59"

lemma pack_datetime_sum:
  assumes "dt_fields year month day hour minute second"
  shows "pack_datetime year month day hour minute second =
    second + 64 * minute + 4096 * hour + 131072 * day + 4194304 * month + 67108864 * year"
proof -
  have b: "0 \<le> second" "second < 64" "0 \<le> minute" "minute < 64" "0 \<le> hour" "hour < 32" "0 \<le> day" "day < 32"
    "0 \<le> month" "month < 16" using assms by (auto simp: dt_fields_def)
  have "or second (push_bit 6 minute) = second + 64 * minute"
    using or_push_bit [of second 6 minute] b by simp
  moreover have "or (second + 64 * minute) (push_bit 12 hour) = second + 64 * minute + 4096 * hour"
    using or_push_bit [of "second + 64 * minute" 12 hour] b by simp
  moreover have "or (second + 64 * minute + 4096 * hour) (push_bit 17 day) = second + 64 * minute + 4096 * hour + 131072 * day"
    using or_push_bit [of "second + 64 * minute + 4096 * hour" 17 day] b by simp
  moreover have "or (second + 64 * minute + 4096 * hour + 131072 * day) (push_bit 22 month) =
      second + 64 * minute + 4096 * hour + 131072 * day + 4194304 * month"
    using or_push_bit [of "second + 64 * minute + 4096 * hour + 131072 * day" 22 month] b by simp
  moreover have "or (second + 64 * minute + 4096 * hour + 131072 * day + 4194304 * month) (push_bit 26 year) =
      second + 64 * minute + 4096 * hour + 131072 * day + 4194304 * month + 67108864 * year"
    using or_push_bit [of "second + 64 * minute + 4096 * hour + 131072 * day + 4194304 * month" 26 year] b by simp
  ultimately show ?thesis by (simp only: pack_datetime_def)
qed

lemma and_mask_num:
  "and (x :: int) 0x3F = x mod 64" "and x 0x1F = x mod 32" "and x 0xF = x mod 16" "and x 0x3FFF = x mod 16384"
  using take_bit_eq_mask [of 6 x] take_bit_eq_mask [of 5 x] take_bit_eq_mask [of 4 x] take_bit_eq_mask [of 14 x]
  by (simp_all add: take_bit_eq_mod mask_eq_exp_minus_1)

lemma digit_facts:
  assumes "d < 10"
  shows "is_digit (digit_char d)" "\<not> is_space (digit_char d)" "of_char (digit_char d) - 48 = d"
    "digit_char d \<noteq> CHR ''-''" "digit_char d \<noteq> CHR ''+''"
proof -
  have "of_char (digit_char d) = 48 + d" using assms by (simp add: digit_char_def)
  then show "is_digit (digit_char d)" "\<not> is_space (digit_char d)" "of_char (digit_char d) - 48 = d"
    "digit_char d \<noteq> CHR ''-''" "digit_char d \<noteq> CHR ''+''"
    using assms by (auto simp: is_digit_def is_space_def)
qed

lemma pad_num_2:
  assumes "n < 100"
  shows "pad_num 2 (int n) = map digit_char [n div 10, n mod 10]"
proof (cases "n < 10")
  case True
  have "digit_char 0 = CHR ''0''" by code_simp
  with True show ?thesis by (simp add: pad_num_def show_nat.simps [of n] Let_def)
next
  case False
  have "n div 10 < 10" using assms by simp
  with False show ?thesis
    by (simp add: pad_num_def show_nat.simps [of n] show_nat.simps [of "n div 10"] Let_def)
qed

lemma pad_num_4:
  assumes "1000 \<le> n" "n < 10000"
  shows "pad_num 4 (int n) = map digit_char [n div 1000, n div 100 mod 10, n div 10 mod 10, n mod 10]"
proof -
  have a: "show_nat n = show_nat (n div 10) @ [digit_char (n mod 10)]"
    using assms by (subst show_nat.simps) simp
  have "\<not> n div 10 < 10" "n div 10 div 10 = n div 100" using assms by (simp_all add: div_mult2_eq [symmetric])
  then have b: "show_nat (n div 10) = show_nat (n div 100) @ [digit_char (n div 10 mod 10)]"
    by (subst show_nat.simps) simp
  have "\<not> n div 100 < 10" "n div 100 div 10 = n div 1000" using assms by (simp_all add: div_mult2_eq [symmetric])
  then have c: "show_nat (n div 100) = show_nat (n div 1000) @ [digit_char (n div 100 mod 10)]"
    by (subst show_nat.simps) simp
  have "n div 1000 < 10" using assms by simp
  then have "show_nat (n div 1000) = [digit_char (n div 1000)]" by (subst show_nat.simps) simp
  with a b c show ?thesis by (simp add: pad_num_def)
qed

lemma stoi_digits:
  assumes "ds \<noteq> []" "\<forall>d \<in> set ds. d < 10"
  shows "stoi (map digit_char ds) s = (Inr (int (foldl (\<lambda>n d. 10 * n + d) 0 ds)), s)"
proof -
  have all: "takeWhile is_digit (map digit_char ds) = map digit_char ds"
    using assms(2) by (auto simp: takeWhile_eq_all_conv digit_facts)
  have "hd ds < 10" using assms by simp
  then have h: "dropWhile is_space (map digit_char ds) = map digit_char ds" "hd (map digit_char ds) \<noteq> CHR ''-''"
      "hd (map digit_char ds) \<noteq> CHR ''+''"
    using assms(1) by (auto simp: digit_facts hd_map dropWhile_eq_self_iff)
  have "foldl (\<lambda>n c. 10 * n + (of_char c - 48)) a (map digit_char ds) = foldl (\<lambda>n d. 10 * n + d) a ds" for a
    using assms(2) by (induction ds arbitrary: a) (auto simp: digit_facts)
  then show ?thesis using assms(1) by (simp add: stoi_def h all digits_val_def prog_simps Let_def)
qed

lemma stoi_pad_2: "n < 100 \<Longrightarrow> stoi (map digit_char [n div 10, n mod 10]) s = (Inr (int n), s)"
  by (subst stoi_digits) (auto simp: less_mult_imp_div_less)

lemma stoi_pad_4:
  assumes "1000 \<le> n" "n < 10000"
  shows "stoi (map digit_char [n div 1000, n div 100 mod 10, n div 10 mod 10, n mod 10]) s = (Inr (int n), s)"
proof -
  have "10 * (10 * (10 * (n div 1000) + n div 100 mod 10) + n div 10 mod 10) + n mod 10 = n"
  proof -
    have "n div 100 * 10 + n div 10 mod 10 = n div 10" "n div 1000 * 10 + n div 100 mod 10 = n div 100"
      using div_mult_mod_eq [of "n div 10" 10] div_mult_mod_eq [of "n div 100" 10]
      by (simp_all add: div_mult2_eq [symmetric])
    moreover have "10 * (10 * (10 * a + b) + c) + d = m"
      if "a' * 10 + c = x" "a * 10 + b = a'" "x * 10 + d = m" for a b c d x a' m :: nat
      using that by (auto simp: algebra_simps)
    ultimately show ?thesis using div_mult_mod_eq [of n 10] by blast
  qed
  then show ?thesis using assms by (subst stoi_digits) auto
qed

text \<open>The fields of a packed datetime.\<close>

lemma unpack_datetime:
  assumes "dt_fields year month day hour minute second"
  defines "dt \<equiv> pack_datetime year month day hour minute second"
  shows "and dt 0x3F = second" "and (drop_bit 6 dt) 0x3F = minute" "and (drop_bit 12 dt) 0x1F = hour"
    "and (drop_bit 17 dt) 0x1F = day" "and (drop_bit 22 dt) 0xF = month" "and (drop_bit 26 dt) 0x3FFF = year"
proof -
  define e4 where "e4 = month + 16 * year"
  define e3 where "e3 = day + 32 * e4"
  define e2 where "e2 = hour + 32 * e3"
  define e1 where "e1 = minute + 64 * e2"
  have b: "0 \<le> second" "second < 64" "0 \<le> minute" "minute < 64" "0 \<le> hour" "hour < 32" "0 \<le> day" "day < 32"
    "0 \<le> month" "month < 16" "0 \<le> year" "year < 16384" using assms by (auto simp: dt_fields_def)
  have dt: "dt = second + 64 * e1"
    by (simp add: dt_def pack_datetime_sum [OF assms(1)] e1_def e2_def e3_def e4_def)
  have q: "dt div 64 = e1" "e1 div 64 = e2" "e2 div 32 = e3" "e3 div 32 = e4" "e4 div 16 = year"
    using b by (simp_all add: dt e1_def e2_def e3_def e4_def)
  have m: "dt mod 64 = second" using b unfolding dt by simp
  have m1: "e1 mod 64 = minute" using b unfolding e1_def by simp
  have m2: "e2 mod 32 = hour" using b unfolding e2_def by simp
  have m3: "e3 mod 32 = day" using b unfolding e3_def by simp
  have m4: "e4 mod 16 = month" "year mod 16384 = year" using b unfolding e4_def by simp_all
  have "dt div 4096 = dt div 64 div 64" "dt div 131072 = dt div 4096 div 32" "dt div 4194304 = dt div 131072 div 32"
    "dt div 67108864 = dt div 4194304 div 16"
    by (simp_all add: zdiv_zmult2_eq [symmetric])
  then have d: "drop_bit 6 dt = e1" "drop_bit 12 dt = e2" "drop_bit 17 dt = e3" "drop_bit 22 dt = e4" "drop_bit 26 dt = year"
    by (simp_all add: drop_bit_eq_div q)
  show "and dt 0x3F = second" "and (drop_bit 6 dt) 0x3F = minute" "and (drop_bit 12 dt) 0x1F = hour"
    "and (drop_bit 17 dt) 0x1F = day" "and (drop_bit 22 dt) 0xF = month" "and (drop_bit 26 dt) 0x3FFF = year"
    by (simp_all add: and_mask_num d m m1 m2 m3 m4)
qed

lemma format_datetime_text:
  assumes "dt_fields (int y) (int mo) (int d) (int h) (int mi) (int se)"
  shows "format_datetime (pack_datetime (int y) (int mo) (int d) (int h) (int mi) (int se)) =
    map digit_char [y div 1000, y div 100 mod 10, y div 10 mod 10, y mod 10] @ CHR ''-'' #
    map digit_char [mo div 10, mo mod 10] @ CHR ''-'' # map digit_char [d div 10, d mod 10] @ CHR '' '' #
    map digit_char [h div 10, h mod 10] @ CHR '':'' # map digit_char [mi div 10, mi mod 10] @ CHR '':'' #
    map digit_char [se div 10, se mod 10]"
proof -
  have "1000 \<le> y" "y < 10000" "mo < 100" "d < 100" "h < 100" "mi < 100" "se < 100"
    using assms by (auto simp: dt_fields_def)
  then show ?thesis
    unfolding format_datetime_def Let_def unpack_datetime [OF assms] by (simp add: pad_num_4 pad_num_2)
qed

lemma parse_datetime_parts:
  assumes "length a = 4" "length b = 2" "length c = 2" "length d = 2" "length e = 2" "length f = 2"
    and "stoi a s = (Inr ye, s)" "stoi b s = (Inr mo, s)" "stoi c s = (Inr da, s)"
    and "stoi d s = (Inr h, s)" "stoi e s = (Inr mi, s)" "stoi f s = (Inr se, s)"
    and "dt_fields ye mo da h mi se"
  shows "parse_datetime (a @ CHR ''-'' # b @ CHR ''-'' # c @ CHR '' '' # d @ CHR '':'' # e @ CHR '':'' # f) s =
    (Inr (pack_datetime ye mo da h mi se), s)"
proof -
  obtain a1 a2 a3 a4 where a: "a = [a1, a2, a3, a4]" using assms(1) by (auto simp: length_Suc_conv numeral_nat)
  obtain b1 b2 c1 c2 where bc: "b = [b1, b2]" "c = [c1, c2]"
    using assms(2,3) by (auto simp: length_Suc_conv numeral_nat)
  obtain d1 d2 e1 e2 where de: "d = [d1, d2]" "e = [e1, e2]"
    using assms(4,5) by (auto simp: length_Suc_conv numeral_nat)
  obtain f1 f2 where f: "f = [f1, f2]" using assms(6) by (auto simp: length_Suc_conv numeral_nat)
  show ?thesis
    using assms(7-13) by (simp add: a bc de f parse_datetime_def check_datetime_def substr_def prog_simps dt_fields_def numeral_nat)
qed

lemma parse_format_datetime:
  assumes "dt_fields year month day hour minute second"
  shows "parse_datetime (format_datetime (pack_datetime year month day hour minute second)) s =
    (Inr (pack_datetime year month day hour minute second), s)"
proof -
  obtain y mo d h mi se where n: "year = int y" "month = int mo" "day = int d" "hour = int h" "minute = int mi" "second = int se"
  proof -
    have "0 \<le> year" "0 \<le> month" "0 \<le> day" "0 \<le> hour" "0 \<le> minute" "0 \<le> second"
      using assms by (auto simp: dt_fields_def)
    then show ?thesis using that [of "nat year" "nat month" "nat day" "nat hour" "nat minute" "nat second"] by simp
  qed
  have r: "1000 \<le> y" "y < 10000" "mo < 100" "d < 100" "h < 100" "mi < 100" "se < 100"
    using assms n by (auto simp: dt_fields_def)
  show ?thesis
    unfolding n format_datetime_text [OF assms [unfolded n]]
    by (rule parse_datetime_parts [OF _ _ _ _ _ _ stoi_pad_4 [OF r(1,2)] stoi_pad_2 [OF r(3)] stoi_pad_2 [OF r(4)]
          stoi_pad_2 [OF r(5)] stoi_pad_2 [OF r(6)] stoi_pad_2 [OF r(7)] assms [unfolded n]])
      simp_all
qed

lemma parse_datetime_fields:
  assumes "parse_datetime str s = (Inr dt, t)"
  obtains year month day hour minute second where "dt_fields year month day hour minute second"
    "dt = pack_datetime year month day hour minute second"
proof -
  obtain ye mo da h mi se u where "check_datetime ye mo da h mi se u = (Inr dt, t)"
    using assms unfolding parse_datetime_def by (simp only: prog_Inr_iff split: if_splits) blast+
  then show ?thesis
    by (intro that [of ye mo da h mi se]) (auto simp: check_datetime_def dt_fields_def prog_Inr_iff split: if_splits)
qed



text \<open>C39 The packed representation orders datetimes chronologically: for two accepted texts the signed
  comparison of the packed values is the lexicographic comparison of year, month, day, hour, minute and
  second.\<close>

theorem datetime_order:
  assumes "dt_fields y1 mo1 d1 h1 mi1 s1" "dt_fields y2 mo2 d2 h2 mi2 s2"
  shows "pack_datetime y1 mo1 d1 h1 mi1 s1 < pack_datetime y2 mo2 d2 h2 mi2 s2 \<longleftrightarrow>
    y1 < y2 \<or> y1 = y2 \<and> (mo1 < mo2 \<or> mo1 = mo2 \<and> (d1 < d2 \<or> d1 = d2 \<and> (h1 < h2 \<or> h1 = h2 \<and>
      (mi1 < mi2 \<or> mi1 = mi2 \<and> s1 < s2))))"
proof -
  have lex: "a + k * b < a' + k * b' \<longleftrightarrow> b < b' \<or> b = b' \<and> a < a'"
    if "0 \<le> a" "a < k" "0 \<le> a'" "a' < k" for a b a' b' k :: int
  proof -
    consider "b < b'" | "b = b'" | "b' < b" by linarith
    then show ?thesis
    proof cases
      case 1
      then have "k * (b + 1) \<le> k * b'" using that by (intro mult_left_mono) auto
      then show ?thesis using 1 that by (simp add: algebra_simps)
    next
      case 3
      then have "k * (b' + 1) \<le> k * b" using that by (intro mult_left_mono) auto
      then show ?thesis using 3 that by (simp add: algebra_simps)
    qed simp
  qed
  have eq: "a + k * b = a' + k * b' \<longleftrightarrow> b = b' \<and> a = a'"
    if "0 \<le> a" "a < k" "0 \<le> a'" "a' < k" for a b a' b' k :: int
    using lex [OF that(1,2,3,4), of b b'] lex [OF that(3,4,1,2), of b' b]
    by (metis less_irrefl linorder_neq_iff)
  have p: "pack_datetime y mo d h mi s = s + 64 * (mi + 64 * (h + 32 * (d + 32 * (mo + 16 * y))))"
    if "dt_fields y mo d h mi s" for y mo d h mi s
    using pack_datetime_sum [OF that] by simp
  show ?thesis
    unfolding p [OF assms(1)] p [OF assms(2)] using assms
    by (simp add: lex eq dt_fields_def del: distrib_left_numeral) blast
qed

theorem datetime_order_witness:
  "pack_datetime 2024 2 29 23 59 59 < pack_datetime 2024 3 1 0 0 0"
proof -
  have "dt_fields 2024 2 29 23 59 59" "dt_fields 2024 3 1 0 0 0" by code_simp+
  from datetime_order [OF this] show ?thesis by simp
qed

end
