(* ===== verification/Meta.thy ===== *)
theory Meta
  imports Values
begin

text \<open>
  \<^verbatim>\<open>system/sm_meta.h\<close>: the catalogue of columns, indexes, tables and the database, with the text format
  the \<^verbatim>\<open><<\<close> and \<^verbatim>\<open>>>\<close> operators give it in the metadata file. A stream is the text left to read; an
  extraction that fails (the code never looks at the failbit) is \<open>None\<close>. The whole catalogue is shown to
  be read back from its text.
\<close>

named_theorems read_simps \<open>extraction of what was printed\<close>

section \<open>Streams\<close>

definition skip_ws :: "string \<Rightarrow> string" where
  "skip_ws s = dropWhile is_space s"

definition read_str :: "string \<Rightarrow> (string \<times> string) option" where
  "read_str s =
     (let t = skip_ws s; w = takeWhile (\<lambda>c. \<not> is_space c) t in
      if w = [] then None else Some (w, dropWhile (\<lambda>c. \<not> is_space c) t))"

text \<open>Extraction of an \<^verbatim>\<open>int\<close> (\<open>n = 4\<close>); a value out of range fails.\<close>

definition read_int :: "string \<Rightarrow> (int \<times> string) option" where
  "read_int s =
     (let t = skip_ws s;
          neg = (t \<noteq> [] \<and> hd t = CHR ''-'');
          u = (if t \<noteq> [] \<and> (hd t = CHR ''-'' \<or> hd t = CHR ''+'') then tl t else t);
          ds = takeWhile is_digit u;
          v = (if neg then - int (digits_val ds) else int (digits_val ds)) in
      if ds = [] \<or> \<not> fits_signed 4 v then None else Some (v, dropWhile is_digit u))"

text \<open>Extraction of a \<^verbatim>\<open>size_t\<close>, for texts without a sign.\<close>

definition read_size :: "string \<Rightarrow> (nat \<times> string) option" where
  "read_size s =
     (let t = skip_ws s; ds = takeWhile is_digit t in
      if ds = [] \<or> \<not> fits_unsigned 8 (int (digits_val ds)) then None
      else Some (digits_val ds, dropWhile is_digit t))"

text \<open>Read \<open>n\<close> items one after another.\<close>

fun read_list :: "(string \<Rightarrow> ('a \<times> string) option) \<Rightarrow> nat \<Rightarrow> string \<Rightarrow> ('a list \<times> string) option" where
  "read_list rd 0 s = Some ([], s)"
| "read_list rd (Suc n) s =
     Option.bind (rd s) (\<lambda>(x, t). Option.bind (read_list rd n t) (\<lambda>(xs, u). Some (x # xs, u)))"

section \<open>Ordered maps\<close>

text \<open>\<^verbatim>\<open>std::map\<close> with string keys: the entries in the order of the keys.\<close>

definition key_less :: "string \<Rightarrow> string \<Rightarrow> bool" where
  "key_less a b \<longleftrightarrow> bytes_less (bytes_of a) (bytes_of b)"

fun map_put :: "string \<Rightarrow> 'v \<Rightarrow> (string \<times> 'v) list \<Rightarrow> (string \<times> 'v) list" where
  "map_put k v [] = [(k, v)]"
| "map_put k v ((k', v') # m) =
     (if k = k' then (k, v) # m else if key_less k k' then (k, v) # (k', v') # m else (k', v') # map_put k v m)"

definition map_erase :: "string \<Rightarrow> (string \<times> 'v) list \<Rightarrow> (string \<times> 'v) list" where
  "map_erase k m = filter (\<lambda>(k', v). k' \<noteq> k) m"

section \<open>The catalogue\<close>

record ColMeta =
  cm_tab_name :: string
  cm_name :: string
  cm_type :: ColType
  cm_len :: int
  cm_offset :: int
  cm_index :: bool

record IndexMeta =
  im_tab_name :: string
  col_tot_len :: int
  col_num :: int
  im_cols :: "ColMeta list"

record TabMeta =
  tm_name :: string
  tm_cols :: "ColMeta list"
  indexes :: "IndexMeta list"

record DbMeta =
  db_name :: string
  db_tabs :: "(string \<times> TabMeta) list"

fun col_type_code :: "ColType \<Rightarrow> int" where
  "col_type_code TYPE_INT = 0"
| "col_type_code TYPE_FLOAT = 1"
| "col_type_code TYPE_STRING = 2"
| "col_type_code TYPE_BIGINT = 3"
| "col_type_code TYPE_DATETIME = 4"

definition col_type_of :: "int \<Rightarrow> ColType option" where
  "col_type_of i = (if i = 0 then Some TYPE_INT else if i = 1 then Some TYPE_FLOAT else if i = 2 then Some TYPE_STRING
     else if i = 3 then Some TYPE_BIGINT else if i = 4 then Some TYPE_DATETIME else None)"

definition show_ColMeta :: "ColMeta \<Rightarrow> string" where
  "show_ColMeta c = cm_tab_name c @ '' '' @ cm_name c @ '' '' @ to_string (col_type_code (cm_type c)) @ '' '' @
     to_string (cm_len c) @ '' '' @ to_string (cm_offset c) @ '' '' @ to_string (if cm_index c then 1 else 0)"

definition read_bool :: "string \<Rightarrow> (bool \<times> string) option" where
  "read_bool s = Option.bind (read_int s) (\<lambda>(i, t). if i = 0 then Some (False, t) else if i = 1 then Some (True, t) else None)"

definition read_ColMeta :: "string \<Rightarrow> (ColMeta \<times> string) option" where
  "read_ColMeta s =
     Option.bind (read_str s) (\<lambda>(tab, s).
     Option.bind (read_str s) (\<lambda>(nm, s).
     Option.bind (read_int s) (\<lambda>(ty, s).
     Option.bind (col_type_of ty) (\<lambda>ty.
     Option.bind (read_int s) (\<lambda>(len, s).
     Option.bind (read_int s) (\<lambda>(off, s).
     Option.bind (read_bool s) (\<lambda>(ix, s).
       Some (\<lparr>cm_tab_name = tab, cm_name = nm, cm_type = ty, cm_len = len, cm_offset = off, cm_index = ix\<rparr>, s))))))))"

definition show_IndexMeta :: "IndexMeta \<Rightarrow> string" where
  "show_IndexMeta im = im_tab_name im @ '' '' @ to_string (col_tot_len im) @ '' '' @ to_string (col_num im) @
     concat (map (\<lambda>c. CHR ''\<newline>'' # show_ColMeta c) (im_cols im))"

definition read_IndexMeta :: "string \<Rightarrow> (IndexMeta \<times> string) option" where
  "read_IndexMeta s =
     Option.bind (read_str s) (\<lambda>(tab, s).
     Option.bind (read_int s) (\<lambda>(len, s).
     Option.bind (read_int s) (\<lambda>(n, s).
     Option.bind (read_list read_ColMeta (nat n) s) (\<lambda>(cs, s).
       Some (\<lparr>im_tab_name = tab, col_tot_len = len, col_num = n, im_cols = cs\<rparr>, s)))))"

definition show_TabMeta :: "TabMeta \<Rightarrow> string" where
  "show_TabMeta t = tm_name t @ ''\<newline>'' @ show_nat (length (tm_cols t)) @ ''\<newline>'' @
     concat (map (\<lambda>c. show_ColMeta c @ ''\<newline>'') (tm_cols t)) @
     show_nat (length (indexes t)) @ ''\<newline>'' @ concat (map (\<lambda>i. show_IndexMeta i @ ''\<newline>'') (indexes t))"

definition read_TabMeta :: "string \<Rightarrow> (TabMeta \<times> string) option" where
  "read_TabMeta s =
     Option.bind (read_str s) (\<lambda>(nm, s).
     Option.bind (read_size s) (\<lambda>(n, s).
     Option.bind (read_list read_ColMeta n s) (\<lambda>(cs, s).
     Option.bind (read_size s) (\<lambda>(n, s).
     Option.bind (read_list read_IndexMeta n s) (\<lambda>(ixs, s).
       Some (\<lparr>tm_name = nm, tm_cols = cs, indexes = ixs\<rparr>, s))))))"

definition show_DbMeta :: "DbMeta \<Rightarrow> string" where
  "show_DbMeta db = db_name db @ ''\<newline>'' @ show_nat (length (db_tabs db)) @ ''\<newline>'' @
     concat (map (\<lambda>(k, t). show_TabMeta t @ ''\<newline>'') (db_tabs db))"

definition read_DbMeta :: "DbMeta \<Rightarrow> string \<Rightarrow> (DbMeta \<times> string) option" where
  "read_DbMeta db s =
     Option.bind (read_str s) (\<lambda>(nm, s).
     Option.bind (read_size s) (\<lambda>(n, s).
     Option.bind (read_list read_TabMeta n s) (\<lambda>(ts, s).
       Some (db\<lparr>db_name := nm, db_tabs := fold (\<lambda>t m. map_put (tm_name t) t m) ts (db_tabs db)\<rparr>, s))))"

text \<open>The copy constructor of \<^verbatim>\<open>TabMeta\<close>; assignment, in contrast, copies every member.\<close>

definition copy_TabMeta :: "TabMeta \<Rightarrow> TabMeta" where
  "copy_TabMeta other = \<lparr>tm_name = tm_name other, tm_cols = tm_cols other, indexes = []\<rparr>"

definition is_col :: "TabMeta \<Rightarrow> string \<Rightarrow> bool" where
  "is_col t nm \<longleftrightarrow> List.find (\<lambda>c. cm_name c = nm) (tm_cols t) \<noteq> None"

definition index_matches :: "string list \<Rightarrow> IndexMeta \<Rightarrow> bool" where
  "index_matches names im \<longleftrightarrow>
     col_num im = int (length names) \<and> map cm_name (take (length names) (im_cols im)) = names"

definition is_index :: "TabMeta \<Rightarrow> string list \<Rightarrow> bool" where
  "is_index t names \<longleftrightarrow> (\<exists>im \<in> set (indexes t). index_matches names im)"

fun find_pos :: "('a \<Rightarrow> bool) \<Rightarrow> 'a list \<Rightarrow> nat option" where
  "find_pos P [] = None"
| "find_pos P (x # xs) = (if P x then Some 0 else map_option Suc (find_pos P xs))"

text \<open>An iterator into a vector is its position.\<close>

definition get_index_meta :: "TabMeta \<Rightarrow> string list \<Rightarrow> ('s, nat) prog" where
  "get_index_meta t names =
     (case find_pos (index_matches names) (indexes t) of
        Some i \<Rightarrow> ret i
      | None \<Rightarrow> raise (IndexNotFoundError (tm_name t) names))"

definition get_col :: "TabMeta \<Rightarrow> string \<Rightarrow> ('s, ColMeta) prog" where
  "get_col t nm =
     (case List.find (\<lambda>c. cm_name c = nm) (tm_cols t) of
        Some c \<Rightarrow> ret c
      | None \<Rightarrow> raise (ColumnNotFoundError nm))"

definition is_table :: "DbMeta \<Rightarrow> string \<Rightarrow> bool" where
  "is_table db nm \<longleftrightarrow> map_of (db_tabs db) nm \<noteq> None"

definition SetTabMeta :: "string \<Rightarrow> TabMeta \<Rightarrow> DbMeta \<Rightarrow> DbMeta" where
  "SetTabMeta nm t db = db\<lparr>db_tabs := map_put nm t (db_tabs db)\<rparr>"

definition get_table :: "DbMeta \<Rightarrow> string \<Rightarrow> ('s, TabMeta) prog" where
  "get_table db nm =
     (case map_of (db_tabs db) nm of
        Some t \<Rightarrow> ret t
      | None \<Rightarrow> raise (TableNotFoundError nm))"

section \<open>Numbers and words are read back\<close>

definition word_ok :: "string \<Rightarrow> bool" where
  "word_ok w \<longleftrightarrow> w \<noteq> [] \<and> (\<forall>c \<in> set w. \<not> is_space c)"

lemma show_nat_digits: "show_nat n \<noteq> [] \<and> (\<forall>c \<in> set (show_nat n). is_digit c) \<and> digits_val (show_nat n) = n"
proof (induction n rule: show_nat.induct)
  case (1 n)
  have d: "is_digit (digit_char (n mod 10))" "of_char (digit_char (n mod 10)) - 48 = n mod 10"
    by (simp_all add: digit_facts)
  show ?case
  proof (cases "n < 10")
    case True
    then show ?thesis using d by (simp add: show_nat.simps [of n] digits_val_def)
  next
    case False
    with 1 have "digits_val (show_nat (n div 10)) = n div 10" by simp
    then have "digits_val (show_nat (n div 10) @ [digit_char (n mod 10)]) = n"
      using d(2) by (simp add: digits_val_def)
    then show ?thesis using False 1 d(1) by (simp add: show_nat.simps [of n])
  qed
qed

lemma digit_not_space: "is_digit c \<Longrightarrow> \<not> is_space c"
  by (auto simp: is_digit_def is_space_def)

lemma space_not_digit: "is_space c \<Longrightarrow> \<not> is_digit c"
  using digit_not_space by blast

lemma minus_plain: "\<not> is_digit CHR ''-''" "\<not> is_digit CHR ''+''" "\<not> is_space CHR ''-''"
  by (simp_all add: is_digit_def is_space_def)

lemma space_chars [simp]: "is_space CHR '' ''" "is_space CHR ''\<newline>''"
  by (simp_all add: is_space_def)

lemma skip_ws_space [read_simps]: "is_space c \<Longrightarrow> skip_ws (c # s) = skip_ws s"
  by (simp add: skip_ws_def)

lemma read_skip [read_simps]:
  assumes "is_space c"
  shows "read_str (c # s) = read_str s" "read_int (c # s) = read_int s" "read_size (c # s) = read_size s"
  by (simp_all add: read_str_def read_int_def read_size_def skip_ws_space [OF assms])

lemma take_drop_sep:
  assumes "\<forall>c \<in> set w. P c" "\<not> P c"
  shows "takeWhile P (w @ c # r) = w" "dropWhile P (w @ c # r) = c # r"
  using assms by (simp_all add: takeWhile_append2 dropWhile_append2)

lemma skip_ws_word: "w \<noteq> [] \<Longrightarrow> \<not> is_space (hd w) \<Longrightarrow> skip_ws (w @ r) = w @ r"
  by (cases w) (simp_all add: skip_ws_def)

lemma read_str_word [read_simps]:
  assumes "word_ok w" "is_space c"
  shows "read_str (w @ c # r) = Some (w, c # r)"
proof -
  have w: "w \<noteq> []" "\<forall>c \<in> set w. \<not> is_space c" using assms(1) by (auto simp: word_ok_def)
  have "skip_ws (w @ c # r) = w @ c # r" using w by (intro skip_ws_word) auto
  then show ?thesis using w assms(2) take_drop_sep [of w "\<lambda>c. \<not> is_space c" c r] by (simp add: read_str_def)
qed

lemma read_size_nat [read_simps]:
  assumes "int n < 2 ^ 64" "is_space c"
  shows "read_size (show_nat n @ c # r) = Some (n, c # r)"
proof -
  have w: "show_nat n \<noteq> []" "\<forall>c \<in> set (show_nat n). is_digit c" "digits_val (show_nat n) = n"
    using show_nat_digits by auto
  have "skip_ws (show_nat n @ c # r) = show_nat n @ c # r"
    using w by (intro skip_ws_word) (auto simp: digit_not_space)
  then show ?thesis
    using w assms take_drop_sep [of "show_nat n" is_digit c r] by (simp add: read_size_def space_not_digit fits_unsigned_def)
qed

lemma read_int_string [read_simps]:
  assumes "fits_signed 4 i" "is_space c"
  shows "read_int (to_string i @ c # r) = Some (i, c # r)"
proof -
  let ?n = "show_nat (nat \<bar>i\<bar>)"
  have w: "?n \<noteq> []" "\<forall>c \<in> set ?n. is_digit c" "digits_val ?n = nat \<bar>i\<bar>"
    using show_nat_digits by auto
  have hd: "is_digit (hd ?n)" using w by simp
  then have sign: "hd ?n \<noteq> CHR ''-''" "hd ?n \<noteq> CHR ''+''" using minus_plain by (auto simp del: show_nat.simps)
  have td: "takeWhile is_digit (?n @ c # r) = ?n" "dropWhile is_digit (?n @ c # r) = c # r"
    using take_drop_sep [of ?n is_digit c r] w assms(2) by (simp_all add: space_not_digit)
  show ?thesis
  proof (cases "i < 0")
    case True
    have "skip_ws ((CHR ''-'' # ?n) @ c # r) = (CHR ''-'' # ?n) @ c # r"
      by (rule skip_ws_word) (simp_all add: minus_plain)
    then show ?thesis using True assms(1) w td by (simp add: read_int_def to_string_def)
  next
    case False
    have "skip_ws (?n @ c # r) = ?n @ c # r" using w hd by (intro skip_ws_word) (auto simp: digit_not_space)
    then show ?thesis using False assms(1) w td sign by (simp add: read_int_def to_string_def)
  qed
qed

section \<open>The catalogue is read back\<close>

definition col_ok :: "ColMeta \<Rightarrow> bool" where
  "col_ok c \<longleftrightarrow> word_ok (cm_tab_name c) \<and> word_ok (cm_name c) \<and> fits_signed 4 (cm_len c) \<and> fits_signed 4 (cm_offset c)"

definition index_ok :: "IndexMeta \<Rightarrow> bool" where
  "index_ok im \<longleftrightarrow> word_ok (im_tab_name im) \<and> fits_signed 4 (col_tot_len im) \<and> fits_signed 4 (col_num im) \<and>
     col_num im = int (length (im_cols im)) \<and> (\<forall>c \<in> set (im_cols im). col_ok c)"

definition tab_ok :: "TabMeta \<Rightarrow> bool" where
  "tab_ok t \<longleftrightarrow> word_ok (tm_name t) \<and> int (length (tm_cols t)) < 2 ^ 64 \<and> int (length (indexes t)) < 2 ^ 64 \<and>
     (\<forall>c \<in> set (tm_cols t). col_ok c) \<and> (\<forall>im \<in> set (indexes t). index_ok im)"

text \<open>Every table is filed under its name and the entries are in the order of the keys.\<close>

definition db_ok :: "DbMeta \<Rightarrow> bool" where
  "db_ok db \<longleftrightarrow> word_ok (db_name db) \<and> int (length (db_tabs db)) < 2 ^ 64 \<and>
     (\<forall>(k, t) \<in> set (db_tabs db). k = tm_name t \<and> tab_ok t) \<and> sorted_wrt key_less (map fst (db_tabs db))"

lemma col_type_of_code [simp]: "col_type_of (col_type_code ty) = Some ty"
  by (cases ty) (simp_all add: col_type_of_def)

lemma fits_code [simp]: "fits_signed 4 (col_type_code ty)" "fits_signed 4 (if b then 1 else 0)"
  by (cases ty; simp add: fits_signed_def) (simp add: fits_signed_def)

lemma read_show_ColMeta [read_simps]:
  assumes "col_ok c" "is_space d"
  shows "read_ColMeta (show_ColMeta c @ d # r) = Some (c, d # r)"
  using assms by (simp add: read_ColMeta_def show_ColMeta_def read_bool_def col_ok_def read_simps split: if_splits)

lemma read_ColMeta_skip [read_simps]: "is_space c \<Longrightarrow> read_ColMeta (c # s) = read_ColMeta s"
  by (simp add: read_ColMeta_def read_simps)

lemma read_cols_before:
  assumes "\<forall>c \<in> set cs. col_ok c" "is_space d"
  shows "read_list read_ColMeta (length cs) (concat (map (\<lambda>c. CHR ''\<newline>'' # show_ColMeta c) cs) @ d # r) = Some (cs, d # r)"
  using assms
proof (induction cs)
  case (Cons c cs)
  then have IH: "read_list read_ColMeta (length cs) (concat (map (\<lambda>c. CHR ''\<newline>'' # show_ColMeta c) cs) @ d # r) = Some (cs, d # r)"
    by simp
  obtain e u where "concat (map (\<lambda>c. CHR ''\<newline>'' # show_ColMeta c) cs) @ d # r = e # u" "is_space e"
    using Cons.prems(2) by (cases cs) auto
  with IH Cons.prems show ?case by (simp add: read_simps)
qed simp

lemma read_items_after:
  assumes rd: "\<And>x d r. x \<in> set xs \<Longrightarrow> is_space d \<Longrightarrow> rd (sh x @ d # r) = Some (x, d # r)"
    and sk: "\<And>c s. is_space c \<Longrightarrow> rd (c # s) = rd s"
  shows "xs \<noteq> [] \<Longrightarrow>
    read_list rd (length xs) (concat (map (\<lambda>x. sh x @ ''\<newline>'') xs) @ r) = Some (xs, CHR ''\<newline>'' # r)"
  using rd
proof (induction xs)
  case (Cons x xs)
  show ?case
  proof (cases "xs = []")
    case True
    then show ?thesis using Cons.prems by simp
  next
    case False
    have "read_list rd (length xs) (concat (map (\<lambda>x. sh x @ ''\<newline>'') xs) @ r) = Some (xs, CHR ''\<newline>'' # r)"
      using Cons False by simp
    moreover have "read_list rd (length xs) (CHR ''\<newline>'' # s) = read_list rd (length xs) s" for s
      using False sk by (cases xs) simp_all
    ultimately show ?thesis using Cons.prems by simp
  qed
qed simp

text \<open>With the number of items before them, the items may be absent.\<close>

lemma read_counted:
  assumes "\<And>x d r. x \<in> set xs \<Longrightarrow> is_space d \<Longrightarrow> rd (sh x @ d # r) = Some (x, d # r)"
    and "\<And>c s. is_space c \<Longrightarrow> rd (c # s) = rd s"
  shows "read_list rd (length xs) (CHR ''\<newline>'' # concat (map (\<lambda>x. sh x @ ''\<newline>'') xs) @ r) = Some (xs, CHR ''\<newline>'' # r)"
proof (cases "xs = []")
  case False
  have "read_list rd (length xs) (CHR ''\<newline>'' # s) = read_list rd (length xs) s" for s
    using False assms(2) by (cases xs) simp_all
  then show ?thesis using read_items_after [OF assms False] by simp
qed simp

lemma read_show_IndexMeta [read_simps]:
  assumes "index_ok im" "is_space d"
  shows "read_IndexMeta (show_IndexMeta im @ d # r) = Some (im, d # r)"
proof (cases "im_cols im = []")
  case True
  have "read_int (to_string 0 @ d # r) = Some (0, d # r)"
    using assms(2) by (intro read_int_string) (simp_all add: fits_signed_def)
  then show ?thesis using True assms by (simp add: read_IndexMeta_def show_IndexMeta_def index_ok_def read_simps)
next
  case False
  have cols: "read_list read_ColMeta (length (im_cols im))
      (concat (map (\<lambda>c. CHR ''\<newline>'' # show_ColMeta c) (im_cols im)) @ d # r) = Some (im_cols im, d # r)"
    using assms by (intro read_cols_before) (simp_all add: index_ok_def)
  obtain u where u: "concat (map (\<lambda>c. CHR ''\<newline>'' # show_ColMeta c) (im_cols im)) = CHR ''\<newline>'' # u"
    using False by (cases "im_cols im") auto
  have "fits_signed 4 (int (length (im_cols im)))" using assms(1) by (auto simp: index_ok_def)
  then show ?thesis
    using assms cols u by (simp add: read_IndexMeta_def show_IndexMeta_def index_ok_def read_simps)
qed

lemma read_IndexMeta_skip [read_simps]: "is_space c \<Longrightarrow> read_IndexMeta (c # s) = read_IndexMeta s"
  by (simp add: read_IndexMeta_def read_simps)

lemma read_TabMeta_skip [read_simps]: "is_space c \<Longrightarrow> read_TabMeta (c # s) = read_TabMeta s"
  by (simp add: read_TabMeta_def read_simps)

text \<open>The text of a table ends with a newline of its own, so reading stops before that one.\<close>

lemma read_show_TabMeta:
  assumes "tab_ok t"
  shows "read_TabMeta (show_TabMeta t @ r) = Some (t, CHR ''\<newline>'' # r)"
proof -
  have cols: "read_list read_ColMeta (length (tm_cols t)) (CHR ''\<newline>'' # concat (map (\<lambda>c. show_ColMeta c @ ''\<newline>'') (tm_cols t)) @ s) =
      Some (tm_cols t, CHR ''\<newline>'' # s)" for s
    using assms by (intro read_counted) (auto simp: tab_ok_def read_simps)
  have ixs: "read_list read_IndexMeta (length (indexes t)) (CHR ''\<newline>'' # concat (map (\<lambda>c. show_IndexMeta c @ ''\<newline>'') (indexes t)) @ s) =
      Some (indexes t, CHR ''\<newline>'' # s)" for s
    using assms by (intro read_counted) (auto simp: tab_ok_def read_simps)
  have t: "word_ok (tm_name t)" "int (length (tm_cols t)) < 2 ^ 64" "int (length (indexes t)) < 2 ^ 64"
    using assms by (simp_all add: tab_ok_def)
  show ?thesis using t cols ixs by (simp add: read_TabMeta_def show_TabMeta_def read_simps)
qed

lemma read_tabs:
  assumes "\<forall>(k, t) \<in> set ts. tab_ok t"
  shows "ts \<noteq> [] \<Longrightarrow> read_list read_TabMeta (length ts) (concat (map (\<lambda>(k, t). show_TabMeta t @ ''\<newline>'') ts) @ r) =
    Some (map snd ts, CHR ''\<newline>'' # CHR ''\<newline>'' # r)"
  using assms
proof (induction ts)
  case (Cons kt ts)
  obtain k t where kt: "kt = (k, t)" by force
  show ?case
  proof (cases "ts = []")
    case True
    then show ?thesis using Cons.prems kt by (simp add: read_show_TabMeta)
  next
    case False
    have "read_list read_TabMeta (length ts) (CHR ''\<newline>'' # s) = read_list read_TabMeta (length ts) s" for s
      using False by (cases ts) (simp_all add: read_simps)
    then show ?thesis using Cons False kt by (simp add: read_show_TabMeta)
  qed
qed simp

lemma bytes_of_inj: "bytes_of a = bytes_of b \<longleftrightarrow> a = b"
proof -
  have "str_of (bytes_of s) = s" for s
  proof -
    have "char_of (unat (word_of_nat (of_char c) :: byte)) = c" for c
    proof -
      have "of_char c < (256::nat)" by simp
      then show ?thesis by (simp add: unat_of_nat)
    qed
    then show ?thesis by (simp add: str_of_def bytes_of_def map_idI)
  qed
  then show ?thesis by metis
qed

lemma bytes_less_irrefl: "\<not> bytes_less a a"
  by (induction a) auto

lemma bytes_less_asym: "bytes_less a b \<Longrightarrow> \<not> bytes_less b a"
  by (induction a b rule: bytes_less.induct) (auto split: if_splits)

lemma map_put_last:
  assumes "\<forall>k' \<in> set (map fst m). key_less k' k"
  shows "map_put k v m = m @ [(k, v)]"
  using assms
proof (induction m)
  case (Cons kv m)
  obtain k' v' where kv: "kv = (k', v')" by force
  have "key_less k' k" using Cons.prems kv by simp
  then have "k \<noteq> k'" "\<not> key_less k k'"
    using bytes_less_irrefl bytes_less_asym by (auto simp: key_less_def)
  then show ?case using Cons kv by simp
qed simp

lemma fold_map_put:
  assumes "sorted_wrt key_less (map fst (m @ ts))" "\<forall>(k, t) \<in> set ts. k = tm_name t"
  shows "fold (\<lambda>t m. map_put (tm_name t) t m) (map snd ts) m = m @ ts"
  using assms
proof (induction ts arbitrary: m)
  case (Cons kt ts)
  obtain k t where kt: "kt = (k, t)" by force
  have "map_put k t m = m @ [(k, t)]"
    using Cons.prems(1) kt by (intro map_put_last) (auto simp: sorted_wrt_append)
  with Cons.IH [of "m @ [(k, t)]"] Cons.prems kt show ?case by simp
qed simp

lemma read_show_DbMeta:
  assumes "db_ok db"
  shows "\<exists>rest. read_DbMeta \<lparr>db_name = old, db_tabs = []\<rparr> (show_DbMeta db) = Some (db, rest)"
proof -
  have db: "word_ok (db_name db)" "int (length (db_tabs db)) < 2 ^ 64"
    using assms by (simp_all add: db_ok_def)
  have "fold (\<lambda>t m. map_put (tm_name t) t m) (map snd (db_tabs db)) [] = [] @ db_tabs db"
    using assms by (intro fold_map_put) (auto simp: db_ok_def)
  moreover have "\<exists>r. read_list read_TabMeta (length (db_tabs db))
      (CHR ''\<newline>'' # concat (map (\<lambda>(k, t). show_TabMeta t @ ''\<newline>'') (db_tabs db))) = Some (map snd (db_tabs db), r)"
  proof (cases "db_tabs db")
    case (Cons a ts)
    have "\<forall>(k, t) \<in> set (db_tabs db). tab_ok t" using assms by (auto simp: db_ok_def)
    from read_tabs [OF this, of "[]"] Cons show ?thesis by (simp add: read_simps)
  qed simp
  ultimately show ?thesis
    using db by (auto simp: read_DbMeta_def show_DbMeta_def read_simps)
qed

text \<open>C21 The metadata file is faithful: reading the text the catalogue was printed to gives the catalogue
  back, with every table, column and index in its place.\<close>

theorem metadata_roundtrip:
  assumes "db_ok db"
  shows "\<exists>rest. read_DbMeta \<lparr>db_name = old, db_tabs = []\<rparr> (show_DbMeta db) = Some (db, rest)"
  using assms by (rule read_show_DbMeta)

definition demo_col :: "string \<Rightarrow> int \<Rightarrow> ColMeta" where
  "demo_col nm off = \<lparr>cm_tab_name = ''t'', cm_name = nm, cm_type = TYPE_INT, cm_len = 4, cm_offset = off, cm_index = False\<rparr>"

definition demo_db :: DbMeta where
  "demo_db = \<lparr>db_name = ''school'', db_tabs =
     [(''s'', \<lparr>tm_name = ''s'', tm_cols = [], indexes = []\<rparr>),
      (''t'', \<lparr>tm_name = ''t'', tm_cols = [demo_col ''a'' 0, demo_col ''b'' 4],
         indexes = [\<lparr>im_tab_name = ''t'', col_tot_len = 4, col_num = 1, im_cols = [demo_col ''b'' 4]\<rparr>]\<rparr>)]\<rparr>"

theorem metadata_roundtrip_witness:
  "\<exists>rest. read_DbMeta \<lparr>db_name = [], db_tabs = []\<rparr> (show_DbMeta demo_db) = Some (demo_db, rest)"
proof -
  have "db_ok demo_db" by code_simp
  then show ?thesis by (rule metadata_roundtrip)
qed

end
