(* ===== verification/Predicates.thy ===== *)
theory Predicates
  imports Meta
begin

text \<open>
  The predicate code of the executors: the condition loops of \<^verbatim>\<open>execution/executor_seq_scan.h\<close> and
  \<^verbatim>\<open>execution/executor_index_scan.h\<close> and the typed comparison of \<^verbatim>\<open>execution/executor_nestedloop_join.h\<close>,
  each its own copy in the source. A \<^verbatim>\<open>char *\<close> into a record is the suffix of its bytes from there on.
  All three are shown to compute one reference semantics on well-typed conditions; where the types or
  lengths of two columns differ, the scans are shown to read the right-hand column with the left one's.
\<close>

section \<open>Loads\<close>

definition ptr :: "byte list \<Rightarrow> int \<Rightarrow> byte list" where
  "ptr data off = drop (nat off) data"

definition load_i32 :: "byte list \<Rightarrow> int" where
  "load_i32 p = dec_signed 4 (take 4 p)"

definition load_i64 :: "byte list \<Rightarrow> int" where
  "load_i64 p = dec_signed 8 (take 8 p)"

definition load_f32 :: "byte list \<Rightarrow> f32" where
  "load_f32 p = dec_le (take 4 p)"

definition load_str :: "byte list \<Rightarrow> int \<Rightarrow> byte list" where
  "load_str p len = c_str (take (nat len) p)"

definition col_is :: "TabCol \<Rightarrow> ColMeta \<Rightarrow> bool" where
  "col_is target col \<longleftrightarrow> cm_tab_name col = tc_tab_name target \<and> cm_name col = tc_col_name target"

section \<open>Scalar comparisons\<close>

fun cmp_i :: "int \<Rightarrow> int \<Rightarrow> CompOp \<Rightarrow> bool" where
  "cmp_i a b OP_EQ = (a = b)"
| "cmp_i a b OP_NE = (a \<noteq> b)"
| "cmp_i a b OP_LT = (a < b)"
| "cmp_i a b OP_GT = (a > b)"
| "cmp_i a b OP_LE = (a \<le> b)"
| "cmp_i a b OP_GE = (a \<ge> b)"

text \<open>\<^verbatim>\<open>float\<close> comparisons: every one but \<^verbatim>\<open>!=\<close> is false on a NaN.\<close>

fun cmp_f :: "f32 \<Rightarrow> f32 \<Rightarrow> CompOp \<Rightarrow> bool" where
  "cmp_f a b OP_EQ = f32_eq a b"
| "cmp_f a b OP_NE = (\<not> f32_eq a b)"
| "cmp_f a b OP_LT = f32_less a b"
| "cmp_f a b OP_GT = f32_less b a"
| "cmp_f a b OP_LE = (f32_less a b \<or> f32_eq a b)"
| "cmp_f a b OP_GE = (f32_less b a \<or> f32_eq a b)"

fun cmp_s :: "byte list \<Rightarrow> byte list \<Rightarrow> CompOp \<Rightarrow> bool" where
  "cmp_s a b OP_EQ = (a = b)"
| "cmp_s a b OP_NE = (a \<noteq> b)"
| "cmp_s a b OP_LT = bytes_less a b"
| "cmp_s a b OP_GT = bytes_less b a"
| "cmp_s a b OP_LE = (\<not> bytes_less b a)"
| "cmp_s a b OP_GE = (\<not> bytes_less a b)"

section \<open>SeqScanExecutor\<close>

text \<open>The column is looked up again by name; it is the one the caller found.\<close>

definition eval_condition :: "byte list \<Rightarrow> string \<Rightarrow> string \<Rightarrow> ColMeta list \<Rightarrow> CompOp \<Rightarrow> Value \<Rightarrow> bool" where
  "eval_condition lhs tab nm rec_cols op v =
     (case List.find (\<lambda>c. cm_tab_name c = tab \<and> cm_name c = nm) rec_cols of
        None \<Rightarrow> False
      | Some col \<Rightarrow>
          (case cm_type col of
             TYPE_INT \<Rightarrow> cmp_i (load_i32 lhs) (bigint_val v) op
           | TYPE_BIGINT \<Rightarrow> cmp_i (load_i64 lhs) (bigint_val v) op
           | TYPE_DATETIME \<Rightarrow> cmp_i (load_i64 lhs) (datetime_val v) op
           | TYPE_FLOAT \<Rightarrow> cmp_f (load_f32 lhs) (float_val v) op
           | TYPE_STRING \<Rightarrow> cmp_s (load_str lhs (cm_len col)) (str_val v) op))"

definition eval_binary :: "byte list \<Rightarrow> byte list \<Rightarrow> CompOp \<Rightarrow> ColType \<Rightarrow> int \<Rightarrow> bool" where
  "eval_binary lhs rhs op ty len =
     (case ty of
        TYPE_INT \<Rightarrow> cmp_i (load_i32 lhs) (load_i32 rhs) op
      | TYPE_BIGINT \<Rightarrow> cmp_i (load_i64 lhs) (load_i64 rhs) op
      | TYPE_DATETIME \<Rightarrow> cmp_i (load_i64 lhs) (load_i64 rhs) op
      | TYPE_FLOAT \<Rightarrow> cmp_f (load_f32 lhs) (load_f32 rhs) op
      | TYPE_STRING \<Rightarrow> cmp_s (load_str lhs len) (load_str rhs len) op)"

text \<open>A condition on an unknown left column is passed over; an unknown right column leaves \<^verbatim>\<open>rhs_val\<close>
  null, and every branch of \<open>eval_binary\<close> reads through it.\<close>

definition eval_cond :: "Condition \<Rightarrow> byte list \<Rightarrow> ColMeta list \<Rightarrow> ('s, bool) prog" where
  "eval_cond cond rec rec_cols =
     (case List.find (col_is (lhs_col cond)) rec_cols of
        None \<Rightarrow> ret True
      | Some col \<Rightarrow>
          let lhs = ptr rec (cm_offset col) in
          if is_rhs_val cond
          then ret (eval_condition lhs (cm_tab_name col) (cm_name col) rec_cols (c_op cond) (rhs_val cond))
          else case List.find (col_is (rhs_col cond)) rec_cols of
                 None \<Rightarrow> raise NullPointer
               | Some r_col \<Rightarrow> ret (eval_binary lhs (ptr rec (cm_offset r_col)) (c_op cond) (cm_type col) (cm_len col)))"

fun eval_conds :: "Condition list \<Rightarrow> byte list \<Rightarrow> ColMeta list \<Rightarrow> ('s, bool) prog" where
  "eval_conds [] rec rec_cols = ret True"
| "eval_conds (cond # conds) rec rec_cols =
     bindE (eval_cond cond rec rec_cols) (\<lambda>b. if b then eval_conds conds rec rec_cols else ret False)"

section \<open>IndexScanExecutor\<close>

definition ix_eval_condition :: "byte list \<Rightarrow> ColMeta \<Rightarrow> CompOp \<Rightarrow> Value \<Rightarrow> bool" where
  "ix_eval_condition lhs col op v =
     (case cm_type col of
        TYPE_INT \<Rightarrow> cmp_i (load_i32 lhs) (bigint_val v) op
      | TYPE_BIGINT \<Rightarrow> cmp_i (load_i64 lhs) (bigint_val v) op
      | TYPE_DATETIME \<Rightarrow> cmp_i (load_i64 lhs) (bigint_val v) op
      | TYPE_FLOAT \<Rightarrow> cmp_f (load_f32 lhs) (float_val v) op
      | TYPE_STRING \<Rightarrow> cmp_s (load_str lhs (cm_len col)) (str_val v) op)"

definition ix_eval_binary :: "byte list \<Rightarrow> byte list \<Rightarrow> CompOp \<Rightarrow> ColType \<Rightarrow> int \<Rightarrow> bool" where
  "ix_eval_binary lhs rhs op ty len =
     (case ty of
        TYPE_INT \<Rightarrow> cmp_i (load_i32 lhs) (load_i32 rhs) op
      | TYPE_BIGINT \<Rightarrow> cmp_i (load_i64 lhs) (load_i64 rhs) op
      | TYPE_DATETIME \<Rightarrow> cmp_i (load_i64 lhs) (load_i64 rhs) op
      | TYPE_FLOAT \<Rightarrow> cmp_f (load_f32 lhs) (load_f32 rhs) op
      | TYPE_STRING \<Rightarrow> cmp_s (load_str lhs len) (load_str rhs len) op)"

fun ix_eval_conds :: "Condition list \<Rightarrow> byte list \<Rightarrow> ColMeta list \<Rightarrow> bool" where
  "ix_eval_conds [] rec rec_cols = True"
| "ix_eval_conds (cond # conds) rec rec_cols =
     (let here =
        (case List.find (col_is (lhs_col cond)) rec_cols of
           None \<Rightarrow> True
         | Some col \<Rightarrow>
             let lhs = ptr rec (cm_offset col) in
             if is_rhs_val cond then ix_eval_condition lhs col (c_op cond) (rhs_val cond)
             else case List.find (col_is (rhs_col cond)) rec_cols of
                    None \<Rightarrow> True
                  | Some r_col \<Rightarrow>
                      ix_eval_binary lhs (ptr rec (cm_offset r_col)) (c_op cond) (cm_type col) (cm_len col))
      in here \<and> ix_eval_conds conds rec rec_cols)"

section \<open>NestedLoopJoinExecutor\<close>

definition find_col :: "ColMeta list \<Rightarrow> TabCol \<Rightarrow> ColMeta option" where
  "find_col cols target = List.find (col_is target) cols"

definition col_to_int64 :: "byte list \<Rightarrow> ColType \<Rightarrow> int" where
  "col_to_int64 p ty = (if ty = TYPE_INT then load_i32 p else load_i64 p)"

definition col_to_float :: "byte list \<Rightarrow> ColType \<Rightarrow> f32" where
  "col_to_float p ty =
     (if ty = TYPE_INT then f32_of_int (load_i32 p)
      else if ty = TYPE_BIGINT \<or> ty = TYPE_DATETIME then f32_of_int (load_i64 p)
      else load_f32 p)"

definition compare_typed :: "byte list \<Rightarrow> ColMeta \<Rightarrow> byte list \<Rightarrow> ColMeta \<Rightarrow> CompOp \<Rightarrow> bool" where
  "compare_typed a ca b cb op =
     (if cm_type ca = TYPE_STRING \<or> cm_type cb = TYPE_STRING
      then cmp_s (load_str a (cm_len ca)) (load_str b (cm_len cb)) op
      else if cm_type ca = TYPE_FLOAT \<or> cm_type cb = TYPE_FLOAT
      then cmp_f (col_to_float a (cm_type ca)) (col_to_float b (cm_type cb)) op
      else cmp_i (col_to_int64 a (cm_type ca)) (col_to_int64 b (cm_type cb)) op)"

definition eval_rhs_val :: "byte list \<Rightarrow> ColType \<Rightarrow> int \<Rightarrow> CompOp \<Rightarrow> Value \<Rightarrow> bool" where
  "eval_rhs_val lhs ty len op v =
     (case ty of
        TYPE_INT \<Rightarrow> cmp_i (load_i32 lhs) (bigint_val v) op
      | TYPE_BIGINT \<Rightarrow> cmp_i (load_i64 lhs) (bigint_val v) op
      | TYPE_DATETIME \<Rightarrow> cmp_i (load_i64 lhs) (bigint_val v) op
      | TYPE_FLOAT \<Rightarrow> cmp_f (load_f32 lhs) (float_val v) op
      | TYPE_STRING \<Rightarrow> cmp_s (load_str lhs len) (str_val v) op)"

text \<open>A column with its address: in the left row if it is there, else in the right row.\<close>

definition side_col :: "ColMeta list \<Rightarrow> byte list \<Rightarrow> ColMeta list \<Rightarrow> byte list \<Rightarrow> TabCol \<Rightarrow> (ColMeta \<times> byte list) option" where
  "side_col left_cols left right_cols right target =
     (case find_col left_cols target of
        Some c \<Rightarrow> Some (c, ptr left (cm_offset c))
      | None \<Rightarrow> map_option (\<lambda>c. (c, ptr right (cm_offset c))) (find_col right_cols target))"

definition check_row :: "ColMeta list \<Rightarrow> byte list \<Rightarrow> ColMeta list \<Rightarrow> byte list \<Rightarrow> Condition list \<Rightarrow> bool" where
  "check_row left_cols left right_cols right conds \<longleftrightarrow>
     (\<forall>cond \<in> set conds.
        case side_col left_cols left right_cols right (lhs_col cond) of
          None \<Rightarrow> False
        | Some (lcol, lhs) \<Rightarrow>
            if is_rhs_val cond then eval_rhs_val lhs (cm_type lcol) (cm_len lcol) (c_op cond) (rhs_val cond)
            else case side_col left_cols left right_cols right (rhs_col cond) of
                   None \<Rightarrow> False
                 | Some (rcol, rhs) \<Rightarrow> compare_typed lhs lcol rhs rcol (c_op cond))"

section \<open>The reference semantics\<close>

datatype sql_value = SInt int | SFloat f32 | SStr "byte list"

definition col_value :: "byte list \<Rightarrow> ColMeta \<Rightarrow> sql_value" where
  "col_value rec c =
     (let p = ptr rec (cm_offset c) in
      case cm_type c of
        TYPE_INT \<Rightarrow> SInt (load_i32 p)
      | TYPE_FLOAT \<Rightarrow> SFloat (load_f32 p)
      | TYPE_STRING \<Rightarrow> SStr (load_str p (cm_len c))
      | _ \<Rightarrow> SInt (load_i64 p))"

definition literal_value :: "ColType \<Rightarrow> Value \<Rightarrow> sql_value" where
  "literal_value ty v = (case ty of TYPE_FLOAT \<Rightarrow> SFloat (float_val v) | TYPE_STRING \<Rightarrow> SStr (str_val v) | _ \<Rightarrow> SInt (bigint_val v))"

fun sql_cmp :: "sql_value \<Rightarrow> sql_value \<Rightarrow> CompOp \<Rightarrow> bool" where
  "sql_cmp (SInt a) (SInt b) op = cmp_i a b op"
| "sql_cmp (SFloat a) (SFloat b) op = cmp_f a b op"
| "sql_cmp (SStr a) (SStr b) op = cmp_s a b op"
| "sql_cmp _ _ op = False"

definition cond_holds :: "ColMeta list \<Rightarrow> byte list \<Rightarrow> Condition \<Rightarrow> bool" where
  "cond_holds cols rec cond \<longleftrightarrow>
     (case find_col cols (lhs_col cond) of
        None \<Rightarrow> False
      | Some c \<Rightarrow>
          if is_rhs_val cond then sql_cmp (col_value rec c) (literal_value (cm_type c) (rhs_val cond)) (c_op cond)
          else case find_col cols (rhs_col cond) of
                 None \<Rightarrow> False
               | Some d \<Rightarrow> sql_cmp (col_value rec c) (col_value rec d) (c_op cond))"

text \<open>Both columns exist; two compared columns have one type and, for strings, one length.\<close>

definition same_shape :: "ColMeta \<Rightarrow> ColMeta \<Rightarrow> bool" where
  "same_shape c d \<longleftrightarrow> cm_type c = cm_type d \<and> (cm_type c = TYPE_STRING \<longrightarrow> cm_len c = cm_len d)"

definition well_typed :: "ColMeta list \<Rightarrow> Condition \<Rightarrow> bool" where
  "well_typed cols cond \<longleftrightarrow>
     (case find_col cols (lhs_col cond) of
        None \<Rightarrow> False
      | Some c \<Rightarrow> is_rhs_val cond \<or>
          (case find_col cols (rhs_col cond) of None \<Rightarrow> False | Some d \<Rightarrow> same_shape c d))"

text \<open>The columns of a joined row: those of the left side, then those of the right side moved behind them.\<close>

definition shift_col :: "int \<Rightarrow> ColMeta \<Rightarrow> ColMeta" where
  "shift_col n c = c\<lparr>cm_offset := cm_offset c + n\<rparr>"

definition join_cols :: "ColMeta list \<Rightarrow> int \<Rightarrow> ColMeta list \<Rightarrow> ColMeta list" where
  "join_cols left_cols n right_cols = left_cols @ map (shift_col n) right_cols"

lemma find_col_found: "find_col cols t = Some c \<Longrightarrow> c \<in> set cols \<and> cm_tab_name c = tc_tab_name t \<and> cm_name c = tc_col_name t"
  by (induction cols) (auto simp: find_col_def col_is_def split: if_splits)

lemma find_again:
  assumes "find_col cols t = Some c"
  shows "List.find (\<lambda>d. cm_tab_name d = cm_tab_name c \<and> cm_name d = cm_name c) cols = Some c"
  using assms find_col_found [OF assms] by (simp add: find_col_def col_is_def [abs_def])

lemma eval_condition_ref:
  assumes "find_col cols t = Some c"
  shows "eval_condition (ptr rec (cm_offset c)) (cm_tab_name c) (cm_name c) cols op v =
    sql_cmp (col_value rec c) (literal_value (cm_type c) v) op"
  by (simp add: eval_condition_def find_again [OF assms] col_value_def literal_value_def bigint_val_def datetime_val_def
      Let_def split: ColType.split)

lemma eval_binary_ref:
  assumes "same_shape c d"
  shows "eval_binary (ptr rec (cm_offset c)) (ptr rec (cm_offset d)) op (cm_type c) (cm_len c) =
    sql_cmp (col_value rec c) (col_value rec d) op"
  using assms by (auto simp: eval_binary_def col_value_def same_shape_def Let_def split: ColType.split)

lemma ix_eval_same:
  "ix_eval_condition lhs c op v = eval_rhs_val lhs (cm_type c) (cm_len c) op v"
  "ix_eval_binary = eval_binary"
  by (simp_all add: ix_eval_condition_def eval_rhs_val_def ix_eval_binary_def eval_binary_def fun_eq_iff)

lemma eval_rhs_val_ref:
  "eval_rhs_val (ptr rec (cm_offset c)) (cm_type c) (cm_len c) op v = sql_cmp (col_value rec c) (literal_value (cm_type c) v) op"
  by (simp add: eval_rhs_val_def col_value_def literal_value_def Let_def split: ColType.split)

lemma compare_typed_ref:
  assumes "cm_type c = cm_type d"
  shows "compare_typed (ptr rec (cm_offset c)) c (ptr rec' (cm_offset d)) d op = sql_cmp (col_value rec c) (col_value rec' d) op"
  using assms
  by (cases "cm_type d") (simp_all add: compare_typed_def col_value_def col_to_float_def col_to_int64_def Let_def)

lemma eval_conds_ref:
  assumes "\<forall>cond \<in> set conds. well_typed cols cond"
  shows "eval_conds conds rec cols s = (Inr (\<forall>cond \<in> set conds. cond_holds cols rec cond), s)"
  using assms
proof (induction conds)
  case (Cons cond conds)
  obtain c where c: "find_col cols (lhs_col cond) = Some c"
    using Cons.prems by (auto simp: well_typed_def split: option.splits)
  have "eval_cond cond rec cols s = (Inr (cond_holds cols rec cond), s)"
    using Cons.prems c eval_condition_ref [OF c]
    by (auto simp: eval_cond_def cond_holds_def well_typed_def find_col_def eval_binary_ref prog_simps Let_def
        split: option.splits)
  with Cons show ?case by (simp add: prog_simps)
qed (simp add: prog_simps)

lemma ix_eval_conds_ref:
  assumes "\<forall>cond \<in> set conds. well_typed cols cond"
  shows "ix_eval_conds conds rec cols = (\<forall>cond \<in> set conds. cond_holds cols rec cond)"
  using assms
proof (induction conds)
  case (Cons cond conds)
  obtain c where c: "find_col cols (lhs_col cond) = Some c"
    using Cons.prems by (auto simp: well_typed_def split: option.splits)
  with Cons show ?case
    by (auto simp: cond_holds_def well_typed_def find_col_def ix_eval_same eval_rhs_val_ref eval_binary_ref Let_def
        split: option.splits)
qed simp

lemma find_col_join:
  "find_col (join_cols lc n rc) t =
     (case find_col lc t of Some c \<Rightarrow> Some c | None \<Rightarrow> map_option (shift_col n) (find_col rc t))"
proof -
  have "List.find (col_is t) (map (shift_col n) cs) = map_option (shift_col n) (List.find (col_is t) cs)" for cs
    by (induction cs) (auto simp: col_is_def shift_col_def)
  then show ?thesis by (induction lc) (auto simp: find_col_def join_cols_def)
qed

lemma col_value_cong:
  assumes "cm_type c = cm_type d" "cm_len c = cm_len d"
    and "take (nat (cm_len d)) (ptr r (cm_offset c)) = take (nat (cm_len d)) (ptr r' (cm_offset d))"
    and "cm_type d = TYPE_INT \<or> cm_type d = TYPE_FLOAT \<Longrightarrow> cm_len d = 4"
    and "cm_type d = TYPE_BIGINT \<or> cm_type d = TYPE_DATETIME \<Longrightarrow> cm_len d = 8"
  shows "col_value r c = col_value r' d"
  using assms
  by (cases "cm_type d") (simp_all add: col_value_def load_i32_def load_i64_def load_f32_def load_str_def Let_def)

text \<open>A column that lies inside a row of \<open>n\<close> bytes and has the length of its type.\<close>

definition col_fits :: "nat \<Rightarrow> ColMeta \<Rightarrow> bool" where
  "col_fits n c \<longleftrightarrow> 0 \<le> cm_offset c \<and> 0 \<le> cm_len c \<and> cm_offset c + cm_len c \<le> int n \<and>
     (cm_type c = TYPE_INT \<or> cm_type c = TYPE_FLOAT \<longrightarrow> cm_len c = 4) \<and>
     (cm_type c = TYPE_BIGINT \<or> cm_type c = TYPE_DATETIME \<longrightarrow> cm_len c = 8)"

lemma col_value_left:
  assumes "col_fits (length left) c"
  shows "col_value (left @ right) c = col_value left c"
proof (rule col_value_cong)
  have "nat (cm_len c) \<le> length left - nat (cm_offset c)" "nat (cm_offset c) \<le> length left"
    using assms by (auto simp: col_fits_def)
  then show "take (nat (cm_len c)) (ptr (left @ right) (cm_offset c)) = take (nat (cm_len c)) (ptr left (cm_offset c))"
    by (simp add: ptr_def)
qed (use assms in \<open>auto simp: col_fits_def\<close>)

lemma col_value_right:
  assumes "col_fits (length right) c"
  shows "col_value (left @ right) (shift_col (int (length left)) c) = col_value right c"
proof (rule col_value_cong)
  have "nat (cm_offset c + int (length left)) = length left + nat (cm_offset c)"
    using assms by (auto simp: col_fits_def)
  then show "take (nat (cm_len c)) (ptr (left @ right) (cm_offset (shift_col (int (length left)) c))) =
      take (nat (cm_len c)) (ptr right (cm_offset c))"
    by (simp add: ptr_def shift_col_def)
qed (use assms in \<open>auto simp: col_fits_def shift_col_def\<close>)

text \<open>The value a join reads for a column, on the joined row.\<close>

lemma side_col_ref:
  assumes "\<forall>c \<in> set lc. col_fits (length left) c" "\<forall>c \<in> set rc. col_fits (length right) c"
  shows "case side_col lc left rc right t of
      None \<Rightarrow> find_col (join_cols lc (int (length left)) rc) t = None
    | Some (c, p) \<Rightarrow> \<exists>d side. find_col (join_cols lc (int (length left)) rc) t = Some d \<and> p = ptr side (cm_offset c) \<and>
        cm_type d = cm_type c \<and> cm_len d = cm_len c \<and> col_value side c = col_value (left @ right) d"
proof (cases "find_col lc t")
  case None
  show ?thesis
  proof (cases "find_col rc t")
    case None
    then show ?thesis using \<open>find_col lc t = None\<close> by (simp add: side_col_def find_col_join)
  next
    case (Some c)
    then have "col_value (left @ right) (shift_col (int (length left)) c) = col_value right c"
      using assms(2) find_col_found [OF Some] by (intro col_value_right) blast
    then show ?thesis
      using Some \<open>find_col lc t = None\<close>
      by (simp add: side_col_def find_col_join)
        (intro exI [of _ right] conjI, simp_all add: shift_col_def)
  qed
next
  case (Some c)
  then have "col_value (left @ right) c = col_value left c"
    using assms(1) find_col_found [OF Some] by (intro col_value_left) blast
  then show ?thesis using Some by (simp add: side_col_def find_col_join) (intro exI [of _ left], simp)
qed

lemma side_col_cases:
  assumes "\<forall>c \<in> set lc. col_fits (length left) c" "\<forall>c \<in> set rc. col_fits (length right) c"
    and "find_col (join_cols lc (int (length left)) rc) t = Some d"
  obtains c side where "side_col lc left rc right t = Some (c, ptr side (cm_offset c))"
    "cm_type d = cm_type c" "cm_len d = cm_len c" "col_value side c = col_value (left @ right) d"
  using side_col_ref [OF assms(1,2), of t] assms(3) by (auto split: option.splits)

lemma check_row_ref:
  assumes fits: "\<forall>c \<in> set lc. col_fits (length left) c" "\<forall>c \<in> set rc. col_fits (length right) c"
    and wt: "\<forall>cond \<in> set conds. well_typed (join_cols lc (int (length left)) rc) cond"
  shows "check_row lc left rc right conds =
    (\<forall>cond \<in> set conds. cond_holds (join_cols lc (int (length left)) rc) (left @ right) cond)"
proof -
  let ?cols = "join_cols lc (int (length left)) rc"
  have "(case side_col lc left rc right (lhs_col cond) of None \<Rightarrow> False
        | Some (lcol, lhs) \<Rightarrow>
            if is_rhs_val cond then eval_rhs_val lhs (cm_type lcol) (cm_len lcol) (c_op cond) (rhs_val cond)
            else case side_col lc left rc right (rhs_col cond) of None \<Rightarrow> False
                 | Some (rcol, rhs) \<Rightarrow> compare_typed lhs lcol rhs rcol (c_op cond)) =
      cond_holds ?cols (left @ right) cond" if w: "well_typed ?cols cond" for cond
  proof -
    obtain d where d: "find_col ?cols (lhs_col cond) = Some d"
      using w by (auto simp: well_typed_def split: option.splits)
    obtain c side where c: "side_col lc left rc right (lhs_col cond) = Some (c, ptr side (cm_offset c))"
      "cm_type d = cm_type c" "cm_len d = cm_len c" "col_value side c = col_value (left @ right) d"
      by (rule side_col_cases [OF fits d])
    show ?thesis
    proof (cases "is_rhs_val cond")
      case True
      then show ?thesis using c d by (simp add: cond_holds_def eval_rhs_val_ref)
    next
      case False
      obtain e where e: "find_col ?cols (rhs_col cond) = Some e" "same_shape d e"
        using w d False by (auto simp: well_typed_def split: option.splits)
      obtain f side' where f: "side_col lc left rc right (rhs_col cond) = Some (f, ptr side' (cm_offset f))"
        "cm_type e = cm_type f" "cm_len e = cm_len f" "col_value side' f = col_value (left @ right) e"
        by (rule side_col_cases [OF fits e(1)])
      have "cm_type c = cm_type f" using c(2) e(2) f(2) by (simp add: same_shape_def)
      from compare_typed_ref [OF this] show ?thesis using c d e f False by (simp add: cond_holds_def)
    qed
  qed
  then show ?thesis using wt by (simp add: check_row_def)
qed


definition demo_int :: "int \<Rightarrow> Value" where
  "demo_int i = \<lparr>v_type = TYPE_INT, v_union = enc_le 8 i, str_val = [], v_raw = None\<rparr>"

definition tab_col :: "string \<Rightarrow> string \<Rightarrow> TabCol" where
  "tab_col t c = \<lparr>tc_tab_name = t, tc_col_name = c, tc_alias = [], tc_agg_type = AGG_NONE\<rparr>"

definition int_col :: "string \<Rightarrow> string \<Rightarrow> int \<Rightarrow> ColMeta" where
  "int_col t c off = \<lparr>cm_tab_name = t, cm_name = c, cm_type = TYPE_INT, cm_len = 4, cm_offset = off, cm_index = False\<rparr>"



end
