(* ===== verification/Ix_Node.thy ===== *)
theory Ix_Node
  imports Predicates Buffer_Pool
begin

text \<open>
  \<^verbatim>\<open>index/ix_defs.h\<close> and the node layer of \<^verbatim>\<open>index/ix_index_handle.{h,cpp}\<close>: the file header of an index with
  its byte format, key comparison, and the operations of \<^verbatim>\<open>IxNodeHandle\<close> on the bytes of a page (a header
  of 24 bytes, the array of keys, the array of record ids). The header is shown to be read back from its
  bytes; the binary searches are shown to find the bounds in a sorted node, and insertion and removal to act
  on the sorted list of pairs.
\<close>

section \<open>Headers\<close>

definition IX_NO_PAGE :: int where "IX_NO_PAGE = -1"
definition IX_FILE_HDR_PAGE :: int where "IX_FILE_HDR_PAGE = 0"
definition IX_LEAF_HEADER_PAGE :: int where "IX_LEAF_HEADER_PAGE = 1"
definition IX_INIT_ROOT_PAGE :: int where "IX_INIT_ROOT_PAGE = 2"
definition IX_INIT_NUM_PAGES :: int where "IX_INIT_NUM_PAGES = 3"
definition IX_MAX_COL_LEN :: int where "IX_MAX_COL_LEN = 512"

record IxFileHdr =
  ix_first_free_page_no :: int
  ix_num_pages :: int
  root_page :: int
  ix_col_num :: int
  col_types :: "ColType list"
  col_lens :: "int list"
  ix_col_tot_len :: int
  btree_order :: int
  keys_size :: int
  first_leaf :: int
  last_leaf :: int
  tot_len :: int

definition new_IxFileHdr :: "int \<Rightarrow> int \<Rightarrow> int \<Rightarrow> int \<Rightarrow> int \<Rightarrow> int \<Rightarrow> int \<Rightarrow> int \<Rightarrow> int \<Rightarrow> IxFileHdr" where
  "new_IxFileHdr ff np root cn ctl order ks fl ll =
     \<lparr>ix_first_free_page_no = ff, ix_num_pages = np, root_page = root, ix_col_num = cn, col_types = [], col_lens = [],
      ix_col_tot_len = ctl, btree_order = order, keys_size = ks, first_leaf = fl, last_leaf = ll, tot_len = 0\<rparr>"

definition update_tot_len :: "IxFileHdr \<Rightarrow> IxFileHdr" where
  "update_tot_len h = h\<lparr>tot_len := 4 * 4 + 4 * 6 + (4 * ix_col_num h + 4 * ix_col_num h)\<rparr>"

text \<open>The bytes \<^verbatim>\<open>serialize\<close> writes, and its final assertion on their number.\<close>

definition ixhdr_bytes :: "IxFileHdr \<Rightarrow> byte list" where
  "ixhdr_bytes h =
     enc_le 4 (tot_len h) @ enc_le 4 (ix_first_free_page_no h) @ enc_le 4 (ix_num_pages h) @ enc_le 4 (root_page h) @
     enc_le 4 (ix_col_num h) @
     concat (map (\<lambda>ty. enc_le 4 (col_type_code ty)) (take (nat (ix_col_num h)) (col_types h))) @
     concat (map (enc_le 4) (take (nat (ix_col_num h)) (col_lens h))) @
     enc_le 4 (ix_col_tot_len h) @ enc_le 4 (btree_order h) @ enc_le 4 (keys_size h) @ enc_le 4 (first_leaf h) @
     enc_le 4 (last_leaf h)"

definition ixhdr_serialize :: "IxFileHdr \<Rightarrow> ('s, byte list) prog" where
  "ixhdr_serialize h =
     thenE (assertE (int (length (ixhdr_bytes h)) = tot_len h)) (ret (ixhdr_bytes h))"

text \<open>A type code outside the enumeration is the error \<open>Uninitialised\<close> here.\<close>

fun get_types :: "byte list \<Rightarrow> nat \<Rightarrow> nat \<Rightarrow> ColType list option" where
  "get_types src off 0 = Some []"
| "get_types src off (Suc n) =
     Option.bind (col_type_of (get_i32 src off)) (\<lambda>ty. map_option (Cons ty) (get_types src (off + 4) n))"

definition ixhdr_deserialize :: "byte list \<Rightarrow> ('s, IxFileHdr) prog" where
  "ixhdr_deserialize src =
     (let n = nat (get_i32 src 16); l = 20 + 4 * n; off = l + 4 * n in
      case get_types src 20 n of
        None \<Rightarrow> raise Uninitialised
      | Some tys \<Rightarrow>
          thenE (assertE (int (off + 20) = get_i32 src 0))
          (ret \<lparr>ix_first_free_page_no = get_i32 src 4, ix_num_pages = get_i32 src 8, root_page = get_i32 src 12,
                ix_col_num = get_i32 src 16, col_types = tys, col_lens = map (\<lambda>i. get_i32 src (l + 4 * i)) [0..<n],
                ix_col_tot_len = get_i32 src off, btree_order = get_i32 src (off + 4), keys_size = get_i32 src (off + 8),
                first_leaf = get_i32 src (off + 12), last_leaf = get_i32 src (off + 16), tot_len = get_i32 src 0\<rparr>))"

record IxPageHdr =
  ix_next_free :: int
  parent :: int
  num_key :: int
  is_leaf :: bool
  prev_leaf :: int
  next_leaf :: int

record Iid =
  iid_page :: int
  iid_slot :: int

record IxIndexHandle =
  ih_fd :: int
  ih_hdr :: IxFileHdr

section \<open>Keys\<close>

text \<open>\<^verbatim>\<open>memcmp\<close> of \<open>n\<close> bytes.\<close>

fun memcmp :: "byte list \<Rightarrow> byte list \<Rightarrow> nat \<Rightarrow> int" where
  "memcmp a b 0 = 0"
| "memcmp (x # a) (y # b) (Suc n) = (if x < y then -1 else if y < x then 1 else memcmp a b n)"
| "memcmp a b (Suc n) = 0"

definition sign_of :: "int \<Rightarrow> int \<Rightarrow> int" where
  "sign_of a b = (if a < b then -1 else if a > b then 1 else 0)"

fun ix_compare_col :: "byte list \<Rightarrow> byte list \<Rightarrow> ColType \<Rightarrow> int \<Rightarrow> int" where
  "ix_compare_col a b TYPE_INT len = sign_of (load_i32 a) (load_i32 b)"
| "ix_compare_col a b TYPE_BIGINT len = sign_of (load_i64 a) (load_i64 b)"
| "ix_compare_col a b TYPE_DATETIME len = sign_of (load_i64 a) (load_i64 b)"
| "ix_compare_col a b TYPE_FLOAT len =
     (if f32_less (load_f32 a) (load_f32 b) then -1 else if f32_less (load_f32 b) (load_f32 a) then 1 else 0)"
| "ix_compare_col a b TYPE_STRING len = memcmp a b (nat len)"

fun ix_compare :: "byte list \<Rightarrow> byte list \<Rightarrow> ColType list \<Rightarrow> int list \<Rightarrow> int" where
  "ix_compare a b (ty # tys) (len # lens) =
     (let res = ix_compare_col a b ty len in
      if res \<noteq> 0 then res else ix_compare (drop (nat len) a) (drop (nat len) b) tys lens)"
| "ix_compare a b tys lens = 0"

definition key_cmp :: "IxFileHdr \<Rightarrow> byte list \<Rightarrow> byte list \<Rightarrow> int" where
  "key_cmp h a b = ix_compare a b (col_types h) (col_lens h)"

section \<open>IxNodeHandle\<close>

definition node_hdr :: "byte list \<Rightarrow> IxPageHdr" where
  "node_hdr d = \<lparr>ix_next_free = get_i32 d 0, parent = get_i32 d 4, num_key = get_i32 d 8, is_leaf = (d ! 12 \<noteq> 0),
     prev_leaf = get_i32 d 16, next_leaf = get_i32 d 20\<rparr>"

definition get_size :: "byte list \<Rightarrow> int" where "get_size d = num_key (node_hdr d)"
definition set_size :: "int \<Rightarrow> byte list \<Rightarrow> byte list" where "set_size n d = put_i32 d 8 n"
definition get_max_size :: "IxFileHdr \<Rightarrow> int" where "get_max_size h = btree_order h + 1"
definition get_min_size :: "IxFileHdr \<Rightarrow> int" where "get_min_size h = get_max_size h div 2"
definition get_next_leaf :: "byte list \<Rightarrow> int" where "get_next_leaf d = next_leaf (node_hdr d)"
definition get_prev_leaf :: "byte list \<Rightarrow> int" where "get_prev_leaf d = prev_leaf (node_hdr d)"
definition get_parent_page_no :: "byte list \<Rightarrow> int" where "get_parent_page_no d = parent (node_hdr d)"
definition is_leaf_page :: "byte list \<Rightarrow> bool" where "is_leaf_page d \<longleftrightarrow> is_leaf (node_hdr d)"
definition is_root_page :: "byte list \<Rightarrow> bool" where "is_root_page d \<longleftrightarrow> get_parent_page_no d = INVALID_PAGE_ID"
definition set_next_leaf :: "int \<Rightarrow> byte list \<Rightarrow> byte list" where "set_next_leaf p d = put_i32 d 20 p"
definition set_prev_leaf :: "int \<Rightarrow> byte list \<Rightarrow> byte list" where "set_prev_leaf p d = put_i32 d 16 p"
definition set_parent_page_no :: "int \<Rightarrow> byte list \<Rightarrow> byte list" where "set_parent_page_no p d = put_i32 d 4 p"
definition set_is_leaf :: "bool \<Rightarrow> byte list \<Rightarrow> byte list" where "set_is_leaf b d = d[12 := (if b then 1 else 0)]"

definition key_off :: "IxFileHdr \<Rightarrow> nat \<Rightarrow> nat" where
  "key_off h i = 24 + i * nat (ix_col_tot_len h)"

definition rid_off :: "IxFileHdr \<Rightarrow> nat \<Rightarrow> nat" where
  "rid_off h i = 24 + nat (keys_size h) + 8 * i"

definition get_key :: "IxFileHdr \<Rightarrow> byte list \<Rightarrow> nat \<Rightarrow> byte list" where
  "get_key h d i = read_at d (key_off h i) (nat (ix_col_tot_len h))"

definition get_rid :: "IxFileHdr \<Rightarrow> byte list \<Rightarrow> nat \<Rightarrow> Rid" where
  "get_rid h d i = \<lparr>page_no = get_i32 d (rid_off h i), slot_no = get_i32 d (rid_off h i + 4)\<rparr>"

definition set_key :: "IxFileHdr \<Rightarrow> nat \<Rightarrow> byte list \<Rightarrow> byte list \<Rightarrow> byte list" where
  "set_key h i k d = write_at d (key_off h i) (take (nat (ix_col_tot_len h)) k)"

definition set_rid :: "IxFileHdr \<Rightarrow> nat \<Rightarrow> Rid \<Rightarrow> byte list \<Rightarrow> byte list" where
  "set_rid h i r d = write_at d (rid_off h i) (enc_le 4 (page_no r) @ enc_le 4 (slot_no r))"

definition value_at :: "IxFileHdr \<Rightarrow> byte list \<Rightarrow> nat \<Rightarrow> int" where
  "value_at h d i = page_no (get_rid h d i)"

text \<open>The two binary searches; \<open>test\<close> is the condition that moves the upper end.\<close>

function bsearch :: "(nat \<Rightarrow> bool) \<Rightarrow> nat \<Rightarrow> nat \<Rightarrow> nat" where
  "bsearch test lo hi =
     (if lo < hi then
        let mid = lo + (hi - lo) div 2 in
        if test mid then bsearch test lo mid else bsearch test (mid + 1) hi
      else lo)"
  by pat_completeness auto
termination by (relation "measure (\<lambda>(test, lo, hi). hi - lo)") auto

declare bsearch.simps [simp del]

definition node_lower_bound :: "IxFileHdr \<Rightarrow> byte list \<Rightarrow> byte list \<Rightarrow> nat" where
  "node_lower_bound h d target = bsearch (\<lambda>mid. key_cmp h (get_key h d mid) target \<ge> 0) 0 (nat (get_size d))"

definition node_upper_bound :: "IxFileHdr \<Rightarrow> byte list \<Rightarrow> byte list \<Rightarrow> nat" where
  "node_upper_bound h d target = bsearch (\<lambda>mid. key_cmp h (get_key h d mid) target > 0) 0 (nat (get_size d))"

definition leaf_lookup :: "IxFileHdr \<Rightarrow> byte list \<Rightarrow> byte list \<Rightarrow> Rid option" where
  "leaf_lookup h d key =
     (let pos = node_lower_bound h d key in
      if int pos < get_size d \<and> key_cmp h (get_key h d pos) key = 0 then Some (get_rid h d pos) else None)"

definition internal_lookup :: "IxFileHdr \<Rightarrow> byte list \<Rightarrow> byte list \<Rightarrow> int" where
  "internal_lookup h d key = value_at h d (node_upper_bound h d key - 1)"

text \<open>Copy the pair at \<open>i\<close> to \<open>j\<close>; and the loop that moves \<open>[pos, num)\<close> up by \<open>n\<close>, from the top.\<close>

definition copy_pair :: "IxFileHdr \<Rightarrow> nat \<Rightarrow> nat \<Rightarrow> byte list \<Rightarrow> byte list" where
  "copy_pair h j i d = set_rid h j (get_rid h d i) (set_key h j (get_key h d i) d)"

fun shift_up :: "IxFileHdr \<Rightarrow> nat \<Rightarrow> nat \<Rightarrow> nat \<Rightarrow> byte list \<Rightarrow> byte list" where
  "shift_up h pos 0 n d = d"
| "shift_up h pos (Suc i) n d = (if pos \<le> i then shift_up h pos i n (copy_pair h (i + n) i d) else d)"

fun put_pairs :: "IxFileHdr \<Rightarrow> nat \<Rightarrow> (byte list \<times> Rid) list \<Rightarrow> byte list \<Rightarrow> byte list" where
  "put_pairs h pos [] d = d"
| "put_pairs h pos ((k, r) # ps) d = put_pairs h (Suc pos) ps (set_rid h pos r (set_key h pos k d))"

definition insert_pairs :: "IxFileHdr \<Rightarrow> nat \<Rightarrow> (byte list \<times> Rid) list \<Rightarrow> byte list \<Rightarrow> ('s, byte list) prog" where
  "insert_pairs h pos ps d =
     thenE (assertE (int pos \<le> get_size d))
     (let num = nat (get_size d);
          d1 = put_pairs h pos ps (shift_up h pos num (length ps) d) in
      ret (set_size (get_size d1 + int (length ps)) d1))"

definition insert_pair :: "IxFileHdr \<Rightarrow> nat \<Rightarrow> byte list \<Rightarrow> Rid \<Rightarrow> byte list \<Rightarrow> ('s, byte list) prog" where
  "insert_pair h pos k r d = insert_pairs h pos [(k, r)] d"

definition node_insert :: "IxFileHdr \<Rightarrow> byte list \<Rightarrow> Rid \<Rightarrow> byte list \<Rightarrow> ('s, byte list \<times> int) prog" where
  "node_insert h key v d =
     (let pos = node_lower_bound h d key in
      if int pos < get_size d \<and> key_cmp h (get_key h d pos) key = 0
      then raise (RMDBError ''Duplicate entry for unique index'')
      else bindE (insert_pair h pos key v d) (\<lambda>d. ret (d, get_size d)))"

function shift_down :: "IxFileHdr \<Rightarrow> nat \<Rightarrow> nat \<Rightarrow> byte list \<Rightarrow> byte list" where
  "shift_down h i num d = (if Suc i < num then shift_down h (Suc i) num (copy_pair h i (Suc i) d) else d)"
  by pat_completeness auto
termination by (relation "measure (\<lambda>(h, i, num, d). num - i)") auto

declare shift_down.simps [simp del]

definition erase_pair :: "IxFileHdr \<Rightarrow> nat \<Rightarrow> byte list \<Rightarrow> ('s, byte list) prog" where
  "erase_pair h pos d =
     thenE (assertE (int pos < get_size d))
     (let d1 = shift_down h pos (nat (get_size d)) d in ret (set_size (get_size d1 - 1) d1))"

definition node_remove :: "IxFileHdr \<Rightarrow> byte list \<Rightarrow> byte list \<Rightarrow> ('s, byte list \<times> int) prog" where
  "node_remove h key d =
     (let pos = node_lower_bound h d key in
      if int pos < get_size d \<and> key_cmp h (get_key h d pos) key = 0
      then bindE (erase_pair h pos d) (\<lambda>d. ret (d, get_size d))
      else ret (d, get_size d))"

definition remove_and_return_only_child :: "IxFileHdr \<Rightarrow> byte list \<Rightarrow> ('s, int \<times> byte list) prog" where
  "remove_and_return_only_child h d =
     thenE (assertE (get_size d = 1))
     (bindE (erase_pair h 0 d) (\<lambda>d1. thenE (assertE (get_size d1 = 0)) (ret (value_at h d 0, d1))))"

definition find_child :: "IxFileHdr \<Rightarrow> byte list \<Rightarrow> int \<Rightarrow> ('s, nat) prog" where
  "find_child h d child =
     (case List.find (\<lambda>i. value_at h d i = child) [0..<nat (get_size d)] of
        Some i \<Rightarrow> ret i
      | None \<Rightarrow> raise AssertionFailure)"

section \<open>The header is read back\<close>

definition ixhdr_ok :: "IxFileHdr \<Rightarrow> bool" where
  "ixhdr_ok h \<longleftrightarrow> ix_col_num h = int (length (col_types h)) \<and> length (col_lens h) = length (col_types h) \<and>
     tot_len h = 40 + 8 * ix_col_num h \<and> (\<forall>l \<in> set (col_lens h). fits_signed 4 l) \<and>
     (\<forall>v \<in> {ix_first_free_page_no h, ix_num_pages h, root_page h, ix_col_num h, ix_col_tot_len h, btree_order h,
        keys_size h, first_leaf h, last_leaf h, tot_len h}. fits_signed 4 v)"

lemma get_i32_skip: "length xs \<le> off \<Longrightarrow> get_i32 (xs @ ys) off = get_i32 ys (off - length xs)"
  by (simp add: get_i32_def read_at_def)

lemma get_i32_enc: "fits_signed 4 v \<Longrightarrow> get_i32 (enc_le 4 v @ ys) 0 = v"
  by (simp add: get_i32_def read_at_def dec_signed_enc)

lemma length_concat_enc [simp]: "length (concat (map (\<lambda>x. enc_le 4 (f x)) xs)) = 4 * length xs"
  by (induction xs) simp_all

lemma get_types_enc:
  "off = length pre \<Longrightarrow>
   get_types (pre @ concat (map (\<lambda>ty. enc_le 4 (col_type_code ty)) tys) @ ys) off (length tys) = Some tys"
proof (induction tys arbitrary: off pre)
  case (Cons ty tys)
  have "get_i32 (pre @ enc_le 4 (col_type_code ty) @ zs) off = col_type_code ty" for zs
    using Cons.prems by (simp add: get_i32_skip get_i32_enc)
  moreover have "get_types ((pre @ enc_le 4 (col_type_code ty)) @ concat (map (\<lambda>ty. enc_le 4 (col_type_code ty)) tys) @ ys)
      (off + 4) (length tys) = Some tys"
    using Cons.prems by (intro Cons.IH) simp
  ultimately show ?case by simp
qed simp

lemma get_lens_enc:
  assumes "\<forall>l \<in> set ls. fits_signed 4 l"
  shows "map (\<lambda>i. get_i32 (pre @ concat (map (enc_le 4) ls) @ ys) (length pre + 4 * i)) [0..<length ls] = ls"
  using assms
proof (induction ls arbitrary: pre)
  case (Cons l ls)
  let ?d = "pre @ concat (map (enc_le 4) (l # ls)) @ ys"
  have 1: "get_i32 ?d (length pre) = l" using Cons.prems by (simp add: get_i32_skip get_i32_enc)
  have "map (\<lambda>i. get_i32 ?d (length pre + 4 * i)) (map Suc [0..<length ls]) = ls"
    using Cons.IH [of "pre @ enc_le 4 l"] Cons.prems by (simp add: comp_def algebra_simps)
  then show ?case using 1 by (simp add: upt_conv_Cons map_Suc_upt del: upt_Suc)
qed simp

lemma ixhdr_bytes_read:
  assumes ok: "ixhdr_ok h"
  shows "ixhdr_deserialize (ixhdr_bytes h @ ys) s = (Inr h, s)"
proof -
  let ?n = "length (col_types h)"
  let ?pre = "enc_le 4 (tot_len h) @ enc_le 4 (ix_first_free_page_no h) @ enc_le 4 (ix_num_pages h) @ enc_le 4 (root_page h) @
     enc_le 4 (ix_col_num h)"
  let ?tys = "concat (map (\<lambda>ty. enc_le 4 (col_type_code ty)) (col_types h))" and ?ls = "concat (map (enc_le 4) (col_lens h))"
  let ?post = "enc_le 4 (ix_col_tot_len h) @ enc_le 4 (btree_order h) @ enc_le 4 (keys_size h) @ enc_le 4 (first_leaf h) @
     enc_le 4 (last_leaf h) @ ys"
  have n: "ix_col_num h = int ?n" "length (col_lens h) = ?n" using ok by (simp_all add: ixhdr_ok_def)
  have d: "ixhdr_bytes h @ ys = ?pre @ ?tys @ ?ls @ ?post" by (simp add: ixhdr_bytes_def n)
  have lens: "length ?tys = 4 * ?n" "length ?ls = 4 * ?n"
    using length_concat_enc [of col_type_code "col_types h"] length_concat_enc [of id "col_lens h"] n(2) by simp_all
  have ty: "get_types (?pre @ ?tys @ ?ls @ ?post) 20 ?n = Some (col_types h)"
    using get_types_enc [of 20 ?pre "col_types h" "?ls @ ?post"] by simp
  have ls: "map (\<lambda>i. get_i32 (?pre @ ?tys @ ?ls @ ?post) (20 + 4 * ?n + 4 * i)) [0..<?n] = col_lens h"
    using get_lens_enc [of "col_lens h" "?pre @ ?tys" ?post] ok lens n(2) by (simp add: ixhdr_ok_def add.assoc)
  have f: "fits_signed 4 (tot_len h)" "fits_signed 4 (ix_first_free_page_no h)" "fits_signed 4 (ix_num_pages h)"
    "fits_signed 4 (root_page h)" "fits_signed 4 (ix_col_num h)" "fits_signed 4 (ix_col_tot_len h)" "fits_signed 4 (btree_order h)"
    "fits_signed 4 (keys_size h)" "fits_signed 4 (first_leaf h)" "fits_signed 4 (last_leaf h)"
    using ok unfolding ixhdr_ok_def by blast+
  have a: "get_i32 (?pre @ zs) 0 = tot_len h" "get_i32 (?pre @ zs) 4 = ix_first_free_page_no h"
      "get_i32 (?pre @ zs) 8 = ix_num_pages h" "get_i32 (?pre @ zs) 12 = root_page h" "get_i32 (?pre @ zs) 16 = ix_col_num h" for zs
    using f by (simp_all add: get_i32_skip get_i32_enc)
  have post: "get_i32 ?post 0 = ix_col_tot_len h" "get_i32 ?post 4 = btree_order h" "get_i32 ?post 8 = keys_size h"
      "get_i32 ?post 12 = first_leaf h" "get_i32 ?post 16 = last_leaf h"
    using f by (simp_all add: get_i32_skip get_i32_enc)
  have b: "get_i32 (?pre @ ?tys @ ?ls @ ?post) (20 + 4 * ?n + 4 * ?n + k) = get_i32 ?post k" for k
    using get_i32_skip [of "?pre @ ?tys @ ?ls" "20 + 4 * ?n + 4 * ?n + k" ?post] lens by simp
  have tot: "tot_len h = 40 + 8 * int ?n" using ok n(1) by (simp add: ixhdr_ok_def)
  define D where "D = ?pre @ ?tys @ ?ls @ ?post"
  note D = a [of "?tys @ ?ls @ ?post", folded D_def] ty [folded D_def] ls [folded D_def]
    b [of 0, folded D_def, unfolded post add_0_right] b [of 4, folded D_def, unfolded post] b [of 8, folded D_def, unfolded post]
    b [of 12, folded D_def, unfolded post] b [of 16, folded D_def, unfolded post]
  have "nat (ix_col_num h) = ?n" using n(1) by simp
  then show ?thesis
    unfolding d D_def [symmetric] ixhdr_deserialize_def Let_def
    by (simp only: D option.case) (simp add: prog_simps tot n(1))
qed

text \<open>The header page of an index is faithful: \<open>serialize\<close> passes its length assertion, and
  \<open>deserialize\<close> of a page that starts with its bytes returns the header, column types and lengths included.\<close>

lemma ixhdr_roundtrip:
  assumes "ixhdr_ok h"
  shows "ixhdr_serialize h s = (Inr (ixhdr_bytes h), s) \<and> ixhdr_deserialize (ixhdr_bytes h @ ys) s = (Inr h, s)"
proof -
  have "length (ixhdr_bytes h) = 40 + 8 * length (col_types h)"
    using assms length_concat_enc [of col_type_code "col_types h"] length_concat_enc [of id "col_lens h"]
    by (simp add: ixhdr_bytes_def ixhdr_ok_def)
  then show ?thesis
    using ixhdr_bytes_read [OF assms] assms by (simp add: ixhdr_serialize_def prog_simps ixhdr_ok_def)
qed

definition demo_ixhdr :: IxFileHdr where
  "demo_ixhdr = update_tot_len ((new_IxFileHdr IX_NO_PAGE IX_INIT_NUM_PAGES IX_INIT_ROOT_PAGE 2 12 203 2448 2 2)
     \<lparr>col_types := [TYPE_INT, TYPE_STRING], col_lens := [4, 8]\<rparr>)"

section \<open>Pairs of a node\<close>

definition rid_ok :: "Rid \<Rightarrow> bool" where
  "rid_ok r \<longleftrightarrow> fits_signed 4 (page_no r) \<and> fits_signed 4 (slot_no r)"

text \<open>A page with room for \<open>m\<close> pairs.\<close>

definition node_fits :: "IxFileHdr \<Rightarrow> nat \<Rightarrow> bool" where
  "node_fits h m \<longleftrightarrow> m * nat (ix_col_tot_len h) \<le> nat (keys_size h) \<and> 24 + nat (keys_size h) + 8 * m \<le> PAGE_SIZE"

definition get_pair :: "IxFileHdr \<Rightarrow> byte list \<Rightarrow> nat \<Rightarrow> byte list \<times> Rid" where
  "get_pair h d i = (get_key h d i, get_rid h d i)"

definition entry_ok :: "IxFileHdr \<Rightarrow> byte list \<times> Rid \<Rightarrow> bool" where
  "entry_ok h p \<longleftrightarrow> length (fst p) = nat (ix_col_tot_len h) \<and> rid_ok (snd p)"

definition set_pair :: "IxFileHdr \<Rightarrow> nat \<Rightarrow> byte list \<times> Rid \<Rightarrow> byte list \<Rightarrow> byte list" where
  "set_pair h i p d = set_rid h i (snd p) (set_key h i (fst p) d)"

lemma get_i32_fits: "off + 4 \<le> length d \<Longrightarrow> fits_signed 4 (get_i32 d off)"
  using dec_le_bounds [of "read_at d off 4"] by (auto simp: get_i32_def dec_signed_def fits_signed_def Let_def)

lemma key_end: "node_fits h m \<Longrightarrow> i < m \<Longrightarrow> key_off h i + nat (ix_col_tot_len h) \<le> 24 + nat (keys_size h)"
  using mult_le_mono1 [of "Suc i" m "nat (ix_col_tot_len h)"] by (auto simp: node_fits_def key_off_def)

lemma rid_end: "node_fits h m \<Longrightarrow> i < m \<Longrightarrow> rid_off h i + 8 \<le> PAGE_SIZE"
  by (auto simp: node_fits_def rid_off_def)

lemma key_disjoint:
  assumes "i \<noteq> j"
  shows "key_off h i + nat (ix_col_tot_len h) \<le> key_off h j \<or> key_off h j + nat (ix_col_tot_len h) \<le> key_off h i"
proof -
  have "Suc i \<le> j \<or> Suc j \<le> i" using assms by linarith
  then show ?thesis
    using mult_le_mono1 [of "Suc i" j "nat (ix_col_tot_len h)"] mult_le_mono1 [of "Suc j" i "nat (ix_col_tot_len h)"]
    by (auto simp: key_off_def)
qed

lemma rid_start: "24 + nat (keys_size h) \<le> rid_off h i"
  by (simp add: rid_off_def)

lemma key_start: "24 \<le> key_off h i"
  by (simp add: key_off_def)

lemma set_key_read:
  assumes "node_fits h m" "length d = PAGE_SIZE" "i < m" "length k = nat (ix_col_tot_len h)"
  shows "length (set_key h i k d) = PAGE_SIZE" "get_key h (set_key h i k d) i = k"
    "j < m \<Longrightarrow> j \<noteq> i \<Longrightarrow> get_key h (set_key h i k d) j = get_key h d j"
    "j < m \<Longrightarrow> get_rid h (set_key h i k d) j = get_rid h d j"
    "off + 4 \<le> 24 \<Longrightarrow> get_i32 (set_key h i k d) off = get_i32 d off" "(set_key h i k d) ! 12 = d ! 12"
proof -
  have e: "key_off h i + length k \<le> length d" "24 \<le> key_off h i" "key_off h i + length k \<le> 24 + nat (keys_size h)"
    "24 + nat (keys_size h) \<le> PAGE_SIZE"
    using key_end [OF assms(1,3)] assms by (auto simp: node_fits_def key_start)
  show "length (set_key h i k d) = PAGE_SIZE" "get_key h (set_key h i k d) i = k"
    using e(1) assms by (simp_all add: set_key_def get_key_def mem_simps)
  show "get_key h (set_key h i k d) j = get_key h d j" if "j < m" "j \<noteq> i"
    using e key_disjoint [OF that(2)] key_end [OF assms(1) that(1)] assms(2,4)
    by (auto simp: set_key_def get_key_def mem_simps)
  show "get_rid h (set_key h i k d) j = get_rid h d j" if "j < m"
  proof -
    have "key_off h i + length k \<le> rid_off h j" using e(3) rid_start [of h j] by simp
    then show ?thesis using e(1) rid_end [OF assms(1) that] assms(2,4) by (simp add: set_key_def get_rid_def mem_simps)
  qed
  show "get_i32 (set_key h i k d) off = get_i32 d off" if "off + 4 \<le> 24"
    using e that assms(2,4) by (simp add: set_key_def mem_simps)
  show "(set_key h i k d) ! 12 = d ! 12"
    using e assms(2,4) nth_write_at [of "key_off h i" k d 12] by (simp add: set_key_def PAGE_SIZE_def)
qed

lemma set_rid_read:
  assumes "node_fits h m" "length d = PAGE_SIZE" "i < m" "rid_ok r"
  shows "length (set_rid h i r d) = PAGE_SIZE" "get_rid h (set_rid h i r d) i = r"
    "j < m \<Longrightarrow> j \<noteq> i \<Longrightarrow> get_rid h (set_rid h i r d) j = get_rid h d j"
    "j < m \<Longrightarrow> get_key h (set_rid h i r d) j = get_key h d j"
    "off + 4 \<le> 24 \<Longrightarrow> get_i32 (set_rid h i r d) off = get_i32 d off" "(set_rid h i r d) ! 12 = d ! 12"
proof -
  have e: "rid_off h i + 8 \<le> length d" "24 + nat (keys_size h) \<le> rid_off h i"
    using rid_end [OF assms(1,3)] assms(2) by (simp_all add: rid_start)
  let ?bs = "enc_le 4 (page_no r) @ enc_le 4 (slot_no r)"
  have w: "set_rid h i r d = put_i32 (put_i32 d (rid_off h i) (page_no r)) (rid_off h i + 4) (slot_no r)"
    using e by (simp add: set_rid_def put_i32_def write_at_def add.commute)
  have l: "length (put_i32 d (rid_off h i) (page_no r)) = PAGE_SIZE" using e assms(2) by simp
  show "length (set_rid h i r d) = PAGE_SIZE" using e assms(2) by (simp add: w)
  show "get_rid h (set_rid h i r d) i = r"
    using e assms by (simp add: w get_rid_def mem_simps rid_ok_def)
  show "get_rid h (set_rid h i r d) j = get_rid h d j" if "j < m" "j \<noteq> i"
  proof -
    have "rid_off h i + 8 \<le> rid_off h j \<or> rid_off h j + 8 \<le> rid_off h i" using that(2) by (auto simp: rid_off_def)
    then show ?thesis
      using e rid_end [OF assms(1) that(1)] assms(2) by (elim disjE) (simp_all add: w get_rid_def mem_simps)
  qed
  show "get_key h (set_rid h i r d) j = get_key h d j" if "j < m"
    using e key_end [OF assms(1) that] assms(2) by (simp add: w get_key_def mem_simps)
  show "get_i32 (set_rid h i r d) off = get_i32 d off" if "off + 4 \<le> 24"
    using e that assms(2) by (simp add: w mem_simps)
  show "(set_rid h i r d) ! 12 = d ! 12"
    using e assms(2) nth_write_at [of "rid_off h i" ?bs d 12] by (simp add: set_rid_def PAGE_SIZE_def)
qed

lemma set_pair_read:
  assumes "node_fits h m" "length d = PAGE_SIZE" "i < m" "entry_ok h p"
  shows "length (set_pair h i p d) = PAGE_SIZE"
    "j < m \<Longrightarrow> get_pair h (set_pair h i p d) j = (if j = i then p else get_pair h d j)"
    "node_hdr (set_pair h i p d) = node_hdr d"
proof -
  have p: "length (fst p) = nat (ix_col_tot_len h)" "rid_ok (snd p)" using assms(4) by (simp_all add: entry_ok_def)
  note k = set_key_read [OF assms(1-3) p(1)]
  note r = set_rid_read [OF assms(1) k(1) assms(3) p(2)]
  show "length (set_pair h i p d) = PAGE_SIZE" using r by (simp add: set_pair_def)
  show "get_pair h (set_pair h i p d) j = (if j = i then p else get_pair h d j)" if "j < m"
    using k(2,3,4) r(2,3,4) that assms(3) by (cases p) (auto simp: set_pair_def get_pair_def)
  show "node_hdr (set_pair h i p d) = node_hdr d" using k(5,6) r(5,6) by (simp add: set_pair_def node_hdr_def)
qed

lemma get_pair_ok: "node_fits h m \<Longrightarrow> length d = PAGE_SIZE \<Longrightarrow> i < m \<Longrightarrow> entry_ok h (get_pair h d i)"
  using key_end [of h m i] rid_end [of h m i]
  by (auto simp: entry_ok_def get_pair_def get_key_def get_rid_def rid_ok_def node_fits_def intro!: get_i32_fits)

lemma copy_pair_set: "copy_pair h j i d = set_pair h j (get_pair h d i) d"
  by (simp add: copy_pair_def set_pair_def get_pair_def)

lemma put_pairs_Cons: "put_pairs h pos (p # ps) d = put_pairs h (Suc pos) ps (set_pair h pos p d)"
  by (cases p) (simp add: set_pair_def)

lemma shift_up_read:
  assumes "node_fits h m" "length d = PAGE_SIZE" "num + n \<le> m"
  shows "length (shift_up h pos num n d) = PAGE_SIZE \<and> node_hdr (shift_up h pos num n d) = node_hdr d \<and>
    (\<forall>j < m. get_pair h (shift_up h pos num n d) j =
       (if pos + n \<le> j \<and> j < num + n then get_pair h d (j - n) else get_pair h d j))"
  using assms
proof (induction num arbitrary: d)
  case (Suc i)
  show ?case
  proof (cases "pos \<le> i")
    case True
    have i: "i < m" "i + n < m" using Suc.prems(3) by simp_all
    note c = set_pair_read [OF Suc.prems(1,2) i(2) get_pair_ok [OF Suc.prems(1,2) i(1)]]
    have len: "length (copy_pair h (i + n) i d) = PAGE_SIZE" using c(1) by (simp add: copy_pair_set)
    have le: "i + n \<le> m" using i by simp
    note IH = Suc.IH [OF Suc.prems(1) len le]
    have "get_pair h (shift_up h pos i n (copy_pair h (i + n) i d)) j =
        (if pos + n \<le> j \<and> j < Suc i + n then get_pair h d (j - n) else get_pair h d j)" if "j < m" for j
    proof -
      have "j - n < m" using that by simp
      then show ?thesis
        using IH c(2) [OF that] c(2) [of "j - n"] that True by (auto simp: copy_pair_set)
    qed
    with IH True c(3) show ?thesis by (simp add: copy_pair_set)
  next
    case False
    then show ?thesis using Suc.prems by auto
  qed
qed auto

lemma put_pairs_read:
  assumes "node_fits h m" "length d = PAGE_SIZE" "pos + length ps \<le> m" "\<forall>p \<in> set ps. entry_ok h p"
  shows "length (put_pairs h pos ps d) = PAGE_SIZE \<and> node_hdr (put_pairs h pos ps d) = node_hdr d \<and>
    (\<forall>j < m. get_pair h (put_pairs h pos ps d) j =
       (if pos \<le> j \<and> j < pos + length ps then ps ! (j - pos) else get_pair h d j))"
  using assms
proof (induction ps arbitrary: d pos)
  case (Cons p ps)
  have pos: "pos < m" "entry_ok h p" using Cons.prems by simp_all
  note c = set_pair_read [OF Cons.prems(1,2) pos]
  have rest: "Suc pos + length ps \<le> m" "\<forall>p \<in> set ps. entry_ok h p" using Cons.prems by simp_all
  note IH = Cons.IH [OF Cons.prems(1) c(1) rest]
  have "get_pair h (put_pairs h (Suc pos) ps (set_pair h pos p d)) j =
      (if pos \<le> j \<and> j < pos + length (p # ps) then (p # ps) ! (j - pos) else get_pair h d j)" if "j < m" for j
  proof (cases "j = pos")
    case False
    then have "pos \<le> j \<longleftrightarrow> Suc pos \<le> j" "Suc pos \<le> j \<Longrightarrow> j - pos = Suc (j - Suc pos)" by auto
    then show ?thesis using IH c(2) [OF that] that False by auto
  qed (use IH c(2) [OF that] that in auto)
  with IH c(3) show ?case by (simp add: put_pairs_Cons del: put_pairs.simps)
qed auto

lemma shift_down_read:
  assumes "node_fits h m" "length d = PAGE_SIZE" "num \<le> m"
  shows "length (shift_down h pos num d) = PAGE_SIZE \<and> node_hdr (shift_down h pos num d) = node_hdr d \<and>
    (\<forall>j < m. get_pair h (shift_down h pos num d) j =
       (if pos \<le> j \<and> Suc j < num then get_pair h d (Suc j) else get_pair h d j))"
  using assms
proof (induction h pos num d rule: shift_down.induct)
  case (1 h i num d)
  show ?case
  proof (cases "Suc i < num")
    case True
    have i: "i < m" "Suc i < m" using 1(4) True by simp_all
    note c = set_pair_read [OF 1(2,3) i(1) get_pair_ok [OF 1(2,3) i(2)]]
    have len: "length (copy_pair h i (Suc i) d) = PAGE_SIZE" using c(1) by (simp add: copy_pair_set)
    note IH = 1(1) [OF True 1(2) len 1(4)]
    have "get_pair h (shift_down h (Suc i) num (copy_pair h i (Suc i) d)) j =
        (if i \<le> j \<and> Suc j < num then get_pair h d (Suc j) else get_pair h d j)" if j: "j < m" for j
    proof -
      have "Suc j < num \<Longrightarrow> get_pair h (copy_pair h i (Suc i) d) (Suc j) = get_pair h d (Suc j)" if "i \<le> j"
        using c(2) [of "Suc j"] 1(4) that by (simp add: copy_pair_set)
      then show ?thesis using IH c(2) [OF j] j True by (auto simp: copy_pair_set not_less_eq_eq)
    qed
    with IH c(3) True show ?thesis by (subst (1 2 3) shift_down.simps) (simp add: copy_pair_set)
  next
    case False
    then show ?thesis using 1 by (subst (1 2 3) shift_down.simps) auto
  qed
qed

section \<open>A node as a list of pairs\<close>

definition node_pairs :: "IxFileHdr \<Rightarrow> byte list \<Rightarrow> (byte list \<times> Rid) list" where
  "node_pairs h d = map (get_pair h d) [0..<nat (get_size d)]"

definition node_ok :: "IxFileHdr \<Rightarrow> nat \<Rightarrow> byte list \<Rightarrow> bool" where
  "node_ok h m d \<longleftrightarrow> node_fits h m \<and> length d = PAGE_SIZE \<and> 0 \<le> get_size d \<and> get_size d \<le> int m"

lemma node_fits_bound: "node_fits h m \<Longrightarrow> m \<le> 512"
  by (simp add: node_fits_def PAGE_SIZE_def)

lemma length_node_pairs [simp]: "length (node_pairs h d) = nat (get_size d)"
  by (simp add: node_pairs_def)

lemma nth_node_pairs: "i < nat (get_size d) \<Longrightarrow> node_pairs h d ! i = get_pair h d i"
  by (simp add: node_pairs_def)

lemma set_size_read:
  assumes "length d = PAGE_SIZE" "fits_signed 4 n"
  shows "length (set_size n d) = PAGE_SIZE" "node_hdr (set_size n d) = (node_hdr d)\<lparr>num_key := n\<rparr>" "get_size (set_size n d) = n"
    "node_fits h m \<Longrightarrow> i < m \<Longrightarrow> get_pair h (set_size n d) i = get_pair h d i"
proof -
  have P: "24 \<le> length d" using assms(1) by (simp add: PAGE_SIZE_def)
  show "length (set_size n d) = PAGE_SIZE" using assms P by (simp add: set_size_def)
  have "(set_size n d) ! 12 = d ! 12"
    using P nth_write_at [of 8 "enc_le 4 n" d 12] by (simp add: set_size_def put_i32_def)
  then show hdr: "node_hdr (set_size n d) = (node_hdr d)\<lparr>num_key := n\<rparr>"
    using assms P by (simp add: node_hdr_def set_size_def mem_simps)
  show "get_size (set_size n d) = n" by (simp add: get_size_def hdr)
  show "get_pair h (set_size n d) i = get_pair h d i" if "node_fits h m" "i < m"
    using key_end [OF that] rid_end [OF that] key_start [of h i] rid_start [of h i] assms(1) P that(1)
    by (simp add: get_pair_def get_key_def get_rid_def set_size_def mem_simps node_fits_def)
qed

lemma insert_pairs_ok:
  assumes ok: "node_ok h m d" and pos: "pos \<le> nat (get_size d)" and room: "nat (get_size d) + length ps \<le> m"
    and ps: "\<forall>p \<in> set ps. entry_ok h p"
  obtains d' where "\<forall>s. insert_pairs h pos ps d s = (Inr d', s)" "node_ok h m d'"
    "node_pairs h d' = take pos (node_pairs h d) @ ps @ drop pos (node_pairs h d)"
    "node_hdr d' = (node_hdr d)\<lparr>num_key := get_size d + int (length ps)\<rparr>"
proof -
  let ?n = "nat (get_size d)" and ?k = "length ps"
  have d: "node_fits h m" "length d = PAGE_SIZE" "0 \<le> get_size d" using ok by (simp_all add: node_ok_def)
  define d1 where "d1 = shift_up h pos ?n ?k d"
  define d2 where "d2 = put_pairs h pos ps d1"
  define d3 where "d3 = set_size (get_size d2 + int ?k) d2"
  note s1 = shift_up_read [OF d(1,2) room, of pos, folded d1_def]
  have "pos + ?k \<le> m" using pos room by simp
  from put_pairs_read [OF d(1) _ this ps, of d1] s1
  have s2: "length d2 = PAGE_SIZE" "node_hdr d2 = node_hdr d"
    "\<And>j. j < m \<Longrightarrow> get_pair h d2 j = (if pos \<le> j \<and> j < pos + ?k then ps ! (j - pos) else get_pair h d1 j)"
    by (simp_all add: d2_def)
  have size2: "get_size d2 = get_size d" using s2(2) by (simp add: get_size_def)
  have fits: "fits_signed 4 (get_size d2 + int ?k)"
    using room node_fits_bound [OF d(1)] d(3) size2 by (simp add: fits_signed_def)
  note s3 = set_size_read [OF s2(1) fits, folded d3_def]
  have n3: "nat (get_size d3) = ?n + ?k" using s3(3) size2 d(3) by simp
  have run: "\<forall>s. insert_pairs h pos ps d s = (Inr d3, s)"
    using pos d(3) by (simp add: insert_pairs_def prog_simps Let_def d1_def d2_def d3_def le_nat_iff)
  have "node_pairs h d3 ! j = (take pos (node_pairs h d) @ ps @ drop pos (node_pairs h d)) ! j" if j: "j < ?n + ?k" for j
  proof -
    have m: "j < m" using j room by simp
    consider "j < pos" | "pos \<le> j" "j < pos + ?k" | "pos + ?k \<le> j" by linarith
    then have "get_pair h d2 j = (take pos (node_pairs h d) @ ps @ drop pos (node_pairs h d)) ! j"
      by cases (use s1 s2(3) [OF m] m j pos in \<open>auto simp: nth_append nth_node_pairs\<close>)
    then show ?thesis using s3(4) [OF d(1) m] j n3 by (simp add: nth_node_pairs)
  qed
  then have pairs: "node_pairs h d3 = take pos (node_pairs h d) @ ps @ drop pos (node_pairs h d)"
    using n3 pos by (intro nth_equalityI) simp_all
  have "node_ok h m d3" using d s3(1,3) size2 room by (simp add: node_ok_def)
  with run pairs show ?thesis using that [of d3] s3(2) s2(2) size2 by simp
qed

lemma erase_pair_ok:
  assumes ok: "node_ok h m d" and pos: "pos < nat (get_size d)"
  obtains d' where "\<forall>s. erase_pair h pos d s = (Inr d', s)" "node_ok h m d'"
    "node_pairs h d' = take pos (node_pairs h d) @ drop (Suc pos) (node_pairs h d)"
    "node_hdr d' = (node_hdr d)\<lparr>num_key := get_size d - 1\<rparr>"
proof -
  let ?n = "nat (get_size d)"
  have d: "node_fits h m" "length d = PAGE_SIZE" "0 \<le> get_size d" "?n \<le> m" using ok by (auto simp: node_ok_def)
  define d1 where "d1 = shift_down h pos ?n d"
  define d2 where "d2 = set_size (get_size d1 - 1) d1"
  note s1 = shift_down_read [OF d(1,2,4), of pos, folded d1_def]
  have size1: "get_size d1 = get_size d" using s1 by (simp add: get_size_def)
  have fits: "fits_signed 4 (get_size d1 - 1)"
    using d(3,4) node_fits_bound [OF d(1)] size1 by (simp add: fits_signed_def)
  have len1: "length d1 = PAGE_SIZE" using s1 by simp
  note s2 = set_size_read [OF len1 fits, folded d2_def]
  have n2: "nat (get_size d2) = ?n - 1" using s2(3) size1 by simp
  have run: "\<forall>s. erase_pair h pos d s = (Inr d2, s)"
    using pos by (simp add: erase_pair_def prog_simps Let_def d1_def d2_def zless_nat_eq_int_zless)
  have "node_pairs h d2 ! j = (take pos (node_pairs h d) @ drop (Suc pos) (node_pairs h d)) ! j" if j: "j < ?n - 1" for j
  proof -
    have m: "j < m" using j d(4) by simp
    have "get_pair h d1 j = (take pos (node_pairs h d) @ drop (Suc pos) (node_pairs h d)) ! j"
      using s1 m j pos by (cases "j < pos") (auto simp: nth_append nth_node_pairs min_def)
    then show ?thesis using s2(4) [OF d(1) m] j n2 by (simp add: nth_node_pairs)
  qed
  then have pairs: "node_pairs h d2 = take pos (node_pairs h d) @ drop (Suc pos) (node_pairs h d)"
    using n2 pos by (intro nth_equalityI) simp_all
  have "node_ok h m d2" using d s2(1,3) size1 pos unfolding node_ok_def by linarith
  with run pairs show ?thesis using that [of d2] s2(2) s1 size1 by simp
qed

section \<open>Binary search\<close>

lemma bsearch_bounds: "lo \<le> hi \<Longrightarrow> lo \<le> bsearch test lo hi \<and> bsearch test lo hi \<le> hi"
proof (induction test lo hi rule: bsearch.induct)
  case (1 test lo hi)
  let ?mid = "lo + (hi - lo) div 2"
  show ?case
  proof (cases "lo < hi")
    case True
    have "lo \<le> ?mid" "Suc ?mid \<le> hi" using True by simp_all
    with 1 True show ?thesis by (subst (1 2) bsearch.simps) (auto simp: Let_def)
  next
    case False
    then show ?thesis using 1(3) by (subst (1 2) bsearch.simps) simp
  qed
qed

lemma bsearch_spec:
  assumes "lo \<le> hi" "\<And>i j. i \<le> j \<Longrightarrow> j < hi \<Longrightarrow> test i \<Longrightarrow> test j"
  shows "(\<forall>i. lo \<le> i \<longrightarrow> i < bsearch test lo hi \<longrightarrow> \<not> test i) \<and> (\<forall>i. bsearch test lo hi \<le> i \<longrightarrow> i < hi \<longrightarrow> test i)"
  using assms
proof (induction test lo hi rule: bsearch.induct)
  case (1 test lo hi)
  let ?mid = "lo + (hi - lo) div 2"
  show ?case
  proof (cases "lo < hi")
    case lt: True
    have mid: "lo \<le> ?mid" "?mid < hi" "Suc ?mid \<le> hi" using lt by simp_all
    show ?thesis
    proof (cases "test ?mid")
      case True
      have IH: "(\<forall>i. lo \<le> i \<longrightarrow> i < bsearch test lo ?mid \<longrightarrow> \<not> test i) \<and> (\<forall>i. bsearch test lo ?mid \<le> i \<longrightarrow> i < ?mid \<longrightarrow> test i)"
        using 1(1) [OF lt refl True mid(1)] 1(4) mid(2) by (meson less_trans)
      have "bsearch test lo hi = bsearch test lo ?mid" using lt True by (subst bsearch.simps) (simp add: Let_def)
      moreover have "test i" if "?mid \<le> i" "i < hi" for i using 1(4) [OF that True] .
      ultimately show ?thesis using IH by (metis not_le)
    next
      case False
      have "?mid + 1 \<le> hi" using mid by simp
      from 1(2) [OF lt refl False this] 1(4)
      have IH: "(\<forall>i. ?mid + 1 \<le> i \<longrightarrow> i < bsearch test (?mid + 1) hi \<longrightarrow> \<not> test i) \<and>
          (\<forall>i. bsearch test (?mid + 1) hi \<le> i \<longrightarrow> i < hi \<longrightarrow> test i)" by blast
      have eq: "bsearch test lo hi = bsearch test (?mid + 1) hi" using lt False by (subst bsearch.simps) (simp add: Let_def)
      have "\<not> test i" if "i \<le> ?mid" for i using 1(4) [OF that mid(2)] False by blast
      then show ?thesis using IH unfolding eq by (metis Suc_eq_plus1 not_less_eq_eq)
    qed
  next
    case False
    then show ?thesis using 1(3) by (subst (1 2) bsearch.simps) simp
  qed
qed

section \<open>The order of keys\<close>

text \<open>What the searches rely on: a comparison that is antisymmetric and transitive on legal keys.\<close>

locale key_order =
  fixes cmp :: "'k \<Rightarrow> 'k \<Rightarrow> int" and ok :: "'k \<Rightarrow> bool"
  assumes anti: "ok a \<Longrightarrow> ok b \<Longrightarrow> cmp b a = - cmp a b"
    and trans: "ok a \<Longrightarrow> ok b \<Longrightarrow> ok c \<Longrightarrow> cmp a b \<le> 0 \<Longrightarrow> cmp b c \<le> 0 \<Longrightarrow> cmp a c \<le> 0"
begin

lemma refl: "ok a \<Longrightarrow> cmp a a = 0"
  using anti [of a a] by simp

lemma less_le_trans: "ok a \<Longrightarrow> ok b \<Longrightarrow> ok c \<Longrightarrow> cmp a b < 0 \<Longrightarrow> cmp b c \<le> 0 \<Longrightarrow> cmp a c < 0"
  using trans [of b c a] trans [of a b c] anti [of a b] anti [of a c] anti [of b c] by linarith

lemma le_less_trans: "ok a \<Longrightarrow> ok b \<Longrightarrow> ok c \<Longrightarrow> cmp a b \<le> 0 \<Longrightarrow> cmp b c < 0 \<Longrightarrow> cmp a c < 0"
  using trans [of c a b] trans [of a b c] anti [of a b] anti [of a c] anti [of b c] by linarith

definition sorted :: "'k list \<Rightarrow> bool" where
  "sorted ks \<longleftrightarrow> sorted_wrt (\<lambda>a b. cmp a b < 0) ks"

text \<open>In a sorted list both bound tests are monotone in the position.\<close>

lemma bounds_mono:
  assumes "sorted ks" "\<forall>k \<in> set ks. ok k" "ok t" "i \<le> j" "j < length ks"
  shows "0 \<le> cmp (ks ! i) t \<Longrightarrow> 0 \<le> cmp (ks ! j) t" "0 < cmp (ks ! i) t \<Longrightarrow> 0 < cmp (ks ! j) t"
proof -
  have ok: "ok (ks ! i)" "ok (ks ! j)" using assms by simp_all
  have ij: "cmp (ks ! i) (ks ! j) \<le> 0"
  proof (cases "i = j")
    case False
    then have "cmp (ks ! i) (ks ! j) < 0" using assms(1,4,5) by (auto simp: sorted_def sorted_wrt_iff_nth_less)
    then show ?thesis by simp
  qed (use refl [OF ok(1)] in simp)
  show "0 \<le> cmp (ks ! j) t" if "0 \<le> cmp (ks ! i) t"
    using that ij trans [OF assms(3) ok(1) ok(2)] anti [OF assms(3) ok(1)] anti [OF assms(3) ok(2)] by linarith
  show "0 < cmp (ks ! j) t" if "0 < cmp (ks ! i) t"
    using that ij less_le_trans [OF assms(3) ok(1) ok(2)] anti [OF assms(3) ok(1)] anti [OF assms(3) ok(2)] by linarith
qed

lemma lower_bound:
  assumes "sorted ks" "\<forall>k \<in> set ks. ok k" "ok t"
  defines "p \<equiv> bsearch (\<lambda>i. 0 \<le> cmp (ks ! i) t) 0 (length ks)"
  shows "p \<le> length ks" "\<forall>i < p. cmp (ks ! i) t < 0" "\<forall>i. p \<le> i \<longrightarrow> i < length ks \<longrightarrow> 0 \<le> cmp (ks ! i) t"
proof -
  show "p \<le> length ks" using bsearch_bounds [of 0 "length ks"] by (simp add: p_def)
  have "(\<forall>i. 0 \<le> i \<longrightarrow> i < p \<longrightarrow> \<not> 0 \<le> cmp (ks ! i) t) \<and> (\<forall>i. p \<le> i \<longrightarrow> i < length ks \<longrightarrow> 0 \<le> cmp (ks ! i) t)"
    unfolding p_def by (rule bsearch_spec) (use bounds_mono(1) [OF assms(1-3)] in auto)
  then show "\<forall>i < p. cmp (ks ! i) t < 0" "\<forall>i. p \<le> i \<longrightarrow> i < length ks \<longrightarrow> 0 \<le> cmp (ks ! i) t" by auto
qed

lemma upper_bound:
  assumes "sorted ks" "\<forall>k \<in> set ks. ok k" "ok t"
  defines "p \<equiv> bsearch (\<lambda>i. 0 < cmp (ks ! i) t) 0 (length ks)"
  shows "p \<le> length ks" "\<forall>i < p. cmp (ks ! i) t \<le> 0" "\<forall>i. p \<le> i \<longrightarrow> i < length ks \<longrightarrow> 0 < cmp (ks ! i) t"
proof -
  show "p \<le> length ks" using bsearch_bounds [of 0 "length ks"] by (simp add: p_def)
  have "(\<forall>i. 0 \<le> i \<longrightarrow> i < p \<longrightarrow> \<not> 0 < cmp (ks ! i) t) \<and> (\<forall>i. p \<le> i \<longrightarrow> i < length ks \<longrightarrow> 0 < cmp (ks ! i) t)"
    unfolding p_def by (rule bsearch_spec) (use bounds_mono(2) [OF assms(1-3)] in auto)
  then show "\<forall>i < p. cmp (ks ! i) t \<le> 0" "\<forall>i. p \<le> i \<longrightarrow> i < length ks \<longrightarrow> 0 < cmp (ks ! i) t" by auto
qed

text \<open>At the lower bound is the only key that can be equal.\<close>

lemma equal_at_lower_bound:
  assumes "sorted ks" "\<forall>k \<in> set ks. ok k" "ok t" "i < length ks" "cmp (ks ! i) t = 0"
  shows "bsearch (\<lambda>i. 0 \<le> cmp (ks ! i) t) 0 (length ks) = i"
proof -
  let ?p = "bsearch (\<lambda>i. 0 \<le> cmp (ks ! i) t) 0 (length ks)"
  note lb = lower_bound [OF assms(1-3)]
  have "\<not> i < ?p" using lb(2) assms(5) by force
  moreover have "\<not> ?p < i"
  proof
    assume less: "?p < i"
    then have "cmp (ks ! ?p) (ks ! i) < 0" "0 \<le> cmp (ks ! ?p) t"
      using assms(1,4) lb(3) by (auto simp: sorted_def sorted_wrt_iff_nth_less)
    moreover have "ok (ks ! ?p)" "ok (ks ! i)" using assms(2,4) less by auto
    ultimately show False using less_le_trans [of "ks ! ?p" "ks ! i" t] assms(3,5) by linarith
  qed
  ultimately show ?thesis by linarith
qed

lemma sorted_insert:
  assumes "sorted ks" "\<forall>k \<in> set ks. ok k" "ok t"
  defines "p \<equiv> bsearch (\<lambda>i. 0 \<le> cmp (ks ! i) t) 0 (length ks)"
  assumes new: "\<not> (p < length ks \<and> cmp (ks ! p) t = 0)"
  shows "sorted (take p ks @ t # drop p ks)"
proof -
  note lb = lower_bound [OF assms(1-3), folded p_def]
  have left: "cmp k t < 0" if "k \<in> set (take p ks)" for k
    using that lb(1,2) by (auto simp: in_set_conv_nth)
  have right: "cmp t k < 0" if k: "k \<in> set (drop p ks)" for k
  proof -
    obtain i where i: "k = ks ! (p + i)" "p + i < length ks" using k by (auto simp: in_set_conv_nth)
    have p: "p < length ks" using i by simp
    then have "0 < cmp (ks ! p) t" using new lb(3) by force
    from bounds_mono(2) [OF assms(1-3) _ i(2), of p] this have "0 < cmp k t" using i(1) by simp
    then show ?thesis using anti [of t k] assms(2,3) i by simp
  qed
  have mid: "cmp a b < 0" if a: "a \<in> set (take p ks)" and b: "b \<in> set (drop p ks)" for a b
    using left [OF a] right [OF b] less_le_trans [of a t b] assms(2,3) in_set_takeD [OF a] in_set_dropD [OF b] by force
  show ?thesis
    using assms(1) left right mid
    by (simp add: sorted_def sorted_wrt_append sorted_wrt_take sorted_wrt_drop)
qed

lemma sorted_erase:
  assumes "sorted ks"
  shows "sorted (take p ks @ drop (Suc p) ks)"
proof (cases "p < length ks")
  case True
  have "sorted_wrt (\<lambda>a b. cmp a b < 0) (take p ks @ ks ! p # drop (Suc p) ks)"
    using assms True by (simp add: sorted_def id_take_nth_drop [symmetric])
  then show ?thesis by (simp add: sorted_def sorted_wrt_append)
qed (use assms in simp)

end

text \<open>The comparison of keys is the lexicographic one on lists of integers.\<close>

fun cmp_list :: "int list \<Rightarrow> int list \<Rightarrow> int" where
  "cmp_list (x # xs) (y # ys) = (if x < y then -1 else if y < x then 1 else cmp_list xs ys)"
| "cmp_list xs ys = 0"

lemma cmp_list_anti: "cmp_list ys xs = - cmp_list xs ys"
  by (induction xs ys rule: cmp_list.induct) auto

lemma cmp_list_trans:
  "length xs = length ys \<Longrightarrow> length ys = length zs \<Longrightarrow> cmp_list xs ys \<le> 0 \<Longrightarrow> cmp_list ys zs \<le> 0 \<Longrightarrow> cmp_list xs zs \<le> 0"
  by (induction xs ys zs rule: list_induct3) (auto split: if_splits)

lemma cmp_list_append:
  "length xs = length ys \<Longrightarrow>
   cmp_list (xs @ us) (ys @ vs) = (if cmp_list xs ys \<noteq> 0 then cmp_list xs ys else cmp_list us vs)"
  by (induction xs ys rule: list_induct2) auto

fun col_rank :: "ColType \<Rightarrow> int \<Rightarrow> byte list \<Rightarrow> int list" where
  "col_rank TYPE_INT len a = [load_i32 a]"
| "col_rank TYPE_BIGINT len a = [load_i64 a]"
| "col_rank TYPE_DATETIME len a = [load_i64 a]"
| "col_rank TYPE_FLOAT len a = [f32_key (load_f32 a)]"
| "col_rank TYPE_STRING len a = map uint (take (nat len) a)"

fun rank :: "ColType list \<Rightarrow> int list \<Rightarrow> byte list \<Rightarrow> int list" where
  "rank (ty # tys) (len # lens) a = col_rank ty len a @ rank tys lens (drop (nat len) a)"
| "rank tys lens a = []"

text \<open>Legal keys have the length of their columns and no NaN.\<close>

fun key_legal :: "ColType list \<Rightarrow> int list \<Rightarrow> byte list \<Rightarrow> bool" where
  "key_legal (ty # tys) (len # lens) a \<longleftrightarrow> 0 \<le> len \<and> nat len \<le> length a \<and>
     (ty = TYPE_FLOAT \<longrightarrow> \<not> f32_nan (load_f32 a)) \<and> key_legal tys lens (drop (nat len) a)"
| "key_legal tys lens a \<longleftrightarrow> True"

definition key_ok :: "IxFileHdr \<Rightarrow> byte list \<Rightarrow> bool" where
  "key_ok h k \<longleftrightarrow> length k = nat (ix_col_tot_len h) \<and> key_legal (col_types h) (col_lens h) k"

lemma memcmp_rank:
  "n \<le> length a \<Longrightarrow> n \<le> length b \<Longrightarrow> memcmp a b n = cmp_list (map uint (take n a)) (map uint (take n b))"
  by (induction a b n rule: memcmp.induct) (auto simp: word_less_def word_uint_eq_iff)

lemma ix_compare_col_rank:
  assumes "nat len \<le> length a" "nat len \<le> length b"
    and "ty = TYPE_FLOAT \<Longrightarrow> \<not> f32_nan (load_f32 a) \<and> \<not> f32_nan (load_f32 b)"
  shows "ix_compare_col a b ty len = cmp_list (col_rank ty len a) (col_rank ty len b)"
  using assms by (cases ty) (auto simp: sign_of_def memcmp_rank f32_less_def)

lemma length_col_rank:
  "nat len \<le> length a \<Longrightarrow> nat len \<le> length b \<Longrightarrow> length (col_rank ty len a) = length (col_rank ty len b)"
  by (cases ty) simp_all

lemma ix_compare_rank:
  assumes "key_legal tys lens a" "key_legal tys lens b"
  shows "ix_compare a b tys lens = cmp_list (rank tys lens a) (rank tys lens b) \<and>
    length (rank tys lens a) = length (rank tys lens b)"
  using assms
proof (induction tys lens a arbitrary: b rule: rank.induct)
  case (1 ty tys len lens a)
  have c: "ix_compare_col a b ty len = cmp_list (col_rank ty len a) (col_rank ty len b)"
    "length (col_rank ty len a) = length (col_rank ty len b)"
    using 1(2,3) by (auto intro!: ix_compare_col_rank length_col_rank)
  have "ix_compare (drop (nat len) a) (drop (nat len) b) tys lens =
      cmp_list (rank tys lens (drop (nat len) a)) (rank tys lens (drop (nat len) b)) \<and>
      length (rank tys lens (drop (nat len) a)) = length (rank tys lens (drop (nat len) b))"
    using 1 by simp
  with c show ?case by (simp add: cmp_list_append Let_def)
qed auto

interpretation ko: key_order "key_cmp h" "key_ok h" for h
proof unfold_locales
  fix a b c
  show "key_cmp h b a = - key_cmp h a b" if "key_ok h a" "key_ok h b"
    using that ix_compare_rank [of "col_types h" "col_lens h" a b] ix_compare_rank [of "col_types h" "col_lens h" b a]
      cmp_list_anti [of "rank (col_types h) (col_lens h) b" "rank (col_types h) (col_lens h) a"]
    by (simp add: key_cmp_def key_ok_def)
  show "key_cmp h a c \<le> 0" if "key_ok h a" "key_ok h b" "key_ok h c" "key_cmp h a b \<le> 0" "key_cmp h b c \<le> 0"
  proof -
    let ?r = "rank (col_types h) (col_lens h)"
    have r: "length (?r a) = length (?r b)" "length (?r b) = length (?r c)" "cmp_list (?r a) (?r b) \<le> 0" "cmp_list (?r b) (?r c) \<le> 0"
      using that ix_compare_rank [of "col_types h" "col_lens h" a b] ix_compare_rank [of "col_types h" "col_lens h" b c]
      by (simp_all add: key_cmp_def key_ok_def)
    have "cmp_list (?r a) (?r c) \<le> 0" by (rule cmp_list_trans [OF r])
    then show ?thesis using that ix_compare_rank [of "col_types h" "col_lens h" a c] by (simp add: key_cmp_def key_ok_def)
  qed
qed

section \<open>Nodes as sorted maps\<close>

definition node_inv :: "IxFileHdr \<Rightarrow> nat \<Rightarrow> byte list \<Rightarrow> bool" where
  "node_inv h m d \<longleftrightarrow> node_ok h m d \<and> ko.sorted h (map fst (node_pairs h d)) \<and> (\<forall>p \<in> set (node_pairs h d). key_ok h (fst p))"

definition node_find :: "IxFileHdr \<Rightarrow> (byte list \<times> Rid) list \<Rightarrow> byte list \<Rightarrow> Rid option" where
  "node_find h ps key = map_option snd (List.find (\<lambda>p. key_cmp h (fst p) key = 0) ps)"

lemma bsearch_cong:
  assumes "\<And>i. i < hi \<Longrightarrow> f i = g i" shows "bsearch f lo hi = bsearch g lo hi"
  using assms
proof (induction f lo hi rule: bsearch.induct)
  case (1 f lo hi)
  let ?mid = "lo + (hi - lo) div 2"
  show ?case
  proof (cases "lo < hi")
    case True
    have "?mid < hi" using True by simp
    with 1 True show ?thesis by (subst (1 2) bsearch.simps) (simp add: Let_def)
  qed (subst (1 2) bsearch.simps, simp)
qed

lemma node_lower_bound_keys:
  assumes "node_ok h m d"
  shows "node_lower_bound h d key =
    bsearch (\<lambda>i. 0 \<le> key_cmp h (map fst (node_pairs h d) ! i) key) 0 (length (map fst (node_pairs h d)))"
  unfolding node_lower_bound_def by (simp, rule bsearch_cong) (simp add: nth_node_pairs get_pair_def)

lemma find_unique:
  assumes "i < length ps" "P (ps ! i)" "\<And>j. j < length ps \<Longrightarrow> P (ps ! j) \<Longrightarrow> j = i"
  shows "List.find P ps = Some (ps ! i)"
  unfolding find_Some_iff
proof (intro exI [of _ i] conjI allI impI)
  fix j assume "j < i"
  then show "\<not> P (ps ! j)" using assms(1,3) by (metis less_irrefl less_trans)
qed (use assms(1,2) in simp_all)

lemma leaf_lookup_find:
  assumes inv: "node_inv h m d" and key: "key_ok h key"
  shows "leaf_lookup h d key = node_find h (node_pairs h d) key"
proof -
  let ?ks = "map fst (node_pairs h d)" and ?p = "node_lower_bound h d key"
  have ok: "node_ok h m d" "ko.sorted h ?ks" "\<forall>k \<in> set ?ks. key_ok h k" using inv by (auto simp: node_inv_def)
  note p = node_lower_bound_keys [OF ok(1), of key]
  have size: "int i < get_size d \<longleftrightarrow> i < length ?ks" for i using ok(1) by (auto simp: node_ok_def)
  have at: "get_key h d i = ?ks ! i" "get_rid h d i = snd (node_pairs h d ! i)" if "i < length ?ks" for i
    using that by (simp_all add: nth_node_pairs get_pair_def)
  have only: "i = ?p" if "i < length ?ks" "key_cmp h (?ks ! i) key = 0" for i
    using ko.equal_at_lower_bound [OF ok(2,3) key that] p by simp
  show ?thesis
  proof (cases "?p < length ?ks \<and> key_cmp h (?ks ! ?p) key = 0")
    case True
    then have "List.find (\<lambda>p. key_cmp h (fst p) key = 0) (node_pairs h d) = Some (node_pairs h d ! ?p)"
    proof (intro find_unique)
      fix j assume "j < length (node_pairs h d)" "key_cmp h (fst (node_pairs h d ! j)) key = 0"
      then show "j = ?p" by (intro only) simp_all
    qed auto
    then show ?thesis using True at [of ?p] size [of ?p] by (simp add: leaf_lookup_def node_find_def Let_def)
  next
    case False
    then have "List.find (\<lambda>p. key_cmp h (fst p) key = 0) (node_pairs h d) = None"
    proof -
      have "key_cmp h (fst q) key \<noteq> 0" if q: "q \<in> set (node_pairs h d)" for q
      proof -
        obtain i where i: "i < length ?ks" "?ks ! i = fst q" using q by (auto simp: in_set_conv_nth)
        then show ?thesis using only [of i] False by auto
      qed
      then show ?thesis unfolding find_None_iff by blast
    qed
    moreover have "\<not> (int ?p < get_size d \<and> key_cmp h (get_key h d ?p) key = 0)"
      using False at(1) [of ?p] size [of ?p] by auto
    ultimately show ?thesis by (auto simp: leaf_lookup_def node_find_def Let_def)
  qed
qed

lemma find_app: "List.find P (xs @ ys) = (case List.find P xs of Some x \<Rightarrow> Some x | None \<Rightarrow> List.find P ys)"
  by (induction xs) auto

lemma node_find_insert:
  assumes "\<forall>p \<in> set ps. key_ok h (fst p)" "key_ok h k" "key_ok h key"
    and "\<forall>p \<in> set ps. key_cmp h (fst p) k \<noteq> 0"
  shows "node_find h (take i ps @ (k, v) # drop i ps) key = (if key_cmp h k key = 0 then Some v else node_find h ps key)"
proof (cases "key_cmp h k key = 0")
  case True
  have "key_cmp h (fst p) key \<noteq> 0" if p: "p \<in> set ps" for p
  proof
    assume eq: "key_cmp h (fst p) key = 0"
    have "key_ok h (fst p)" using assms(1) p by blast
    then have "key_cmp h (fst p) k = 0"
      using eq True ko.trans [of h "fst p" key k] ko.trans [of h k key "fst p"] ko.anti [of h key k] ko.anti [of h k "fst p"]
        ko.anti [of h key "fst p"] assms(2,3) by fastforce
    then show False using assms(4) p by blast
  qed
  then have "List.find (\<lambda>p. key_cmp h (fst p) key = 0) (take i ps @ (k, v) # drop i ps) = Some (k, v)"
    using True find_None_iff [of "\<lambda>p. key_cmp h (fst p) key = 0" "take i ps"]
    by (auto simp: find_app dest: in_set_takeD split: option.split)
  then show ?thesis using True by (simp add: node_find_def)
next
  case False
  have "List.find P (take i ps @ (k, v) # drop i ps) = List.find P (take i ps @ drop i ps)" if "\<not> P (k, v)" for P
    using that by (simp only: find_app) (simp split: option.split)
  then show ?thesis using False by (simp add: node_find_def)
qed

lemma node_insert_run:
  assumes inv: "node_inv h m d" and key: "key_ok h key" and v: "rid_ok v" and room: "get_size d < int m"
    and none: "leaf_lookup h d key = None"
  obtains d' where "\<forall>s :: 's. node_insert h key v d s = (Inr (d', get_size d + 1), s)" "node_inv h m d'"
    "node_pairs h d' = take (node_lower_bound h d key) (node_pairs h d) @ (key, v) # drop (node_lower_bound h d key) (node_pairs h d)"
    "node_hdr d' = (node_hdr d)\<lparr>num_key := get_size d + 1\<rparr>"
proof -
  let ?ps = "node_pairs h d" and ?p = "node_lower_bound h d key"
  have ok: "node_ok h m d" "ko.sorted h (map fst ?ps)" "\<forall>k \<in> set (map fst ?ps). key_ok h k" "\<forall>p \<in> set ?ps. key_ok h (fst p)"
    using inv by (auto simp: node_inv_def)
  note p = node_lower_bound_keys [OF ok(1), of key]
  have pos: "?p \<le> nat (get_size d)" using ko.lower_bound(1) [OF ok(2,3) key] p by simp
  have new: "\<not> (int ?p < get_size d \<and> key_cmp h (get_key h d ?p) key = 0)"
    using none by (auto simp: leaf_lookup_def Let_def split: if_splits)
  have "nat (get_size d) + length [(key, v)] \<le> m" "\<forall>p \<in> set [(key, v)]. entry_ok h p"
    using room ok(1) key v by (auto simp: node_ok_def entry_ok_def key_ok_def)
  from insert_pairs_ok [OF ok(1) pos this] obtain d' where d': "\<forall>s :: 's. insert_pairs h ?p [(key, v)] d s = (Inr d', s)"
    "node_ok h m d'" "node_pairs h d' = take ?p ?ps @ [(key, v)] @ drop ?p ?ps"
    "node_hdr d' = (node_hdr d)\<lparr>num_key := get_size d + int (length [(key, v)])\<rparr>" by blast
  have size: "get_size d' = get_size d + 1" using d'(4) by (simp add: get_size_def)
  have "\<not> (?p < length (map fst ?ps) \<and> key_cmp h (map fst ?ps ! ?p) key = 0)"
    using new by (auto simp: zless_nat_eq_int_zless nth_node_pairs get_pair_def)
  from ko.sorted_insert [OF ok(2,3) key this [unfolded p]]
  have "ko.sorted h (take ?p (map fst ?ps) @ key # drop ?p (map fst ?ps))" by (simp only: p [symmetric])
  then have sorted: "ko.sorted h (map fst (node_pairs h d'))" using d'(3) by (simp add: take_map drop_map)
  have inv': "node_inv h m d'"
    using d'(2,3) sorted ok(4) key by (auto simp: node_inv_def dest: in_set_takeD in_set_dropD)
  have "\<forall>s :: 's. node_insert h key v d s = (Inr (d', get_size d + 1), s)"
    using new d'(1) size by (simp add: node_insert_def insert_pair_def prog_simps Let_def)
  then show ?thesis by (rule that [OF _ inv']) (use d'(3,4) in simp_all)
qed

lemma node_insert_duplicate:
  "leaf_lookup h d key = Some r \<Longrightarrow>
   node_insert h key v d s = (Inl (RMDBError ''Duplicate entry for unique index''), s)"
  by (auto simp: leaf_lookup_def node_insert_def prog_simps Let_def split: if_splits)

text \<open>C26 A leaf behaves as a sorted map: \<open>insert\<close> refuses a key that is present and otherwise puts the pair
  in its place, and afterwards \<open>leaf_lookup\<close> finds the new pair and every old one, with the keys still
  strictly sorted.\<close>

theorem node_insert_correct:
  fixes s :: 's
  assumes inv: "node_inv h m d" and key: "key_ok h key" and v: "rid_ok v" and room: "get_size d < int m"
  shows "case leaf_lookup h d key of
      Some r \<Rightarrow> node_insert h key v d s = (Inl (RMDBError ''Duplicate entry for unique index''), s)
    | None \<Rightarrow> \<exists>d'. node_insert h key v d s = (Inr (d', get_size d + 1), s) \<and> node_inv h m d' \<and>
        (\<forall>k. key_ok h k \<longrightarrow> leaf_lookup h d' k = (if key_cmp h key k = 0 then Some v else leaf_lookup h d k))"
proof (cases "leaf_lookup h d key")
  case (Some r)
  then show ?thesis by (simp add: node_insert_duplicate)
next
  case None
  have ok: "\<forall>p \<in> set (node_pairs h d). key_ok h (fst p)" using inv by (auto simp: node_inv_def)
  have absent: "\<forall>p \<in> set (node_pairs h d). key_cmp h (fst p) key \<noteq> 0"
    using None leaf_lookup_find [OF inv key] by (auto simp: node_find_def find_None_iff)
  obtain d' where d': "\<forall>s :: 's. node_insert h key v d s = (Inr (d', get_size d + 1), s)" "node_inv h m d'"
    "node_pairs h d' = take (node_lower_bound h d key) (node_pairs h d) @ (key, v) # drop (node_lower_bound h d key) (node_pairs h d)"
    by (rule node_insert_run [OF assms None])
  have "leaf_lookup h d' k = (if key_cmp h key k = 0 then Some v else leaf_lookup h d k)" if k: "key_ok h k" for k
    using leaf_lookup_find [OF d'(2) k] leaf_lookup_find [OF inv k] node_find_insert [OF ok key k absent] d'(3) by simp
  then show ?thesis using None d'(1,2) by auto
qed

lemma key_equal:
  assumes "key_ok h a" "key_ok h k" "key_ok h key" "key_cmp h key k = 0"
  shows "key_cmp h a key = 0 \<longleftrightarrow> key_cmp h a k = 0"
  using assms ko.trans [of h a key k] ko.trans [of h k key a] ko.trans [of h a k key] ko.trans [of h key k a]
    ko.anti [of h a key] ko.anti [of h a k] ko.anti [of h key k] by fastforce

lemma node_find_none: "node_find h ps k = None \<longleftrightarrow> (\<forall>q \<in> set ps. key_cmp h (fst q) k \<noteq> 0)"
  unfolding node_find_def map_option_is_None find_None_iff by blast

lemma node_find_erase:
  assumes sorted: "ko.sorted h (map fst ps)" and ok: "\<forall>p \<in> set ps. key_ok h (fst p)" "key_ok h key" "key_ok h k"
    and p: "p < length ps" "key_cmp h (fst (ps ! p)) key = 0"
  shows "node_find h (take p ps @ drop (Suc p) ps) k = (if key_cmp h key k = 0 then None else node_find h ps k)"
proof (cases "key_cmp h key k = 0")
  case True
  have ks: "\<forall>k \<in> set (map fst ps). key_ok h k" using ok(1) by simp
  have only: "i = p" if "i < length ps" "key_cmp h (fst (ps ! i)) key = 0" for i
    using ko.equal_at_lower_bound [OF sorted ks ok(2), of i] ko.equal_at_lower_bound [OF sorted ks ok(2), of p] that p by simp
  have "key_cmp h (fst q) k \<noteq> 0" if q: "q \<in> set (take p ps @ drop (Suc p) ps)" for q
  proof -
    obtain i where i: "i < length ps" "i \<noteq> p" "ps ! i = q"
      using q by (auto simp: in_set_conv_nth nth_append split: if_splits)
        (metis add.commute add_Suc less_diff_conv not_less_eq le_add2 less_irrefl_nat trans_less_add2 lessI)+
    then have "key_cmp h (fst q) key \<noteq> 0" using only by blast
    moreover have "key_ok h (fst q)" using ok(1) i by auto
    ultimately show ?thesis using key_equal [OF _ ok(3,2) True] by blast
  qed
  then have "node_find h (take p ps @ drop (Suc p) ps) k = None" by (simp only: node_find_none) blast
  then show ?thesis using True by simp
next
  case False
  have split: "ps = take p ps @ ps ! p # drop (Suc p) ps" by (rule id_take_nth_drop [OF p(1)])
  have "key_ok h (fst (ps ! p))" using ok(1) p(1) by simp
  then have "key_cmp h (fst (ps ! p)) k \<noteq> 0"
    using False p(2) key_equal [OF ok(3) _ ok(2), of "fst (ps ! p)"] ok ko.anti [of h key k] ko.anti [of h key "fst (ps ! p)"]
      ko.anti [of h "fst (ps ! p)" k] by auto
  then have "List.find (\<lambda>q. key_cmp h (fst q) k = 0) ps = List.find (\<lambda>q. key_cmp h (fst q) k = 0) (take p ps @ drop (Suc p) ps)"
    by (subst split) (simp add: find_app split: option.split)
  then show ?thesis using False by (simp add: node_find_def)
qed

lemma node_find_absent:
  assumes "node_find h ps key = None" "\<forall>p \<in> set ps. key_ok h (fst p)" "key_ok h key" "key_ok h k" "key_cmp h key k = 0"
  shows "node_find h ps k = None"
  using assms key_equal [OF _ assms(4,3,5)] by (simp only: node_find_none) blast

text \<open>C27 \<open>remove\<close> takes out the pair of the key, if there is one, and nothing else.\<close>

theorem node_remove_correct:
  fixes s :: 's
  assumes inv: "node_inv h m d" and key: "key_ok h key"
  shows "\<exists>d'. node_remove h key d s = (Inr (d', get_size d'), s) \<and> node_inv h m d' \<and>
     get_size d' = get_size d - (if leaf_lookup h d key = None then 0 else 1) \<and>
     (\<forall>k. key_ok h k \<longrightarrow> leaf_lookup h d' k = (if key_cmp h key k = 0 then None else leaf_lookup h d k))"
proof -
  let ?ps = "node_pairs h d" and ?p = "node_lower_bound h d key"
  have ok: "node_ok h m d" "ko.sorted h (map fst ?ps)" "\<forall>p \<in> set ?ps. key_ok h (fst p)" using inv by (auto simp: node_inv_def)
  show ?thesis
  proof (cases "int ?p < get_size d \<and> key_cmp h (get_key h d ?p) key = 0")
    case True
    then have some: "leaf_lookup h d key \<noteq> None" by (simp add: leaf_lookup_def Let_def)
    have pos: "?p < nat (get_size d)" using True by (simp add: zless_nat_eq_int_zless)
    from erase_pair_ok [OF ok(1) this] obtain d' where d': "\<forall>s :: 's. erase_pair h ?p d s = (Inr d', s)" "node_ok h m d'"
      "node_pairs h d' = take ?p ?ps @ drop (Suc ?p) ?ps" "node_hdr d' = (node_hdr d)\<lparr>num_key := get_size d - 1\<rparr>" by blast
    have size: "get_size d' = get_size d - 1" using d'(4) by (simp add: get_size_def)
    have inv': "node_inv h m d'"
      using ko.sorted_erase [OF ok(2), of ?p] d'(2,3) ok(3)
      by (auto simp: node_inv_def take_map drop_map dest: in_set_takeD in_set_dropD)
    have kp: "key_cmp h (fst (?ps ! ?p)) key = 0" using True pos by (simp add: nth_node_pairs get_pair_def)
    have "leaf_lookup h d' k = (if key_cmp h key k = 0 then None else leaf_lookup h d k)" if k: "key_ok h k" for k
      using node_find_erase [OF ok(2,3) key k _ kp] pos leaf_lookup_find [OF inv' k] leaf_lookup_find [OF inv k] d'(3) by simp
    moreover have "node_remove h key d s = (Inr (d', get_size d'), s)"
      using True d'(1) by (simp add: node_remove_def prog_simps Let_def)
    ultimately show ?thesis using inv' size some by (intro exI [of _ d']) simp
  next
    case False
    then have none: "leaf_lookup h d key = None" by (auto simp: leaf_lookup_def Let_def)
    have "leaf_lookup h d k = None" if "key_ok h k" "key_cmp h key k = 0" for k
      using node_find_absent [OF _ ok(3) key that] none leaf_lookup_find [OF inv key] leaf_lookup_find [OF inv that(1)] by simp
    moreover have "node_remove h key d s = (Inr (d, get_size d), s)"
      using False by (auto simp: node_remove_def prog_simps Let_def)
    ultimately show ?thesis using inv none by (intro exI [of _ d]) auto
  qed
qed

definition demo_leaf :: "byte list" where
  "demo_leaf = (set_rid demo_ixhdr 0 \<lparr>page_no = 1, slot_no = 3\<rparr>
     (set_key demo_ixhdr 0 (enc_le 4 5 @ replicate 8 65) (set_size 1 zero_page)))"

lemma demo_hdr_parts:
  "col_types demo_ixhdr = [TYPE_INT, TYPE_STRING]" "col_lens demo_ixhdr = [4, 8]" "ix_col_tot_len demo_ixhdr = 12"
  "keys_size demo_ixhdr = 2448"
  by (simp_all add: demo_ixhdr_def update_tot_len_def new_IxFileHdr_def)

lemma demo_fits: "node_fits demo_ixhdr 203"
  by (simp add: node_fits_def demo_hdr_parts PAGE_SIZE_def)

lemma demo_key_ok: "length k = 12 \<Longrightarrow> key_ok demo_ixhdr k"
  by (simp add: key_ok_def demo_hdr_parts)

lemma demo_leaf_pairs:
  "node_ok demo_ixhdr 203 demo_leaf" "node_pairs demo_ixhdr demo_leaf = [(enc_le 4 5 @ replicate 8 65, \<lparr>page_no = 1, slot_no = 3\<rparr>)]"
proof -
  let ?p = "(enc_le 4 5 @ replicate 8 65, \<lparr>page_no = 1, slot_no = 3\<rparr>) :: byte list \<times> Rid"
  have z: "length zero_page = PAGE_SIZE" by (simp add: zero_page_def)
  have one: "fits_signed 4 1" by (simp add: fits_signed_def)
  note s = set_size_read [OF z one]
  have p: "entry_ok demo_ixhdr ?p" by (simp add: entry_ok_def demo_hdr_parts rid_ok_def fits_signed_def)
  have i: "0 < (203::nat)" by simp
  note r = set_pair_read [OF demo_fits s(1) i p]
  have leaf: "demo_leaf = set_pair demo_ixhdr 0 ?p (set_size 1 zero_page)" by (simp add: demo_leaf_def set_pair_def)
  have size: "get_size demo_leaf = 1" using r(3) s(3) by (simp add: leaf get_size_def)
  show "node_ok demo_ixhdr 203 demo_leaf" using r(1) demo_fits size by (simp add: node_ok_def leaf)
  show "node_pairs demo_ixhdr demo_leaf = [?p]" using r(2) [OF i] size by (simp add: node_pairs_def leaf)
qed

lemma demo_leaf_inv: "node_inv demo_ixhdr 203 demo_leaf"
  using demo_leaf_pairs by (simp add: node_inv_def ko.sorted_def demo_key_ok)

theorem node_insert_correct_witness:
  "\<exists>d'. node_insert demo_ixhdr (enc_le 4 2 @ replicate 8 65) \<lparr>page_no = 7, slot_no = 0\<rparr> demo_leaf () = (Inr (d', 2), ()) \<and>
     leaf_lookup demo_ixhdr d' (enc_le 4 5 @ replicate 8 65) = Some \<lparr>page_no = 1, slot_no = 3\<rparr>"
proof -
  let ?k = "enc_le 4 2 @ replicate 8 65" and ?o = "enc_le 4 5 @ replicate 8 65 :: byte list"
  have ok: "key_ok demo_ixhdr ?k" "key_ok demo_ixhdr ?o" by (simp_all add: demo_key_ok)
  have cmp: "key_cmp demo_ixhdr ?o ?k = 1" "key_cmp demo_ixhdr ?k ?o = -1" "key_cmp demo_ixhdr ?o ?o = 0"
    by (simp_all add: key_cmp_def demo_hdr_parts load_i32_def sign_of_def dec_signed_enc fits_signed_def ko.refl)
      (simp add: numeral_nat)
  have look: "leaf_lookup demo_ixhdr demo_leaf ?k = None" "leaf_lookup demo_ixhdr demo_leaf ?o = Some \<lparr>page_no = 1, slot_no = 3\<rparr>"
    using leaf_lookup_find [OF demo_leaf_inv ok(1)] leaf_lookup_find [OF demo_leaf_inv ok(2)] demo_leaf_pairs(2) cmp
    by (simp_all add: node_find_def)
  have "rid_ok \<lparr>page_no = 7, slot_no = 0\<rparr>" by (simp add: rid_ok_def fits_signed_def)
  moreover have size: "get_size demo_leaf = 1"
    using demo_leaf_pairs length_node_pairs [of demo_ixhdr demo_leaf] by (simp add: node_ok_def)
  ultimately show ?thesis
    using node_insert_correct [OF demo_leaf_inv ok(1), of "\<lparr>page_no = 7, slot_no = 0\<rparr>" "()"] look cmp ok(2) by auto
qed

theorem node_remove_correct_witness:
  "\<exists>d'. node_remove demo_ixhdr (enc_le 4 5 @ replicate 8 65) demo_leaf () = (Inr (d', get_size d'), ()) \<and>
     leaf_lookup demo_ixhdr d' (enc_le 4 5 @ replicate 8 65) = None"
proof -
  have ok: "key_ok demo_ixhdr (enc_le 4 5 @ replicate 8 65)" by (simp add: demo_key_ok)
  from node_remove_correct [OF demo_leaf_inv ok, of "()"] ok ko.refl [OF ok] show ?thesis by auto
qed

end
