(* ===== verification/Ix_Tree.thy ===== *)
theory Ix_Tree
  imports Ix_Node
begin

text \<open>
  The operations of \<^verbatim>\<open>IxIndexHandle\<close> (\<^verbatim>\<open>index/ix_index_handle.cpp\<close>), of \<^verbatim>\<open>IxManager\<close> (\<^verbatim>\<open>index/ix_manager.h\<close>)
  and of \<^verbatim>\<open>IxScan\<close> (\<^verbatim>\<open>index/ix_scan.cpp\<close>) on the buffer pool. An \<^verbatim>\<open>IxNodeHandle\<close> is the frame its page is
  in: reading and writing the node reads and writes that frame, also after the page was unpinned, as in
  the code. Walks along the tree take the number of pages of the file as their bound: no path of a tree
  is longer.
\<close>

section \<open>Nodes in frames\<close>

record IxState =
  ix_pool :: BufferPoolManager
  ix_ih :: IxIndexHandle

definition on_ixpool :: "(BufferPoolManager, 'a) prog \<Rightarrow> (IxState, 'a) prog" where
  "on_ixpool m = zoom ix_pool (\<lambda>b s. s\<lparr>ix_pool := b\<rparr>) m"

definition ixhdr :: "IxState \<Rightarrow> IxFileHdr" where
  "ixhdr s = ih_hdr (ix_ih s)"

definition upd_ixhdr :: "(IxFileHdr \<Rightarrow> IxFileHdr) \<Rightarrow> (IxState, unit) prog" where
  "upd_ixhdr g = modify (\<lambda>s. s\<lparr>ix_ih := (ix_ih s)\<lparr>ih_hdr := g (ih_hdr (ix_ih s))\<rparr>\<rparr>)"

definition node_bytes :: "frame_id \<Rightarrow> (IxState, byte list) prog" where
  "node_bytes f = gets (\<lambda>s. pg_data (pages (ix_pool s) ! f))"

definition edit_node :: "frame_id \<Rightarrow> (byte list \<Rightarrow> byte list) \<Rightarrow> (IxState, unit) prog" where
  "edit_node f g = bindE (node_bytes f) (\<lambda>d. on_ixpool (set_data f (g d)))"

text \<open>An operation on the node that may fail, given the file header.\<close>

definition change_node :: "frame_id \<Rightarrow> (IxFileHdr \<Rightarrow> byte list \<Rightarrow> (IxState, byte list) prog) \<Rightarrow> (IxState, unit) prog" where
  "change_node f g =
     bindE (node_bytes f) (\<lambda>d. bindE (gets ixhdr) (\<lambda>h. bindE (g h d) (\<lambda>d1. on_ixpool (set_data f d1))))"

definition node_no :: "frame_id \<Rightarrow> (IxState, int) prog" where
  "node_no f = gets (\<lambda>s. pid_no (pg_id (pages (ix_pool s) ! f)))"

definition unpin_node :: "frame_id \<Rightarrow> bool \<Rightarrow> (IxState, bool) prog" where
  "unpin_node f dirty = bindE (gets (\<lambda>s. pg_id (pages (ix_pool s) ! f))) (\<lambda>pid. on_ixpool (unpin_page pid dirty))"

definition fetch_node :: "int \<Rightarrow> (IxState, frame_id) prog" where
  "fetch_node pno =
     bindE (gets (\<lambda>s. ih_fd (ix_ih s))) (\<lambda>fd.
     bindE (on_ixpool (fetch_page \<lparr>pid_fd = fd, pid_no = pno\<rparr>)) (\<lambda>r.
       case r of None \<Rightarrow> raise NullPointer | Some f \<Rightarrow> ret f))"

definition create_node :: "(IxState, frame_id) prog" where
  "create_node =
     thenE (upd_ixhdr (\<lambda>h. h\<lparr>ix_num_pages := ix_num_pages h + 1\<rparr>))
     (bindE (gets (\<lambda>s. ih_fd (ix_ih s))) (\<lambda>fd.
      bindE (on_ixpool (new_page fd)) (\<lambda>r.
        case r of None \<Rightarrow> raise NullPointer | Some (pid, f) \<Rightarrow> ret f)))"

definition update_root_page_no :: "int \<Rightarrow> (IxState, unit) prog" where
  "update_root_page_no root = upd_ixhdr (\<lambda>h. h\<lparr>root_page := root\<rparr>)"

definition release_node_handle :: "(IxState, unit) prog" where
  "release_node_handle = upd_ixhdr (\<lambda>h. h\<lparr>ix_num_pages := ix_num_pages h - 1\<rparr>)"

definition maintain_child :: "frame_id \<Rightarrow> nat \<Rightarrow> (IxState, unit) prog" where
  "maintain_child f child_idx =
     bindE (node_bytes f) (\<lambda>d.
     bindE (gets ixhdr) (\<lambda>h.
       if is_leaf_page d then ret ()
       else bindE (fetch_node (value_at h d child_idx)) (\<lambda>c.
            bindE (node_no f) (\<lambda>no.
            thenE (edit_node c (set_parent_page_no no))
            (thenE (unpin_node c True) (ret ()))))))"

fun maintain_children :: "frame_id \<Rightarrow> nat list \<Rightarrow> (IxState, unit) prog" where
  "maintain_children f [] = ret ()"
| "maintain_children f (i # is) = thenE (maintain_child f i) (maintain_children f is)"

section \<open>Search\<close>

text \<open>The bound of walks from the root: every node of a path is a page of the file.\<close>

definition depth_bound :: "IxState \<Rightarrow> nat" where
  "depth_bound s = Suc (nat (ix_num_pages (ixhdr s)))"

fun descend :: "nat \<Rightarrow> byte list \<Rightarrow> frame_id \<Rightarrow> (IxState, frame_id) prog" where
  "descend 0 key f = raise OutOfFuel"
| "descend (Suc n) key f =
     bindE (node_bytes f) (\<lambda>d.
     bindE (gets ixhdr) (\<lambda>h.
       if is_leaf_page d then ret f
       else bindE (fetch_node (internal_lookup h d key)) (\<lambda>c.
            thenE (unpin_node f False) (descend n key c))))"

definition find_leaf_page :: "byte list \<Rightarrow> (IxState, frame_id option) prog" where
  "find_leaf_page key =
     bindE (gets ixhdr) (\<lambda>h.
     bindE (gets depth_bound) (\<lambda>n.
       if root_page h = IX_NO_PAGE then ret None
       else bindE (fetch_node (root_page h)) (\<lambda>f. bindE (descend n key f) (\<lambda>leaf. ret (Some leaf)))))"

definition get_value :: "byte list \<Rightarrow> (IxState, Rid option) prog" where
  "get_value key =
     bindE (find_leaf_page key) (\<lambda>r.
       case r of
         None \<Rightarrow> ret None
       | Some leaf \<Rightarrow>
           bindE (node_bytes leaf) (\<lambda>d.
           bindE (gets ixhdr) (\<lambda>h.
           thenE (unpin_node leaf False) (ret (leaf_lookup h d key)))))"

text \<open>\<^verbatim>\<open>lower_bound\<close> and \<^verbatim>\<open>upper_bound\<close> of the handle: the position \<open>slot\<close> of the leaf, moved to the next leaf at
  its end.\<close>

definition leaf_end :: "(IxState, Iid) prog" where
  "leaf_end =
     bindE (gets ixhdr) (\<lambda>h.
     bindE (fetch_node (last_leaf h)) (\<lambda>f.
     bindE (node_bytes f) (\<lambda>d.
     thenE (unpin_node f False) (ret \<lparr>iid_page = last_leaf h, iid_slot = get_size d\<rparr>))))"

definition leaf_begin :: "(IxState, Iid) prog" where
  "leaf_begin = bindE (gets ixhdr) (\<lambda>h. ret \<lparr>iid_page = first_leaf h, iid_slot = 0\<rparr>)"

definition bound_in :: "(IxFileHdr \<Rightarrow> byte list \<Rightarrow> byte list \<Rightarrow> nat) \<Rightarrow> byte list \<Rightarrow> (IxState, Iid) prog" where
  "bound_in slot_of key =
     bindE (find_leaf_page key) (\<lambda>r.
       case r of
         None \<Rightarrow> leaf_end
       | Some leaf \<Rightarrow>
           bindE (node_bytes leaf) (\<lambda>d.
           bindE (gets ixhdr) (\<lambda>h.
           bindE (node_no leaf) (\<lambda>no.
           let slot = int (slot_of h d key); nxt = get_next_leaf d;
               iid = (if slot = get_size d \<and> nxt \<noteq> IX_LEAF_HEADER_PAGE \<and> nxt \<noteq> IX_NO_PAGE
                      then \<lparr>iid_page = nxt, iid_slot = 0\<rparr> else \<lparr>iid_page = no, iid_slot = slot\<rparr>) in
           thenE (unpin_node leaf False) (ret iid)))))"

definition ih_lower_bound :: "byte list \<Rightarrow> (IxState, Iid) prog" where
  "ih_lower_bound = bound_in node_lower_bound"

definition ih_upper_bound :: "byte list \<Rightarrow> (IxState, Iid) prog" where
  "ih_upper_bound = bound_in node_upper_bound"

definition ih_get_rid :: "Iid \<Rightarrow> (IxState, Rid) prog" where
  "ih_get_rid iid =
     bindE (fetch_node (iid_page iid)) (\<lambda>f.
     bindE (node_bytes f) (\<lambda>d.
     bindE (gets ixhdr) (\<lambda>h.
       if get_size d \<le> iid_slot iid then raise IndexEntryNotFoundError
       else thenE (unpin_node f False)
            (bindE (node_bytes f) (\<lambda>d1. ret (get_rid h d1 (nat (iid_slot iid))))))))"

subsection \<open>IxScan\<close>

record IxScan =
  is_iid :: Iid
  is_stop :: Iid

definition ix_scan_is_end :: "IxScan \<Rightarrow> bool" where
  "ix_scan_is_end x \<longleftrightarrow> is_iid x = is_stop x"

definition ix_scan_next :: "IxScan \<Rightarrow> (IxState, IxScan) prog" where
  "ix_scan_next x =
     thenE (assertE (\<not> ix_scan_is_end x))
     (bindE (fetch_node (iid_page (is_iid x))) (\<lambda>f.
      bindE (node_bytes f) (\<lambda>d.
      bindE (gets ixhdr) (\<lambda>h.
      thenE (assertE (is_leaf_page d))
      (thenE (assertE (iid_slot (is_iid x) < get_size d))
      (let slot = iid_slot (is_iid x) + 1;
           iid = (if iid_page (is_iid x) \<noteq> last_leaf h \<and> slot = get_size d
                  then \<lparr>iid_page = get_next_leaf d, iid_slot = 0\<rparr> else (is_iid x)\<lparr>iid_slot := slot\<rparr>) in
       thenE (unpin_node f False) (ret (x\<lparr>is_iid := iid\<rparr>))))))))"

definition ix_scan_rid :: "IxScan \<Rightarrow> (IxState, Rid) prog" where
  "ix_scan_rid x = ih_get_rid (is_iid x)"

section \<open>Insertion\<close>

definition pairs_from :: "IxFileHdr \<Rightarrow> byte list \<Rightarrow> nat \<Rightarrow> nat \<Rightarrow> (byte list \<times> Rid) list" where
  "pairs_from h d i j = map (\<lambda>k. (get_key h d k, get_rid h d k)) [i..<j]"

definition split :: "frame_id \<Rightarrow> (IxState, frame_id) prog" where
  "split f =
     bindE create_node (\<lambda>g.
     bindE (node_bytes f) (\<lambda>d.
     let total = nat (get_size d); left_keys = total div 2 in
     thenE (edit_node g (set_is_leaf (is_leaf_page d)))
     (thenE (edit_node g (set_parent_page_no (get_parent_page_no d)))
     (thenE (edit_node g (set_size 0))
     (thenE (change_node g (\<lambda>h. insert_pairs h 0 (pairs_from h d left_keys total)))
     (thenE (edit_node f (set_size (int left_keys)))
     (bindE (node_no f) (\<lambda>fno.
      bindE (node_no g) (\<lambda>gno.
      thenE (if is_leaf_page d
             then thenE (edit_node g (set_next_leaf (get_next_leaf d)))
                  (thenE (edit_node g (set_prev_leaf fno))
                  (thenE (edit_node f (set_next_leaf gno))
                  (if get_next_leaf d \<noteq> IX_LEAF_HEADER_PAGE
                   then bindE (fetch_node (get_next_leaf d)) (\<lambda>n.
                        thenE (edit_node n (set_prev_leaf gno)) (thenE (unpin_node n True) (ret ())))
                   else upd_ixhdr (\<lambda>h. h\<lparr>last_leaf := gno\<rparr>))))
             else maintain_children g [0..<total - left_keys])
      (ret g))))))))))"

text \<open>The parameter \<^verbatim>\<open>key\<close> of \<^verbatim>\<open>insert_into_parent\<close> is not used.\<close>

definition new_root_over :: "frame_id \<Rightarrow> frame_id \<Rightarrow> (IxState, unit) prog" where
  "new_root_over old_node new_node =
     bindE create_node (\<lambda>r.
     bindE (node_bytes old_node) (\<lambda>d1.
     bindE (node_bytes new_node) (\<lambda>d2.
     bindE (node_no old_node) (\<lambda>no1.
     bindE (node_no new_node) (\<lambda>no2.
     bindE (node_no r) (\<lambda>rno.
     bindE (gets ixhdr) (\<lambda>h.
     thenE (edit_node r (set_is_leaf False))
     (thenE (edit_node r (set_parent_page_no IX_NO_PAGE))
     (thenE (edit_node r (set_size 2))
     (thenE (edit_node r (set_key h 0 (get_key h d1 0)))
     (thenE (edit_node r (set_rid h 0 \<lparr>page_no = no1, slot_no = -1\<rparr>))
     (thenE (edit_node r (set_key h 1 (get_key h d2 0)))
     (thenE (edit_node r (set_rid h 1 \<lparr>page_no = no2, slot_no = -1\<rparr>))
     (thenE (edit_node old_node (set_parent_page_no rno))
     (thenE (edit_node new_node (set_parent_page_no rno))
     (thenE (update_root_page_no rno)
     (thenE (unpin_node r True) (ret ()))))))))))))))))))"

fun insert_into_parent :: "nat \<Rightarrow> frame_id \<Rightarrow> frame_id \<Rightarrow> (IxState, unit) prog" where
  "insert_into_parent 0 old_node new_node = raise OutOfFuel"
| "insert_into_parent (Suc n) old_node new_node =
     bindE (node_bytes old_node) (\<lambda>d1.
       if is_root_page d1 then new_root_over old_node new_node
       else bindE (fetch_node (get_parent_page_no d1)) (\<lambda>p.
         bindE (node_bytes p) (\<lambda>dp.
         bindE (gets ixhdr) (\<lambda>h.
         bindE (node_no old_node) (\<lambda>no1.
         bindE (find_child h dp no1) (\<lambda>child_idx.
         bindE (node_bytes new_node) (\<lambda>d2.
         bindE (node_no new_node) (\<lambda>no2.
         thenE (change_node p (\<lambda>h. insert_pair h (child_idx + 1) (get_key h d2 0) \<lparr>page_no = no2, slot_no = -1\<rparr>))
         (bindE (node_bytes p) (\<lambda>dp1.
          thenE (if get_size dp1 \<ge> get_max_size h
                 then bindE (split p) (\<lambda>q. thenE (insert_into_parent n p q) (thenE (unpin_node q True) (ret ())))
                 else ret ())
          (thenE (unpin_node p True) (ret ()))))))))))))"

fun maintain_parent :: "nat \<Rightarrow> frame_id \<Rightarrow> (IxState, unit) prog" where
  "maintain_parent 0 cur = raise OutOfFuel"
| "maintain_parent (Suc n) cur =
     bindE (node_bytes cur) (\<lambda>d.
       if get_parent_page_no d = IX_NO_PAGE then ret ()
       else bindE (fetch_node (get_parent_page_no d)) (\<lambda>p.
         bindE (node_bytes p) (\<lambda>dp.
         bindE (gets ixhdr) (\<lambda>h.
         bindE (node_no cur) (\<lambda>no.
         bindE (find_child h dp no) (\<lambda>rank.
           if memcmp (get_key h dp rank) (get_key h d 0) (nat (ix_col_tot_len h)) = 0
           then bindE (unpin_node p True) (\<lambda>ok. assertE ok)
           else thenE (edit_node p (set_key h rank (get_key h d 0)))
                (bindE (unpin_node p True) (\<lambda>ok.
                 thenE (assertE ok) (maintain_parent n p)))))))))"

definition insert_empty :: "byte list \<Rightarrow> Rid \<Rightarrow> (IxState, int) prog" where
  "insert_empty key v =
     bindE create_node (\<lambda>r.
     bindE (node_no r) (\<lambda>rno.
     thenE (edit_node r (set_is_leaf True))
     (thenE (edit_node r (set_parent_page_no IX_NO_PAGE))
     (thenE (edit_node r (set_size 0))
     (thenE (edit_node r (set_prev_leaf IX_LEAF_HEADER_PAGE))
     (thenE (edit_node r (set_next_leaf IX_LEAF_HEADER_PAGE))
     (thenE (upd_ixhdr (\<lambda>h. h\<lparr>first_leaf := rno\<rparr>))
     (thenE (upd_ixhdr (\<lambda>h. h\<lparr>last_leaf := rno\<rparr>))
     (thenE (update_root_page_no rno)
     (thenE (change_node r (\<lambda>h d. bindE (node_insert h key v d) (\<lambda>(d1, n). ret d1)))
     (thenE (unpin_node r True) (ret rno))))))))))))"

definition insert_entry :: "byte list \<Rightarrow> Rid \<Rightarrow> (IxState, int) prog" where
  "insert_entry key v =
     bindE (gets ixhdr) (\<lambda>h0.
       if root_page h0 = IX_NO_PAGE then insert_empty key v
       else bindE (gets depth_bound) (\<lambda>bound.
         bindE (find_leaf_page key) (\<lambda>r.
         case r of
           None \<Rightarrow> raise (InternalError ''Cannot find leaf page for insert'')
         | Some leaf \<Rightarrow>
             bindE (node_bytes leaf) (\<lambda>d0.
             thenE (change_node leaf (\<lambda>h d. bindE (node_insert h key v d) (\<lambda>(d1, n). ret d1)))
             (bindE (node_bytes leaf) (\<lambda>d1.
              bindE (node_no leaf) (\<lambda>leaf_page.
              bindE (gets ixhdr) (\<lambda>h.
              thenE (if get_size d1 \<ge> get_max_size h
                     then bindE (split leaf) (\<lambda>g.
                          thenE (insert_into_parent bound leaf g) (thenE (unpin_node g True) (ret ())))
                     else if get_size d0 > 0 \<and> key_cmp h (get_key h d0 0) (get_key h d1 0) \<noteq> 0
                     then maintain_parent bound leaf
                     else ret ())
              (thenE (unpin_node leaf True) (ret leaf_page))))))))))"

section \<open>Deletion\<close>

definition adjust_root :: "frame_id \<Rightarrow> (IxState, bool) prog" where
  "adjust_root old_root =
     bindE (node_bytes old_root) (\<lambda>d.
     bindE (gets ixhdr) (\<lambda>h.
       if is_leaf_page d \<and> get_size d = 0
       then thenE (update_root_page_no IX_NO_PAGE) (thenE release_node_handle (ret True))
       else if \<not> is_leaf_page d \<and> get_size d = 1
       then let child_page = value_at h d 0 in
            bindE (fetch_node child_page) (\<lambda>c.
            thenE (edit_node c (set_parent_page_no IX_NO_PAGE))
            (thenE (unpin_node c True)
            (thenE (update_root_page_no child_page) (thenE release_node_handle (ret True)))))
       else ret False))"

definition redistribute :: "frame_id \<Rightarrow> frame_id \<Rightarrow> frame_id \<Rightarrow> nat \<Rightarrow> (IxState, unit) prog" where
  "redistribute neighbor f p index =
     bindE (node_bytes p) (\<lambda>dp.
     bindE (gets ixhdr) (\<lambda>h.
     bindE (node_no neighbor) (\<lambda>nno.
     bindE (node_bytes neighbor) (\<lambda>dn.
       if value_at h dp (index - 1) = nno
       then let last = nat (get_size dn - 1) in
            thenE (change_node f (\<lambda>h. insert_pair h 0 (get_key h dn last) (get_rid h dn last)))
            (thenE (edit_node neighbor (set_size (get_size dn - 1)))
            (bindE (node_bytes f) (\<lambda>d.
             thenE (edit_node p (set_key h (index - 1) (get_key h d 0)))
             (if \<not> is_leaf_page d then maintain_child f 0 else ret ()))))
       else bindE (node_bytes f) (\<lambda>d0.
            thenE (change_node f (\<lambda>h. insert_pair h (nat (get_size d0)) (get_key h dn 0) (get_rid h dn 0)))
            (thenE (change_node neighbor (\<lambda>h. erase_pair h 0))
            (bindE (node_bytes neighbor) (\<lambda>dn1.
             thenE (edit_node p (set_key h index (get_key h dn1 0)))
             (bindE (node_bytes f) (\<lambda>d.
              if \<not> is_leaf_page d then maintain_child f (nat (get_size d - 1)) else ret ()))))))))))"

text \<open>The part of \<^verbatim>\<open>coalesce\<close> that moves the pairs of \<open>f\<close> behind those of its left neighbour.\<close>

definition merge_into :: "frame_id \<Rightarrow> frame_id \<Rightarrow> (IxState, unit) prog" where
  "merge_into neighbor f =
     bindE (node_bytes neighbor) (\<lambda>dn.
     bindE (node_bytes f) (\<lambda>d.
     bindE (node_no neighbor) (\<lambda>nno.
     thenE (change_node neighbor (\<lambda>h. insert_pairs h (nat (get_size dn)) (pairs_from h d 0 (nat (get_size d)))))
     (if is_leaf_page d
      then thenE (edit_node neighbor (set_next_leaf (get_next_leaf d)))
           (if get_next_leaf d \<noteq> IX_LEAF_HEADER_PAGE
            then bindE (fetch_node (get_next_leaf d)) (\<lambda>n.
                 thenE (edit_node n (set_prev_leaf nno)) (thenE (unpin_node n True) (ret ())))
            else upd_ixhdr (\<lambda>h. h\<lparr>last_leaf := nno\<rparr>))
      else bindE (node_bytes neighbor) (\<lambda>dn1.
           maintain_children neighbor [nat (get_size dn)..<nat (get_size dn1)])))))"

text \<open>
  \<^verbatim>\<open>coalesce\<close>, with the function it calls back for the parent as its first argument.
\<close>

definition coalesce :: "(frame_id \<Rightarrow> (IxState, bool) prog) \<Rightarrow> frame_id \<Rightarrow> frame_id \<Rightarrow> frame_id \<Rightarrow> (IxState, bool) prog" where
  "coalesce fix_parent neighbor f p =
     bindE (node_bytes p) (\<lambda>dp.
     bindE (gets ixhdr) (\<lambda>h.
     bindE (node_no f) (\<lambda>no.
     bindE (node_no neighbor) (\<lambda>nno.
     bindE (find_child h dp no) (\<lambda>node_idx.
     bindE (find_child h dp nno) (\<lambda>neighbor_idx.
     let (l, r, rno) = (if neighbor_idx > node_idx then (f, neighbor, nno) else (neighbor, f, no)) in
     thenE (merge_into l r)
     (bindE (node_bytes p) (\<lambda>dp1.
      bindE (find_child h dp1 rno) (\<lambda>idx.
      thenE (change_node p (\<lambda>h. erase_pair h (idx - 1)))
      (thenE release_node_handle
      (bindE (node_bytes p) (\<lambda>dp2.
        if is_root_page dp2 then adjust_root p
        else if get_size dp2 < get_min_size h then fix_parent p
        else ret False))))))))))))"

text \<open>
  A node that is not the root finds itself among the children of its parent, so that one of the two
  siblings is always tried and the branch without a neighbour is never taken.
\<close>

fun coalesce_or_redistribute :: "nat \<Rightarrow> frame_id \<Rightarrow> (IxState, bool) prog" where
  "coalesce_or_redistribute 0 f = raise OutOfFuel"
| "coalesce_or_redistribute (Suc n) f =
     bindE (node_bytes f) (\<lambda>d.
     bindE (gets ixhdr) (\<lambda>h.
       if is_root_page d then adjust_root f
       else if get_size d \<ge> get_min_size h then ret False
       else bindE (fetch_node (get_parent_page_no d)) (\<lambda>p.
         bindE (node_bytes p) (\<lambda>dp.
         bindE (node_no f) (\<lambda>no.
         bindE (find_child h dp no) (\<lambda>index.
         let neighbor_is_left = (0 < index);
             neighbor_index = (if 0 < index then index else index + 1) in
         bindE (fetch_node (value_at h dp (if 0 < index then index - 1 else index + 1))) (\<lambda>neighbor.
         bindE (node_bytes neighbor) (\<lambda>dn.
           if get_size dn + get_size d \<ge> get_min_size h * 2
           then thenE (redistribute neighbor f p neighbor_index)
                (thenE (unpin_node neighbor True) (thenE (unpin_node p True) (ret False)))
           else let (left, right) = (if neighbor_is_left then (neighbor, f) else (f, neighbor)) in
                bindE (coalesce (coalesce_or_redistribute n) left right p) (\<lambda>parent_deleted.
                thenE (unpin_node left True)
                (thenE (if \<not> parent_deleted then thenE (unpin_node p True) (ret ()) else ret ())
                (ret True)))))))))))"

definition delete_entry :: "byte list \<Rightarrow> (IxState, bool) prog" where
  "delete_entry key =
     bindE (gets depth_bound) (\<lambda>bound.
     bindE (find_leaf_page key) (\<lambda>r.
       case r of
         None \<Rightarrow> ret False
       | Some leaf \<Rightarrow>
           bindE (node_bytes leaf) (\<lambda>d.
           bindE (gets ixhdr) (\<lambda>h.
           let pos = node_lower_bound h d key in
           if get_size d \<le> int pos \<or> key_cmp h (get_key h d pos) key \<noteq> 0
           then thenE (unpin_node leaf False) (ret False)
           else thenE (change_node leaf (\<lambda>h. erase_pair h pos))
                (thenE (coalesce_or_redistribute bound leaf)
                (thenE (unpin_node leaf True) (ret True)))))))"

text \<open>\<^verbatim>\<open>erase_leaf\<close> is not called by any other function of the program.\<close>

definition erase_leaf :: "frame_id \<Rightarrow> (IxState, unit) prog" where
  "erase_leaf leaf =
     bindE (node_bytes leaf) (\<lambda>d.
     thenE (assertE (is_leaf_page d))
     (bindE (fetch_node (get_prev_leaf d)) (\<lambda>p.
      thenE (edit_node p (set_next_leaf (get_next_leaf d)))
      (thenE (unpin_node p True)
      (bindE (node_bytes leaf) (\<lambda>d1.
       bindE (fetch_node (get_next_leaf d1)) (\<lambda>n.
       thenE (edit_node n (set_prev_leaf (get_prev_leaf d1)))
       (thenE (unpin_node n True) (ret ())))))))))"

section \<open>IxManager\<close>

definition get_index_name :: "string \<Rightarrow> string list \<Rightarrow> string" where
  "get_index_name filename index_cols = filename @ concat (map (\<lambda>c. ''_'' @ c) index_cols) @ ''.idx''"

definition ix_exists :: "string \<Rightarrow> string list \<Rightarrow> (BufferPoolManager, bool) prog" where
  "ix_exists filename index_cols = on_disk (is_file (get_index_name filename index_cols))"

text \<open>A leaf without keys between two neighbours, in a cleared page.\<close>

definition init_leaf :: "int \<Rightarrow> int \<Rightarrow> byte list" where
  "init_leaf prev nxt =
     set_next_leaf nxt (set_prev_leaf prev (set_is_leaf True (set_size 0 (set_parent_page_no IX_NO_PAGE
       (put_i32 zero_page 0 IX_NO_PAGE)))))"

definition order_of :: "int \<Rightarrow> int" where
  "order_of tot = (int PAGE_SIZE - 24) div (tot + 8) - 1"

definition index_hdr :: "ColMeta list \<Rightarrow> IxFileHdr" where
  "index_hdr cols =
     (let tot = sum_list (map cm_len cols); order = order_of tot in
      update_tot_len ((new_IxFileHdr IX_NO_PAGE IX_INIT_NUM_PAGES IX_INIT_ROOT_PAGE (int (length cols)) tot order
        ((order + 1) * tot) IX_INIT_ROOT_PAGE IX_INIT_ROOT_PAGE)\<lparr>col_types := map cm_type cols, col_lens := map cm_len cols\<rparr>))"

definition ix_create_index :: "string \<Rightarrow> ColMeta list \<Rightarrow> (BufferPoolManager, unit) prog" where
  "ix_create_index filename cols =
     (let ix_name = get_index_name filename (map cm_name cols); tot = sum_list (map cm_len cols) in
      thenE (on_disk (create_file ix_name))
      (bindE (on_disk (open_file ix_name)) (\<lambda>fd.
       if tot > IX_MAX_COL_LEN then raise (InvalidColLengthError tot)
       else thenE (assertE (order_of tot > 2))
            (bindE (ixhdr_serialize (index_hdr cols)) (\<lambda>bytes.
             thenE (on_disk (write_page fd IX_FILE_HDR_PAGE bytes))
             (thenE (on_disk (write_page fd IX_LEAF_HEADER_PAGE (init_leaf IX_INIT_ROOT_PAGE IX_INIT_ROOT_PAGE)))
             (thenE (on_disk (write_page fd IX_INIT_ROOT_PAGE (init_leaf IX_LEAF_HEADER_PAGE IX_LEAF_HEADER_PAGE)))
             (thenE (on_disk (set_fd2pageno fd (IX_INIT_NUM_PAGES - 1)))
             (on_disk (close_file fd))))))))))"

definition ix_destroy_index :: "string \<Rightarrow> string list \<Rightarrow> (BufferPoolManager, unit) prog" where
  "ix_destroy_index filename index_cols = on_disk (destroy_file (get_index_name filename index_cols))"

text \<open>The constructor of \<^verbatim>\<open>IxIndexHandle\<close>.\<close>

definition new_IxIndexHandle :: "int \<Rightarrow> (BufferPoolManager, IxIndexHandle) prog" where
  "new_IxIndexHandle fd =
     bindE (on_disk (read_page fd IX_FILE_HDR_PAGE PAGE_SIZE)) (\<lambda>buf.
     bindE (ixhdr_deserialize buf) (\<lambda>h.
     bindE (on_disk (get_fd2pageno fd)) (\<lambda>now_page_no.
     thenE (on_disk (set_fd2pageno fd (now_page_no + 1)))
     (ret \<lparr>ih_fd = fd, ih_hdr = h\<rparr>))))"

definition ix_open_index :: "string \<Rightarrow> string list \<Rightarrow> (BufferPoolManager, IxIndexHandle) prog" where
  "ix_open_index filename index_cols =
     bindE (on_disk (open_file (get_index_name filename index_cols))) new_IxIndexHandle"

definition flush_index :: "IxIndexHandle \<Rightarrow> (BufferPoolManager, unit) prog" where
  "flush_index ih =
     bindE (ixhdr_serialize (ih_hdr ih)) (\<lambda>bytes.
     thenE (on_disk (write_page (ih_fd ih) IX_FILE_HDR_PAGE bytes))
     (flush_all_pages (ih_fd ih)))"

fun delete_pages :: "int \<Rightarrow> nat list \<Rightarrow> (BufferPoolManager, unit) prog" where
  "delete_pages fd [] = ret ()"
| "delete_pages fd (i # is) = thenE (delete_page \<lparr>pid_fd = fd, pid_no = int i\<rparr>) (delete_pages fd is)"

definition close_index :: "IxIndexHandle \<Rightarrow> (BufferPoolManager, unit) prog" where
  "close_index ih =
     thenE (flush_index ih)
     (thenE (delete_pages (ih_fd ih) [0..<nat (ix_num_pages (ih_hdr ih))])
     (on_disk (close_file (ih_fd ih))))"

end
