(* ===== verification/Ix_Search.thy ===== *)
theory Ix_Search
  imports Ix_Tree
begin

text \<open>
  What the pages of an index file stand for: a B+-tree of any height, and that searching it through the
  buffer pool finds exactly the entries of its leaves.
\<close>

section \<open>Abstract trees\<close>

text \<open>
  A leaf is its page number and its entries; an inner node has, for every child, the key that separates
  it from the child on its left.
\<close>

datatype bptree = BLeaf int "(byte list \<times> Rid) list" | BNode int "(byte list \<times> bptree) list"

fun root_no :: "bptree \<Rightarrow> int" where
  "root_no (BLeaf p ps) = p"
| "root_no (BNode p cs) = p"

fun entries :: "bptree \<Rightarrow> (byte list \<times> Rid) list" where
  "entries (BLeaf p ps) = ps"
| "entries (BNode p cs) = concat (map (\<lambda>(k, c). entries c) cs)"

fun page_nos :: "bptree \<Rightarrow> int list" where
  "page_nos (BLeaf p ps) = [p]"
| "page_nos (BNode p cs) = p # concat (map (\<lambda>(k, c). page_nos c) cs)"

fun height :: "bptree \<Rightarrow> nat" where
  "height (BLeaf p ps) = 0"
| "height (BNode p cs) = Suc (fold max (map (\<lambda>(k, c). height c) cs) 0)"

definition child_ref :: "byte list \<times> bptree \<Rightarrow> byte list \<times> Rid" where
  "child_ref kc = (fst kc, \<lparr>page_no = root_no (snd kc), slot_no = -1\<rparr>)"

text \<open>The pages \<open>pg\<close> hold the tree.\<close>

fun tree_at :: "IxFileHdr \<Rightarrow> nat \<Rightarrow> (int \<Rightarrow> byte list option) \<Rightarrow> bptree \<Rightarrow> bool" where
  "tree_at h m pg (BLeaf p ps) \<longleftrightarrow> valid_pno p \<and>
     (case pg p of None \<Rightarrow> False | Some d \<Rightarrow> node_ok h m d \<and> is_leaf_page d \<and> node_pairs h d = ps)"
| "tree_at h m pg (BNode p cs) \<longleftrightarrow> valid_pno p \<and>
     (case pg p of None \<Rightarrow> False | Some d \<Rightarrow>
        node_ok h m d \<and> \<not> is_leaf_page d \<and> node_pairs h d = map child_ref cs) \<and>
     (\<forall>(k, c) \<in> set cs. tree_at h m pg c)"

text \<open>Keys are sorted in every node, and the entries of a child lie between its separator and the next.\<close>

definition between :: "IxFileHdr \<Rightarrow> (byte list \<times> bptree) list \<Rightarrow> nat \<Rightarrow> bool" where
  "between h cs i \<longleftrightarrow>
     (\<forall>e \<in> set (entries (snd (cs ! i))).
        (0 < i \<longrightarrow> key_cmp h (fst (cs ! i)) (fst e) \<le> 0) \<and>
        (Suc i < length cs \<longrightarrow> key_cmp h (fst e) (fst (cs ! Suc i)) < 0))"

fun ordered :: "IxFileHdr \<Rightarrow> bptree \<Rightarrow> bool" where
  "ordered h (BLeaf p ps) \<longleftrightarrow> ko.sorted h (map fst ps) \<and> (\<forall>k \<in> set (map fst ps). key_ok h k)"
| "ordered h (BNode p cs) \<longleftrightarrow> cs \<noteq> [] \<and> ko.sorted h (map fst cs) \<and> (\<forall>k \<in> set (map fst cs). key_ok h k) \<and>
     (\<forall>i \<in> set [0..<length cs]. between h cs i) \<and> (\<forall>(k, c) \<in> set cs. ordered h c)"

text \<open>The child that \<^verbatim>\<open>internal_lookup\<close> goes to.\<close>

definition child_pos :: "IxFileHdr \<Rightarrow> byte list list \<Rightarrow> byte list \<Rightarrow> nat" where
  "child_pos h ks key = bsearch (\<lambda>i. 0 < key_cmp h (ks ! i) key) 0 (length ks) - 1"

text \<open>
  \<open>leads h key t p ps ps' t'\<close>: the search for \<open>key\<close> in \<open>t\<close> ends in the leaf \<open>p\<close> with entries \<open>ps\<close>, and \<open>t'\<close> is
  the tree in which that leaf has the entries \<open>ps'\<close>.
\<close>

inductive leads :: "IxFileHdr \<Rightarrow> byte list \<Rightarrow> bptree \<Rightarrow> int \<Rightarrow> (byte list \<times> Rid) list \<Rightarrow> (byte list \<times> Rid) list \<Rightarrow> bptree \<Rightarrow> bool"
  for h key where
  leads_leaf: "leads h key (BLeaf p ps) p ps ps' (BLeaf p ps')"
| leads_node: "i = child_pos h (map fst cs) key \<Longrightarrow> i < length cs \<Longrightarrow> leads h key (snd (cs ! i)) p ps ps' c' \<Longrightarrow>
    leads h key (BNode q cs) p ps ps' (BNode q (cs[i := (fst (cs ! i), c')]))"

section \<open>Searching an abstract tree\<close>

lemma child_pos_less: "ks \<noteq> [] \<Longrightarrow> child_pos h ks key < length ks"
  using bsearch_bounds [of 0 "length ks" "\<lambda>i. 0 < key_cmp h (ks ! i) key"] by (cases ks) (auto simp: child_pos_def)

lemma child_pos_keys:
  assumes "ko.sorted h ks" "\<forall>k \<in> set ks. key_ok h k" "key_ok h key"
  shows "i = child_pos h ks key \<Longrightarrow> 0 < i \<Longrightarrow> i < length ks \<Longrightarrow> key_cmp h (ks ! i) key \<le> 0"
    and "child_pos h ks key < j \<Longrightarrow> j < length ks \<Longrightarrow> 0 < key_cmp h (ks ! j) key"
proof -
  note ub = ko.upper_bound [OF assms]
  show "key_cmp h (ks ! i) key \<le> 0" if "i = child_pos h ks key" "0 < i" "i < length ks"
    using that ub(2) by (simp add: child_pos_def)
  show "0 < key_cmp h (ks ! j) key" if "child_pos h ks key < j" "j < length ks"
    using that ub(3) by (simp add: child_pos_def)
qed

lemma find_concat_only:
  assumes "i < length xss" and "\<And>j e. j < length xss \<Longrightarrow> j \<noteq> i \<Longrightarrow> e \<in> set (xss ! j) \<Longrightarrow> \<not> P e"
  shows "List.find P (concat xss) = List.find P (xss ! i)"
  using assms
proof (induction xss arbitrary: i)
  case (Cons xs xss)
  have none: "List.find P ys = None" if "\<And>e. e \<in> set ys \<Longrightarrow> \<not> P e" for ys
    using that by (auto simp: find_None_iff)
  show ?case
  proof (cases i)
    case 0
    have "List.find P (concat xss) = None"
    proof (rule none)
      fix e assume "e \<in> set (concat xss)"
      then obtain j where "j < length xss" "e \<in> set (xss ! j)" by (auto simp: in_set_conv_nth [of _ xss])
      then show "\<not> P e" using Cons.prems(2) [of "Suc j" e] 0 by simp
    qed
    then show ?thesis using 0 by (simp add: find_app split: option.split)
  next
    case (Suc k)
    have "List.find P xs = None" by (rule none) (use Cons.prems(2) [of 0] Suc in simp)
    moreover have "List.find P (concat xss) = List.find P (xss ! k)"
    proof (rule Cons.IH)
      fix j e assume "j < length xss" "j \<noteq> k" "e \<in> set (xss ! j)"
      then show "\<not> P e" using Cons.prems(2) [of "Suc j" e] Suc by simp
    qed (use Cons.prems(1) Suc in simp)
    ultimately show ?thesis using Suc by (simp add: find_app)
  qed
qed simp

lemma ordered_entries_ok: "ordered h t \<Longrightarrow> e \<in> set (entries t) \<Longrightarrow> key_ok h (fst e)"
  by (induction t) auto

lemma other_child_no_match:
  assumes o: "ordered h (BNode q cs)" and key: "key_ok h key" and j: "j < length cs" "j \<noteq> child_pos h (map fst cs) key"
    and e: "e \<in> set (entries (snd (cs ! j)))"
  shows "key_cmp h (fst e) key \<noteq> 0"
proof -
  let ?i = "child_pos h (map fst cs) key"
  have s: "ko.sorted h (map fst cs)" "\<forall>k \<in> set (map fst cs). key_ok h k" "cs \<noteq> []" "between h cs j"
    using o j(1) by auto
  have i: "?i < length cs" using child_pos_less [of "map fst cs"] s(3) by simp
  have "ordered h (snd (cs ! j))" using o nth_mem [OF j(1)] by (auto simp: case_prod_beta)
  then have eok: "key_ok h (fst e)" using e by (rule ordered_entries_ok)
  have kok: "key_ok h (fst (cs ! k))" if "k < length cs" for k using s(2) that by simp
  note ck = child_pos_keys [OF s(1,2) key]
  show ?thesis
  proof (cases "j < ?i")
    case True
    have lt: "key_cmp h (fst e) (fst (cs ! Suc j)) < 0" using s(4) e True i by (simp add: between_def)
    have "key_cmp h (fst (cs ! Suc j)) (fst (cs ! ?i)) \<le> 0"
    proof (cases "Suc j = ?i")
      case True
      then show ?thesis using ko.refl [OF kok [OF i]] by simp
    next
      case False
      then have "key_cmp h (map fst cs ! Suc j) (map fst cs ! ?i) < 0"
        using s(1) \<open>j < ?i\<close> i by (simp add: ko.sorted_def sorted_wrt_iff_nth_less del: nth_map)
      then show ?thesis using \<open>j < ?i\<close> i by simp
    qed
    moreover have "key_cmp h (fst (cs ! ?i)) key \<le> 0" using ck(1) [OF refl] True i by simp
    ultimately have "key_cmp h (fst (cs ! Suc j)) key \<le> 0"
      using ko.trans [OF kok [of "Suc j"] kok [OF i] key] True i by simp
    then show ?thesis using ko.less_le_trans [OF eok kok [of "Suc j"] key lt] True i by simp
  next
    case False
    then have ij: "?i < j" using j(2) by simp
    have "0 < key_cmp h (fst (cs ! j)) key" using ck(2) [OF ij] j(1) by simp
    then have "key_cmp h key (fst (cs ! j)) < 0" using ko.anti [OF kok [OF j(1)] key] by linarith
    moreover have "key_cmp h (fst (cs ! j)) (fst e) \<le> 0" using s(4) e ij by (simp add: between_def)
    ultimately have "key_cmp h key (fst e) < 0"
      using ko.less_le_trans [OF key kok [OF j(1)] eok] by blast
    then show ?thesis using ko.anti [OF key eok] by linarith
  qed
qed

lemma node_find_child:
  assumes "ordered h (BNode q cs)" "key_ok h key"
  shows "node_find h (entries (BNode q cs)) key = node_find h (entries (snd (cs ! child_pos h (map fst cs) key))) key"
proof -
  let ?i = "child_pos h (map fst cs) key"
  have i: "?i < length cs" using child_pos_less [of "map fst cs"] assms(1) by simp
  have "List.find (\<lambda>p. key_cmp h (fst p) key = 0) (concat (map (\<lambda>(k, c). entries c) cs)) =
      List.find (\<lambda>p. key_cmp h (fst p) key = 0) (map (\<lambda>(k, c). entries c) cs ! ?i)"
    by (rule find_concat_only) (use i other_child_no_match [OF assms] in \<open>auto simp: case_prod_beta\<close>)
  then show ?thesis using i by (simp add: node_find_def case_prod_beta)
qed

lemma leads_find:
  "leads h key t p ps ps' t' \<Longrightarrow> ordered h t \<Longrightarrow> key_ok h key \<Longrightarrow> node_find h (entries t) key = node_find h ps key"
proof (induction rule: leads.induct)
  case (leads_node i cs p ps ps' c' q)
  have "ordered h (snd (cs ! i))" using leads_node.prems(1) nth_mem [OF leads_node.hyps(2)] by (auto simp: case_prod_beta)
  then show ?case using leads_node node_find_child [OF leads_node.prems] by simp
qed simp

lemma leads_total:
  "ordered h t \<Longrightarrow> \<exists>p ps. \<forall>ps'. \<exists>t'. leads h key t p ps ps' t'"
proof (induction t)
  case (BLeaf p ps)
  show ?case by (blast intro: leads_leaf)
next
  case (BNode q cs)
  let ?i = "child_pos h (map fst cs) key"
  have i: "?i < length cs" using child_pos_less [of "map fst cs"] BNode.prems by simp
  have c: "cs ! ?i \<in> set cs" using i by simp
  have "ordered h (snd (cs ! ?i))" using BNode.prems c by (auto simp: case_prod_beta)
  then obtain p ps where "\<forall>ps'. \<exists>t'. leads h key (snd (cs ! ?i)) p ps ps' t'"
    using BNode.IH [OF c] by (metis snds.intros surjective_pairing prod.collapse)
  then show ?case using leads_node [OF refl i] by blast
qed

lemma fold_max_ge: "x \<in> set xs \<Longrightarrow> x \<le> fold max xs (n :: nat)" "n \<le> fold max xs (n :: nat)"
proof -
  have ge: "n \<le> fold max ys n" for n :: nat and ys
    by (induction ys arbitrary: n) (auto intro: order_trans [OF max.cobounded2])
  show "n \<le> fold max xs n" by (rule ge)
  show "x \<le> fold max xs n" if "x \<in> set xs"
    using that
  proof (induction xs arbitrary: n)
    case (Cons y xs)
    then show ?case using ge [of "max y n" xs] by auto
  qed simp
qed

lemma height_child: "(k, c) \<in> set cs \<Longrightarrow> height c < height (BNode q cs)"
  using fold_max_ge(1) [of "height c" "map (\<lambda>(k, c). height c) cs" 0] by force

lemma height_pages: "height t \<le> length (page_nos t)"
proof (induction t)
  case (BNode q cs)
  have "fold max (map (\<lambda>(k, c). height c) cs) n \<le> max n (length (concat (map (\<lambda>(k, c). page_nos c) cs)))"
    if "\<And>k c. (k, c) \<in> set cs \<Longrightarrow> height c \<le> length (page_nos c)" for n cs
    using that
  proof (induction cs arbitrary: n)
    case (Cons kc cs)
    obtain k c where kc: "kc = (k, c)" by (cases kc)
    have "height c \<le> length (page_nos c)" using Cons.prems kc by auto
    moreover have "fold max (map (\<lambda>(k, c). height c) cs) (max (height c) n) \<le>
        max (max (height c) n) (length (concat (map (\<lambda>(k, c). page_nos c) cs)))"
      by (rule Cons.IH) (use Cons.prems in auto)
    ultimately show ?case by (simp add: kc)
  qed simp
  moreover have "height c \<le> length (page_nos c)" if "(k, c) \<in> set cs" for k c
    using BNode.IH [OF that] by simp
  ultimately have "fold max (map (\<lambda>(k, c). height c) cs) 0 \<le> max 0 (length (concat (map (\<lambda>(k, c). page_nos c) cs)))"
    by blast
  then show ?case by simp
qed simp

section \<open>Searching the pages\<close>

definition ix_pid :: "IxState \<Rightarrow> int \<Rightarrow> PageId" where
  "ix_pid s p = \<lparr>pid_fd = ih_fd (ix_ih s), pid_no = p\<rparr>"

definition ix_page :: "IxState \<Rightarrow> int \<Rightarrow> byte list option" where
  "ix_page s p = view (ix_pool s) (ix_pid s p)"

text \<open>
  The invariant of an open index: its pages hold an ordered tree whose nodes are distinct pages, no more
  than the header counts, and the pool has room for the two pages a search pins at once.
\<close>

definition index_at :: "IxState \<Rightarrow> nat \<Rightarrow> bptree \<Rightarrow> bool" where
  "index_at s m t \<longleftrightarrow>
     bpm_inv (ix_pool s) \<and> room 2 (ix_pool s) \<and> root_page (ixhdr s) = root_no t \<and>
     tree_at (ixhdr s) m (ix_page s) t \<and> ordered (ixhdr s) t \<and> distinct (page_nos t) \<and>
     int (length (page_nos t)) \<le> ix_num_pages (ixhdr s)"

lemma on_ixpool_run [prog_simps]:
  "on_ixpool m s = (case m (ix_pool s) of (r, b) \<Rightarrow> (r, s\<lparr>ix_pool := b\<rparr>))"
  by (simp add: on_ixpool_def prog_simps)

lemma ixhdr_pool [simp]: "ixhdr (s\<lparr>ix_pool := u\<rparr>) = ixhdr s"
  by (simp add: ixhdr_def)

lemma ix_pid_pool [simp]: "ix_pid (s\<lparr>ix_pool := u\<rparr>) p = ix_pid s p"
  by (simp add: ix_pid_def)

lemma held_frame:
  assumes "bpm_inv u" "frame_held u pid f" shows "pg_id (pages u ! f) = pid"
  using table_id [OF held_inv_parts(2) [OF assms(1)], of pid f] assms(2) by (simp add: frame_held_def)

lemma at_page_frame:
  assumes "pool.at_page T b n pid f c x u"
  shows "pg_data (pages u ! f) = x" "pg_id (pages u ! f) = pid"
  using assms held_frame by (auto simp: pool.at_page_def)

lemma node_bytes_run: "pool.at_page T b n pid f c x (ix_pool s) \<Longrightarrow> node_bytes f s = (Inr x, s)"
  by (simp add: node_bytes_def prog_simps at_page_frame)

lemma node_no_run: "pool.at_page T b n pid f c x (ix_pool s) \<Longrightarrow> node_no f s = (Inr (pid_no pid), s)"
  by (simp add: node_no_def prog_simps at_page_frame)

lemma fetch_node_run:
  assumes "bpm_inv (ix_pool s)" "room 1 (ix_pool s)" "valid_pno p" "ix_page s p = Some d"
  obtains f u where "fetch_node p s = (Inr f, s\<lparr>ix_pool := u\<rparr>)"
    "pool.at_page {ix_pid s p} (ix_pool s) (fd2pageno (bpm_disk (ix_pool s))) (ix_pid s p) f True d u"
proof -
  obtain f u where u: "fetch_page (ix_pid s p) (ix_pool s) = (Inr (Some f), u)"
    "pool.session (ix_pool s) (fd2pageno (bpm_disk (ix_pool s))) (ix_pid s p) f True d u"
    by (rule pool.session_get [OF assms(1,2), of "ix_pid s p" d]) (use assms(3,4) in \<open>simp_all add: ix_pid_def ix_page_def\<close>)
  then show ?thesis
    by (intro that [OF _ pool.session_at [OF u(2)]]) (simp add: fetch_node_def prog_simps ix_pid_def)
qed

lemma unpin_node_run:
  assumes "pool.at_page T b n pid f c x (ix_pool s)" "d \<or> c"
  obtains u where "unpin_node f d s = (Inr True, s\<lparr>ix_pool := u\<rparr>)" "bpm_inv u" "view u pid = Some x" "pins u = pins b"
    "\<And>q y. q \<noteq> pid \<Longrightarrow> view b q = Some y \<Longrightarrow> view u q = Some y" "keeps T b u" "fd2pageno (bpm_disk u) = n"
  by (rule pool.at_page_end [OF assms])
    (rule that, auto simp: unpin_node_def prog_simps at_page_frame [OF assms(1)])

text \<open>Going from a node to a child.\<close>

lemma to_child_run:
  assumes b: "bpm_inv b" "room 2 b" and at: "pool.at_page T b n (ix_pid s p) f True x (ix_pool s)" "view b (ix_pid s p) = Some x"
    and q: "q \<noteq> p" "valid_pno q" "view b (ix_pid s q) = Some y"
  obtains g u where "bindE (fetch_node q) (\<lambda>c. thenE (unpin_node f False) (k c)) s = k g (s\<lparr>ix_pool := u\<rparr>)"
    "pool.at_page (insert (ix_pid s q) T) b n (ix_pid s q) g True y u"
proof -
  obtain g u v where u: "fetch_page (ix_pid s q) (ix_pool s) = (Inr (Some g), u)" "pg_data (pages u ! f) = x"
      "frame_held u (ix_pid s p) f" "bpm_inv u" "unpin_page (ix_pid s p) False u = (Inr True, v)"
      "pool.at_page (insert (ix_pid s q) T) b n (ix_pid s q) g True y v"
    by (rule pool.at_page_step [OF b at(1), of "ix_pid s q" y]) (use q at(2) in \<open>simp_all add: ix_pid_def\<close>)
  have "pg_id (pages u ! f) = ix_pid s p" by (rule held_frame [OF u(4,3)])
  with u show ?thesis
    by (intro that [OF _ u(6)]) (simp add: fetch_node_def unpin_node_def prog_simps ix_pid_def)
qed

lemma internal_lookup_pos:
  assumes "node_ok h m d" "node_pairs h d = map child_ref cs" "cs \<noteq> []"
  shows "internal_lookup h d key = root_no (snd (cs ! child_pos h (map fst cs) key))"
proof -
  have len: "nat (get_size d) = length cs" using arg_cong [OF assms(2), of length] by simp
  have pair: "get_pair h d i = child_ref (cs ! i)" if "i < length cs" for i
    using that assms(2) len nth_node_pairs [of i d h] by simp
  have "node_upper_bound h d key = bsearch (\<lambda>i. 0 < key_cmp h (map fst cs ! i) key) 0 (length cs)"
    unfolding node_upper_bound_def len
    by (rule bsearch_cong) (use pair in \<open>auto simp: get_pair_def child_ref_def\<close>)
  then show ?thesis
    using pair [of "child_pos h (map fst cs) key"] child_pos_less [of "map fst cs" h key] assms(3)
    by (simp add: internal_lookup_def value_at_def child_pos_def get_pair_def child_ref_def)
qed

lemma leads_ordered_leaf: "leads h key t p ps ps' t' \<Longrightarrow> ordered h t \<Longrightarrow> ordered h (BLeaf p ps)"
proof (induction rule: leads.induct)
  case (leads_node i cs p ps ps' c' q)
  have "ordered h (snd (cs ! i))" using leads_node.prems nth_mem [OF leads_node.hyps(2)] by (auto simp: case_prod_beta)
  then show ?case by (rule leads_node.IH)
qed simp

lemma leads_root: "leads h key t p ps ps' t' \<Longrightarrow> root_no t' = root_no t"
  by (induction rule: leads.induct) simp_all

lemma root_in_pages: "root_no t \<in> set (page_nos t)"
  by (cases t) simp_all

lemma tree_at_root:
  assumes "tree_at h m pg t" shows "valid_pno (root_no t)" "\<exists>d. pg (root_no t) = Some d"
  using assms by (cases t; auto split: option.splits)+

lemma tree_at_pages: "tree_at h m pg t \<Longrightarrow> q \<in> set (page_nos t) \<Longrightarrow> \<exists>d. pg q = Some d"
proof (induction t)
  case (BNode p cs)
  show ?case
  proof (cases "q = p")
    case True
    then show ?thesis using tree_at_root(2) [OF BNode.prems(1)] by simp
  next
    case False
    then obtain k c where c: "(k, c) \<in> set cs" "q \<in> set (page_nos c)" using BNode.prems(2) by auto
    show ?thesis by (rule BNode.IH [OF c(1) _ _ c(2)]) (use BNode.prems(1) c(1) in auto)
  qed
qed (auto split: option.splits)

lemma tree_child:
  assumes "tree_at h m pg (BNode q cs)" "ordered h (BNode q cs)" "distinct (page_nos (BNode q cs))" "i < length cs"
  shows "tree_at h m pg (snd (cs ! i))" "ordered h (snd (cs ! i))" "distinct (page_nos (snd (cs ! i)))"
    "root_no (snd (cs ! i)) \<noteq> q" "height (snd (cs ! i)) < height (BNode q cs)"
proof -
  have c: "(fst (cs ! i), snd (cs ! i)) \<in> set cs" using assms(4) by simp
  show "tree_at h m pg (snd (cs ! i))" "ordered h (snd (cs ! i))" using assms(1,2) c by auto
  show "height (snd (cs ! i)) < height (BNode q cs)" by (rule height_child [OF c])
  have sub: "page_nos (snd (cs ! i)) \<in> set (map (\<lambda>(k, c). page_nos c) cs)"
    using assms(4) by (metis (mono_tags, lifting) case_prod_beta length_map nth_map nth_mem)
  with assms(3) show "distinct (page_nos (snd (cs ! i)))" by (simp add: distinct_concat_iff)
  have "q \<notin> set (page_nos (snd (cs ! i)))" using assms(3) sub by fastforce
  then show "root_no (snd (cs ! i)) \<noteq> q" using root_in_pages [of "snd (cs ! i)"] by metis
qed

lemma descend_run:
  assumes "leads h key t p ps ps' t'" "tree_at h m (\<lambda>q. view b (ix_pid s q)) t" "ordered h t"
    "distinct (page_nos t)" "height t < fuel" "bpm_inv b" "room 2 b" "ixhdr s = h"
    "pool.at_page T b n (ix_pid s (root_no t)) f True d (ix_pool s)" "view b (ix_pid s (root_no t)) = Some d"
  shows "\<exists>g u T' d'. descend fuel key f s = (Inr g, s\<lparr>ix_pool := u\<rparr>) \<and>
    pool.at_page T' b n (ix_pid s p) g True d' u \<and> view b (ix_pid s p) = Some d' \<and>
    node_ok h m d' \<and> is_leaf_page d' \<and> node_pairs h d' = ps \<and> valid_pno p"
  using assms
proof (induction arbitrary: fuel s f T d rule: leads.induct)
  case (leads_leaf p ps ps')
  obtain n' where "fuel = Suc n'" using leads_leaf.prems(4) by (cases fuel) auto
  moreover have "node_ok h m d \<and> is_leaf_page d \<and> node_pairs h d = ps \<and> valid_pno p"
    using leads_leaf.prems(1,9) by simp
  ultimately show ?case using leads_leaf.prems node_bytes_run [OF leads_leaf.prems(8)]
    by (intro exI [of _ f] exI [of _ "ix_pool s"] exI [of _ T] exI [of _ d]) (simp add: prog_simps)
next
  case (leads_node i cs p ps ps' c' q)
  let ?c = "snd (cs ! i)"
  note prems = leads_node.prems
  obtain n' where fuel: "fuel = Suc n'" using prems(4) by (cases fuel) auto
  note child = tree_child [OF prems(1,2,3) leads_node.hyps(2)]
  have d: "node_ok h m d" "\<not> is_leaf_page d" "node_pairs h d = map child_ref cs"
    using prems(1,9) by simp_all
  have look: "internal_lookup h d key = root_no ?c"
    using internal_lookup_pos [OF d(1,3), of key] leads_node.hyps(1,2) prems(2) by simp
  obtain y where y: "view b (ix_pid s (root_no ?c)) = Some y" using tree_at_root(2) [OF child(1)] by auto
  obtain g u where u: "bindE (fetch_node (root_no ?c)) (\<lambda>c. thenE (unpin_node f False) (descend n' key c)) s =
      descend n' key g (s\<lparr>ix_pool := u\<rparr>)"
    "pool.at_page (insert (ix_pid s (root_no ?c)) T) b n (ix_pid s (root_no ?c)) g True y u"
    by (rule to_child_run [OF prems(5,6), of T n s q f d "root_no ?c" y])
      (use prems(8,9) child(4) tree_at_root(1) [OF child(1)] y in simp_all)
  have run: "descend fuel key f s = descend n' key g (s\<lparr>ix_pool := u\<rparr>)"
    using node_bytes_run [OF prems(8)] d(2) u(1) look prems(7) by (simp add: fuel prog_simps)
  show ?case
    unfolding run
    using leads_node.IH [of "s\<lparr>ix_pool := u\<rparr>" n' _ g y] child u(2) y prems(4-7) fuel by simp
qed

lemma find_leaf_page_run:
  assumes s: "index_at s m t" and lead: "leads (ixhdr s) key t p ps ps' t'"
  obtains g u T d where "find_leaf_page key s = (Inr (Some g), s\<lparr>ix_pool := u\<rparr>)"
    "pool.at_page T (ix_pool s) (fd2pageno (bpm_disk (ix_pool s))) (ix_pid s p) g True d u" "ix_page s p = Some d"
    "node_ok (ixhdr s) m d" "is_leaf_page d" "node_pairs (ixhdr s) d = ps" "valid_pno p"
proof -
  have parts: "bpm_inv (ix_pool s)" "room 2 (ix_pool s)" "root_page (ixhdr s) = root_no t"
      "tree_at (ixhdr s) m (ix_page s) t" "ordered (ixhdr s) t" "distinct (page_nos t)"
      "int (length (page_nos t)) \<le> ix_num_pages (ixhdr s)"
    using s by (simp_all add: index_at_def)
  obtain x where x: "ix_page s (root_no t) = Some x" using tree_at_root(2) [OF parts(4)] by blast
  have valid: "valid_pno (root_no t)" by (rule tree_at_root(1) [OF parts(4)])
  then have "root_no t \<noteq> IX_NO_PAGE" by (auto simp: valid_pno_def IX_NO_PAGE_def)
  obtain f v where v: "fetch_node (root_no t) s = (Inr f, s\<lparr>ix_pool := v\<rparr>)"
    "pool.at_page {ix_pid s (root_no t)} (ix_pool s) (fd2pageno (bpm_disk (ix_pool s))) (ix_pid s (root_no t)) f True x v"
    by (rule fetch_node_run [OF parts(1) room_mono [OF parts(2)] valid x]) simp
  let ?s = "s\<lparr>ix_pool := v\<rparr>"
  have "height t < depth_bound s" using height_pages [of t] parts(7) by (simp add: depth_bound_def)
  then obtain g u T d where "descend (depth_bound s) key f ?s = (Inr g, ?s\<lparr>ix_pool := u\<rparr>)"
    "pool.at_page T (ix_pool s) (fd2pageno (bpm_disk (ix_pool s))) (ix_pid s p) g True d u" "ix_page s p = Some d"
    "node_ok (ixhdr s) m d" "is_leaf_page d" "node_pairs (ixhdr s) d = ps" "valid_pno p"
    using descend_run [of "ixhdr s" key t p ps ps' t' m "ix_pool s" ?s "depth_bound s" "{ix_pid s (root_no t)}"
        "fd2pageno (bpm_disk (ix_pool s))" f x] lead parts v(2) x
    unfolding ix_page_def by auto
  then show ?thesis
    using v(1) parts(3) \<open>root_no t \<noteq> IX_NO_PAGE\<close> by (intro that) (auto simp: find_leaf_page_def prog_simps)
qed

lemma get_value_run:
  assumes s: "index_at s m t" and key: "key_ok (ixhdr s) key"
  obtains u where "get_value key s = (Inr (node_find (ixhdr s) (entries t) key), s\<lparr>ix_pool := u\<rparr>)"
    "bpm_inv u" "pins u = pins (ix_pool s)" "\<And>q y. view (ix_pool s) q = Some y \<Longrightarrow> view u q = Some y"
    "pool_size u = pool_size (ix_pool s)"
proof -
  have ord: "ordered (ixhdr s) t" using s by (simp add: index_at_def)
  obtain p ps t' where lead: "leads (ixhdr s) key t p ps ps t'" using leads_total [OF ord] by blast
  obtain g u T d where g: "find_leaf_page key s = (Inr (Some g), s\<lparr>ix_pool := u\<rparr>)"
    "pool.at_page T (ix_pool s) (fd2pageno (bpm_disk (ix_pool s))) (ix_pid s p) g True d u" "ix_page s p = Some d"
    "node_ok (ixhdr s) m d" "is_leaf_page d" "node_pairs (ixhdr s) d = ps" "valid_pno p"
    by (rule find_leaf_page_run [OF s lead])
  obtain v where v: "unpin_node g False (s\<lparr>ix_pool := u\<rparr>) = (Inr True, s\<lparr>ix_pool := u\<rparr>\<lparr>ix_pool := v\<rparr>)" "bpm_inv v"
      "view v (ix_pid s p) = Some d" "pins v = pins (ix_pool s)"
      "\<And>q y. q \<noteq> ix_pid s p \<Longrightarrow> view (ix_pool s) q = Some y \<Longrightarrow> view v q = Some y" "keeps T (ix_pool s) v"
    by (rule unpin_node_run [of T "ix_pool s" _ "ix_pid s p" g True d "s\<lparr>ix_pool := u\<rparr>" False]) (use g(2) in simp_all)
  have "ordered (ixhdr s) (BLeaf p ps)" using leads_ordered_leaf [OF lead ord] .
  then have inv: "node_inv (ixhdr s) m d" using g(4,6) by (simp add: node_inv_def)
  have find: "leaf_lookup (ixhdr s) d key = node_find (ixhdr s) (entries t) key"
    using leaf_lookup_find [OF inv key] leads_find [OF lead ord key] g(6) by simp
  have run: "get_value key s = (Inr (node_find (ixhdr s) (entries t) key), s\<lparr>ix_pool := v\<rparr>)"
    using g(1) v(1) find node_bytes_run [of T "ix_pool s" _ "ix_pid s p" g True d "s\<lparr>ix_pool := u\<rparr>"] g(2)
    by (simp add: get_value_def prog_simps)
  have views: "view v q = Some y" if "view (ix_pool s) q = Some y" for q y
    using that v(3,5) g(3) by (cases "q = ix_pid s p") (simp_all add: ix_page_def)
  show ?thesis by (rule that [OF run v(2,4)]) (use views v(6) in \<open>auto simp: keeps_def\<close>)
qed

section \<open>Inserting into a leaf with room\<close>

lemma leads_entries:
  "leads h key t p ps ps' t' \<Longrightarrow> \<exists>xs ys. entries t = xs @ ps @ ys \<and> entries t' = xs @ ps' @ ys"
proof (induction rule: leads.induct)
  case (leads_leaf p ps ps')
  then show ?case by (intro exI [of _ "[]"]) simp
next
  case (leads_node i cs p ps ps' c' q)
  let ?e = "\<lambda>kc. entries (snd kc)"
  from leads_node.IH obtain xs ys where xy: "?e (cs ! i) = xs @ ps @ ys" "entries c' = xs @ ps' @ ys" by blast
  let ?l = "concat (map ?e (take i cs))" and ?r = "concat (map ?e (drop (Suc i) cs))"
  have ent: "entries (BNode q ds) = concat (map ?e ds)" for ds by (simp add: case_prod_unfold)
  have "entries (BNode q cs) = ?l @ ?e (cs ! i) @ ?r"
    unfolding ent by (subst id_take_nth_drop [OF leads_node.hyps(2)]) simp
  moreover have "entries (BNode q (cs[i := (fst (cs ! i), c')])) = ?l @ entries c' @ ?r"
    unfolding ent upd_conv_take_nth_drop [OF leads_node.hyps(2)] by simp
  ultimately show ?case unfolding xy by (intro exI [of _ "?l @ xs"] exI [of _ "ys @ ?r"]) simp
qed

lemma leads_pages: "leads h key t p ps ps' t' \<Longrightarrow> page_nos t' = page_nos t"
proof (induction rule: leads.induct)
  case (leads_node i cs p ps ps' c' q)
  have "map (\<lambda>(k, c). page_nos c) (cs[i := (fst (cs ! i), c')]) = map (\<lambda>(k, c). page_nos c) cs"
    using leads_node.IH by (simp add: map_update case_prod_beta list_update_same_conv leads_node.hyps(2))
  then show ?case by simp
qed simp

lemma leads_page: "leads h key t p ps ps' t' \<Longrightarrow> p \<in> set (page_nos t)"
proof (induction rule: leads.induct)
  case (leads_node i cs p ps ps' c' q)
  then show ?case using nth_mem [OF leads_node.hyps(2)] by (auto simp: case_prod_beta)
qed simp

lemma distinct_concat_nth:
  "distinct (concat xss) \<Longrightarrow> i < length xss \<Longrightarrow> j < length xss \<Longrightarrow> i \<noteq> j \<Longrightarrow> set (xss ! i) \<inter> set (xss ! j) = {}"
proof (induction xss arbitrary: i j)
  case (Cons xs xss)
  have "set xs \<inter> set (xss ! k) = {}" if "k < length xss" for k
    using Cons.prems(1) nth_mem [OF that] by auto
  then show ?case using Cons by (cases i; cases j) (auto simp: Int_commute)
qed simp

lemma tree_at_other:
  "tree_at h m pg t \<Longrightarrow> (\<And>q. q \<in> set (page_nos t) \<Longrightarrow> pg' q = pg q) \<Longrightarrow> tree_at h m pg' t"
proof (induction t)
  case (BNode q cs)
  have "tree_at h m pg' c" if c: "(k, c) \<in> set cs" for k c
  proof (rule BNode.IH [OF c])
    show "tree_at h m pg c" using BNode.prems(1) c by auto
    show "pg' r = pg r" if "r \<in> set (page_nos c)" for r
      by (rule BNode.prems(2)) (use that c in auto)
  qed simp
  then show ?case using BNode.prems by (auto split: option.splits)
qed simp

lemma leads_tree_at:
  assumes "leads h key t p ps ps' t'" "tree_at h m pg t" "distinct (page_nos t)" "node_ok h m d" "is_leaf_page d"
    "node_pairs h d = ps'"
  shows "tree_at h m (pg(p \<mapsto> d)) t'"
  using assms
proof (induction rule: leads.induct)
  case (leads_node i cs p ps ps' c' q)
  have i: "i < length cs" by (rule leads_node.hyps(2))
  have c: "tree_at h m (pg(p \<mapsto> d)) c'"
    by (rule leads_node.IH) (use leads_node.prems nth_mem [OF i] in \<open>auto simp: case_prod_beta distinct_concat_iff\<close>)
  have p: "p \<in> set (page_nos (snd (cs ! i)))" by (rule leads_page [OF leads_node.hyps(3)])
  have other: "tree_at h m (pg(p \<mapsto> d)) (snd (cs ! j))" if j: "j < length cs" "j \<noteq> i" for j
  proof (rule tree_at_other)
    show "tree_at h m pg (snd (cs ! j))" using leads_node.prems(1) nth_mem [OF j(1)] by (auto simp: case_prod_beta)
    have "set (page_nos (snd (cs ! j))) \<inter> set (page_nos (snd (cs ! i))) = {}"
      using leads_node.prems(2) j i distinct_concat_nth [of "map (\<lambda>(k, c). page_nos c) cs" j i]
      by (simp add: case_prod_beta)
    then show "(pg(p \<mapsto> d)) q' = pg q'" if "q' \<in> set (page_nos (snd (cs ! j)))" for q' using that p by auto
  qed
  have "p \<noteq> q" using leads_node.prems(2) p nth_mem [OF i] by (auto simp: case_prod_beta)
  moreover have "map child_ref (cs[i := (fst (cs ! i), c')]) = map child_ref cs"
    using leads_root [OF leads_node.hyps(3)]
    by (simp add: map_update child_ref_def list_update_same_conv i)
  moreover have "\<forall>x \<in> set (cs[i := (fst (cs ! i), c')]). tree_at h m (pg(p \<mapsto> d)) (snd x)"
  proof
    fix x assume "x \<in> set (cs[i := (fst (cs ! i), c')])"
    then obtain j where "j < length cs" "x = cs[i := (fst (cs ! i), c')] ! j" by (auto simp only: in_set_conv_nth length_list_update)
    then show "tree_at h m (pg(p \<mapsto> d)) (snd x)" using c other [of j] by (cases "j = i") simp_all
  qed
  ultimately show ?case
    using leads_node.prems(1) by (simp add: case_prod_beta Ball_def del: fun_upd_apply split: option.splits) (simp add: fun_upd_def)
qed simp

lemma leads_ordered:
  assumes "leads h key t p ps ps' t'" "ordered h t" "key_ok h key" "ordered h (BLeaf p ps')"
    "\<forall>e \<in> set ps'. e \<in> set ps \<or> fst e = key"
  shows "ordered h t'"
  using assms
proof (induction rule: leads.induct)
  case (leads_node i cs p ps ps' c' q)
  let ?cs = "cs[i := (fst (cs ! i), c')]"
  have i: "i < length cs" by (rule leads_node.hyps(2))
  have c: "ordered h (snd (cs ! i))" using leads_node.prems(1) nth_mem [OF i] by (auto simp: case_prod_beta)
  have c': "ordered h c'" by (rule leads_node.IH [OF c leads_node.prems(2-4)])
  have s: "ko.sorted h (map fst cs)" "\<forall>k \<in> set (map fst cs). key_ok h k" using leads_node.prems(1) by simp_all
  have keys: "map fst ?cs = map fst cs" by (simp add: map_update list_update_same_conv i)
  have key_i: "0 < i \<Longrightarrow> key_cmp h (fst (cs ! i)) key \<le> 0"
    using child_pos_keys(1) [OF s leads_node.prems(2) leads_node.hyps(1)] i by simp
  have key_Suc: "key_cmp h key (fst (cs ! Suc i)) < 0" if "Suc i < length cs"
  proof -
    have "0 < key_cmp h (fst (cs ! Suc i)) key"
      using child_pos_keys(2) [OF s leads_node.prems(2), of "Suc i"] leads_node.hyps(1) that by simp
    moreover have "key_ok h (fst (cs ! Suc i))" using s(2) that by simp
    ultimately show ?thesis using ko.anti [of h "fst (cs ! Suc i)" key] leads_node.prems(2) by simp
  qed
  have new: "e \<in> set (entries (snd (cs ! i))) \<or> fst e = key" if "e \<in> set (entries c')" for e
    using that leads_entries [OF leads_node.hyps(3)] leads_node.prems(4) by auto
  have fst_upd: "fst (?cs ! j) = fst (cs ! j)" for j using i by (cases "j = i") simp_all
  have "between h ?cs j" if j: "j < length cs" for j
  proof (cases "j = i")
    case True
    have "between h cs i" using leads_node.prems(1) i by simp
    then show ?thesis using True i key_i key_Suc new by (auto simp: between_def fst_upd)
  next
    case False
    have "between h cs j" using leads_node.prems(1) j by simp
    then show ?thesis using False by (simp add: between_def fst_upd)
  qed
  moreover have "\<forall>x \<in> set ?cs. ordered h (snd x)"
    using c' leads_node.prems(1) set_update_subset_insert [of cs i "(fst (cs ! i), c')"] by (auto simp: case_prod_beta)
  ultimately show ?case using leads_node.prems(1) s keys by (simp add: case_prod_beta)
qed simp

lemma change_node_run:
  assumes at: "pool.at_page T b n pid f c x (ix_pool s)" and g: "\<And>t. g (ixhdr s) x t = (Inr y, t)" and len: "length y = PAGE_SIZE"
  obtains u where "change_node f g s = (Inr (), s\<lparr>ix_pool := u\<rparr>)" "pool.at_page T b n pid f False y u"
  by (rule pool.at_page_put [OF at len])
    (rule that, auto simp: change_node_def prog_simps node_bytes_run [OF at] g)

lemma index_at_after:
  assumes s: "index_at s m t" and lead: "leads (ixhdr s) key t p ps ps' t'" and ord: "ordered (ixhdr s) t'"
    and d: "node_ok (ixhdr s) m d" "is_leaf_page d" "node_pairs (ixhdr s) d = ps'"
    and u: "bpm_inv u" "view u (ix_pid s p) = Some d" "pins u = pins (ix_pool s)" "keeps T (ix_pool s) u"
      "\<And>q y. q \<noteq> ix_pid s p \<Longrightarrow> view (ix_pool s) q = Some y \<Longrightarrow> view u q = Some y"
  shows "index_at (s\<lparr>ix_pool := u\<rparr>) m t'"
proof -
  let ?pg = "ix_page (s\<lparr>ix_pool := u\<rparr>)"
  have parts: "tree_at (ixhdr s) m (ix_page s) t" "distinct (page_nos t)" "root_page (ixhdr s) = root_no t"
      "int (length (page_nos t)) \<le> ix_num_pages (ixhdr s)" "room 2 (ix_pool s)"
    using s by (simp_all add: index_at_def)
  have "tree_at (ixhdr s) m ((ix_page s)(p \<mapsto> d)) t'" by (rule leads_tree_at [OF lead parts(1,2) d])
  moreover have "?pg q = ((ix_page s)(p \<mapsto> d)) q" if q: "q \<in> set (page_nos t')" for q
  proof (cases "q = p")
    case False
    obtain y where "ix_page s q = Some y" using tree_at_pages [OF parts(1)] q leads_pages [OF lead] by auto
    then show ?thesis using False u(5) [of "ix_pid s q" y] by (simp add: ix_page_def ix_pid_def)
  qed (use u(2) in \<open>simp add: ix_page_def\<close>)
  ultimately have "tree_at (ixhdr s) m ?pg t'" by (rule tree_at_other)
  moreover have "room 2 u" using parts(5) pool.avail_same [OF u(4,3)] by simp
  ultimately show ?thesis
    using u(1) parts(2-4) ord leads_pages [OF lead] leads_root [OF lead] by (simp add: index_at_def)
qed

text \<open>The leaf with room for one more entry, whose first entry stays the first.\<close>

definition plain_insert :: "IxFileHdr \<Rightarrow> byte list \<Rightarrow> (byte list \<times> Rid) list \<Rightarrow> bool" where
  "plain_insert h key ps \<longleftrightarrow> int (length ps) + 1 < get_max_size h \<and> (ps = [] \<or> key_cmp h (fst (hd ps)) key < 0)"

lemma insert_entry_run:
  assumes s: "index_at s m t" and key: "key_ok (ixhdr s) key" and v: "rid_ok v" and m: "get_max_size (ixhdr s) \<le> int m"
    and lead: "\<And>ps'. \<exists>t'. leads (ixhdr s) key t p ps ps' t'" and room: "plain_insert (ixhdr s) key ps"
    and new: "node_find (ixhdr s) (entries t) key = None"
  obtains u t' i where "insert_entry key v s = (Inr p, s\<lparr>ix_pool := u\<rparr>)" "index_at (s\<lparr>ix_pool := u\<rparr>) m t'"
    "entries t' = take i (entries t) @ (key, v) # drop i (entries t)"
proof -
  let ?h = "ixhdr s"
  have ord: "ordered ?h t" using s by (simp add: index_at_def)
  obtain t0 where lead0: "leads ?h key t p ps ps t0" using lead by blast
  obtain g u T d where g: "find_leaf_page key s = (Inr (Some g), s\<lparr>ix_pool := u\<rparr>)"
    "pool.at_page T (ix_pool s) (fd2pageno (bpm_disk (ix_pool s))) (ix_pid s p) g True d u" "ix_page s p = Some d"
    "node_ok ?h m d" "is_leaf_page d" "node_pairs ?h d = ps" "valid_pno p"
    by (rule find_leaf_page_run [OF s lead0])
  have inv: "node_inv ?h m d" using g(4,6) leads_ordered_leaf [OF lead0 ord] by (simp add: node_inv_def)
  have none: "leaf_lookup ?h d key = None"
    using leaf_lookup_find [OF inv key] leads_find [OF lead0 ord key] g(6) new by simp
  have size: "get_size d = int (length ps)"
    using length_node_pairs [of ?h d] g(4,6) by (simp add: node_ok_def)
  let ?i = "node_lower_bound ?h d key"
  obtain d' where d': "\<forall>s :: IxState. node_insert ?h key v d s = (Inr (d', get_size d + 1), s)" "node_inv ?h m d'"
      "node_pairs ?h d' = take ?i ps @ (key, v) # drop ?i ps" "node_hdr d' = (node_hdr d)\<lparr>num_key := get_size d + 1\<rparr>"
    by (rule node_insert_run [where 's = IxState, OF inv key v _ none, unfolded g(6)])
      (use size room m in \<open>simp_all add: plain_insert_def\<close>)
  have leaf': "is_leaf_page d'" using g(5) d'(4) by (simp add: is_leaf_page_def)
  have size': "get_size d' = int (length ps) + 1" using d'(4) size by (simp add: get_size_def)
  let ?s1 = "s\<lparr>ix_pool := u\<rparr>"
  obtain w where w: "change_node g (\<lambda>h d. bindE (node_insert h key v d) (\<lambda>(d1, n). ret d1)) ?s1 = (Inr (), ?s1\<lparr>ix_pool := w\<rparr>)"
      "pool.at_page T (ix_pool s) (fd2pageno (bpm_disk (ix_pool s))) (ix_pid s p) g False d' w"
  proof (rule change_node_run)
    show "pool.at_page T (ix_pool s) (fd2pageno (bpm_disk (ix_pool s))) (ix_pid s p) g True d (ix_pool ?s1)" using g(2) by simp
    show "bindE (node_insert (ixhdr ?s1) key v d) (\<lambda>(d1, n). ret d1) t = (Inr d', t)" for t :: IxState using d'(1) by (simp add: prog_simps)
    show "length d' = PAGE_SIZE" using d'(2) by (simp add: node_inv_def node_ok_def)
  qed (rule that)
  let ?s2 = "s\<lparr>ix_pool := w\<rparr>"
  have first: "\<not> (0 < get_size d \<and> key_cmp ?h (get_key ?h d 0) (get_key ?h d' 0) \<noteq> 0)"
  proof (cases ps)
    case Nil
    then show ?thesis using size by simp
  next
    case (Cons e es)
    have lt: "key_cmp ?h (fst e) key < 0" using room Cons by (simp add: plain_insert_def)
    have keys: "map fst (node_pairs ?h d) ! 0 = fst e" using g(6) Cons by simp
    have "ko.sorted ?h (map fst ps)" "\<forall>k \<in> set (map fst ps). key_ok ?h k" using leads_ordered_leaf [OF lead0 ord] by simp_all
    note lb = ko.lower_bound [OF this key]
    have "?i \<noteq> 0"
      using lb(3) lt node_lower_bound_keys [OF g(4), of key] g(6) Cons by (auto dest: spec [of _ 0])
    then have "node_pairs ?h d' ! 0 = e" using d'(3) Cons by (cases ?i) simp_all
    then have eq: "get_key ?h d' 0 = fst e" "get_key ?h d 0 = fst e"
      using nth_node_pairs [of 0 d' ?h] nth_node_pairs [of 0 d ?h] size size' g(6) Cons by (auto simp: get_pair_def)
    have "key_ok ?h (fst e)" using leads_ordered_leaf [OF lead0 ord] Cons by simp
    then show ?thesis using eq by (simp add: ko.refl)
  qed
  obtain x where x: "unpin_node g True ?s2 = (Inr True, ?s2\<lparr>ix_pool := x\<rparr>)" "bpm_inv x"
      "view x (ix_pid s p) = Some d'" "pins x = pins (ix_pool s)"
      "\<And>q y. q \<noteq> ix_pid s p \<Longrightarrow> view (ix_pool s) q = Some y \<Longrightarrow> view x q = Some y" "keeps T (ix_pool s) x"
    by (rule unpin_node_run [of T "ix_pool s" _ "ix_pid s p" g False d' ?s2 True]) (use w(2) in simp_all)
  have "root_page ?h \<noteq> IX_NO_PAGE"
    using s tree_at_root(1) [of ?h m "ix_page s" t] by (auto simp: index_at_def valid_pno_def IX_NO_PAGE_def)
  moreover have "\<not> get_max_size ?h \<le> get_size d'" using room size' by (simp add: plain_insert_def)
  moreover have "node_bytes g ?s1 = (Inr d, ?s1)" by (rule node_bytes_run) (use g(2) in simp)
  moreover have "node_bytes g ?s2 = (Inr d', ?s2)" by (rule node_bytes_run) (use w(2) in simp)
  moreover have "node_no g ?s2 = (Inr (pid_no (ix_pid s p)), ?s2)" by (rule node_no_run) (use w(2) in simp)
  moreover have "(0 < get_size d \<and> key_cmp ?h (get_key ?h d 0) (get_key ?h d' 0) \<noteq> 0) = False" using first by blast
  ultimately have run: "insert_entry key v s = (Inr p, s\<lparr>ix_pool := x\<rparr>)"
    using g(1) w(1) x(1) by (auto simp: insert_entry_def prog_simps ix_pid_def)
  obtain t' where t': "leads ?h key t p ps (node_pairs ?h d') t'" using lead by blast
  have "ordered ?h (BLeaf p (node_pairs ?h d'))" using d'(2) by (simp add: node_inv_def)
  then have ord': "ordered ?h t'"
    by (rule leads_ordered [OF t' ord key]) (use d'(3) in \<open>auto dest: in_set_takeD in_set_dropD\<close>)
  have at: "index_at (s\<lparr>ix_pool := x\<rparr>) m t'"
    by (rule index_at_after [OF s t' ord' _ leaf' refl x(2,3,4,6,5)]) (use d'(2) in \<open>simp add: node_inv_def\<close>)
  obtain xs ys where xy: "entries t = xs @ ps @ ys" "entries t' = xs @ node_pairs ?h d' @ ys"
    using leads_entries [OF t'] by blast
  have "?i \<le> length ps" using ko.lower_bound(1) [of ?h "map fst ps" key] leads_ordered_leaf [OF lead0 ord] key
      node_lower_bound_keys [OF g(4), of key] g(6) by simp
  then have "entries t' = take (length xs + ?i) (entries t) @ (key, v) # drop (length xs + ?i) (entries t)"
    using xy d'(3) by simp
  with run at show ?thesis by (rule that)
qed

lemma insert_entry_duplicate:
  assumes s: "index_at s m t" and key: "key_ok (ixhdr s) key" and dup: "node_find (ixhdr s) (entries t) key = Some r"
  shows "fst (insert_entry key v s) = Inl (RMDBError ''Duplicate entry for unique index'')"
proof -
  have ord: "ordered (ixhdr s) t" using s by (simp add: index_at_def)
  obtain p ps t' where lead: "leads (ixhdr s) key t p ps ps t'" using leads_total [OF ord] by blast
  obtain g u T d where g: "find_leaf_page key s = (Inr (Some g), s\<lparr>ix_pool := u\<rparr>)"
    "pool.at_page T (ix_pool s) (fd2pageno (bpm_disk (ix_pool s))) (ix_pid s p) g True d u" "ix_page s p = Some d"
    "node_ok (ixhdr s) m d" "is_leaf_page d" "node_pairs (ixhdr s) d = ps" "valid_pno p"
    by (rule find_leaf_page_run [OF s lead])
  have inv: "node_inv (ixhdr s) m d" using g(4,6) leads_ordered_leaf [OF lead ord] by (simp add: node_inv_def)
  have look: "leaf_lookup (ixhdr s) d key = Some r"
    using leaf_lookup_find [OF inv key] leads_find [OF lead ord key] g(6) dup by simp
  have "root_page (ixhdr s) \<noteq> IX_NO_PAGE"
    using s tree_at_root(1) [of "ixhdr s" m "ix_page s" t] by (auto simp: index_at_def valid_pno_def IX_NO_PAGE_def)
  then show ?thesis
    using g(1) node_bytes_run [of T "ix_pool s" _ "ix_pid s p" g True d "s\<lparr>ix_pool := u\<rparr>"] g(2)
    by (simp add: insert_entry_def change_node_def prog_simps node_insert_duplicate [OF look])
qed

lemma index_at_same:
  assumes s: "index_at s m t" and u: "bpm_inv u" "pins u = pins (ix_pool s)" "pool_size u = pool_size (ix_pool s)"
      "\<And>q y. view (ix_pool s) q = Some y \<Longrightarrow> view u q = Some y"
  shows "index_at (s\<lparr>ix_pool := u\<rparr>) m t"
proof -
  have tree: "tree_at (ixhdr s) m (ix_page s) t" and room: "room 2 (ix_pool s)" using s by (simp_all add: index_at_def)
  have "tree_at (ixhdr s) m (ix_page (s\<lparr>ix_pool := u\<rparr>)) t"
  proof (rule tree_at_other [OF tree])
    fix q assume "q \<in> set (page_nos t)"
    then obtain d where "ix_page s q = Some d" using tree_at_pages [OF tree] by blast
    then show "ix_page (s\<lparr>ix_pool := u\<rparr>) q = ix_page s q" using u(4) [of "ix_pid s q" d] by (simp add: ix_page_def)
  qed
  moreover have "room 2 u" using room room_same [OF u(2,3)] by simp
  ultimately show ?thesis using s u(1) by (simp add: index_at_def)
qed

section \<open>Properties\<close>

text \<open>An index on one INT column with a root over two leaves, for the examples below.\<close>

definition two_level_hdr :: IxFileHdr where
  "two_level_hdr = index_hdr [\<lparr>cm_tab_name = ''t'', cm_name = ''a'', cm_type = TYPE_INT, cm_len = 4, cm_offset = 0, cm_index = False\<rparr>]"

definition int_key :: "int \<Rightarrow> byte list" where
  "int_key n = enc_le 4 n"

definition two_level_tree :: bptree where
  "two_level_tree = BNode 2
     [(int_key 5, BLeaf 3 [(int_key 5, \<lparr>page_no = 1, slot_no = 0\<rparr>)]),
      (int_key 9, BLeaf 4 [(int_key 9, \<lparr>page_no = 1, slot_no = 1\<rparr>), (int_key 12, \<lparr>page_no = 1, slot_no = 2\<rparr>)])]"

definition page_of :: "bool \<Rightarrow> (byte list \<times> Rid) list \<Rightarrow> byte list" where
  "page_of leaf ps = (case fst (insert_pairs two_level_hdr 0 ps (set_size 0 (set_is_leaf leaf zero_page)) ()) of Inr d \<Rightarrow> d | Inl e \<Rightarrow> [])"

definition two_level_file :: "byte list" where
  "two_level_file = zero_page @ zero_page @
     page_of False [(int_key 5, \<lparr>page_no = 3, slot_no = -1\<rparr>), (int_key 9, \<lparr>page_no = 4, slot_no = -1\<rparr>)] @
     page_of True [(int_key 5, \<lparr>page_no = 1, slot_no = 0\<rparr>)] @
     page_of True [(int_key 9, \<lparr>page_no = 1, slot_no = 1\<rparr>), (int_key 12, \<lparr>page_no = 1, slot_no = 2\<rparr>)]"

definition two_level :: IxState where
  "two_level = \<lparr>ix_pool = new_BufferPoolManager 2 (new_DiskManager (one_file_os two_level_file)),
     ix_ih = \<lparr>ih_fd = 3, ih_hdr = two_level_hdr\<rparr>\<rparr>"

lemma two_level_hdr_parts:
  "ixhdr two_level = two_level_hdr" "root_page two_level_hdr = 2" "ix_num_pages two_level_hdr = 3"
  "col_types two_level_hdr = [TYPE_INT]" "col_lens two_level_hdr = [4]" "ix_col_tot_len two_level_hdr = 4"
  "keys_size two_level_hdr = 1356" "btree_order two_level_hdr = 338"
  by (simp_all add: two_level_def ixhdr_def two_level_hdr_def index_hdr_def update_tot_len_def new_IxFileHdr_def order_of_def
      Let_def PAGE_SIZE_def IX_INIT_ROOT_PAGE_def IX_INIT_NUM_PAGES_def)

lemma int_key_ok: "key_ok two_level_hdr (int_key n)" "length (int_key n) = 4"
  by (simp_all add: key_ok_def two_level_hdr_parts int_key_def)

lemma int_key_cmp:
  "fits_signed 4 a \<Longrightarrow> fits_signed 4 b \<Longrightarrow> key_cmp two_level_hdr (int_key a) (int_key b) = sign_of a b"
  by (simp add: key_cmp_def two_level_hdr_parts int_key_def load_i32_def dec_signed_enc sign_of_def)

lemma page_of_ok:
  assumes "length ps \<le> 339" "\<forall>p \<in> set ps. entry_ok two_level_hdr p"
  shows "node_ok two_level_hdr 339 (page_of leaf ps)" "node_pairs two_level_hdr (page_of leaf ps) = ps"
    "is_leaf_page (page_of leaf ps) = leaf" "length (page_of leaf ps) = PAGE_SIZE"
proof -
  let ?z = "set_size 0 (set_is_leaf leaf zero_page)"
  have fits: "node_fits two_level_hdr 339" by (simp add: node_fits_def two_level_hdr_parts PAGE_SIZE_def)
  have len: "length (set_is_leaf leaf zero_page) = PAGE_SIZE" by (simp add: set_is_leaf_def zero_page_def)
  have zero: "fits_signed 4 0" by (simp add: fits_signed_def)
  note rd = set_size_read [OF len zero]
  have "is_leaf_page (set_is_leaf leaf zero_page) = leaf"
    by (simp add: is_leaf_page_def node_hdr_def set_is_leaf_def zero_page_def PAGE_SIZE_def)
  then have z: "length ?z = PAGE_SIZE" "get_size ?z = 0" "is_leaf_page ?z = leaf"
    using rd(1,2,3) by (simp_all add: is_leaf_page_def)
  have ok: "node_ok two_level_hdr 339 ?z" using fits z by (simp add: node_ok_def)
  obtain d where d: "\<forall>s :: unit. insert_pairs two_level_hdr 0 ps ?z s = (Inr d, s)" "node_ok two_level_hdr 339 d"
    "node_pairs two_level_hdr d = take 0 (node_pairs two_level_hdr ?z) @ ps @ drop 0 (node_pairs two_level_hdr ?z)"
    "node_hdr d = (node_hdr ?z)\<lparr>num_key := get_size ?z + int (length ps)\<rparr>"
    by (rule insert_pairs_ok [where 'a = unit and pos = 0 and ps = ps, OF ok _ _ assms(2)]) (use z assms in simp_all)
  have page: "page_of leaf ps = d" using d(1) by (simp add: page_of_def)
  have "node_pairs two_level_hdr ?z = []" using z(2) by (simp add: node_pairs_def)
  then show "node_ok two_level_hdr 339 (page_of leaf ps)" "node_pairs two_level_hdr (page_of leaf ps) = ps"
    "is_leaf_page (page_of leaf ps) = leaf" "length (page_of leaf ps) = PAGE_SIZE"
    using d(2-4) z(3) by (simp_all add: page is_leaf_page_def node_ok_def)
qed

lemma two_level_entries:
  "\<forall>p \<in> set ps. \<exists>n r. p = (int_key n, r) \<and> rid_ok r \<Longrightarrow> \<forall>p \<in> set ps. entry_ok two_level_hdr p"
  by (auto simp: entry_ok_def two_level_hdr_parts int_key_def)

lemma two_level_pool:
  "page_table (ix_pool two_level) q = None" "pool_size (ix_pool two_level) = 2" "ih_fd (ix_ih two_level) = 3"
  "fd_data (bpm_disk (ix_pool two_level)) 3 = two_level_file"
  by (simp_all add: two_level_def new_BufferPoolManager_def fd_data_def one_file_inode)
    (simp add: new_DiskManager_def one_file_os_def)

lemma two_level_at: "index_at two_level 339 two_level_tree"
proof -
  let ?ri = "[(int_key 5, \<lparr>page_no = 3, slot_no = -1\<rparr>), (int_key 9, \<lparr>page_no = 4, slot_no = -1\<rparr>)] :: (byte list \<times> Rid) list"
    and ?l1 = "[(int_key 5, \<lparr>page_no = 1, slot_no = 0\<rparr>)] :: (byte list \<times> Rid) list"
    and ?l2 = "[(int_key 9, \<lparr>page_no = 1, slot_no = 1\<rparr>), (int_key 12, \<lparr>page_no = 1, slot_no = 2\<rparr>)] :: (byte list \<times> Rid) list"
  have e: "\<forall>p \<in> set ?ri. entry_ok two_level_hdr p" "\<forall>p \<in> set ?l1. entry_ok two_level_hdr p" "\<forall>p \<in> set ?l2. entry_ok two_level_hdr p"
    by (simp_all add: entry_ok_def two_level_hdr_parts int_key_def rid_ok_def fits_signed_def)
  note ri = page_of_ok [OF _ e(1), of False] and l1 = page_of_ok [OF _ e(2), of True] and l2 = page_of_ok [OF _ e(3), of True]
  have pg: "ix_page two_level 2 = Some (page_of False ?ri)" "ix_page two_level 3 = Some (page_of True ?l1)"
    "ix_page two_level 4 = Some (page_of True ?l2)"
    using ri(4) l1(4) l2(4)
    by (simp_all add: ix_page_def view_def two_level_pool page_on_disk_def disk_page_def ix_pid_def valid_pno_def
        two_level_file_def read_at_def zero_page_def)
  have "tree_at two_level_hdr 339 (ix_page two_level) two_level_tree"
    using ri l1 l2 pg by (simp add: two_level_tree_def valid_pno_def child_ref_def)
  moreover have "ordered two_level_hdr two_level_tree"
    by (simp add: two_level_tree_def int_key_ok int_key_cmp fits_signed_def sign_of_def ko.sorted_def between_def
        numeral_2_eq_2)
  moreover have "bpm_inv (ix_pool two_level)" by (simp add: two_level_def bpm_inv_new [OF one_file_wf])
  moreover have "room 2 (ix_pool two_level)" by (simp add: room_def pinned_def pins_def two_level_pool)
  ultimately show ?thesis by (simp add: index_at_def two_level_hdr_parts two_level_tree_def)
qed

text \<open>C10 Searching a B+-tree of any height finds exactly the entries of its leaves: on an index whose pages
  hold an ordered tree, \<open>get_value\<close> returns the record identifier stored with the key, or nothing when no
  leaf holds the key. It terminates within the bound on the depth, leaves the header and the contents of
  every page of every file as they were, and gives back every pin it takes.\<close>

theorem get_value_correct:
  assumes "index_at s m t" and "key_ok (ixhdr s) key"
  shows "\<exists>s'. get_value key s = (Inr (node_find (ixhdr s) (entries t) key), s') \<and> index_at s' m t \<and>
    ix_ih s' = ix_ih s \<and> pins (ix_pool s') = pins (ix_pool s) \<and>
    (\<forall>q y. view (ix_pool s) q = Some y \<longrightarrow> view (ix_pool s') q = Some y)"
proof -
  obtain u where u: "get_value key s = (Inr (node_find (ixhdr s) (entries t) key), s\<lparr>ix_pool := u\<rparr>)"
    "bpm_inv u" "pins u = pins (ix_pool s)" "\<And>q y. view (ix_pool s) q = Some y \<Longrightarrow> view u q = Some y"
    "pool_size u = pool_size (ix_pool s)"
    by (rule get_value_run [OF assms]) (rule that)
  have "index_at (s\<lparr>ix_pool := u\<rparr>) m t" by (rule index_at_same [OF assms(1) u(2,3,5,4)])
  then show ?thesis using u by (intro exI [of _ "s\<lparr>ix_pool := u\<rparr>"]) simp
qed

theorem get_value_correct_witness:
  "fst (get_value (int_key 12) two_level) = Inr (Some \<lparr>page_no = 1, slot_no = 2\<rparr>) \<and>
   fst (get_value (int_key 6) two_level) = Inr None"
proof -
  have ok: "key_ok (ixhdr two_level) (int_key n)" for n by (simp add: two_level_hdr_parts int_key_ok)
  have "fst (get_value (int_key n) two_level) = Inr (node_find two_level_hdr (entries two_level_tree) (int_key n))" for n
    using get_value_correct [OF two_level_at ok, of n] by (auto simp: two_level_hdr_parts)
  then show ?thesis by (simp add: two_level_tree_def node_find_def int_key_cmp fits_signed_def sign_of_def)
qed



end
