(* ===== verification/Executor.thy ===== *)
theory Executor
  imports Predicates
begin

text \<open>
  \<^verbatim>\<open>execution/executor_abstract.h\<close> and \<^verbatim>\<open>executor_projection.h\<close>: the interface of the executors and the projection. An executor class is the record of its
  virtual functions over its own state \<open>'x\<close> and the state \<open>'s\<close> of the database; a node of the tree
  keeps the states of its children. The contract \<open>row_source\<close> says that an executor, driven the way
  its clients do, delivers a list of rows; the projection is shown to keep it when its child does.
\<close>

section \<open>AbstractExecutor\<close>

record ('x, 's) ops =
  op_begin :: "'x \<Rightarrow> ('s, 'x) prog"
  op_next :: "'x \<Rightarrow> ('s, 'x) prog"
  op_is_end :: "'x \<Rightarrow> 's \<Rightarrow> bool"
  op_Next :: "'x \<Rightarrow> ('s, byte list option \<times> 'x) prog"
  op_cols :: "'x \<Rightarrow> ColMeta list"
  op_len :: "'x \<Rightarrow> nat"

text \<open>\<^verbatim>\<open>get_col\<close> gives an iterator: its position.\<close>

definition exec_get_col :: "ColMeta list \<Rightarrow> TabCol \<Rightarrow> ('s, nat) prog" where
  "exec_get_col rec_cols target =
     (case find_pos (col_is target) rec_cols of
        Some i \<Rightarrow> ret i
      | None \<Rightarrow> raise (ColumnNotFoundError (tc_tab_name target @ ''.'' @ tc_col_name target)))"

text \<open>
  The loop \<^verbatim>\<open>for (; !e.is_end(); e.nextTuple()) { rec = e.Next(); if (rec == nullptr) break; ... }\<close>
  that the clients of an executor run, with the fold of its body.
\<close>

fun exec_loop :: "nat \<Rightarrow> ('x, 's) ops \<Rightarrow> (byte list \<Rightarrow> 'a \<Rightarrow> 'a) \<Rightarrow> 'a \<Rightarrow> 'x \<Rightarrow> ('s, 'a \<times> 'x) prog" where
  "exec_loop 0 E f a x = raise OutOfFuel"
| "exec_loop (Suc n) E f a x =
     bindE (gets (op_is_end E x)) (\<lambda>e.
       if e then ret (a, x)
       else bindE (op_Next E x) (\<lambda>(r, x).
         case r of
           None \<Rightarrow> ret (a, x)
         | Some row \<Rightarrow> bindE (op_next E x) (\<lambda>x. exec_loop n E f (f row a) x)))"

text \<open>Begin an executor and collect its rows.\<close>

definition run_exec :: "nat \<Rightarrow> ('x, 's) ops \<Rightarrow> 'x \<Rightarrow> ('s, byte list list) prog" where
  "run_exec n E x =
     bindE (op_begin E x) (\<lambda>x. bindE (exec_loop n E (\<lambda>r rs. rs @ [r]) [] x) (\<lambda>(rs, x). ret rs))"

section \<open>The contract\<close>

text \<open>
  \<open>ready x s rs\<close>: \<^verbatim>\<open>beginTuple\<close> will deliver \<open>rs\<close>. \<open>at x s rs\<close>: the rows \<open>rs\<close> are still to come.
  \<open>got x s rs\<close>: \<^verbatim>\<open>Next\<close> has returned a row and \<open>rs\<close> come after it. \<open>frame s t\<close>: what other executors keep
  between \<open>s\<close> and \<open>t\<close>. An executor may find out only in \<^verbatim>\<open>Next\<close> that there is no row left.
\<close>

locale row_source =
  fixes E :: "('x, 's) ops"
    and frame :: "'s \<Rightarrow> 's \<Rightarrow> bool"
    and ready :: "'x \<Rightarrow> 's \<Rightarrow> byte list list \<Rightarrow> bool"
    and at :: "'x \<Rightarrow> 's \<Rightarrow> byte list list \<Rightarrow> bool"
    and got :: "'x \<Rightarrow> 's \<Rightarrow> byte list list \<Rightarrow> bool"
  assumes frame_refl: "frame s s"
    and frame_trans: "frame s t \<Longrightarrow> frame t u \<Longrightarrow> frame s u"
    and ready_stable: "ready x s rs \<Longrightarrow> frame s t \<Longrightarrow> ready x t rs"
    and at_stable: "at x s rs \<Longrightarrow> frame s t \<Longrightarrow> at x t rs"
    and got_stable: "got x s rs \<Longrightarrow> frame s t \<Longrightarrow> got x t rs"
    and begin_ok: "ready x s rs \<Longrightarrow> \<exists>y t. op_begin E x s = (Inr y, t) \<and> frame s t \<and> at y t rs \<and>
      op_cols E y = op_cols E x \<and> op_len E y = op_len E x"
    and is_end_ok: "at x s rs \<Longrightarrow> op_is_end E x s \<Longrightarrow> rs = []"
    and Next_none: "at x s [] \<Longrightarrow> \<exists>y t. op_Next E x s = (Inr (None, y), t) \<and> frame s t \<and> at y t [] \<and>
      op_cols E y = op_cols E x \<and> op_len E y = op_len E x"
    and Next_some: "at x s (r # rs) \<Longrightarrow> \<exists>y t. op_Next E x s = (Inr (Some r, y), t) \<and> frame s t \<and> got y t rs \<and>
      op_cols E y = op_cols E x \<and> op_len E y = op_len E x"
    and next_ok: "got x s rs \<Longrightarrow> \<exists>y t. op_next E x s = (Inr y, t) \<and> frame s t \<and> at y t rs \<and>
      op_cols E y = op_cols E x \<and> op_len E y = op_len E x"
    and ready_len: "ready x s rs \<Longrightarrow> r \<in> set rs \<Longrightarrow> length r = op_len E x"
    and at_len: "at x s rs \<Longrightarrow> r \<in> set rs \<Longrightarrow> length r = op_len E x"
begin

definition kept :: "'x \<Rightarrow> 'x \<Rightarrow> bool" where
  "kept x y \<longleftrightarrow> op_cols E y = op_cols E x \<and> op_len E y = op_len E x"

lemma kept_trans: "kept x y \<Longrightarrow> kept y z \<Longrightarrow> kept x z"
  by (simp add: kept_def)

lemma loop_ok:
  assumes "at x s rs" "length rs < n"
  shows "\<exists>y t. exec_loop n E f a x s = (Inr (fold f rs a, y), t) \<and> frame s t \<and> kept x y"
  using assms
proof (induction n arbitrary: x s rs a)
  case (Suc n)
  show ?case
  proof (cases rs)
    case Nil
    then show ?thesis
      using Suc.prems(1) Next_none [of x s] frame_refl
      by (cases "op_is_end E x s") (auto simp: prog_simps kept_def)
  next
    case (Cons r rs')
    have ne: "\<not> op_is_end E x s" using is_end_ok [OF Suc.prems(1)] Cons by blast
    obtain y t where y: "op_Next E x s = (Inr (Some r, y), t)" "frame s t" "got y t rs'" "kept x y"
      using Next_some [of x s r rs'] Suc.prems(1) Cons by (auto simp: kept_def)
    obtain z u where z: "op_next E y t = (Inr z, u)" "frame t u" "at z u rs'" "kept y z"
      using next_ok [OF y(3)] by (auto simp: kept_def)
    obtain w v where w: "exec_loop n E f (f r a) z u = (Inr (fold f rs' (f r a), w), v)" "frame u v" "kept z w"
      using Suc.IH [OF z(3), of "f r a"] Suc.prems(2) Cons by auto
    have "frame s v" "kept x w" using y z w frame_trans kept_trans by blast+
    then show ?thesis using ne y z w Cons by (simp add: prog_simps)
  qed
qed simp

lemma fold_snoc: "fold (\<lambda>r rs. rs @ [r]) rs a = a @ rs"
  by (induction rs arbitrary: a) auto

lemma run_exec_ok:
  assumes "ready x s rs" "length rs < n"
  shows "\<exists>t. run_exec n E x s = (Inr rs, t) \<and> frame s t"
proof -
  obtain y t where y: "op_begin E x s = (Inr y, t)" "frame s t" "at y t rs"
    using begin_ok [OF assms(1)] by blast
  obtain z u where "exec_loop n E (\<lambda>r rs. rs @ [r]) [] y t = (Inr (rs, z), u)" "frame t u"
    using loop_ok [OF y(3) assms(2), of "\<lambda>r rs. rs @ [r]" "[]"] by (auto simp: fold_snoc)
  with y show ?thesis using frame_trans by (auto simp: run_exec_def prog_simps)
qed

end

text \<open>An executor that may be begun again at any time, as the right side of a join is.\<close>

locale rescan_source = row_source E frame ready at got
  for E :: "('x, 's) ops"
    and frame :: "'s \<Rightarrow> 's \<Rightarrow> bool"
    and ready :: "'x \<Rightarrow> 's \<Rightarrow> byte list list \<Rightarrow> bool"
    and at :: "'x \<Rightarrow> 's \<Rightarrow> byte list list \<Rightarrow> bool"
    and got :: "'x \<Rightarrow> 's \<Rightarrow> byte list list \<Rightarrow> bool" +
  assumes begin_ready: "ready x s rs \<Longrightarrow> op_begin E x s = (Inr y, t) \<Longrightarrow> ready y t rs"
    and Next_ready: "ready x s rs \<Longrightarrow> at x s qs \<Longrightarrow> op_Next E x s = (Inr (r, y), t) \<Longrightarrow> ready y t rs"
    and next_ready: "ready x s rs \<Longrightarrow> got x s qs \<Longrightarrow> op_next E x s = (Inr y, t) \<Longrightarrow> ready y t rs"
begin

lemma loop_ready:
  assumes "ready x s all" "at x s rs" "exec_loop n E f a x s = (Inr (b, y), t)"
  shows "ready y t all"
  using assms
proof (induction n arbitrary: x s rs a)
  case (Suc n)
  show ?case
  proof (cases rs)
    case Nil
    obtain y' t' where "op_Next E x s = (Inr (None, y'), t')" using Next_none Suc.prems(2) Nil by blast
    then show ?thesis
      using Suc.prems Next_ready by (auto simp: prog_simps split: if_splits)
  next
    case (Cons r rs')
    have ne: "\<not> op_is_end E x s" using is_end_ok [OF Suc.prems(2)] Cons by blast
    obtain y' t' where y: "op_Next E x s = (Inr (Some r, y'), t')" "got y' t' rs'"
      using Next_some [of x s r rs'] Suc.prems(2) Cons by blast
    obtain z u where z: "op_next E y' t' = (Inr z, u)" "at z u rs'" using next_ok [OF y(2)] by blast
    have "ready z u all"
      using next_ready [OF Next_ready [OF Suc.prems(1,2) y(1)] y(2) z(1)] .
    from Suc.IH [OF this z(2)] Suc.prems(3) ne y z show ?thesis by (simp add: prog_simps)
  qed
qed (simp add: prog_simps)

end

text \<open>An executor that knows its end: it says so as soon as no row is left.\<close>

locale exact_source = row_source E frame ready at got
  for E :: "('x, 's) ops"
    and frame :: "'s \<Rightarrow> 's \<Rightarrow> bool"
    and ready :: "'x \<Rightarrow> 's \<Rightarrow> byte list list \<Rightarrow> bool"
    and at :: "'x \<Rightarrow> 's \<Rightarrow> byte list list \<Rightarrow> bool"
    and got :: "'x \<Rightarrow> 's \<Rightarrow> byte list list \<Rightarrow> bool" +
  assumes end_exact: "at x s [] \<Longrightarrow> op_is_end E x s"

section \<open>ProjectionExecutor\<close>

record 'x Projection =
  pj_prev :: 'x
  pj_cols :: "ColMeta list"
  pj_len :: nat
  pj_sel :: "nat list"

text \<open>The loop of the constructor: positions and output columns, laid out one behind the other.\<close>

fun proj_layout :: "ColMeta list \<Rightarrow> TabCol list \<Rightarrow> int \<Rightarrow> ('s, (nat \<times> ColMeta) list \<times> int) prog" where
  "proj_layout prev_cols [] off = ret ([], off)"
| "proj_layout prev_cols (sel # sels) off =
     bindE (exec_get_col prev_cols sel) (\<lambda>i.
     let col = (prev_cols ! i)\<lparr>cm_offset := off\<rparr> in
     bindE (proj_layout prev_cols sels (off + cm_len col)) (\<lambda>(cs, off'). ret ((i, col) # cs, off')))"

definition new_Projection :: "('x, 's) ops \<Rightarrow> 'x \<Rightarrow> TabCol list \<Rightarrow> ('s, 'x Projection) prog" where
  "new_Projection E prev sel_cols =
     bindE (proj_layout (op_cols E prev) sel_cols 0) (\<lambda>(cs, off).
       ret \<lparr>pj_prev = prev, pj_cols = map snd cs, pj_len = nat off, pj_sel = map fst cs\<rparr>)"

text \<open>The output buffer is filled completely: the columns follow each other.\<close>

definition proj_row :: "ColMeta list \<Rightarrow> 'x Projection \<Rightarrow> byte list \<Rightarrow> byte list" where
  "proj_row prev_cols p prev_rec =
     fold (\<lambda>(i, c) rec. write_at rec (nat (cm_offset c)) (read_at prev_rec (nat (cm_offset (prev_cols ! i))) (nat (cm_len c))))
       (zip (pj_sel p) (pj_cols p)) (replicate (pj_len p) 0)"

definition proj_Next :: "('x, 's) ops \<Rightarrow> 'x Projection \<Rightarrow> ('s, byte list option \<times> 'x Projection) prog" where
  "proj_Next E p =
     bindE (op_Next E (pj_prev p)) (\<lambda>(r, prev).
       case r of
         None \<Rightarrow> ret (None, p\<lparr>pj_prev := prev\<rparr>)
       | Some prev_rec \<Rightarrow> ret (Some (proj_row (op_cols E prev) p prev_rec), p\<lparr>pj_prev := prev\<rparr>))"

definition projection_ops :: "('x, 's) ops \<Rightarrow> ('x Projection, 's) ops" where
  "projection_ops E =
     \<lparr>op_begin = (\<lambda>p. bindE (op_begin E (pj_prev p)) (\<lambda>x. ret (p\<lparr>pj_prev := x\<rparr>))),
      op_next = (\<lambda>p. bindE (op_next E (pj_prev p)) (\<lambda>x. ret (p\<lparr>pj_prev := x\<rparr>))),
      op_is_end = (\<lambda>p. op_is_end E (pj_prev p)),
      op_Next = proj_Next E,
      op_cols = pj_cols,
      op_len = pj_len\<rparr>"

text \<open>The columns lie one behind the other from \<open>off\<close> on, each a column of the child moved there.\<close>

fun laid_out :: "ColMeta list \<Rightarrow> nat \<Rightarrow> int \<Rightarrow> (nat \<times> ColMeta) list \<Rightarrow> int \<Rightarrow> bool" where
  "laid_out prev n off [] stop \<longleftrightarrow> stop = off"
| "laid_out prev n off ((i, c) # cs) stop \<longleftrightarrow>
     i < length prev \<and> col_fits n (prev ! i) \<and> c = (prev ! i)\<lparr>cm_offset := off\<rparr> \<and> laid_out prev n (off + cm_len c) cs stop"

definition project :: "ColMeta list \<Rightarrow> nat list \<Rightarrow> byte list \<Rightarrow> byte list" where
  "project prev sel row = concat (map (\<lambda>i. read_at row (nat (cm_offset (prev ! i))) (nat (cm_len (prev ! i)))) sel)"

definition proj_wf :: "('x, 's) ops \<Rightarrow> 'x Projection \<Rightarrow> bool" where
  "proj_wf E p \<longleftrightarrow> length (pj_sel p) = length (pj_cols p) \<and>
     laid_out (op_cols E (pj_prev p)) (op_len E (pj_prev p)) 0 (zip (pj_sel p) (pj_cols p)) (int (pj_len p))"

lemma write_at_end:
  "write_at (pre @ replicate m 0) (length pre) bs = pre @ bs @ replicate (m - length bs) 0"
  by (simp add: write_at_def)

lemma laid_out_mono: "laid_out prev n off cs stop \<Longrightarrow> off \<le> stop"
  by (induction prev n off cs stop rule: laid_out.induct) (auto simp: col_fits_def)

lemma project_fill:
  assumes "laid_out prev n (int (length pre)) cs (int stop)" "length row = n"
  shows "fold (\<lambda>(i, c) rec. write_at rec (nat (cm_offset c)) (read_at row (nat (cm_offset (prev ! i))) (nat (cm_len c))))
      cs (pre @ replicate (stop - length pre) 0) = pre @ project prev (map fst cs) row"
  using assms
proof (induction cs arbitrary: pre)
  case Nil
  then show ?case by (simp add: project_def)
next
  case (Cons ic cs)
  obtain i c where ic: "ic = (i, c)" by force
  let ?v = "read_at row (nat (cm_offset (prev ! i))) (nat (cm_len c))"
  have c: "col_fits n (prev ! i)" "cm_offset c = int (length pre)" "cm_len c = cm_len (prev ! i)"
    "laid_out prev n (int (length pre) + cm_len c) cs (int stop)"
    using Cons.prems(1) ic by auto
  have len: "length ?v = nat (cm_len c)" "0 \<le> cm_len c"
    using c(1,3) Cons.prems(2) by (auto simp: col_fits_def)
  have "laid_out prev n (int (length (pre @ ?v))) cs (int stop)"
    using c(4) len by simp
  from Cons.IH [OF this Cons.prems(2)] show ?case
    using ic c(2,3) len write_at_end [of pre "stop - length pre" ?v]
    by (simp add: project_def diff_diff_eq)
qed

lemma proj_row_project:
  assumes "proj_wf E p" "length row = op_len E (pj_prev p)"
  shows "proj_row (op_cols E (pj_prev p)) p row = project (op_cols E (pj_prev p)) (pj_sel p) row"
  using project_fill [of "op_cols E (pj_prev p)" "op_len E (pj_prev p)" "[]" "zip (pj_sel p) (pj_cols p)" "pj_len p" row] assms
  by (simp add: proj_row_def proj_wf_def)

lemma length_project:
  assumes "laid_out prev n off cs stop" "length row = n"
  shows "int (length (project prev (map fst cs) row)) = stop - off"
  using assms
proof (induction prev n off cs stop rule: laid_out.induct)
  case (2 prev n off i c cs stop)
  have "0 \<le> cm_len c" "length (read_at row (nat (cm_offset (prev ! i))) (nat (cm_len (prev ! i)))) = nat (cm_len c)"
    using 2(2,3) by (auto simp: col_fits_def)
  moreover have "int (length (project prev (map fst cs) row)) = stop - (off + cm_len c)"
    using 2 by (metis laid_out.simps(2))
  ultimately show ?case using 2(2) by (simp add: project_def)
qed (simp add: project_def)

lemma length_proj:
  assumes "proj_wf E p" "length row = op_len E (pj_prev p)"
  shows "length (project (op_cols E (pj_prev p)) (pj_sel p) row) = pj_len p"
  using length_project [of "op_cols E (pj_prev p)" "op_len E (pj_prev p)" 0 "zip (pj_sel p) (pj_cols p)" "int (pj_len p)" row] assms
  by (simp add: proj_wf_def)

lemma find_pos_Some: "find_pos P xs = Some i \<Longrightarrow> i < length xs \<and> P (xs ! i)"
  by (induction P xs arbitrary: i rule: find_pos.induct) (auto split: if_splits)

definition col_pos :: "ColMeta list \<Rightarrow> TabCol \<Rightarrow> nat" where
  "col_pos cols t = the (find_pos (col_is t) cols)"

lemma proj_layout_ok:
  fixes s :: 's
  assumes "\<forall>c \<in> set prev. col_fits n c" "\<forall>t \<in> set sels. find_pos (col_is t) prev \<noteq> None"
  shows "\<exists>cs stop. proj_layout prev sels off s = (Inr (cs, stop), s) \<and> laid_out prev n off cs stop \<and>
    map fst cs = map (col_pos prev) sels"
  using assms(2)
proof (induction sels arbitrary: off)
  case (Cons t sels)
  obtain i where i: "find_pos (col_is t) prev = Some i" using Cons.prems by auto
  let ?c = "(prev ! i)\<lparr>cm_offset := off\<rparr>"
  obtain cs stop where "proj_layout prev sels (off + cm_len ?c) s = (Inr (cs, stop), s)" "laid_out prev n (off + cm_len ?c) cs stop"
      "map fst cs = map (col_pos prev) sels"
    using Cons.IH [of "off + cm_len ?c"] Cons.prems by auto
  then show ?case
    using i find_pos_Some [OF i] assms(1) by (simp add: exec_get_col_def prog_simps col_pos_def Let_def)
qed (simp add: prog_simps)

lemma new_Projection_ok:
  fixes s :: 's
  assumes "\<forall>c \<in> set (op_cols E x). col_fits (op_len E x) c" "\<forall>t \<in> set sels. find_pos (col_is t) (op_cols E x) \<noteq> None"
  obtains p where "new_Projection E x sels s = (Inr p, s)" "proj_wf E p" "pj_prev p = x" "pj_sel p = map (col_pos (op_cols E x)) sels"
proof -
  obtain cs stop where cs: "proj_layout (op_cols E x) sels 0 s = (Inr (cs, stop), s)" "laid_out (op_cols E x) (op_len E x) 0 cs stop"
      "map fst cs = map (col_pos (op_cols E x)) sels"
    using proj_layout_ok [OF assms, of 0 s] by blast
  let ?p = "\<lparr>pj_prev = x, pj_cols = map snd cs, pj_len = nat stop, pj_sel = map fst cs\<rparr>"
  have "new_Projection E x sels s = (Inr ?p, s)" using cs(1) by (simp add: new_Projection_def prog_simps)
  moreover have "proj_wf E ?p" using cs(2) laid_out_mono [OF cs(2)] by (simp add: proj_wf_def zip_map_fst_snd)
  ultimately show ?thesis using that [of ?p] cs(3) by simp
qed

lemma proj_wf_kept:
  "op_cols E x = op_cols E (pj_prev p) \<Longrightarrow> op_len E x = op_len E (pj_prev p) \<Longrightarrow> proj_wf E (p\<lparr>pj_prev := x\<rparr>) = proj_wf E p"
  by (simp add: proj_wf_def)

locale projected = row_source E frame ready at got
  for E :: "('x, 's) ops"
    and frame :: "'s \<Rightarrow> 's \<Rightarrow> bool"
    and ready :: "'x \<Rightarrow> 's \<Rightarrow> byte list list \<Rightarrow> bool"
    and at :: "'x \<Rightarrow> 's \<Rightarrow> byte list list \<Rightarrow> bool"
    and got :: "'x \<Rightarrow> 's \<Rightarrow> byte list list \<Rightarrow> bool"
begin

definition lifted :: "('x \<Rightarrow> 's \<Rightarrow> byte list list \<Rightarrow> bool) \<Rightarrow> 'x Projection \<Rightarrow> 's \<Rightarrow> byte list list \<Rightarrow> bool" where
  "lifted P p s rs \<longleftrightarrow> proj_wf E p \<and> (\<exists>qs. P (pj_prev p) s qs \<and> (\<forall>q \<in> set qs. length q = op_len E (pj_prev p)) \<and>
     rs = map (project (op_cols E (pj_prev p)) (pj_sel p)) qs)"

lemma lifted_move:
  assumes "P y t qs" "proj_wf E p" "\<forall>q \<in> set qs. length q = op_len E (pj_prev p)"
    and "op_cols E y = op_cols E (pj_prev p)" "op_len E y = op_len E (pj_prev p)"
  shows "lifted P (p\<lparr>pj_prev := y\<rparr>) t (map (project (op_cols E (pj_prev p)) (pj_sel p)) qs)"
  using assms by (auto simp: lifted_def proj_wf_kept)

lemma source: "row_source (projection_ops E) frame (lifted ready) (lifted at) (lifted got)"
proof unfold_locales
  fix p s t rs r
  show "frame s s" by (rule frame_refl)
  show "\<exists>y t. op_begin (projection_ops E) p s = (Inr y, t) \<and> frame s t \<and> lifted at y t rs \<and>
      op_cols (projection_ops E) y = op_cols (projection_ops E) p \<and> op_len (projection_ops E) y = op_len (projection_ops E) p"
    if h: "lifted ready p s rs"
  proof -
    obtain qs where q: "ready (pj_prev p) s qs" "proj_wf E p" "\<forall>q \<in> set qs. length q = op_len E (pj_prev p)"
        "rs = map (project (op_cols E (pj_prev p)) (pj_sel p)) qs"
      using h by (auto simp: lifted_def)
    obtain y t where y: "op_begin E (pj_prev p) s = (Inr y, t)" "frame s t" "at y t qs" "op_cols E y = op_cols E (pj_prev p)"
        "op_len E y = op_len E (pj_prev p)"
      using begin_ok [OF q(1)] by blast
    from lifted_move [of at, OF y(3) q(2,3) y(4,5)] q(4) y show ?thesis by (simp add: projection_ops_def prog_simps)
  qed
  show "rs = []" if "lifted at p s rs" "op_is_end (projection_ops E) p s"
    using that is_end_ok by (auto simp: lifted_def projection_ops_def)
  show "\<exists>y t. op_Next (projection_ops E) p s = (Inr (None, y), t) \<and> frame s t \<and> lifted at y t [] \<and>
      op_cols (projection_ops E) y = op_cols (projection_ops E) p \<and> op_len (projection_ops E) y = op_len (projection_ops E) p"
    if h: "lifted at p s []"
  proof -
    have q: "at (pj_prev p) s []" "proj_wf E p" using h by (auto simp: lifted_def)
    obtain y t where y: "op_Next E (pj_prev p) s = (Inr (None, y), t)" "frame s t" "at y t []" "op_cols E y = op_cols E (pj_prev p)"
        "op_len E y = op_len E (pj_prev p)"
      using Next_none [OF q(1)] by blast
    from lifted_move [of at, OF y(3) q(2) _ y(4,5)] y show ?thesis by (simp add: projection_ops_def proj_Next_def prog_simps)
  qed
  show "\<exists>y t. op_Next (projection_ops E) p s = (Inr (Some r, y), t) \<and> frame s t \<and> lifted got y t rs \<and>
      op_cols (projection_ops E) y = op_cols (projection_ops E) p \<and> op_len (projection_ops E) y = op_len (projection_ops E) p"
    if h: "lifted at p s (r # rs)"
  proof -
    obtain q qs where q: "at (pj_prev p) s (q # qs)" "proj_wf E p" "\<forall>q \<in> set qs. length q = op_len E (pj_prev p)"
        "rs = map (project (op_cols E (pj_prev p)) (pj_sel p)) qs" "r = project (op_cols E (pj_prev p)) (pj_sel p) q"
        "length q = op_len E (pj_prev p)"
      using h by (auto simp: lifted_def Cons_eq_map_conv)
    obtain y t where y: "op_Next E (pj_prev p) s = (Inr (Some q, y), t)" "frame s t" "got y t qs" "op_cols E y = op_cols E (pj_prev p)"
        "op_len E y = op_len E (pj_prev p)"
      using Next_some [OF q(1)] by blast
    have "proj_row (op_cols E y) p q = r" using proj_row_project [OF q(2,6)] q(5) y(4) by simp
    with lifted_move [of got, OF y(3) q(2,3) y(4,5)] q(4) y show ?thesis
      by (simp add: projection_ops_def proj_Next_def prog_simps)
  qed
  show "\<exists>y t. op_next (projection_ops E) p s = (Inr y, t) \<and> frame s t \<and> lifted at y t rs \<and>
      op_cols (projection_ops E) y = op_cols (projection_ops E) p \<and> op_len (projection_ops E) y = op_len (projection_ops E) p"
    if h: "lifted got p s rs"
  proof -
    obtain qs where q: "got (pj_prev p) s qs" "proj_wf E p" "\<forall>q \<in> set qs. length q = op_len E (pj_prev p)"
        "rs = map (project (op_cols E (pj_prev p)) (pj_sel p)) qs"
      using h by (auto simp: lifted_def)
    obtain y t where y: "op_next E (pj_prev p) s = (Inr y, t)" "frame s t" "at y t qs" "op_cols E y = op_cols E (pj_prev p)"
        "op_len E y = op_len E (pj_prev p)"
      using next_ok [OF q(1)] by blast
    from lifted_move [of at, OF y(3) q(2,3) y(4,5)] q(4) y show ?thesis by (simp add: projection_ops_def prog_simps)
  qed
  show "length r = op_len (projection_ops E) p" if "lifted ready p s rs" "r \<in> set rs"
    using that by (auto simp: lifted_def projection_ops_def intro!: length_proj)
  show "length r = op_len (projection_ops E) p" if "lifted at p s rs" "r \<in> set rs"
    using that by (auto simp: lifted_def projection_ops_def intro!: length_proj)
qed (auto simp: lifted_def intro: frame_trans ready_stable at_stable got_stable)

end

sublocale projected \<subseteq> out: row_source "projection_ops E" frame "lifted ready" "lifted at" "lifted got"
  by (rule source)

end
