(* ===== verification/Sys_State.thy ===== *)
theory Sys_State
  imports Rm_Scan Lock_Manager Log Meta Ix_Node
begin

text \<open>
  The state the executors share: \<^verbatim>\<open>SmManager\<close>'s catalogue and tables of open files (\<^verbatim>\<open>db_\<close>, \<^verbatim>\<open>fhs_\<close>, \<^verbatim>\<open>ihs_\<close>
  of \<^verbatim>\<open>system/sm_manager.h\<close>), the buffer pool below them, and what \<^verbatim>\<open>Context\<close> of \<^verbatim>\<open>common/context.h\<close> points to:
  lock table, log manager and the running transaction. The operations of the components run on their part
  of it. The lemmas give the frame that reading one table leaves all others alone, and that locks are
  granted to a transaction that is alone.
\<close>

section \<open>State\<close>

record DbState =
  s_pool :: BufferPoolManager
  s_meta :: DbMeta
  s_fhs :: "string \<rightharpoonup> RmFileHandle"
  s_ihs :: "string \<rightharpoonup> IxIndexHandle"
  s_locks :: lock_table
  s_log :: LogManager
  s_txn :: Transaction

text \<open>Which pointers of a context are set.\<close>

record Context =
  cx_lock_mgr :: bool
  cx_log_mgr :: bool
  cx_txn :: bool

text \<open>\<^verbatim>\<open>fhs_.at(tab)\<close> and an operation of the file handle.\<close>

definition on_file :: "string \<Rightarrow> (RmState, 'a) prog \<Rightarrow> (DbState, 'a) prog" where
  "on_file tab m s =
     (case s_fhs s tab of
        None \<Rightarrow> (Inl (StdException ''std::out_of_range''), s)
      | Some fh \<Rightarrow>
          (case m \<lparr>rm_pool = s_pool s, rm_fh = fh\<rparr> of
             (r, t) \<Rightarrow> (r, s\<lparr>s_pool := rm_pool t, s_fhs := (s_fhs s)(tab \<mapsto> rm_fh t)\<rparr>)))"

definition on_locks :: "(LockEnv, 'a) prog \<Rightarrow> (DbState, 'a) prog" where
  "on_locks m s =
     (case m \<lparr>lk_table = s_locks s, lk_txn = s_txn s\<rparr> of
        (r, t) \<Rightarrow> (r, s\<lparr>s_locks := lk_table t, s_txn := lk_txn t\<rparr>))"

definition on_logs :: "(LogEnv, 'a) prog \<Rightarrow> (DbState, 'a) prog" where
  "on_logs m s =
     (case m \<lparr>le_log = s_log s, le_disk = bpm_disk (s_pool s)\<rparr> of
        (r, t) \<Rightarrow> (r, s\<lparr>s_log := le_log t, s_pool := (s_pool s)\<lparr>bpm_disk := le_disk t\<rparr>\<rparr>))"

definition get_fd :: "string \<Rightarrow> (DbState, int) prog" where
  "get_fd tab = on_file tab (gets (\<lambda>r. fh_fd (rm_fh r)))"

text \<open>\<^verbatim>\<open>if (context_ != nullptr && txn_ != nullptr && lock_mgr_ != nullptr)\<close> take a lock.\<close>

definition with_lock :: "Context option \<Rightarrow> (LockEnv, bool) prog \<Rightarrow> (DbState, unit) prog" where
  "with_lock ctx m =
     (case ctx of
        Some c \<Rightarrow> if cx_txn c \<and> cx_lock_mgr c then thenE (on_locks m) (ret ()) else ret ()
      | None \<Rightarrow> ret ())"

section \<open>Locks of a transaction that is alone\<close>

definition alone :: "lock_table \<Rightarrow> int \<Rightarrow> bool" where
  "alone T tid \<longleftrightarrow> (\<forall>lid q. T lid = Some q \<longrightarrow>
     (\<forall>r \<in> set (request_queue q). mine tid r) \<and> (request_queue q = [] \<longrightarrow> group_lock_mode q = GM_NON_LOCK))"

lemma alone_put: "alone T tid \<Longrightarrow> (\<forall>r \<in> set (request_queue q). mine tid r) \<Longrightarrow>
   (request_queue q = [] \<longrightarrow> group_lock_mode q = GM_NON_LOCK) \<Longrightarrow> alone (T(lid \<mapsto> q)) tid"
  by (simp add: alone_def)

lemma find_None_all: "List.find P xs = None \<longleftrightarrow> (\<forall>x \<in> set xs. \<not> P x)"
  unfolding find_None_iff by blast

lemma upd_first_all:
  assumes "\<forall>x \<in> set xs. Q x" "\<And>x. Q x \<Longrightarrow> Q (f x)"
  shows "\<forall>x \<in> set (upd_first P f xs). Q x"
  using assms(1) by (induction xs) (simp_all add: assms(2))

lemma upd_first_mine:
  assumes "\<forall>r \<in> set rs. mine tid r"
  shows "\<forall>r \<in> set (upd_first P (\<lambda>r. r\<lparr>lock_mode := m\<rparr>) rs). mine tid r"
  using assms by (rule upd_first_all) (simp add: mine_def)

lemma upd_first_empty: "upd_first P f rs = [] \<longleftrightarrow> rs = []"
  by (cases rs) auto

definition txn_grown :: "Transaction \<Rightarrow> Transaction \<Rightarrow> bool" where
  "txn_grown t u \<longleftrightarrow> txn_mode u = txn_mode t \<and> txn_state u = txn_state t \<and> isolation_level u = isolation_level t \<and>
     prev_lsn u = prev_lsn t \<and> txn_id u = txn_id t \<and> start_ts u = start_ts t \<and> write_set u = write_set t \<and>
     set (lock_set t) \<subseteq> set (lock_set u)"

lemma txn_grown_refl [simp]: "txn_grown t t"
  by (simp add: txn_grown_def)

lemma txn_grown_trans: "txn_grown t u \<Longrightarrow> txn_grown u v \<Longrightarrow> txn_grown t v"
  unfolding txn_grown_def by (intro conjI) (simp_all, blast)

lemma txn_grown_id: "txn_grown t u \<Longrightarrow> txn_id u = txn_id t"
  by (simp add: txn_grown_def)

lemma lock_alone:
  assumes "alone (lk_table s) (txn_id (lk_txn s))"
  obtains t where "lock lid mode s = (Inr True, t)" "alone (lk_table t) (txn_id (lk_txn s))" "txn_grown (lk_txn s) (lk_txn t)"
proof -
  let ?T = "lk_table s" and ?tid = "txn_id (lk_txn s)"
  define q where "q = (case ?T lid of None \<Rightarrow> new_LockRequestQueue | Some q \<Rightarrow> q)"
  have q: "\<forall>r \<in> set (request_queue q). mine ?tid r" "request_queue q = [] \<longrightarrow> group_lock_mode q = GM_NON_LOCK"
    using assms by (auto simp: alone_def q_def new_LockRequestQueue_def split: option.splits)
  then have no_other: "\<not> (\<exists>r \<in> set (request_queue q). others_granted ?tid r)" "\<not> (\<exists>r \<in> set (request_queue q). \<not> granted r)"
    by (auto simp: mine_def others_granted_def)
  have put: "alone (?T(lid \<mapsto> q)) ?tid" using assms q by (intro alone_put) auto
  have grow: "txn_grown (lk_txn s) (add_lock lid (lk_txn s))" by (auto simp: txn_grown_def add_lock_def)
  have up: "alone (?T(lid \<mapsto> \<lparr>request_queue = upd_first P (\<lambda>r. r\<lparr>lock_mode := m\<rparr>) (request_queue q), group_lock_mode = g\<rparr>)) ?tid"
    if "request_queue q \<noteq> []" for P m g
    using assms upd_first_mine [OF q(1)] that by (intro alone_put) (auto simp: upd_first_empty)
  have new: "alone (?T(lid \<mapsto> \<lparr>request_queue = request_queue q @ [\<lparr>lr_txn_id = ?tid, lock_mode = mode, granted = True\<rparr>],
      group_lock_mode = g\<rparr>)) ?tid" for g
    using assms q(1) by (intro alone_put) (auto simp: mine_def)
  let ?r = "lock lid mode s"
  have "fst ?r = Inr True \<and> alone (lk_table (snd ?r)) ?tid \<and> txn_grown (lk_txn s) (lk_txn (snd ?r))"
  proof (cases "List.find (mine ?tid) (request_queue q)")
    case None
    then have "request_queue q = []" using q(1) by (auto simp: find_None_all)
    then have "compatible mode (group_lock_mode q)" using q(2) by simp
    then show ?thesis
      using None no_other new grow
      by (simp add: lock_def q_def [symmetric] prog_simps put_queue_def grant_def remember_lock_def del: compatible.simps upgrade_group.simps)
  next
    case (Some r)
    then have ne: "request_queue q \<noteq> []" by auto
    have "\<not> (\<exists>r \<in> set (request_queue q). others_granted ?tid r \<and> lock_mode r = SHARED)" using no_other(1) by blast
    then show ?thesis
      using Some no_other put up [OF ne] grow
      by (simp add: lock_def q_def [symmetric] prog_simps put_queue_def upgrade_to_X_def upgrade_to_SIX_def remember_lock_def
          del: upgrade_group.simps)
  qed
  then show ?thesis using that [of "snd ?r"] by (metis prod.collapse)
qed

section \<open>Reading one file among others\<close>

definition file_of :: "DbState \<Rightarrow> RmFileHandle \<Rightarrow> RmState" where
  "file_of s fh = \<lparr>rm_pool = s_pool s, rm_fh = fh\<rparr>"

text \<open>Every open table file is well-formed and has a descriptor of its own.\<close>

definition db_inv :: "DbState \<Rightarrow> bool" where
  "db_inv s \<longleftrightarrow> (\<forall>tab fh. s_fhs s tab = Some fh \<longrightarrow> rm_inv (file_of s fh)) \<and>
     (\<forall>tab tab' fh fh'. s_fhs s tab = Some fh \<longrightarrow> s_fhs s tab' = Some fh' \<longrightarrow> fh_fd fh = fh_fd fh' \<longrightarrow> tab = tab')"

text \<open>Two states with the same open tables and the same records in them.\<close>

definition db_frame :: "DbState \<Rightarrow> DbState \<Rightarrow> bool" where
  "db_frame s t \<longleftrightarrow> (db_inv s \<longrightarrow> db_inv t) \<and> s_fhs t = s_fhs s \<and> s_meta t = s_meta s \<and> s_ihs t = s_ihs s \<and>
     (db_inv s \<longrightarrow> (\<forall>tab fh. s_fhs s tab = Some fh \<longrightarrow>
        (\<forall>q \<in> data_pages (file_hdr fh). file_page (file_of t fh) q = file_page (file_of s fh) q))) \<and>
     txn_id (s_txn t) = txn_id (s_txn s) \<and>
     (alone (s_locks s) (txn_id (s_txn s)) \<longrightarrow> alone (s_locks t) (txn_id (s_txn s)))"

lemma db_frame_refl: "db_frame s s"
  by (simp add: db_frame_def)

lemma db_frame_trans: "db_frame s t \<Longrightarrow> db_frame t u \<Longrightarrow> db_frame s u"
  by (auto simp: db_frame_def)

lemma chain_same_pages:
  assumes "chain_ok h F" "\<And>q. q \<in> data_pages h \<Longrightarrow> G q = F q"
  shows "chain_ok h G"
proof -
  obtain ps where ps: "free_chain F (first_free_page_no h) ps" "distinct ps"
      "set ps = {p \<in> data_pages h. \<exists>d. F p = Some d \<and> \<not> page_full h d}"
    using assms(1) by (auto simp: chain_ok_def)
  have "free_chain F q qs \<Longrightarrow> \<forall>p \<in> set qs. G p = F p \<Longrightarrow> free_chain G q qs" for q qs
    by (induction qs arbitrary: q) (auto split: option.splits)
  then have "free_chain G (first_free_page_no h) ps" using ps assms(2) by simp
  moreover have "set ps = {p \<in> data_pages h. \<exists>d. G p = Some d \<and> \<not> page_full h d}" using ps(3) assms(2) by auto
  ultimately show ?thesis using ps(2) by (auto simp: chain_ok_def)
qed

lemma rm_inv_other:
  assumes inv: "rm_inv \<lparr>rm_pool = b, rm_fh = fh\<rparr>" and ro: "read_only fd b u" and fd: "fd \<noteq> fh_fd fh"
  shows "rm_inv \<lparr>rm_pool = u, rm_fh = fh\<rparr>"
    "q \<in> data_pages (file_hdr fh) \<Longrightarrow>
      file_page \<lparr>rm_pool = u, rm_fh = fh\<rparr> q = file_page \<lparr>rm_pool = b, rm_fh = fh\<rparr> q"
proof -
  let ?s = "\<lparr>rm_pool = b, rm_fh = fh\<rparr>" and ?t = "\<lparr>rm_pool = u, rm_fh = fh\<rparr>"
  note parts = rm_inv_parts [OF inv]
  have k: "keeps {pid. pid_fd pid = fd} b u" and u: "bpm_inv u" "pins u = pins b"
    "fd2pageno (bpm_disk u) = fd2pageno (bpm_disk b)"
    using ro by (simp_all add: read_only_def)
  have h: "hdr ?t = hdr ?s" by (simp add: hdr_def)
  have same: "file_page ?t q = file_page ?s q" if data: "q \<in> data_pages (hdr ?s)" for q
  proof -
    obtain d where "file_page ?s q = Some d" using parts(3) data by (auto simp: pages_ok_def)
    then show ?thesis using k fd by (auto simp: file_page_def keeps_def)
  qed
  then show "q \<in> data_pages (file_hdr fh) \<Longrightarrow> file_page ?t q = file_page ?s q" by (simp add: hdr_def)
  have "room 1 u" using pool.avail_same [OF k u(2)] parts(1) by (simp add: rm_pool_ok_def)
  then have pool: "rm_pool_ok ?t"
    using parts(1) u k fd by (auto simp: rm_pool_ok_def hdr_def keeps_def)
  have pages: "pages_ok (hdr ?t) (file_page ?t)" using parts(3) same by (auto simp: pages_ok_def h)
  have "chain_ok (hdr ?t) (file_page ?t)"
    unfolding h by (rule chain_same_pages [OF parts(4)]) (rule same)
  with pool pages show "rm_inv ?t" by (simp add: rm_inv_def)
qed

text \<open>An operation that only reads the file of one table.\<close>

lemma on_file_read:
  assumes inv: "db_inv s" and fh: "s_fhs s tab = Some fh"
    and run: "m (file_of s fh) = (Inr x, t)" and same: "same_file (file_of s fh) t"
  shows "on_file tab m s = (Inr x, s\<lparr>s_pool := rm_pool t\<rparr>)" "db_frame s (s\<lparr>s_pool := rm_pool t\<rparr>)"
    "file_of (s\<lparr>s_pool := rm_pool t\<rparr>) fh = t"
proof -
  have t: "rm_fh t = fh" "rm_inv t" "read_only (fh_fd fh) (s_pool s) (rm_pool t)"
    "\<And>q. q \<in> data_pages (file_hdr fh) \<Longrightarrow> file_page t q = file_page (file_of s fh) q"
    using same by (simp_all add: same_file_def file_of_def hdr_def)
  let ?s' = "s\<lparr>s_pool := rm_pool t\<rparr>"
  have "s\<lparr>s_pool := rm_pool t, s_fhs := (s_fhs s)(tab \<mapsto> fh)\<rparr> = ?s'" using fh by (simp add: fun_upd_idem)
  then show "on_file tab m s = (Inr x, ?s')"
    using run fh t(1) by (simp add: on_file_def file_of_def)
  show ft: "file_of ?s' fh = t" using t(1) by (simp add: file_of_def)
  have each: "rm_inv (file_of ?s' fh') \<and> (\<forall>q \<in> data_pages (file_hdr fh'). file_page (file_of ?s' fh') q = file_page (file_of s fh') q)"
    if tab': "s_fhs s tab' = Some fh'" for tab' fh'
  proof (cases "tab' = tab")
    case True
    then show ?thesis using tab' fh ft t(2,4) by simp
  next
    case False
    then have "fh_fd fh \<noteq> fh_fd fh'" using inv fh tab' unfolding db_inv_def by metis
    moreover have "rm_inv (file_of s fh')" using inv tab' by (simp add: db_inv_def)
    ultimately show ?thesis
      using rm_inv_other [of "s_pool s" fh' "fh_fd fh" "rm_pool t"] t(3) by (simp add: file_of_def)
  qed
  then have "db_inv ?s'" using inv unfolding db_inv_def by simp
  with each show "db_frame s ?s'" by (simp add: db_frame_def)
qed

lemma with_lock_alone:
  assumes "alone (s_locks s) (txn_id (s_txn s))" "\<And>e. m e = lock lid mode e"
  obtains t where "with_lock ctx m s = (Inr (), t)" "db_frame s t" "s_pool t = s_pool s"
    "alone (s_locks t) (txn_id (s_txn t))"
proof (cases "case ctx of Some c \<Rightarrow> cx_txn c \<and> cx_lock_mgr c | None \<Rightarrow> False")
  case True
  let ?e = "\<lparr>lk_table = s_locks s, lk_txn = s_txn s\<rparr>"
  obtain t where t: "lock lid mode ?e = (Inr True, t)" "alone (lk_table t) (txn_id (lk_txn ?e))" "txn_grown (lk_txn ?e) (lk_txn t)"
    by (rule lock_alone [of ?e]) (use assms(1) in simp_all)
  let ?s = "s\<lparr>s_locks := lk_table t, s_txn := lk_txn t\<rparr>"
  have id: "txn_id (lk_txn t) = txn_id (s_txn s)" using txn_grown_id [OF t(3)] by simp
  have "with_lock ctx m s = (Inr (), ?s)"
    using True t(1) assms(2) by (auto simp: with_lock_def on_locks_def prog_simps split: option.splits)
  moreover have "db_inv ?s = db_inv s" by (simp add: db_inv_def file_of_def)
  then have "db_frame s ?s" using t(2) id by (simp add: db_frame_def file_of_def)
  ultimately show ?thesis using that [of ?s] t(2) id by simp
next
  case False
  then have "with_lock ctx m s = (Inr (), s)" by (auto simp: with_lock_def prog_simps split: option.splits)
  then show ?thesis using that [of s] db_frame_refl assms(1) by simp
qed

text \<open>Reading a record is one visit of its page.\<close>

lemma get_record_same:
  assumes s: "rm_inv s" and r: "rm_recs s rid = Some r"
  obtains t where "get_record rid s = (Inr r, t)" "same_file s t"
proof -
  let ?h = "hdr s"
  obtain d k where rid: "page_no rid \<in> data_pages ?h" "file_page s (page_no rid) = Some d"
      "slot_no rid = int k" "k < nat (num_records_per_page ?h)" "is_set (bitmap ?h d) k" "r = get_slot ?h k d"
    by (rule rm_recs_Some [OF r])
  obtain f u where f: "fetch_page_handle (page_no rid) s = (Inr f, s\<lparr>rm_pool := u\<rparr>)"
    by (rule fetch_page_handle_run [OF rm_inv_parts(1,2) [OF s] rid(1,2)])
  have h: "hdr (s\<lparr>rm_pool := u\<rparr>) = ?h" by (simp add: hdr_def)
  have ck: "check_slot (slot_no rid) (s\<lparr>rm_pool := u\<rparr>) = (Inr k, s\<lparr>rm_pool := u\<rparr>)"
    using check_slot_run [of "slot_no rid" "s\<lparr>rm_pool := u\<rparr>"] rid(3,4) h by simp
  have "get_record rid s = scan_page (page_no rid) (\<lambda>h d. get_slot h k d) s"
    using f ck by (simp add: get_record_def scan_page_def prog_simps)
  moreover obtain t where "scan_page (page_no rid) (\<lambda>h d. get_slot h k d) s = (Inr (get_slot ?h k (the (file_page s (page_no rid)))), t)"
      "same_file s t"
    by (rule scan_page_run [OF s rid(1)])
  ultimately show ?thesis using that [of t] rid by simp
qed

lemma same_file_recs:
  assumes "same_file s t" shows "rm_recs t = rm_recs s" "file_rids t = file_rids s"
proof -
  have h: "hdr t = hdr s" and same: "\<And>q. q \<in> data_pages (hdr s) \<Longrightarrow> file_page t q = file_page s q"
    using assms by (simp_all add: same_file_def)
  show "rm_recs t = rm_recs s"
    using same by (auto simp: rm_recs_def file_recs_def h data_pages_def fun_eq_iff split: option.splits)
  show "file_rids t = file_rids s"
    unfolding file_rids_def h by (rule pages_from_cong) (use same in auto)
qed

end
