(* ===== verification/Seq_Scan.thy ===== *)
theory Seq_Scan
  imports Executor Sys_State
begin

text \<open>
  \<^verbatim>\<open>execution/executor_seq_scan.h\<close>: the sequential scan of a table with its locks and its filter (the filter
  itself is in the theory of predicates). The scan keeps the contract \<open>row_source\<close> and may be begun
  again at any time: run by a transaction that is alone it delivers the records of the file that satisfy
  the conditions, in the order of the file.
\<close>

section \<open>SeqScanExecutor\<close>

record SeqScan =
  ss_tab_name :: string
  ss_conds :: "Condition list"
  ss_cols :: "ColMeta list"
  ss_len :: nat
  ss_rid :: Rid
  ss_scan :: "Rid option"
  ss_ctx :: "Context option"

text \<open>The length of a row: \<^verbatim>\<open>cols_.back().offset + cols_.back().len\<close>.\<close>

definition row_len :: "ColMeta list \<Rightarrow> ('s, nat) prog" where
  "row_len cols = (if cols = [] then raise OutOfBounds else ret (nat (cm_offset (last cols) + cm_len (last cols))))"

text \<open>The uninitialised \<^verbatim>\<open>rid_\<close> is given here as (0, 0); \<^verbatim>\<open>scan_\<close> is null.\<close>

definition new_SeqScan :: "string \<Rightarrow> Condition list \<Rightarrow> Context option \<Rightarrow> (DbState, SeqScan) prog" where
  "new_SeqScan tab_name conds ctx =
     bindE (gets s_meta) (\<lambda>db.
     bindE (get_table db tab_name) (\<lambda>tab.
     thenE (get_fd tab_name)
     (bindE (row_len (tm_cols tab)) (\<lambda>len.
       ret \<lparr>ss_tab_name = tab_name, ss_conds = conds, ss_cols = tm_cols tab, ss_len = len,
            ss_rid = \<lparr>page_no = 0, slot_no = 0\<rparr>, ss_scan = None, ss_ctx = ctx\<rparr>))))"

definition the_scan :: "SeqScan \<Rightarrow> (DbState, Rid) prog" where
  "the_scan x = (case ss_scan x of None \<Rightarrow> raise NullPointer | Some rid \<Rightarrow> ret rid)"

text \<open>The clients ask for the end only after \<^verbatim>\<open>beginTuple\<close>, when there is a scan; without one this says yes.\<close>

definition seq_is_end :: "SeqScan \<Rightarrow> DbState \<Rightarrow> bool" where
  "seq_is_end x s =
     (case (ss_scan x, s_fhs s (ss_tab_name x)) of
        (Some rid, Some fh) \<Rightarrow> scan_is_end (file_of s fh) rid
      | _ \<Rightarrow> True)"

definition seq_begin :: "SeqScan \<Rightarrow> (DbState, SeqScan) prog" where
  "seq_begin x =
     bindE (get_fd (ss_tab_name x)) (\<lambda>fd.
     thenE (with_lock (ss_ctx x) (lock_shared_on_table fd))
     (bindE (on_file (ss_tab_name x) new_RmScan) (\<lambda>rid.
       ret (x\<lparr>ss_scan := Some rid, ss_rid := rid\<rparr>))))"

definition seq_nextTuple :: "SeqScan \<Rightarrow> (DbState, SeqScan) prog" where
  "seq_nextTuple x =
     bindE (the_scan x) (\<lambda>rid.
     bindE (on_file (ss_tab_name x) (scan_next rid)) (\<lambda>rid'.
     let y = x\<lparr>ss_scan := Some rid'\<rparr> in
     bindE (gets (seq_is_end y)) (\<lambda>e.
       ret (if e then y else y\<lparr>ss_rid := rid'\<rparr>))))"

text \<open>\<^verbatim>\<open>Next\<close> calls itself on every record it skips.\<close>

fun seq_Next_from :: "nat \<Rightarrow> SeqScan \<Rightarrow> (DbState, byte list option \<times> SeqScan) prog" where
  "seq_Next_from 0 x = raise OutOfFuel"
| "seq_Next_from (Suc n) x =
     thenE (the_scan x)
     (bindE (gets (seq_is_end x)) (\<lambda>e.
       if e then ret (None, x)
       else bindE (get_fd (ss_tab_name x)) (\<lambda>fd.
         thenE (with_lock (ss_ctx x) (lock_shared_on_record (ss_rid x) fd))
         (bindE (on_file (ss_tab_name x) (get_record (ss_rid x))) (\<lambda>rec.
          bindE (eval_conds (ss_conds x) rec (ss_cols x)) (\<lambda>b.
            if b then ret (Some rec, x)
            else bindE (seq_nextTuple x) (seq_Next_from n)))))))"

text \<open>The number of slots of the file bounds the calls.\<close>

definition file_slots :: "string \<Rightarrow> DbState \<Rightarrow> nat" where
  "file_slots tab s =
     (case s_fhs s tab of
        None \<Rightarrow> 0
      | Some fh \<Rightarrow> nat (num_pages (file_hdr fh)) * nat (num_records_per_page (file_hdr fh)))"

definition seq_Next :: "SeqScan \<Rightarrow> (DbState, byte list option \<times> SeqScan) prog" where
  "seq_Next x s = seq_Next_from (Suc (file_slots (ss_tab_name x) s)) x s"

definition seq_scan_ops :: "(SeqScan, DbState) ops" where
  "seq_scan_ops = \<lparr>op_begin = seq_begin, op_next = seq_nextTuple, op_is_end = seq_is_end, op_Next = seq_Next,
     op_cols = ss_cols, op_len = ss_len\<rparr>"

section \<open>What a table holds\<close>

definition rows_of :: "RmState \<Rightarrow> Rid list \<Rightarrow> byte list list" where
  "rows_of f rids = map (\<lambda>rid. the (rm_recs f rid)) rids"

definition table_rows :: "DbState \<Rightarrow> string \<Rightarrow> byte list list" where
  "table_rows s tab = (case s_fhs s tab of None \<Rightarrow> [] | Some fh \<Rightarrow> rows_of (file_of s fh) (file_rids (file_of s fh)))"

definition select :: "ColMeta list \<Rightarrow> Condition list \<Rightarrow> byte list list \<Rightarrow> byte list list" where
  "select cols conds rows = filter (\<lambda>r. \<forall>c \<in> set conds. cond_holds cols r c) rows"

lemma same_pages:
  assumes h: "hdr t = hdr s" and same: "\<And>q. q \<in> data_pages (hdr s) \<Longrightarrow> file_page t q = file_page s q"
  shows "rm_recs t = rm_recs s" "file_rids t = file_rids s" "on_record t rid = on_record s rid"
    "RM_FIRST_RECORD_PAGE \<le> page_no rid \<Longrightarrow> rest (hdr t) (file_page t) rid = rest (hdr s) (file_page s) rid"
proof -
  show "rm_recs t = rm_recs s"
    using same by (auto simp: rm_recs_def file_recs_def h data_pages_def fun_eq_iff split: option.splits)
  show "file_rids t = file_rids s"
    unfolding file_rids_def h by (rule pages_from_cong) (use same in auto)
  show "on_record t rid = on_record s rid"
    using same by (auto simp: on_record_def h data_pages_def)
  show "rest (hdr t) (file_page t) rid = rest (hdr s) (file_page s) rid" if r: "RM_FIRST_RECORD_PAGE \<le> page_no rid"
  proof -
    have "pages_from (hdr s) (file_page t) (page_no rid + 1) = pages_from (hdr s) (file_page s) (page_no rid + 1)"
      using same r by (intro pages_from_cong) auto
    then show ?thesis using same r by (auto simp: rest_def h rids_in_def data_pages_def)
  qed
qed

lemma frame_file:
  assumes "db_frame s t" "db_inv s" "s_fhs s tab = Some fh"
  shows "s_fhs t tab = Some fh" "db_inv t" "hdr (file_of t fh) = hdr (file_of s fh)"
    "rm_recs (file_of t fh) = rm_recs (file_of s fh)" "file_rids (file_of t fh) = file_rids (file_of s fh)"
    "on_record (file_of t fh) rid = on_record (file_of s fh) rid"
    "RM_FIRST_RECORD_PAGE \<le> page_no rid \<Longrightarrow>
       rest (hdr (file_of t fh)) (file_page (file_of t fh)) rid = rest (hdr (file_of s fh)) (file_page (file_of s fh)) rid"
    "scan_is_end (file_of t fh) rid = scan_is_end (file_of s fh) rid"
proof -
  have h: "hdr (file_of t fh) = hdr (file_of s fh)" by (simp add: file_of_def hdr_def)
  have same: "file_page (file_of t fh) q = file_page (file_of s fh) q" if "q \<in> data_pages (hdr (file_of s fh))" for q
    using assms that by (simp add: db_frame_def file_of_def hdr_def)
  show "hdr (file_of t fh) = hdr (file_of s fh)" "s_fhs t tab = Some fh" "db_inv t"
    using h assms by (simp_all add: db_frame_def)
  show "scan_is_end (file_of t fh) rid = scan_is_end (file_of s fh) rid" by (simp add: scan_is_end_def h)
  note p = same_pages [OF h same]
  show "rm_recs (file_of t fh) = rm_recs (file_of s fh)" "file_rids (file_of t fh) = file_rids (file_of s fh)"
    "on_record (file_of t fh) rid = on_record (file_of s fh) rid"
    by (simp_all add: p)
  show "RM_FIRST_RECORD_PAGE \<le> page_no rid \<Longrightarrow>
      rest (hdr (file_of t fh)) (file_page (file_of t fh)) rid = rest (hdr (file_of s fh)) (file_page (file_of s fh)) rid"
    by (rule p(4))
qed

lemma record_length:
  assumes "rm_inv f" "rm_recs f rid = Some r"
  shows "int (length r) = record_size (hdr f)"
proof -
  obtain d k where r: "page_no rid \<in> data_pages (hdr f)" "file_page f (page_no rid) = Some d" "k < nat (num_records_per_page (hdr f))"
      "r = get_slot (hdr f) k d"
    using rm_recs_Some [OF assms(2)] by metis
  note parts = rm_inv_parts [OF assms(1)]
  have d: "length d = PAGE_SIZE" using parts(3) r(1,2) by (auto simp: pages_ok_def page_ok_def)
  have "slot_offset (hdr f) k + nat (record_size (hdr f)) \<le> length d" using slot_bounds [OF parts(2) r(3)] d by simp
  moreover have "1 \<le> record_size (hdr f)" using parts(2) by (simp add: hdr_wf_def)
  ultimately show ?thesis by (simp add: r(4) get_slot_def)
qed

lemma on_record_found:
  assumes "rm_inv f" "on_record f rid" "\<not> scan_is_end f rid"
  obtains r where "rm_recs f rid = Some r"
proof -
  have p: "page_no rid \<in> data_pages (hdr f)" "0 \<le> slot_no rid" "slot_no rid < num_records_per_page (hdr f)"
    "is_set (bitmap (hdr f) (the (file_page f (page_no rid)))) (nat (slot_no rid))"
    using assms(2,3) by (auto simp: on_record_def scan_is_end_def data_pages_def)
  moreover obtain d where "file_page f (page_no rid) = Some d" using rm_inv_parts(3) [OF assms(1)] p(1) by (auto simp: pages_ok_def)
  ultimately have "rm_recs f rid \<noteq> None"
    by (auto simp: rm_recs_def file_recs_def page_recs_def data_pages_def)
  then show ?thesis using that by blast
qed

lemma length_pages_from: "length (pages_from h F p) \<le> nat (num_pages h - p) * nat (num_records_per_page h)"
proof (induction "nat (num_pages h - p)" arbitrary: p)
  case 0
  then show ?case by (simp add: pages_from_step [of h F p])
next
  case (Suc n)
  have "length (rids_in h F p 0) \<le> nat (num_records_per_page h)"
    using length_filter_le [of "is_set (bitmap h (the (F p)))" "[0..<nat (num_records_per_page h)]"]
    by (simp add: rids_in_def slots_from_def)
  moreover have "n = nat (num_pages h - (p + 1))" "p < num_pages h" "nat (num_pages h - p) = Suc n" using Suc.hyps(2) by auto
  ultimately show ?case using Suc.hyps(1) [of "p + 1"] by (simp add: pages_from_step [of h F p])
qed

lemma length_rest:
  assumes "RM_FIRST_RECORD_PAGE \<le> page_no rid"
  shows "length (rest h F rid) \<le> nat (num_pages h) * nat (num_records_per_page h)"
proof (cases "page_no rid < num_pages h")
  case True
  have "length (rids_in h F (page_no rid) k) \<le> nat (num_records_per_page h)" for k
    using length_filter_le [of "is_set (bitmap h (the (F (page_no rid))))" "[k..<nat (num_records_per_page h)]"]
    by (simp add: rids_in_def slots_from_def)
  moreover note length_pages_from [of h F "page_no rid + 1"]
  ultimately have "length (rest h F rid) \<le> nat (num_records_per_page h) + nat (num_pages h - (page_no rid + 1)) * nat (num_records_per_page h)"
    using True by (simp add: rest_def add_mono)
  also have "\<dots> = Suc (nat (num_pages h - (page_no rid + 1))) * nat (num_records_per_page h)" by simp
  also have "\<dots> \<le> nat (num_pages h) * nat (num_records_per_page h)"
    using True assms by (intro mult_le_mono1) (simp add: RM_FIRST_RECORD_PAGE_def)
  finally show ?thesis .
qed (simp add: rest_def)

section \<open>The scan delivers the matching records\<close>

text \<open>The table is open, the running transaction is alone, the conditions compare columns of the table.\<close>

definition seq_ok :: "SeqScan \<Rightarrow> DbState \<Rightarrow> RmFileHandle \<Rightarrow> bool" where
  "seq_ok x s fh \<longleftrightarrow> s_fhs s (ss_tab_name x) = Some fh \<and> db_inv s \<and> alone (s_locks s) (txn_id (s_txn s)) \<and>
     (\<forall>c \<in> set (ss_conds x). well_typed (ss_cols x) c) \<and> int (ss_len x) = record_size (file_hdr fh)"

definition matching :: "SeqScan \<Rightarrow> RmState \<Rightarrow> Rid list \<Rightarrow> byte list list" where
  "matching x f rids = select (ss_cols x) (ss_conds x) (rows_of f rids)"

definition to_come :: "RmState \<Rightarrow> Rid \<Rightarrow> Rid list" where
  "to_come f rid = rest (hdr f) (file_page f) rid"

definition seq_ready :: "SeqScan \<Rightarrow> DbState \<Rightarrow> byte list list \<Rightarrow> bool" where
  "seq_ready x s rs \<longleftrightarrow> (\<exists>fh. seq_ok x s fh \<and> rs = matching x (file_of s fh) (file_rids (file_of s fh)))"

definition seq_at :: "SeqScan \<Rightarrow> DbState \<Rightarrow> byte list list \<Rightarrow> bool" where
  "seq_at x s rs \<longleftrightarrow> (\<exists>fh rid. seq_ok x s fh \<and> ss_scan x = Some rid \<and> on_record (file_of s fh) rid \<and>
     (\<not> scan_is_end (file_of s fh) rid \<longrightarrow> ss_rid x = rid) \<and> rs = matching x (file_of s fh) (to_come (file_of s fh) rid))"

definition seq_got :: "SeqScan \<Rightarrow> DbState \<Rightarrow> byte list list \<Rightarrow> bool" where
  "seq_got x s rs \<longleftrightarrow> (\<exists>fh rid. seq_ok x s fh \<and> ss_scan x = Some rid \<and> on_record (file_of s fh) rid \<and>
     \<not> scan_is_end (file_of s fh) rid \<and> ss_rid x = rid \<and> rs = matching x (file_of s fh) (tl (to_come (file_of s fh) rid)))"

lemma seq_ok_frame:
  assumes "seq_ok x s fh" "db_frame s t"
  shows "seq_ok x t fh" "matching x (file_of t fh) rids = matching x (file_of s fh) rids"
    "file_rids (file_of t fh) = file_rids (file_of s fh)" "on_record (file_of t fh) rid = on_record (file_of s fh) rid"
    "scan_is_end (file_of t fh) rid = scan_is_end (file_of s fh) rid"
    "on_record (file_of s fh) rid \<Longrightarrow> to_come (file_of t fh) rid = to_come (file_of s fh) rid"
proof -
  have s: "s_fhs s (ss_tab_name x) = Some fh" "db_inv s" using assms(1) by (simp_all add: seq_ok_def)
  note f = frame_file [OF assms(2) s(2,1)]
  have "alone (s_locks t) (txn_id (s_txn t))" using assms by (simp add: seq_ok_def db_frame_def)
  then show "seq_ok x t fh" using assms(1) f(1,2) by (simp add: seq_ok_def)
  show "matching x (file_of t fh) rids = matching x (file_of s fh) rids" by (simp add: matching_def rows_of_def f(4))
  show "file_rids (file_of t fh) = file_rids (file_of s fh)" "on_record (file_of t fh) rid = on_record (file_of s fh) rid"
    "scan_is_end (file_of t fh) rid = scan_is_end (file_of s fh) rid" by (fact f(5), fact f(6), fact f(8))
  show "on_record (file_of s fh) rid \<Longrightarrow> to_come (file_of t fh) rid = to_come (file_of s fh) rid"
    using f(7) by (simp add: to_come_def on_record_def)
qed

lemma seq_stable:
  assumes "db_frame s t"
  shows "seq_ready x s rs \<Longrightarrow> seq_ready x t rs" "seq_at x s rs \<Longrightarrow> seq_at x t rs" "seq_got x s rs \<Longrightarrow> seq_got x t rs"
  using seq_ok_frame [OF _ assms] by (auto simp: seq_ready_def seq_at_def seq_got_def) metis+

text \<open>A program that reads the table's file, run by the scan.\<close>

lemma seq_read:
  assumes ok: "seq_ok x s fh" and run: "m (file_of s fh) = (Inr v, f)" "same_file (file_of s fh) f"
  obtains t where "on_file (ss_tab_name x) m s = (Inr v, t)" "db_frame s t"
proof -
  have "db_inv s" "s_fhs s (ss_tab_name x) = Some fh" using ok by (simp_all add: seq_ok_def)
  from on_file_read [where m = m, OF this run] show ?thesis using that by blast
qed

lemma seq_get_fd:
  assumes "seq_ok x s fh" shows "get_fd (ss_tab_name x) s = (Inr (fh_fd fh), s)"
  using assms by (simp add: get_fd_def on_file_def seq_ok_def prog_simps fun_upd_idem)

lemma seq_lock:
  assumes "seq_ok x s fh" "\<And>e. m e = lock lid mode e"
  obtains t where "with_lock (ss_ctx x) m s = (Inr (), t)" "db_frame s t"
proof -
  have "alone (s_locks s) (txn_id (s_txn s))" using assms(1) by (simp add: seq_ok_def)
  from with_lock_alone [where m = m, OF this assms(2)] show ?thesis using that by metis
qed

lemma seq_is_end_ok: "seq_ok x s fh \<Longrightarrow> ss_scan x = Some rid \<Longrightarrow> seq_is_end x s = scan_is_end (file_of s fh) rid"
  by (simp add: seq_is_end_def seq_ok_def)

lemma seq_inv: "seq_ok x s fh \<Longrightarrow> rm_inv (file_of s fh)"
  unfolding seq_ok_def db_inv_def by blast

lemma matching_len:
  assumes "seq_ok x s fh" "\<And>rid. rid \<in> set rids \<Longrightarrow> rm_recs (file_of s fh) rid \<noteq> None" "r \<in> set (matching x (file_of s fh) rids)"
  shows "length r = ss_len x"
proof -
  obtain rid where "rid \<in> set rids" "r = the (rm_recs (file_of s fh) rid)"
    using assms(3) by (auto simp: matching_def select_def rows_of_def)
  then have "rm_recs (file_of s fh) rid = Some r" using assms(2) by force
  from record_length [OF seq_inv [OF assms(1)] this] assms(1) show ?thesis by (simp add: seq_ok_def hdr_def file_of_def)
qed

lemma set_to_come:
  assumes "rm_inv f" "on_record f rid" "r \<in> set (to_come f rid)"
  shows "rm_recs f r \<noteq> None"
proof -
  have "set (to_come f rid) \<subseteq> set (file_rids f)"
  proof (cases "num_pages (hdr f) \<le> page_no rid")
    case False
    have "set (rids_in (hdr f) (file_page f) p k) \<subseteq> set (rids_in (hdr f) (file_page f) p 0)" for p k
      by (auto simp: rids_in_def slots_from_def)
    moreover have "set (pages_from (hdr f) (file_page f) p) = (\<Union>q \<in> {p..num_pages (hdr f) - 1}. set (rids_in (hdr f) (file_page f) q 0))" for p
      by (simp add: pages_from_def)
    ultimately show ?thesis
      using assms(2) False by (fastforce simp: to_come_def rest_def file_rids_def on_record_def)
  qed (simp add: to_come_def rest_def)
  then show ?thesis using set_file_rids [OF assms(1)] assms(3) by auto
qed

lemma seq_begin_ok:
  assumes "seq_ready x s rs"
  shows "\<exists>y t. seq_begin x s = (Inr y, t) \<and> db_frame s t \<and> seq_at y t rs \<and> ss_cols y = ss_cols x \<and> ss_len y = ss_len x \<and>
    seq_ready y t rs"
proof -
  obtain fh where ok: "seq_ok x s fh" and rs: "rs = matching x (file_of s fh) (file_rids (file_of s fh))"
    using assms by (auto simp: seq_ready_def)
  obtain t where t: "with_lock (ss_ctx x) (lock_shared_on_table (fh_fd fh)) s = (Inr (), t)" "db_frame s t"
    by (rule seq_lock [OF ok, of "lock_shared_on_table (fh_fd fh)" "table_LockDataId (fh_fd fh)" SHARED])
      (simp_all add: lock_shared_on_table_def)
  note kt = seq_ok_frame [OF ok t(2)]
  let ?f = "file_of t fh"
  obtain rid g where g: "scan_pages (num_pages (hdr ?f)) RM_FIRST_RECORD_PAGE ?f = (Inr rid, g)" "same_file ?f g"
      "rest (hdr ?f) (file_page ?f) rid = pages_from (hdr ?f) (file_page ?f) RM_FIRST_RECORD_PAGE" "on_record ?f rid"
    using scan_pages_run [OF seq_inv [OF kt(1)] refl, of RM_FIRST_RECORD_PAGE] by (auto simp: on_record_def)
  have "new_RmScan ?f = (Inr rid, g)" using g(1) by (simp add: new_RmScan_def prog_simps)
  from seq_read [where m = new_RmScan, OF kt(1) this g(2)] obtain u where
    u: "on_file (ss_tab_name x) new_RmScan t = (Inr rid, u)" "db_frame t u" .
  let ?y = "x\<lparr>ss_scan := Some rid, ss_rid := rid\<rparr>"
  have su: "db_frame s u" using db_frame_trans t(2) u(2) .
  have "to_come ?f rid = file_rids ?f" using g(3) by (simp add: to_come_def file_rids_def)
  then have at: "seq_at ?y t rs" using kt g(4) rs by (auto simp: seq_at_def seq_ok_def matching_def)
  have "seq_ready ?y s rs" using ok rs by (auto simp: seq_ready_def seq_ok_def matching_def)
  then have "seq_at ?y u rs" "seq_ready ?y u rs" using seq_stable(2) [OF u(2) at] seq_stable(1) [OF su] by blast+
  moreover have "seq_begin x s = (Inr ?y, u)"
    using seq_get_fd [OF ok] t(1) u(1) by (simp add: seq_begin_def prog_simps)
  ultimately show ?thesis using su by auto
qed

text \<open>One step of the underlying scan.\<close>

lemma seq_step:
  assumes ok: "seq_ok x s fh" and rid: "ss_scan x = Some rid" "on_record (file_of s fh) rid" "\<not> scan_is_end (file_of s fh) rid"
  obtains y t rid' where "seq_nextTuple x s = (Inr y, t)" "db_frame s t" "ss_cols y = ss_cols x" "ss_len y = ss_len x"
    "ss_tab_name y = ss_tab_name x" "ss_conds y = ss_conds x" "ss_ctx y = ss_ctx x"
    "to_come (file_of s fh) rid = rid # to_come (file_of s fh) rid'" "ss_scan y = Some rid'" "on_record (file_of s fh) rid'"
    "\<not> scan_is_end (file_of s fh) rid' \<longrightarrow> ss_rid y = rid'"
proof -
  let ?f = "file_of s fh"
  obtain rid' g where g: "scan_next rid ?f = (Inr rid', g)" "same_file ?f g" "on_record ?f rid'"
      "rest (hdr ?f) (file_page ?f) rid = rid # rest (hdr ?f) (file_page ?f) rid'"
    by (rule scan_next_run [OF seq_inv [OF ok] rid(2,3)])
  from seq_read [where m = "scan_next rid", OF ok g(1,2)] obtain t where
    t: "on_file (ss_tab_name x) (scan_next rid) s = (Inr rid', t)" "db_frame s t" .
  note kt = seq_ok_frame [OF ok t(2)]
  let ?y = "x\<lparr>ss_scan := Some rid'\<rparr>"
  let ?z = "if seq_is_end ?y t then ?y else ?y\<lparr>ss_rid := rid'\<rparr>"
  have "seq_is_end ?y t = scan_is_end ?f rid'"
    using kt(1,5) by (simp add: seq_is_end_def seq_ok_def)
  moreover have "seq_nextTuple x s = (Inr ?z, t)"
    using t(1) rid(1) by (simp add: seq_nextTuple_def the_scan_def prog_simps Let_def)
  ultimately show ?thesis using that [of ?z t rid'] t(2) g(3,4) by (auto simp: to_come_def)
qed

lemma seq_next_ok:
  assumes "seq_got x s rs"
  shows "\<exists>y t. seq_nextTuple x s = (Inr y, t) \<and> db_frame s t \<and> seq_at y t rs \<and> ss_cols y = ss_cols x \<and> ss_len y = ss_len x \<and>
    (\<forall>qs. seq_ready x s qs \<longrightarrow> seq_ready y t qs)"
proof -
  obtain fh rid where ok: "seq_ok x s fh" and rid: "ss_scan x = Some rid" "on_record (file_of s fh) rid"
      "\<not> scan_is_end (file_of s fh) rid" and rs: "rs = matching x (file_of s fh) (tl (to_come (file_of s fh) rid))"
    using assms by (auto simp: seq_got_def)
  obtain y t rid' where y: "seq_nextTuple x s = (Inr y, t)" "db_frame s t" "ss_cols y = ss_cols x" "ss_len y = ss_len x"
    "ss_tab_name y = ss_tab_name x" "ss_conds y = ss_conds x" "ss_ctx y = ss_ctx x"
    "to_come (file_of s fh) rid = rid # to_come (file_of s fh) rid'" "ss_scan y = Some rid'" "on_record (file_of s fh) rid'"
    "\<not> scan_is_end (file_of s fh) rid' \<longrightarrow> ss_rid y = rid'"
    by (rule seq_step [OF ok rid])
  have "seq_ok y s fh" using ok y by (simp add: seq_ok_def)
  then have "seq_at y s rs" using y rs by (auto simp: seq_at_def matching_def)
  moreover have "seq_ready y s qs" if "seq_ready x s qs" for qs
    using that y by (auto simp: seq_ready_def seq_ok_def matching_def)
  ultimately show ?thesis using seq_stable [OF y(2)] y(1-4) by blast
qed

lemma seq_lock_read:
  assumes ok: "seq_ok x s fh" and r: "rm_recs (file_of s fh) (ss_rid x) = Some r"
  obtains t u where "with_lock (ss_ctx x) (lock_shared_on_record (ss_rid x) (fh_fd fh)) s = (Inr (), t)"
    "on_file (ss_tab_name x) (get_record (ss_rid x)) t = (Inr r, u)" "db_frame s u"
proof -
  obtain t where t: "with_lock (ss_ctx x) (lock_shared_on_record (ss_rid x) (fh_fd fh)) s = (Inr (), t)" "db_frame s t"
    by (rule seq_lock [OF ok, of "lock_shared_on_record (ss_rid x) (fh_fd fh)" "record_LockDataId (fh_fd fh) (ss_rid x)" SHARED])
      (simp_all add: lock_shared_on_record_def)
  note kt = seq_ok_frame [OF ok t(2)]
  have "rm_recs (file_of t fh) (ss_rid x) = Some r"
    using r frame_file(4) [OF t(2), of "ss_tab_name x" fh] ok by (simp add: seq_ok_def)
  then obtain g where g: "get_record (ss_rid x) (file_of t fh) = (Inr r, g)" "same_file (file_of t fh) g"
    by (rule get_record_same [OF seq_inv [OF kt(1)]])
  from seq_read [where m = "get_record (ss_rid x)", OF kt(1) g] obtain u where
    u: "on_file (ss_tab_name x) (get_record (ss_rid x)) t = (Inr r, u)" "db_frame t u" .
  show ?thesis by (rule that [OF t(1) u(1) db_frame_trans [OF t(2) u(2)]])
qed

definition next_result :: "byte list list \<Rightarrow> byte list option \<Rightarrow> SeqScan \<Rightarrow> DbState \<Rightarrow> bool" where
  "next_result rs r y t = (case rs of [] \<Rightarrow> r = None \<and> seq_at y t [] | q # qs \<Rightarrow> r = Some q \<and> seq_got y t qs)"

lemma seq_Next_from_ok:
  assumes "seq_ok x s fh" "ss_scan x = Some rid" "on_record (file_of s fh) rid" "\<not> scan_is_end (file_of s fh) rid \<longrightarrow> ss_rid x = rid"
    and "length (to_come (file_of s fh) rid) < n"
  shows "\<exists>r y t. seq_Next_from n x s = (Inr (r, y), t) \<and> db_frame s t \<and> ss_cols y = ss_cols x \<and> ss_len y = ss_len x \<and>
    (\<forall>qs. seq_ready x s qs \<longrightarrow> seq_ready y t qs) \<and> next_result (matching x (file_of s fh) (to_come (file_of s fh) rid)) r y t"
  using assms
proof (induction n arbitrary: x s rid)
  case (Suc n)
  note ok = Suc.prems(1) and rid = Suc.prems(2-4)
  let ?f = "file_of s fh"
  have at_end: "seq_is_end x s = scan_is_end ?f rid" by (rule seq_is_end_ok [OF ok rid(1)])
  show ?case
  proof (cases "scan_is_end ?f rid")
    case True
    then have none: "to_come ?f rid = []" by (simp add: to_come_def rest_def scan_is_end_def)
    then have "seq_at x s []"
      using ok rid by (auto simp: seq_at_def matching_def select_def rows_of_def)
    then show ?thesis
      using True none rid(1) at_end db_frame_refl
      by (simp add: prog_simps the_scan_def next_result_def matching_def select_def rows_of_def)
  next
    case False
    then have cur: "ss_rid x = rid" using rid(3) by blast
    obtain row where row: "rm_recs ?f rid = Some row" by (rule on_record_found [OF seq_inv [OF ok] rid(2) False])
    obtain t u where u: "with_lock (ss_ctx x) (lock_shared_on_record (ss_rid x) (fh_fd fh)) s = (Inr (), t)"
      "on_file (ss_tab_name x) (get_record (ss_rid x)) t = (Inr row, u)" "db_frame s u"
      using seq_lock_read [OF ok] row cur by metis
    note ku = seq_ok_frame [OF ok u(3)]
    let ?b = "\<forall>c \<in> set (ss_conds x). cond_holds (ss_cols x) row c"
    have ev: "eval_conds (ss_conds x) row (ss_cols x) u = (Inr ?b, u)"
      using ok by (intro eval_conds_ref) (simp add: seq_ok_def)
    have "on_record (file_of u fh) rid" "\<not> scan_is_end (file_of u fh) rid" using ku(4,5) rid(2) False by simp_all
    from seq_step [OF ku(1) rid(1) this] obtain y v rid' where
      y: "seq_nextTuple x u = (Inr y, v)" "db_frame u v" "ss_cols y = ss_cols x" "ss_len y = ss_len x"
        "ss_tab_name y = ss_tab_name x" "ss_conds y = ss_conds x" "ss_ctx y = ss_ctx x"
        "to_come (file_of u fh) rid = rid # to_come (file_of u fh) rid'" "ss_scan y = Some rid'" "on_record (file_of u fh) rid'"
        "\<not> scan_is_end (file_of u fh) rid' \<longrightarrow> ss_rid y = rid'" .
    have tc: "to_come ?f rid = rid # to_come ?f rid'"
      using y(8) ku(6) [OF rid(2)] ku(6) [of rid'] y(10) ku(4) by simp
    have m: "matching x ?f (to_come ?f rid) = (if ?b then row # matching x ?f (to_come ?f rid') else matching x ?f (to_come ?f rid'))"
      by (simp add: tc matching_def select_def rows_of_def row)
    have start: "seq_Next_from (Suc n) x s = (if ?b then (Inr (Some row, x), u) else bindE (seq_nextTuple x) (seq_Next_from n) u)"
      using rid(1) at_end False seq_get_fd [OF ok] u(1,2) ev by (simp add: prog_simps the_scan_def)
    show ?thesis
    proof (cases ?b)
      case True
      have "seq_got x s (matching x ?f (to_come ?f rid'))"
        using ok rid False cur tc by (auto simp: seq_got_def)
      then have "seq_got x u (matching x ?f (to_come ?f rid'))" by (rule seq_stable(3) [OF u(3)])
      then show ?thesis
        using start True m u(3) seq_stable(1) [OF u(3)] by (simp add: next_result_def)
    next
      case False
      have sv: "db_frame s v" using db_frame_trans u(3) y(2) .
      note kv = seq_ok_frame [OF ok sv]
      have yok: "seq_ok y v fh" using kv(1) y by (simp add: seq_ok_def)
      have rid': "on_record ?f rid'" using y(10) ku(4) by simp
      have here: "on_record (file_of v fh) rid'" "\<not> scan_is_end (file_of v fh) rid' \<longrightarrow> ss_rid y = rid'"
        "to_come (file_of v fh) rid' = to_come ?f rid'"
        using rid' y(11) ku(5) kv(4,5,6) by simp_all
      have "length (to_come (file_of v fh) rid') < n" using Suc.prems(5) tc here(3) by simp
      from Suc.IH [OF yok y(9) here(1,2) this] obtain r z w where
        z: "seq_Next_from n y v = (Inr (r, z), w)" "db_frame v w" "ss_cols z = ss_cols y" "ss_len z = ss_len y"
          "\<forall>qs. seq_ready y v qs \<longrightarrow> seq_ready z w qs" "next_result (matching y (file_of v fh) (to_come (file_of v fh) rid')) r z w"
        by blast
      have "matching y (file_of v fh) (to_come (file_of v fh) rid') = matching x ?f (to_come ?f rid)"
        using False m here(3) kv(2) y(3,6) by (simp add: matching_def)
      moreover have "seq_ready y v qs" if "seq_ready x s qs" for qs
        using seq_stable(1) [OF sv that] y by (auto simp: seq_ready_def seq_ok_def matching_def)
      moreover have "seq_Next_from (Suc n) x s = (Inr (r, z), w)" using start False y(1) z(1) by (simp add: prog_simps)
      moreover have "db_frame s w" using db_frame_trans sv z(2) .
      ultimately show ?thesis using z(3-6) y(3,4) by simp
    qed
  qed
qed simp

lemma seq_Next_ok:
  assumes "seq_at x s rs"
  shows "\<exists>r y t. seq_Next x s = (Inr (r, y), t) \<and> db_frame s t \<and> ss_cols y = ss_cols x \<and> ss_len y = ss_len x \<and>
    (\<forall>qs. seq_ready x s qs \<longrightarrow> seq_ready y t qs) \<and> next_result rs r y t"
proof -
  obtain fh rid where ok: "seq_ok x s fh" and rid: "ss_scan x = Some rid" "on_record (file_of s fh) rid"
      "\<not> scan_is_end (file_of s fh) rid \<longrightarrow> ss_rid x = rid" and rs: "rs = matching x (file_of s fh) (to_come (file_of s fh) rid)"
    using assms by (auto simp: seq_at_def)
  have "length (to_come (file_of s fh) rid) < Suc (file_slots (ss_tab_name x) s)"
    using length_rest [of rid "hdr (file_of s fh)" "file_page (file_of s fh)"] rid(2) ok
    by (simp add: to_come_def on_record_def file_slots_def seq_ok_def hdr_def file_of_def)
  from seq_Next_from_ok [OF ok rid this] show ?thesis by (simp add: seq_Next_def rs)
qed

lemma seq_lens:
  "seq_ready x s rs \<Longrightarrow> r \<in> set rs \<Longrightarrow> length r = ss_len x"
  "seq_at x s rs \<Longrightarrow> r \<in> set rs \<Longrightarrow> length r = ss_len x"
proof -
  show "length r = ss_len x" if "seq_ready x s rs" "r \<in> set rs"
    using that matching_len set_file_rids [OF seq_inv] by (force simp: seq_ready_def)
  show "length r = ss_len x" if "seq_at x s rs" "r \<in> set rs"
    using that matching_len set_to_come [OF seq_inv] by (force simp: seq_at_def)
qed

interpretation seq: rescan_source seq_scan_ops db_frame seq_ready seq_at seq_got
proof unfold_locales
  fix x y s t rs qs r r'
  show "rs = []" if h: "seq_at x s rs" "op_is_end seq_scan_ops x s"
  proof -
    obtain fh rid where "seq_ok x s fh" "ss_scan x = Some rid" "rs = matching x (file_of s fh) (to_come (file_of s fh) rid)"
      using h(1) by (auto simp: seq_at_def)
    moreover from this have "scan_is_end (file_of s fh) rid" using seq_is_end_ok h(2) by (simp add: seq_scan_ops_def)
    ultimately show ?thesis by (simp add: to_come_def rest_def scan_is_end_def matching_def select_def rows_of_def)
  qed
  show "\<exists>y t. op_begin seq_scan_ops x s = (Inr y, t) \<and> db_frame s t \<and> seq_at y t rs \<and>
      op_cols seq_scan_ops y = op_cols seq_scan_ops x \<and> op_len seq_scan_ops y = op_len seq_scan_ops x"
    if "seq_ready x s rs"
    using seq_begin_ok [OF that] by (auto simp: seq_scan_ops_def)
  show "\<exists>y t. op_Next seq_scan_ops x s = (Inr (None, y), t) \<and> db_frame s t \<and> seq_at y t [] \<and>
      op_cols seq_scan_ops y = op_cols seq_scan_ops x \<and> op_len seq_scan_ops y = op_len seq_scan_ops x"
    if "seq_at x s []"
    using seq_Next_ok [OF that] by (auto simp: seq_scan_ops_def next_result_def)
  show "\<exists>y t. op_Next seq_scan_ops x s = (Inr (Some r, y), t) \<and> db_frame s t \<and> seq_got y t rs \<and>
      op_cols seq_scan_ops y = op_cols seq_scan_ops x \<and> op_len seq_scan_ops y = op_len seq_scan_ops x"
    if "seq_at x s (r # rs)"
    using seq_Next_ok [OF that] by (auto simp: seq_scan_ops_def next_result_def)
  show "\<exists>y t. op_next seq_scan_ops x s = (Inr y, t) \<and> db_frame s t \<and> seq_at y t rs \<and>
      op_cols seq_scan_ops y = op_cols seq_scan_ops x \<and> op_len seq_scan_ops y = op_len seq_scan_ops x"
    if "seq_got x s rs"
    using seq_next_ok [OF that] by (auto simp: seq_scan_ops_def)
  show "length r = op_len seq_scan_ops x" if "seq_ready x s rs" "r \<in> set rs"
    using seq_lens(1) [OF that] by (simp add: seq_scan_ops_def)
  show "length r = op_len seq_scan_ops x" if "seq_at x s rs" "r \<in> set rs"
    using seq_lens(2) [OF that] by (simp add: seq_scan_ops_def)
  show "seq_ready y t rs" if "seq_ready x s rs" "op_begin seq_scan_ops x s = (Inr y, t)"
    using seq_begin_ok [OF that(1)] that(2) by (simp add: seq_scan_ops_def)
  show "seq_ready y t rs" if "seq_ready x s rs" "seq_at x s qs" "op_Next seq_scan_ops x s = (Inr (r', y), t)"
    using seq_Next_ok [OF that(2)] that(1,3) by (auto simp: seq_scan_ops_def)
  show "seq_ready y t rs" if "seq_ready x s rs" "seq_got x s qs" "op_next seq_scan_ops x s = (Inr y, t)"
    using seq_next_ok [OF that(2)] that(1,3) by (auto simp: seq_scan_ops_def)
qed (auto simp: db_frame_refl intro: db_frame_trans seq_stable)

interpretation proj: projected seq_scan_ops db_frame seq_ready seq_at seq_got
  by (rule projected.intro) unfold_locales

section \<open>SELECT on one table\<close>

text \<open>A table of the catalogue whose file is open and whose columns lie inside its records.\<close>

definition tab_open :: "DbState \<Rightarrow> string \<Rightarrow> ColMeta list \<Rightarrow> bool" where
  "tab_open s tab cols \<longleftrightarrow> (\<exists>t fh. map_of (db_tabs (s_meta s)) tab = Some t \<and> tm_cols t = cols \<and> cols \<noteq> [] \<and>
     s_fhs s tab = Some fh \<and> record_size (file_hdr fh) = cm_offset (last cols) + cm_len (last cols) \<and>
     (\<forall>c \<in> set cols. col_fits (nat (record_size (file_hdr fh))) c))"

lemma new_SeqScan_ok:
  assumes "tab_open s tab cols" "db_inv s" "alone (s_locks s) (txn_id (s_txn s))" "\<forall>c \<in> set conds. well_typed cols c"
  obtains x where "new_SeqScan tab conds ctx s = (Inr x, s)" "seq_ready x s (select cols conds (table_rows s tab))"
    "ss_cols x = cols" "\<forall>c \<in> set cols. col_fits (ss_len x) c"
    "int (ss_len x) = cm_offset (last cols) + cm_len (last cols)" "0 < ss_len x"
proof -
  obtain t fh where t: "map_of (db_tabs (s_meta s)) tab = Some t" "tm_cols t = cols" "cols \<noteq> []" "s_fhs s tab = Some fh"
      "record_size (file_hdr fh) = cm_offset (last cols) + cm_len (last cols)"
      "\<forall>c \<in> set cols. col_fits (nat (record_size (file_hdr fh))) c"
    using assms(1) by (auto simp: tab_open_def)
  let ?x = "\<lparr>ss_tab_name = tab, ss_conds = conds, ss_cols = cols, ss_len = nat (record_size (file_hdr fh)),
            ss_rid = \<lparr>page_no = 0, slot_no = 0\<rparr>, ss_scan = None, ss_ctx = ctx\<rparr>"
  have "rm_inv (file_of s fh)" using assms(2) t(4) unfolding db_inv_def by blast
  then have pos: "1 \<le> record_size (file_hdr fh)" using rm_inv_parts(2) by (fastforce simp: hdr_wf_def hdr_def file_of_def)
  then have "seq_ok ?x s fh" using assms t(4) by (simp add: seq_ok_def)
  then have "seq_ready ?x s (select cols conds (table_rows s tab))"
    using t(4) by (auto simp: seq_ready_def matching_def table_rows_def)
  moreover have "new_SeqScan tab conds ctx s = (Inr ?x, s)"
    using t by (simp add: new_SeqScan_def prog_simps get_table_def get_fd_def on_file_def row_len_def fun_upd_idem)
  ultimately show ?thesis using that [of ?x] t(5,6) pos by simp
qed

text \<open>C7 SELECT with a WHERE clause on one table: with enough rounds for the rows of the table, the projection over
  the sequential scan returns, for each record of the file that satisfies all conditions, in file
  order, the selected columns one behind the other, and it leaves every table as it was. The
  transaction runs alone; the table is open and its columns lie inside its records.\<close>

theorem select_correct:
  assumes "db_inv s" and "alone (s_locks s) (txn_id (s_txn s))"
    and "tab_open s tab cols"
    and "\<forall>c \<in> set conds. well_typed cols c"
    and "\<forall>t \<in> set sel. find_pos (col_is t) cols \<noteq> None"
    and "length (table_rows s tab) < n"
  shows "\<exists>u. bindE (new_SeqScan tab conds ctx) (\<lambda>x. bindE (new_Projection seq_scan_ops x sel) (run_exec n (projection_ops seq_scan_ops))) s =
      (Inr (map (project cols (map (col_pos cols) sel)) (select cols conds (table_rows s tab))), u) \<and> db_frame s u"
proof -
  let ?rs = "select cols conds (table_rows s tab)"
  obtain x where x: "new_SeqScan tab conds ctx s = (Inr x, s)" "seq_ready x s ?rs"
      "ss_cols x = cols" "\<forall>c \<in> set cols. col_fits (ss_len x) c"
    by (rule new_SeqScan_ok [OF assms(3,1,2,4)])
  have E: "op_cols seq_scan_ops x = cols" "op_len seq_scan_ops x = ss_len x" using x(3) by (simp_all add: seq_scan_ops_def)
  obtain p where p: "new_Projection seq_scan_ops x sel s = (Inr p, s)" "proj_wf seq_scan_ops p" "pj_prev p = x"
      "pj_sel p = map (col_pos cols) sel"
    by (rule new_Projection_ok [where E = seq_scan_ops and x = x and sels = sel and s = s]) (use assms(5) x(4) E in auto)
  have "proj.lifted seq_ready p s (map (project cols (map (col_pos cols) sel)) ?rs)"
    using p x(2) E seq_lens(1) [OF x(2)] by (auto simp: proj.lifted_def)
  moreover have "length (map (project cols (map (col_pos cols) sel)) ?rs) < n"
    using assms(6) le_less_trans [OF length_filter_le assms(6)] by (simp add: select_def)
  ultimately obtain u where "run_exec n (projection_ops seq_scan_ops) p s =
      (Inr (map (project cols (map (col_pos cols) sel)) ?rs), u)" "db_frame s u"
    using proj.out.run_exec_ok by blast
  then show ?thesis using x(1) p(1) by (simp add: prog_simps)
qed

definition demo_cols :: "ColMeta list" where
  "demo_cols = [int_col ''t'' ''a'' 0, int_col ''t'' ''b'' 4,
     \<lparr>cm_tab_name = ''t'', cm_name = ''c'', cm_type = TYPE_STRING, cm_len = 504, cm_offset = 8, cm_index = False\<rparr>]"

definition demo_state :: DbState where
  "demo_state = \<lparr>s_pool = rm_pool demo_rm,
     s_meta = \<lparr>db_name = ''d'', db_tabs = [(''t'', \<lparr>tm_name = ''t'', tm_cols = demo_cols, indexes = []\<rparr>)]\<rparr>,
     s_fhs = [''t'' \<mapsto> rm_fh demo_rm], s_ihs = Map.empty, s_locks = Map.empty, s_log = new_LogManager,
     s_txn = new_Transaction 1\<rparr>"

lemma demo_file: "file_of demo_state (rm_fh demo_rm) = demo_rm"
  by (simp add: file_of_def demo_state_def)

lemma demo_state_ok: "db_inv demo_state" "alone (s_locks demo_state) (txn_id (s_txn demo_state))" "tab_open demo_state ''t'' demo_cols"
proof -
  show "db_inv demo_state"
    using demo_rm_inv demo_file unfolding db_inv_def by (simp add: demo_state_def)
  show "alone (s_locks demo_state) (txn_id (s_txn demo_state))" by (simp add: demo_state_def alone_def)
  have "file_hdr (rm_fh demo_rm) = demo_hdr" by (simp add: demo_rm_def)
  then show "tab_open demo_state ''t'' demo_cols"
    by (simp add: tab_open_def demo_state_def demo_cols_def demo_hdr_fields col_fits_def int_col_def)
qed

lemma demo_table_length: "length (table_rows demo_state ''t'') = 7"
  using demo_file by (simp add: table_rows_def rows_of_def demo_state_def demo_file_rids)

theorem select_correct_witness:
  "\<exists>u. bindE (new_SeqScan ''t'' [\<lparr>lhs_col = tab_col ''t'' ''a'', c_op = OP_GE, is_rhs_val = True, rhs_col = tab_col [] [], rhs_val = demo_int 0\<rparr>] None)
      (\<lambda>x. bindE (new_Projection seq_scan_ops x [tab_col ''t'' ''b'']) (run_exec 8 (projection_ops seq_scan_ops))) demo_state =
    (Inr (map (project demo_cols [1]) (select demo_cols
       [\<lparr>lhs_col = tab_col ''t'' ''a'', c_op = OP_GE, is_rhs_val = True, rhs_col = tab_col [] [], rhs_val = demo_int 0\<rparr>]
       (table_rows demo_state ''t''))), u) \<and> db_frame demo_state u"
proof -
  let ?conds = "[\<lparr>lhs_col = tab_col ''t'' ''a'', c_op = OP_GE, is_rhs_val = True, rhs_col = tab_col [] [], rhs_val = demo_int 0\<rparr>]"
  have "\<forall>c \<in> set ?conds. well_typed demo_cols c"
    by (simp add: well_typed_def find_col_def demo_cols_def col_is_def int_col_def tab_col_def)
  moreover have pos: "find_pos (col_is (tab_col ''t'' ''b'')) demo_cols = Some 1"
    by (simp add: demo_cols_def col_is_def int_col_def tab_col_def)
  moreover have "map (col_pos demo_cols) [tab_col ''t'' ''b''] = [1]" using pos by (simp add: col_pos_def)
  moreover have "length (table_rows demo_state ''t'') < 8" by (simp add: demo_table_length)
  ultimately show ?thesis
    using select_correct [OF demo_state_ok, of ?conds "[tab_col ''t'' ''b'']" 8 None] by simp
qed

end
