(* ===== verification/Aggregate.thy ===== *)
theory Aggregate
  imports Seq_Scan
begin

text \<open>
  \<^verbatim>\<open>execution/executor_aggregate.h\<close>: COUNT, SUM, MAX and MIN over the rows of a child. The lemmas give the
  one row the executor delivers over any child that keeps the contract \<open>row_source\<close>, and the values of the
  integer aggregates, also on an empty input.
\<close>

section \<open>AggregateExecutor\<close>

record AggAcc =
  acc_count :: int
  acc_int :: int
  acc_float :: f32
  acc_str :: "byte list"

text \<open>\<open>ag_col\<close> holds \<^verbatim>\<open>agg_col_type_\<close>, \<^verbatim>\<open>agg_col_len_\<close> and \<^verbatim>\<open>agg_col_offset_\<close>, which COUNT leaves unset.\<close>

record 'x Aggregate =
  ag_prev :: 'x
  ag_type :: AggType
  ag_out :: "ColMeta list"
  ag_len :: nat
  ag_col :: "ColMeta option"
  ag_is_int :: bool
  ag_acc :: AggAcc
  computed :: bool
  returned :: bool

definition agg_col_match :: "TabCol \<Rightarrow> ColMeta \<Rightarrow> bool" where
  "agg_col_match sel c \<longleftrightarrow> cm_name c = tc_col_name sel \<and> (tc_tab_name sel = [] \<or> cm_tab_name c = tc_tab_name sel)"

text \<open>Type, length and \<^verbatim>\<open>agg_is_int_\<close> of the output column; none is set for a DATETIME column.\<close>

fun agg_out_type :: "ColMeta \<Rightarrow> (ColType \<times> int \<times> bool) option" where
  "agg_out_type c =
     (case cm_type c of
        TYPE_INT \<Rightarrow> Some (TYPE_INT, 4, True)
      | TYPE_FLOAT \<Rightarrow> Some (TYPE_FLOAT, 4, False)
      | TYPE_BIGINT \<Rightarrow> Some (TYPE_FLOAT, 4, False)
      | TYPE_STRING \<Rightarrow> Some (TYPE_STRING, cm_len c, False)
      | TYPE_DATETIME \<Rightarrow> None)"

text \<open>The bit patterns of \<^verbatim>\<open>-1e38f\<close> and \<^verbatim>\<open>1e38f\<close>.\<close>

definition neg_1e38 :: f32 where "neg_1e38 = 0xFE967699"
definition pos_1e38 :: f32 where "pos_1e38 = 0x7E967699"

fun agg_init :: "AggType \<Rightarrow> ColType \<Rightarrow> AggAcc \<Rightarrow> AggAcc" where
  "agg_init AGG_MAX TYPE_FLOAT a = a\<lparr>acc_float := neg_1e38\<rparr>"
| "agg_init AGG_MIN TYPE_FLOAT a = a\<lparr>acc_float := pos_1e38\<rparr>"
| "agg_init AGG_MAX TYPE_INT a = a\<lparr>acc_int := - (2 ^ 63)\<rparr>"
| "agg_init AGG_MIN TYPE_INT a = a\<lparr>acc_int := 2 ^ 63 - 1\<rparr>"
| "agg_init AGG_MAX TYPE_STRING a = a\<lparr>acc_str := []\<rparr>"
| "agg_init _ _ a = a"

text \<open>
  The constructor. Where the column is not found, has type DATETIME, or the kind is \<open>AGG_NONE\<close>, it reads an
  output length that was never set.
\<close>

definition new_Aggregate :: "('x, 's) ops \<Rightarrow> 'x \<Rightarrow> TabCol list \<Rightarrow> ('s, 'x Aggregate) prog" where
  "new_Aggregate E prev sel_cols =
     (case sel_cols of
        [] \<Rightarrow> raise OutOfBounds
      | sel # _ \<Rightarrow>
          let ty = tc_agg_type sel;
              zero = \<lparr>acc_count = 0, acc_int = 0, acc_float = 0, acc_str = []\<rparr>;
              build = (\<lambda>col (t, l, i) a.
                \<lparr>ag_prev = prev, ag_type = ty,
                 ag_out = [\<lparr>cm_tab_name = [], cm_name = tc_col_name sel, cm_type = t, cm_len = l, cm_offset = 0, cm_index = False\<rparr>],
                 ag_len = nat l, ag_col = col, ag_is_int = i, ag_acc = a, computed = False, returned = False\<rparr>) in
          if ty = AGG_COUNT \<or> ty = AGG_COUNT_STAR then ret (build None (TYPE_INT, 4, True) zero)
          else if ty = AGG_NONE then raise Uninitialised
          else case List.find (agg_col_match sel) (op_cols E prev) of
                 None \<Rightarrow> raise Uninitialised
               | Some c \<Rightarrow>
                   (case agg_out_type c of
                      None \<Rightarrow> raise Uninitialised
                    | Some out \<Rightarrow> ret (build (Some c) out (agg_init ty (cm_type c) zero))))"

definition sum_step :: "ColMeta \<Rightarrow> byte list \<Rightarrow> AggAcc \<Rightarrow> AggAcc" where
  "sum_step c rec a =
     (let p = ptr rec (cm_offset c) in
      case cm_type c of
        TYPE_INT \<Rightarrow> a\<lparr>acc_int := acc_int a + load_i32 p\<rparr>
      | TYPE_FLOAT \<Rightarrow> a\<lparr>acc_float := f32_add (acc_float a) (load_f32 p)\<rparr>
      | TYPE_BIGINT \<Rightarrow> a\<lparr>acc_float := f32_add (acc_float a) (f32_of_int (load_i64 p))\<rparr>
      | _ \<Rightarrow> a)"

definition max_step :: "ColMeta \<Rightarrow> byte list \<Rightarrow> AggAcc \<Rightarrow> AggAcc" where
  "max_step c rec a =
     (let p = ptr rec (cm_offset c) in
      case cm_type c of
        TYPE_INT \<Rightarrow> if load_i32 p > acc_int a then a\<lparr>acc_int := load_i32 p\<rparr> else a
      | TYPE_FLOAT \<Rightarrow> if f32_less (acc_float a) (load_f32 p) then a\<lparr>acc_float := load_f32 p\<rparr> else a
      | TYPE_STRING \<Rightarrow> if bytes_less (acc_str a) (load_str p (cm_len c)) then a\<lparr>acc_str := load_str p (cm_len c)\<rparr> else a
      | _ \<Rightarrow> a)"

definition min_step :: "ColMeta \<Rightarrow> byte list \<Rightarrow> AggAcc \<Rightarrow> AggAcc" where
  "min_step c rec a =
     (let p = ptr rec (cm_offset c) in
      case cm_type c of
        TYPE_INT \<Rightarrow> if load_i32 p < acc_int a then a\<lparr>acc_int := load_i32 p\<rparr> else a
      | TYPE_FLOAT \<Rightarrow> if f32_less (load_f32 p) (acc_float a) then a\<lparr>acc_float := load_f32 p\<rparr> else a
      | TYPE_STRING \<Rightarrow>
          if acc_str a = [] \<or> bytes_less (load_str p (cm_len c)) (acc_str a) then a\<lparr>acc_str := load_str p (cm_len c)\<rparr> else a
      | _ \<Rightarrow> a)"

definition agg_step :: "AggType \<Rightarrow> ColMeta option \<Rightarrow> byte list \<Rightarrow> AggAcc \<Rightarrow> AggAcc" where
  "agg_step ty col rec a =
     (case (ty, col) of
        (AGG_COUNT_STAR, _) \<Rightarrow> a\<lparr>acc_count := acc_count a + 1\<rparr>
      | (AGG_COUNT, _) \<Rightarrow> a\<lparr>acc_count := acc_count a + 1\<rparr>
      | (AGG_SUM, Some c) \<Rightarrow> sum_step c rec a
      | (AGG_MAX, Some c) \<Rightarrow> max_step c rec a
      | (AGG_MIN, Some c) \<Rightarrow> min_step c rec a
      | _ \<Rightarrow> a)"

definition agg_begin :: "nat \<Rightarrow> ('x, 's) ops \<Rightarrow> 'x Aggregate \<Rightarrow> ('s, 'x Aggregate) prog" where
  "agg_begin n E g =
     (if computed g then ret g
      else bindE (op_begin E (ag_prev g)) (\<lambda>x.
           bindE (exec_loop n E (agg_step (ag_type g) (ag_col g)) (ag_acc g) x) (\<lambda>(a, y).
             ret (g\<lparr>ag_prev := y, ag_acc := a, computed := True, returned := False\<rparr>))))"

text \<open>A result written over the start of the record: the whole record must be written.\<close>

definition fill :: "nat \<Rightarrow> byte list \<Rightarrow> ('s, byte list) prog" where
  "fill len bs = (if length bs = len then ret bs else if len < length bs then raise OutOfBounds else raise Uninitialised)"

definition agg_row :: "'x Aggregate \<Rightarrow> ('s, byte list) prog" where
  "agg_row g =
     (let a = ag_acc g in
      case (ag_type g, ag_col g) of
        (AGG_COUNT, _) \<Rightarrow> fill (ag_len g) (enc_le 4 (acc_count a))
      | (AGG_COUNT_STAR, _) \<Rightarrow> fill (ag_len g) (enc_le 4 (acc_count a))
      | (AGG_SUM, _) \<Rightarrow> fill (ag_len g) (if ag_is_int g then enc_le 4 (acc_int a) else enc_le 4 (acc_float a))
      | (AGG_NONE, _) \<Rightarrow> raise Uninitialised
      | (_, None) \<Rightarrow> raise Uninitialised
      | (_, Some c) \<Rightarrow>
          (case cm_type c of
             TYPE_INT \<Rightarrow> fill (ag_len g) (enc_le 4 (acc_int a))
           | TYPE_FLOAT \<Rightarrow> fill (ag_len g) (enc_le 4 (acc_float a))
           | TYPE_STRING \<Rightarrow> fill (ag_len g) (take (nat (cm_len c)) (acc_str a @ replicate (nat (cm_len c)) 0))
           | _ \<Rightarrow> raise Uninitialised))"

definition agg_Next :: "'x Aggregate \<Rightarrow> ('s, byte list option \<times> 'x Aggregate) prog" where
  "agg_Next g =
     (if \<not> computed g \<or> returned g then ret (None, g)
      else bindE (agg_row g) (\<lambda>r. ret (Some r, g\<lparr>returned := True\<rparr>)))"

definition aggregate_ops :: "nat \<Rightarrow> ('x, 's) ops \<Rightarrow> ('x Aggregate, 's) ops" where
  "aggregate_ops n E =
     \<lparr>op_begin = agg_begin n E, op_next = (\<lambda>g. ret (g\<lparr>returned := True\<rparr>)),
      op_is_end = (\<lambda>g s. \<not> computed g \<or> returned g), op_Next = agg_Next, op_cols = ag_out, op_len = ag_len\<rparr>"

section \<open>The row of an aggregate\<close>

locale aggregated = row_source E frame ready at got
  for E :: "('x, 's) ops"
    and frame :: "'s \<Rightarrow> 's \<Rightarrow> bool"
    and ready :: "'x \<Rightarrow> 's \<Rightarrow> byte list list \<Rightarrow> bool"
    and at :: "'x \<Rightarrow> 's \<Rightarrow> byte list list \<Rightarrow> bool"
    and got :: "'x \<Rightarrow> 's \<Rightarrow> byte list list \<Rightarrow> bool"
begin

text \<open>Driven like any executor, it folds its step over the rows of the child and delivers one row.\<close>

lemma one_row:
  fixes row :: "byte list"
  assumes "ready (ag_prev g) s rs" "length rs < n" "\<not> computed g"
    and row: "\<And>t :: 's. \<And>y. agg_row (g\<lparr>ag_prev := y, ag_acc := fold (agg_step (ag_type g) (ag_col g)) rs (ag_acc g), computed := True,
        returned := False\<rparr>) t = (Inr row, t)"
  shows "\<exists>t. run_exec (Suc (Suc k)) (aggregate_ops n E) g s = (Inr [row], t) \<and> frame s t"
proof -
  obtain x t where x: "op_begin E (ag_prev g) s = (Inr x, t)" "frame s t" "at x t rs" using begin_ok [OF assms(1)] by blast
  obtain y u where y: "exec_loop n E (agg_step (ag_type g) (ag_col g)) (ag_acc g) x t =
      (Inr (fold (agg_step (ag_type g) (ag_col g)) rs (ag_acc g), y), u)" "frame t u"
    using loop_ok [OF x(3) assms(2), of "agg_step (ag_type g) (ag_col g)" "ag_acc g"] by blast
  have "frame s u" using x(2) y(2) by (rule frame_trans)
  then show ?thesis
    using x(1) y(1) assms(3) row [of y u]
    by (simp add: run_exec_def aggregate_ops_def agg_begin_def agg_Next_def prog_simps)
qed

end

interpretation agg: aggregated seq_scan_ops db_frame seq_ready seq_at seq_got
  by (rule aggregated.intro) unfold_locales

section \<open>Integer aggregates\<close>

definition int_vals :: "ColMeta \<Rightarrow> byte list list \<Rightarrow> int list" where
  "int_vals c rs = map (\<lambda>r. load_i32 (ptr r (cm_offset c))) rs"

text \<open>The aggregates of a list of integers, with what the executor makes of an empty list.\<close>

fun int_agg :: "AggType \<Rightarrow> int list \<Rightarrow> int" where
  "int_agg AGG_SUM vs = sum_list vs"
| "int_agg AGG_MAX vs = (if vs = [] then 0 else Max (set vs))"
| "int_agg AGG_MIN vs = (if vs = [] then -1 else Min (set vs))"
| "int_agg _ vs = int (length vs)"

lemma count_fold:
  assumes "ty = AGG_COUNT \<or> ty = AGG_COUNT_STAR"
  shows "acc_count (fold (agg_step ty col) rs a) = acc_count a + int (length rs)"
  using assms by (induction rs arbitrary: a) (auto simp: agg_step_def)

lemma sum_fold:
  assumes "cm_type c = TYPE_INT"
  shows "acc_int (fold (agg_step AGG_SUM (Some c)) rs a) = acc_int a + sum_list (int_vals c rs)"
  using assms by (induction rs arbitrary: a) (simp_all add: agg_step_def sum_step_def int_vals_def Let_def)

lemma max_fold:
  assumes "cm_type c = TYPE_INT"
  shows "acc_int (fold (agg_step AGG_MAX (Some c)) rs a) = Max (insert (acc_int a) (set (int_vals c rs)))"
proof (induction rs arbitrary: a)
  case (Cons r rs)
  let ?v = "load_i32 (ptr r (cm_offset c))"
  have "acc_int (agg_step AGG_MAX (Some c) r a) = max ?v (acc_int a)"
    using assms by (simp add: agg_step_def max_step_def Let_def)
  then have "acc_int (fold (agg_step AGG_MAX (Some c)) (r # rs) a) = Max (insert (max ?v (acc_int a)) (set (int_vals c rs)))"
    using Cons.IH by simp
  also have "\<dots> = Max (insert (acc_int a) (insert ?v (set (int_vals c rs))))"
    by (cases "set (int_vals c rs) = {}") (simp_all add: max.commute max.left_commute)
  finally show ?case by (simp add: int_vals_def)
qed (simp add: int_vals_def)

lemma min_fold:
  assumes "cm_type c = TYPE_INT"
  shows "acc_int (fold (agg_step AGG_MIN (Some c)) rs a) = Min (insert (acc_int a) (set (int_vals c rs)))"
proof (induction rs arbitrary: a)
  case (Cons r rs)
  let ?v = "load_i32 (ptr r (cm_offset c))"
  have "acc_int (agg_step AGG_MIN (Some c) r a) = min ?v (acc_int a)"
    using assms by (simp add: agg_step_def min_step_def Let_def)
  then have "acc_int (fold (agg_step AGG_MIN (Some c)) (r # rs) a) = Min (insert (min ?v (acc_int a)) (set (int_vals c rs)))"
    using Cons.IH by simp
  also have "\<dots> = Min (insert (acc_int a) (insert ?v (set (int_vals c rs))))"
    by (cases "set (int_vals c rs) = {}") (simp_all add: min.commute min.left_commute)
  finally show ?case by (simp add: int_vals_def)
qed (simp add: int_vals_def)

lemma load_i32_bounds: "- (2 ^ 31) \<le> load_i32 bs" "load_i32 bs < 2 ^ 31"
proof -
  have "(256 :: int) ^ min (length bs) 4 \<le> 256 ^ 4" by (rule power_increasing) simp_all
  then have "0 \<le> dec_le (take 4 bs)" "dec_le (take 4 bs) < 2 ^ 32" using dec_le_bounds [of "take 4 bs"] by auto
  then show "- (2 ^ 31) \<le> load_i32 bs" "load_i32 bs < 2 ^ 31" by (auto simp: load_i32_def dec_signed_def Let_def)
qed

lemma max_bytes:
  fixes vs :: "int list"
  assumes "\<forall>v \<in> set vs. - (2 ^ 31) \<le> v"
  shows "enc_le 4 (Max (insert (- (2 ^ 63)) (set vs))) = enc_le 4 (int_agg AGG_MAX vs)"
proof (cases "vs = []")
  case True
  have "enc_le 4 (- (2 ^ 63)) = enc_le 4 0" by (simp add: eval_nat_numeral)
  then show ?thesis using True by simp
next
  case False
  then have "Max (set vs) \<in> set vs" by simp
  then have "- (2 ^ 63) \<le> Max (set vs)" using assms by force
  then show ?thesis using False by (simp add: max_absorb2)
qed

lemma min_bytes:
  fixes vs :: "int list"
  assumes "\<forall>v \<in> set vs. v < 2 ^ 31"
  shows "enc_le 4 (Min (insert (2 ^ 63 - 1) (set vs))) = enc_le 4 (int_agg AGG_MIN vs)"
proof (cases "vs = []")
  case True
  have "enc_le 4 (2 ^ 63 - 1) = enc_le 4 (-1)" by (simp add: eval_nat_numeral)
  then show ?thesis using True by simp
next
  case False
  then have "Min (set vs) \<in> set vs" by simp
  then have "Min (set vs) \<le> 2 ^ 63 - 1" using assms by force
  then show ?thesis using False by (simp add: min_absorb2)
qed

text \<open>C22 COUNT of anything and SUM, MAX and MIN of an INT column, over a sequential scan with a WHERE clause:
  the one row of the result is the 32-bit encoding of the aggregate of the matching records. Over no
  record MAX is 0 and MIN is -1.\<close>

theorem aggregate_correct:
  assumes "db_inv s" and "alone (s_locks s) (txn_id (s_txn s))"
    and "tab_open s tab cols"
    and "\<forall>c \<in> set conds. well_typed cols c"
    and "length (table_rows s tab) < n"
    and "tc_agg_type sel = ty" and "ty \<noteq> AGG_NONE"
    and "ty = AGG_COUNT \<or> ty = AGG_COUNT_STAR \<or> List.find (agg_col_match sel) cols = Some c \<and> cm_type c = TYPE_INT"
  shows "\<exists>u. bindE (new_SeqScan tab conds ctx) (\<lambda>x. bindE (new_Aggregate seq_scan_ops x [sel]) (run_exec 2 (aggregate_ops n seq_scan_ops))) s =
      (Inr [enc_le 4 (int_agg ty (int_vals c (select cols conds (table_rows s tab))))], u) \<and> db_frame s u"
proof -
  let ?rs = "select cols conds (table_rows s tab)"
  obtain x where x: "new_SeqScan tab conds ctx s = (Inr x, s)" "seq_ready x s ?rs" "ss_cols x = cols"
    by (rule new_SeqScan_ok [OF assms(3,1,2,4)])
  have E: "op_cols seq_scan_ops x = cols" using x(3) by (simp add: seq_scan_ops_def)
  have n: "length ?rs < n" using le_less_trans [OF length_filter_le assms(5)] by (simp add: select_def)
  have vals: "\<forall>v \<in> set (int_vals c ?rs). - (2 ^ 31) \<le> v" "\<forall>v \<in> set (int_vals c ?rs). v < 2 ^ 31"
    using load_i32_bounds by (auto simp: int_vals_def)
  obtain g where g: "new_Aggregate seq_scan_ops x [sel] s = (Inr g, s)" "ag_prev g = x" "\<not> computed g"
      "\<And>(t :: DbState) y. agg_row (g\<lparr>ag_prev := y, ag_acc := fold (agg_step (ag_type g) (ag_col g)) ?rs (ag_acc g), computed := True,
        returned := False\<rparr>) t = (Inr (enc_le 4 (int_agg ty (int_vals c ?rs))), t)"
  proof (cases "ty = AGG_COUNT \<or> ty = AGG_COUNT_STAR")
    case True
    then show ?thesis
      using that assms(6) count_fold [OF True, of None ?rs]
      by (auto simp: new_Aggregate_def prog_simps Let_def agg_row_def fill_def int_vals_def)
  next
    case False
    then have c: "List.find (agg_col_match sel) cols = Some c" "cm_type c = TYPE_INT" using assms(8) by auto
    then show ?thesis
      using that assms(6,7) False E sum_fold [OF c(2), of ?rs] max_fold [OF c(2), of ?rs] min_fold [OF c(2), of ?rs]
        max_bytes [OF vals(1)] min_bytes [OF vals(2)]
      by (cases ty) (auto simp: new_Aggregate_def prog_simps Let_def agg_row_def fill_def)
  qed
  have "seq_ready (ag_prev g) s ?rs" using g(2) x(2) by simp
  from agg.one_row [OF this n g(3,4), of 0] obtain u where
    "run_exec 2 (aggregate_ops n seq_scan_ops) g s = (Inr [enc_le 4 (int_agg ty (int_vals c ?rs))], u)" "db_frame s u"
    by (auto simp: numeral_2_eq_2)
  then show ?thesis using x(1) g(1) by (simp add: prog_simps)
qed

definition agg_sel :: "AggType \<Rightarrow> TabCol" where
  "agg_sel ty = \<lparr>tc_tab_name = ''t'', tc_col_name = ''a'', tc_alias = [], tc_agg_type = ty\<rparr>"

theorem aggregate_correct_witness:
  "\<exists>u. bindE (new_SeqScan ''t'' [] None) (\<lambda>x. bindE (new_Aggregate seq_scan_ops x [agg_sel AGG_MAX])
      (run_exec 2 (aggregate_ops 8 seq_scan_ops))) demo_state =
    (Inr [enc_le 4 (int_agg AGG_MAX (int_vals (int_col ''t'' ''a'' 0) (select demo_cols [] (table_rows demo_state ''t''))))], u) \<and>
    db_frame demo_state u"
proof -
  have "List.find (agg_col_match (agg_sel AGG_MAX)) demo_cols = Some (int_col ''t'' ''a'' 0)"
    by (simp add: demo_cols_def agg_col_match_def agg_sel_def int_col_def)
  moreover have "cm_type (int_col ''t'' ''a'' 0) = TYPE_INT" by (simp add: int_col_def)
  ultimately show ?thesis
    using aggregate_correct [OF demo_state_ok, of "[]" 8 "agg_sel AGG_MAX" AGG_MAX "int_col ''t'' ''a'' 0" None]
    by (simp add: demo_table_length agg_sel_def)
qed

text \<open>MIN of a string column forgets an empty string: of \<open>''\<close> and \<open>'b'\<close> it keeps \<open>'b'\<close>.\<close>

lemma min_forgets_empty_string:
  assumes "cm_type c = TYPE_STRING" "acc_str a = []" "load_str (ptr r (cm_offset c)) (cm_len c) = []"
    "load_str (ptr r' (cm_offset c)) (cm_len c) = [98]"
  shows "acc_str (fold (agg_step AGG_MIN (Some c)) [r, r'] a) = [98]"
  using assms by (simp add: agg_step_def min_step_def Let_def)

end
