(* ===== verification/Join.thy ===== *)
theory Join
  imports Seq_Scan
begin

text \<open>
  \<^verbatim>\<open>execution/executor_nestedloop_join.h\<close>: the block nested loop join. A block of left rows is read, the right
  child is scanned once for it, and the matches are kept per left row; they are delivered in the order of
  the left rows. Over children that keep the contract \<open>row_source\<close> (the right one rescannable) the join
  keeps it too and delivers the rows of the plain nested loop.
\<close>

section \<open>NestedLoopJoinExecutor\<close>

definition JOIN_BUFFER_ROWS :: nat where "JOIN_BUFFER_ROWS = 500"

record ('l, 'r) Join =
  jn_left :: 'l
  jn_right :: 'r
  jn_len :: nat
  jn_cols :: "ColMeta list"
  jn_conds :: "Condition list"
  left_block :: "byte list list"
  per_left_matches :: "byte list list list"
  cur_left_idx :: nat
  cur_match_idx :: nat
  cur_right_data :: "byte list"
  left_exhausted :: bool
  jn_isend :: bool

definition new_Join :: "('l, 's) ops \<Rightarrow> ('r, 's) ops \<Rightarrow> 'l \<Rightarrow> 'r \<Rightarrow> Condition list \<Rightarrow> ('l, 'r) Join" where
  "new_Join L R left right conds =
     \<lparr>jn_left = left, jn_right = right, jn_len = op_len L left + op_len R right,
      jn_cols = join_cols (op_cols L left) (int (op_len L left)) (op_cols R right), jn_conds = conds,
      left_block = [], per_left_matches = [], cur_left_idx = 0, cur_match_idx = 0, cur_right_data = [],
      left_exhausted = False, jn_isend = False\<rparr>"

text \<open>The loop of \<^verbatim>\<open>fill_left_block\<close>, with the number of rows the block still takes.\<close>

fun fill_rows :: "nat \<Rightarrow> ('l, 's) ops \<Rightarrow> 'l \<Rightarrow> byte list list \<Rightarrow> ('s, byte list list \<times> 'l) prog" where
  "fill_rows 0 L x blk = ret (blk, x)"
| "fill_rows (Suc k) L x blk =
     bindE (gets (op_is_end L x)) (\<lambda>e.
       if e then ret (blk, x)
       else bindE (op_Next L x) (\<lambda>(r, y).
         case r of
           None \<Rightarrow> ret (blk, y)
         | Some rec \<Rightarrow> bindE (op_next L y) (\<lambda>z. fill_rows k L z (blk @ [take (op_len L x) rec]))))"

definition fill_left_block :: "('l, 's) ops \<Rightarrow> ('l, 'r) Join \<Rightarrow> ('s, bool \<times> ('l, 'r) Join) prog" where
  "fill_left_block L j =
     (if left_exhausted j then ret (False, j)
      else bindE (fill_rows JOIN_BUFFER_ROWS L (jn_left j) []) (\<lambda>(blk, x).
        let j1 = j\<lparr>jn_left := x, left_block := blk\<rparr> in
        if blk = [] then ret (False, j1\<lparr>left_exhausted := True\<rparr>) else ret (True, j1)))"

definition match_step :: "ColMeta list \<Rightarrow> ColMeta list \<Rightarrow> Condition list \<Rightarrow> nat \<Rightarrow> byte list list \<Rightarrow> byte list \<Rightarrow>
    byte list list list \<Rightarrow> byte list list list" where
  "match_step lc rc conds right_len blk rec ms =
     map2 (\<lambda>l m. if conds = [] \<or> check_row lc l rc rec conds then m @ [take right_len rec] else m) blk ms"

definition build_block_matches :: "nat \<Rightarrow> ('l, 's) ops \<Rightarrow> ('r, 's) ops \<Rightarrow> ('l, 'r) Join \<Rightarrow> ('s, ('l, 'r) Join) prog" where
  "build_block_matches n L R j =
     bindE (op_begin R (jn_right j)) (\<lambda>x.
     bindE (exec_loop n R (match_step (op_cols L (jn_left j)) (op_cols R x) (jn_conds j) (op_len R x) (left_block j))
       (replicate (length (left_block j)) []) x) (\<lambda>(ms, y).
       ret (j\<lparr>jn_right := y, per_left_matches := ms\<rparr>)))"

text \<open>The inner loop of \<^verbatim>\<open>advance_to_next_output\<close>: the position where it stops.\<close>

function next_match :: "byte list list list \<Rightarrow> nat \<Rightarrow> nat \<Rightarrow> nat \<times> nat" where
  "next_match ms i m =
     (if i < length ms then if m < length (ms ! i) then (i, m) else next_match ms (Suc i) 0 else (i, m))"
  by pat_completeness auto
termination by (relation "measure (\<lambda>(ms, i, m). length ms - i)") auto

declare next_match.simps [simp del]

fun advance_to_next_output :: "nat \<Rightarrow> nat \<Rightarrow> ('l, 's) ops \<Rightarrow> ('r, 's) ops \<Rightarrow> ('l, 'r) Join \<Rightarrow> ('s, ('l, 'r) Join) prog" where
  "advance_to_next_output 0 n L R j = raise OutOfFuel"
| "advance_to_next_output (Suc k) n L R j =
     (case next_match (per_left_matches j) (cur_left_idx j) (cur_match_idx j) of
        (i, m) \<Rightarrow>
          if i < length (per_left_matches j)
          then ret (j\<lparr>cur_left_idx := i, cur_right_data := per_left_matches j ! i ! m, cur_match_idx := Suc m\<rparr>)
          else bindE (fill_left_block L (j\<lparr>cur_left_idx := i, cur_match_idx := m\<rparr>)) (\<lambda>(more, j1).
            if \<not> more then ret (j1\<lparr>jn_isend := True, cur_right_data := []\<rparr>)
            else bindE (build_block_matches n L R j1) (\<lambda>j2.
              advance_to_next_output k n L R (j2\<lparr>cur_left_idx := 0, cur_match_idx := 0\<rparr>))))"

definition join_begin :: "nat \<Rightarrow> ('l, 's) ops \<Rightarrow> ('r, 's) ops \<Rightarrow> ('l, 'r) Join \<Rightarrow> ('s, ('l, 'r) Join) prog" where
  "join_begin n L R j =
     (let j0 = j\<lparr>jn_isend := False, left_exhausted := False, cur_left_idx := 0, cur_match_idx := 0, cur_right_data := [],
                per_left_matches := [], left_block := []\<rparr> in
      bindE (op_begin L (jn_left j0)) (\<lambda>x.
      bindE (fill_left_block L (j0\<lparr>jn_left := x\<rparr>)) (\<lambda>(more, j1).
        if \<not> more then ret (j1\<lparr>jn_isend := True\<rparr>)
        else bindE (build_block_matches n L R j1) (advance_to_next_output (Suc n) n L R))))"

definition join_next :: "nat \<Rightarrow> ('l, 's) ops \<Rightarrow> ('r, 's) ops \<Rightarrow> ('l, 'r) Join \<Rightarrow> ('s, ('l, 'r) Join) prog" where
  "join_next n L R j = (if jn_isend j then ret j else advance_to_next_output (Suc n) n L R j)"

definition join_Next :: "('l, 's) ops \<Rightarrow> ('r, 's) ops \<Rightarrow> ('l, 'r) Join \<Rightarrow> ('s, byte list option \<times> ('l, 'r) Join) prog" where
  "join_Next L R j =
     (if jn_isend j \<or> cur_right_data j = [] then ret (None, j)
      else ret (Some (take (op_len L (jn_left j)) (left_block j ! cur_left_idx j) @ take (op_len R (jn_right j)) (cur_right_data j)), j))"

definition join_ops :: "nat \<Rightarrow> ('l, 's) ops \<Rightarrow> ('r, 's) ops \<Rightarrow> (('l, 'r) Join, 's) ops" where
  "join_ops n L R = \<lparr>op_begin = join_begin n L R, op_next = join_next n L R, op_is_end = (\<lambda>j s. jn_isend j),
     op_Next = join_Next L R, op_cols = jn_cols, op_len = jn_len\<rparr>"

section \<open>The plain nested loop\<close>

definition matches :: "ColMeta list \<Rightarrow> ColMeta list \<Rightarrow> Condition list \<Rightarrow> byte list list \<Rightarrow> byte list \<Rightarrow> byte list list" where
  "matches lc rc conds rs l = filter (\<lambda>r. check_row lc l rc r conds) rs"

definition nested_loop :: "ColMeta list \<Rightarrow> ColMeta list \<Rightarrow> Condition list \<Rightarrow> byte list list \<Rightarrow> byte list list \<Rightarrow> byte list list" where
  "nested_loop lc rc conds rs ls = concat (map (\<lambda>l. map ((@) l) (matches lc rc conds rs l)) ls)"

text \<open>What the matches of a block still give from a position on.\<close>

definition block_rest :: "byte list list \<Rightarrow> byte list list list \<Rightarrow> nat \<Rightarrow> nat \<Rightarrow> byte list list" where
  "block_rest blk ms i m =
     (if i < length ms then map ((@) (blk ! i)) (drop m (ms ! i)) @ concat (map2 (\<lambda>l rs. map ((@) l) rs) (drop (Suc i) blk) (drop (Suc i) ms))
      else [])"

lemma block_rest_skip:
  assumes "i < length ms" "length (ms ! i) \<le> m" "length blk = length ms"
  shows "block_rest blk ms i m = block_rest blk ms (Suc i) 0"
proof (cases "Suc i < length ms")
  case True
  then show ?thesis using assms by (simp add: block_rest_def Cons_nth_drop_Suc [symmetric])
qed (use assms in \<open>simp add: block_rest_def\<close>)

lemma next_match_ok:
  assumes "length blk = length ms"
  shows "case next_match ms i m of (i', m') \<Rightarrow>
     if i' < length ms then m' < length (ms ! i') \<and>
       block_rest blk ms i m = (blk ! i' @ ms ! i' ! m') # block_rest blk ms i' (Suc m')
     else block_rest blk ms i m = []"
  using assms
proof (induction ms i m rule: next_match.induct)
  case (1 ms i m)
  show ?case
  proof (cases "i < length ms \<and> \<not> m < length (ms ! i)")
    case True
    then show ?thesis
      using 1 block_rest_skip [of i ms m blk] by (subst next_match.simps) (auto split: prod.splits if_splits)
  next
    case False
    then show ?thesis
      by (subst next_match.simps) (auto simp: block_rest_def Cons_nth_drop_Suc [symmetric])
  qed
qed

lemma match_fold:
  assumes "length ms = length blk" "\<And>r. r \<in> set rs \<Longrightarrow> length r = len"
  shows "fold (match_step lc rc conds len blk) rs ms = map2 (\<lambda>l m. m @ matches lc rc conds rs l) blk ms"
  using assms
proof (induction rs arbitrary: ms)
  case Nil
  then show ?case by (intro nth_equalityI) (simp_all add: matches_def)
next
  case (Cons r rs)
  have "length r = len" using Cons.prems(2) by simp
  moreover have "conds = [] \<or> check_row lc l rc r conds \<longleftrightarrow> check_row lc l rc r conds" for l by (auto simp: check_row_def)
  ultimately have step: "match_step lc rc conds len blk r ms = map2 (\<lambda>l m. if check_row lc l rc r conds then m @ [r] else m) blk ms"
    by (auto simp: match_step_def)
  show ?case
    using Cons by (simp add: step) (intro nth_equalityI, simp_all add: matches_def)
qed

lemma match_fold_new:
  assumes "\<And>r. r \<in> set rs \<Longrightarrow> length r = len"
  shows "fold (match_step lc rc conds len blk) rs (replicate (length blk) []) = map (matches lc rc conds rs) blk"
  by (subst match_fold) (use assms in \<open>auto intro: nth_equalityI\<close>)

lemma block_rest_all: "block_rest blk (map (matches lc rc conds rs) blk) 0 0 = nested_loop lc rc conds rs blk"
proof -
  have m: "map2 f xs (map g xs) = map (\<lambda>x. f x (g x)) xs" for f :: "byte list \<Rightarrow> byte list list \<Rightarrow> byte list list" and g xs
    by (intro nth_equalityI) simp_all
  show ?thesis by (cases blk) (simp_all add: block_rest_def nested_loop_def m)
qed

lemma nested_loop_append: "nested_loop lc rc conds rs (xs @ ys) = nested_loop lc rc conds rs xs @ nested_loop lc rc conds rs ys"
  by (simp add: nested_loop_def)

section \<open>The join keeps the contract\<close>

locale joined = l: row_source L frame readyL atL gotL + r: rescan_source R frame readyR atR gotR
  for L :: "('l, 's) ops" and R :: "('r, 's) ops"
    and frame :: "'s \<Rightarrow> 's \<Rightarrow> bool"
    and readyL :: "'l \<Rightarrow> 's \<Rightarrow> byte list list \<Rightarrow> bool"
    and atL :: "'l \<Rightarrow> 's \<Rightarrow> byte list list \<Rightarrow> bool"
    and gotL :: "'l \<Rightarrow> 's \<Rightarrow> byte list list \<Rightarrow> bool"
    and readyR :: "'r \<Rightarrow> 's \<Rightarrow> byte list list \<Rightarrow> bool"
    and atR :: "'r \<Rightarrow> 's \<Rightarrow> byte list list \<Rightarrow> bool"
    and gotR :: "'r \<Rightarrow> 's \<Rightarrow> byte list list \<Rightarrow> bool"
begin

definition lcols :: "('l, 'r) Join \<Rightarrow> ColMeta list" where "lcols j = op_cols L (jn_left j)"
definition rcols :: "('l, 'r) Join \<Rightarrow> ColMeta list" where "rcols j = op_cols R (jn_right j)"

definition looped :: "('l, 'r) Join \<Rightarrow> byte list list \<Rightarrow> byte list list \<Rightarrow> byte list list" where
  "looped j rs ls = nested_loop (lcols j) (rcols j) (jn_conds j) rs ls"

definition wf_right :: "nat \<Rightarrow> ('l, 'r) Join \<Rightarrow> 's \<Rightarrow> byte list list \<Rightarrow> bool" where
  "wf_right n j s rs \<longleftrightarrow> readyR (jn_right j) s rs \<and> length rs < n \<and> 0 < op_len R (jn_right j) \<and>
     jn_len j = op_len L (jn_left j) + op_len R (jn_right j)"

definition reading :: "nat \<Rightarrow> ('l, 'r) Join \<Rightarrow> 's \<Rightarrow> byte list list \<Rightarrow> byte list list \<Rightarrow> bool" where
  "reading n j s ls rs \<longleftrightarrow> wf_right n j s rs \<and> atL (jn_left j) s ls \<and> length ls \<le> n \<and> (left_exhausted j \<longrightarrow> ls = []) \<and>
     (\<forall>l \<in> set (left_block j). length l = op_len L (jn_left j))"

definition inside :: "nat \<Rightarrow> ('l, 'r) Join \<Rightarrow> 's \<Rightarrow> byte list list \<Rightarrow> byte list list \<Rightarrow> bool" where
  "inside n j s ls rs \<longleftrightarrow> reading n j s ls rs \<and> \<not> jn_isend j \<and>
     per_left_matches j = map (matches (lcols j) (rcols j) (jn_conds j) rs) (left_block j)"

definition pending :: "('l, 'r) Join \<Rightarrow> byte list list \<Rightarrow> byte list list \<Rightarrow> byte list list" where
  "pending j ls rs = block_rest (left_block j) (per_left_matches j) (cur_left_idx j) (cur_match_idx j) @ looped j rs ls"

definition jready :: "nat \<Rightarrow> ('l, 'r) Join \<Rightarrow> 's \<Rightarrow> byte list list \<Rightarrow> bool" where
  "jready n j s out \<longleftrightarrow> (\<exists>ls rs. readyL (jn_left j) s ls \<and> length ls \<le> n \<and> wf_right n j s rs \<and> out = looped j rs ls)"

definition jat :: "nat \<Rightarrow> ('l, 'r) Join \<Rightarrow> 's \<Rightarrow> byte list list \<Rightarrow> bool" where
  "jat n j s out \<longleftrightarrow> (if jn_isend j then out = []
     else \<exists>ls rs. inside n j s ls rs \<and> cur_left_idx j < length (left_block j) \<and> cur_right_data j \<in> set rs \<and>
            out = (left_block j ! cur_left_idx j @ cur_right_data j) # pending j ls rs)"

definition jgot :: "nat \<Rightarrow> ('l, 'r) Join \<Rightarrow> 's \<Rightarrow> byte list list \<Rightarrow> bool" where
  "jgot n j s out \<longleftrightarrow> (\<exists>r. jat n j s (r # out))"

lemma jat_intro:
  assumes "inside n j s ls rs" "cur_left_idx j < length (left_block j)" "cur_right_data j \<in> set rs"
    "out = (left_block j ! cur_left_idx j @ cur_right_data j) # pending j ls rs"
  shows "jat n j s out"
proof -
  have "\<not> jn_isend j" using assms(1) by (simp add: inside_def)
  then show ?thesis unfolding jat_def using assms by (simp only: if_False) blast
qed

lemma jstable:
  assumes "frame s t"
  shows "wf_right n j s rs \<Longrightarrow> wf_right n j t rs" "reading n j s ls rs \<Longrightarrow> reading n j t ls rs" "inside n j s ls rs \<Longrightarrow> inside n j t ls rs"
    "jready n j s out \<Longrightarrow> jready n j t out" "jat n j s out \<Longrightarrow> jat n j t out" "jgot n j s out \<Longrightarrow> jgot n j t out"
proof -
  show w: "wf_right n j t rs" if "wf_right n j s rs" for rs
    using that r.ready_stable assms by (auto simp: wf_right_def)
  show rd: "reading n j t ls rs" if "reading n j s ls rs" for ls rs
    using that w l.at_stable assms by (auto simp: reading_def)
  show i: "inside n j t ls rs" if "inside n j s ls rs" for ls rs
    using that rd by (auto simp: inside_def)
  show "jready n j t out" if "jready n j s out"
    using that w l.ready_stable [OF _ assms] unfolding jready_def by blast
  show a: "jat n j t out" if "jat n j s out" for out
    using that i unfolding jat_def by (meson)
  show "jgot n j t out" if "jgot n j s out"
    using that a unfolding jgot_def by blast
qed

lemma fill_rows_ok:
  assumes "atL x s ls"
  shows "\<exists>y t. fill_rows k L x blk s = (Inr (blk @ take k ls, y), t) \<and> frame s t \<and> atL y t (drop k ls) \<and>
    op_cols L y = op_cols L x \<and> op_len L y = op_len L x"
  using assms
proof (induction k arbitrary: x s ls blk)
  case 0
  then show ?case using l.frame_refl by (simp add: prog_simps)
next
  case (Suc k)
  show ?case
  proof (cases ls)
    case Nil
    show ?thesis
    proof (cases "op_is_end L x s")
      case True
      then show ?thesis using Nil Suc.prems l.frame_refl by (simp add: prog_simps)
    next
      case False
      obtain y t where "op_Next L x s = (Inr (None, y), t)" "frame s t" "atL y t []" "op_cols L y = op_cols L x" "op_len L y = op_len L x"
        using l.Next_none Suc.prems Nil by blast
      then show ?thesis using False Nil by (simp add: prog_simps)
    qed
  next
    case (Cons q qs)
    then have ne: "\<not> op_is_end L x s" using l.is_end_ok [OF Suc.prems] by blast
    obtain y t where y: "op_Next L x s = (Inr (Some q, y), t)" "frame s t" "gotL y t qs" "op_cols L y = op_cols L x" "op_len L y = op_len L x"
      using l.Next_some [of x s q qs] Suc.prems Cons by blast
    obtain z u where z: "op_next L y t = (Inr z, u)" "frame t u" "atL z u qs" "op_cols L z = op_cols L y" "op_len L z = op_len L y"
      using l.next_ok [OF y(3)] by blast
    obtain w v where w: "fill_rows k L z (blk @ [q]) u = (Inr ((blk @ [q]) @ take k qs, w), v)" "frame u v" "atL w v (drop k qs)"
        "op_cols L w = op_cols L z" "op_len L w = op_len L z"
      using Suc.IH [OF z(3), of "blk @ [q]"] by blast
    have "length q = op_len L x" using l.at_len [OF Suc.prems] Cons by simp
    moreover have "frame s v" using y(2) z(2) w(2) l.frame_trans by blast
    ultimately show ?thesis using ne y z w Cons by (simp add: prog_simps)
  qed
qed

lemma fill_left_block_ok:
  assumes "reading n j s ls rs"
  shows "\<exists>y t. fill_left_block L j s = (Inr (ls \<noteq> [], y), t) \<and> frame s t \<and> reading n y t (drop JOIN_BUFFER_ROWS ls) rs \<and>
    (ls \<noteq> [] \<longrightarrow> left_block y = take JOIN_BUFFER_ROWS ls) \<and> y = j\<lparr>jn_left := jn_left y, left_block := left_block y, left_exhausted := left_exhausted y\<rparr> \<and>
    lcols y = lcols j"
proof (cases "left_exhausted j")
  case True
  then have "ls = []" using assms by (simp add: reading_def)
  then show ?thesis using True assms l.frame_refl by (simp add: fill_left_block_def prog_simps)
next
  case False
  obtain x t where x: "fill_rows JOIN_BUFFER_ROWS L (jn_left j) [] s = (Inr (take JOIN_BUFFER_ROWS ls, x), t)" "frame s t"
      "atL x t (drop JOIN_BUFFER_ROWS ls)" "op_cols L x = op_cols L (jn_left j)" "op_len L x = op_len L (jn_left j)"
    using fill_rows_ok [of "jn_left j" s ls JOIN_BUFFER_ROWS "[]"] assms by (auto simp: reading_def)
  have "wf_right n j t rs" using jstable(1) [OF x(2)] assms by (simp add: reading_def)
  moreover have "\<forall>l \<in> set (take JOIN_BUFFER_ROWS ls). length l = op_len L x"
    using l.at_len assms x(5) by (auto simp: reading_def dest: in_set_takeD)
  moreover have "take JOIN_BUFFER_ROWS ls = [] \<longleftrightarrow> ls = []" by (simp add: JOIN_BUFFER_ROWS_def)
  ultimately show ?thesis
    using x assms False
    by (auto simp: fill_left_block_def prog_simps Let_def reading_def wf_right_def lcols_def)
qed

lemma build_ok:
  assumes "reading n j s ls rs"
  shows "\<exists>y t. build_block_matches n L R j s = (Inr (j\<lparr>jn_right := y, per_left_matches :=
      map (matches (lcols j) (rcols j) (jn_conds j) rs) (left_block j)\<rparr>), t) \<and> frame s t \<and>
    readyR y t rs \<and> op_cols R y = rcols j \<and> op_len R y = op_len R (jn_right j)"
proof -
  have rr: "readyR (jn_right j) s rs" "length rs < n" using assms by (simp_all add: reading_def wf_right_def)
  obtain x t where x: "op_begin R (jn_right j) s = (Inr x, t)" "frame s t" "atR x t rs" "op_cols R x = rcols j"
      "op_len R x = op_len R (jn_right j)"
    using r.begin_ok [OF rr(1)] by (auto simp: rcols_def)
  let ?f = "match_step (lcols j) (rcols j) (jn_conds j) (op_len R x) (left_block j)"
  obtain y u where y: "exec_loop n R ?f (replicate (length (left_block j)) []) x t =
      (Inr (fold ?f rs (replicate (length (left_block j)) []), y), u)" "frame t u" "r.kept x y"
    using r.loop_ok [OF x(3) rr(2), of ?f] by blast
  have "readyR y u rs"
    using r.loop_ready [OF r.begin_ready [OF rr(1) x(1)] x(3) y(1)] .
  moreover have "fold ?f rs (replicate (length (left_block j)) []) = map (matches (lcols j) (rcols j) (jn_conds j) rs) (left_block j)"
    using r.at_len [OF x(3)] by (intro match_fold_new)
  moreover have "frame s u" using x(2) y(2) by (rule l.frame_trans)
  ultimately show ?thesis
    using x(1,4,5) y(1,3) by (intro exI [of _ y] exI [of _ u]) (simp add: build_block_matches_def prog_simps lcols_def r.kept_def)
qed

lemma looped_cong: "lcols k = lcols j \<Longrightarrow> rcols k = rcols j \<Longrightarrow> jn_conds k = jn_conds j \<Longrightarrow> looped k = looped j"
  by (simp add: looped_def fun_eq_iff)

text \<open>Reading the next block: \<open>j\<close> is the join with the block just filled.\<close>

lemma next_block:
  assumes "reading n j s (drop JOIN_BUFFER_ROWS ls) rs" "left_block j = take JOIN_BUFFER_ROWS ls" "\<not> jn_isend j"
    "cur_left_idx k = 0" "cur_match_idx k = 0"
    "k = j\<lparr>jn_right := y, per_left_matches := map (matches (lcols j) (rcols j) (jn_conds j) rs) (left_block j),
       cur_left_idx := 0, cur_match_idx := 0\<rparr>"
    "readyR y t rs" "op_cols R y = rcols j" "op_len R y = op_len R (jn_right j)" "frame s t"
  shows "inside n k t (drop JOIN_BUFFER_ROWS ls) rs" "pending k (drop JOIN_BUFFER_ROWS ls) rs = looped j rs ls"
proof -
  have cols: "lcols k = lcols j" "rcols k = rcols j" "jn_conds k = jn_conds j" using assms(6,8) by (simp_all add: lcols_def rcols_def)
  have "atL (jn_left j) t (drop JOIN_BUFFER_ROWS ls)" 
    using assms(1) l.at_stable [OF _ assms(10)] by (simp add: reading_def)
  then show "inside n k t (drop JOIN_BUFFER_ROWS ls) rs"
    using assms cols by (simp add: inside_def reading_def wf_right_def)
  have "block_rest (left_block k) (per_left_matches k) 0 0 = looped j rs (take JOIN_BUFFER_ROWS ls)"
    using assms(2,6) by (simp add: block_rest_all looped_def)
  then show "pending k (drop JOIN_BUFFER_ROWS ls) rs = looped j rs ls"
    using assms(4,5) looped_cong [OF cols] nested_loop_append [of _ _ _ _ "take JOIN_BUFFER_ROWS ls" "drop JOIN_BUFFER_ROWS ls"]
    by (simp add: pending_def looped_def)
qed

lemma advance_ok:
  assumes "inside n j s ls rs" "length ls < k"
  shows "\<exists>y t. advance_to_next_output k n L R j s = (Inr y, t) \<and> frame s t \<and> jat n y t (pending j ls rs) \<and>
    jn_cols y = jn_cols j \<and> jn_len y = jn_len j"
  using assms
proof (induction k arbitrary: j s ls)
  case (Suc k)
  let ?ms = "per_left_matches j" and ?blk = "left_block j"
  have ms: "?ms = map (matches (lcols j) (rcols j) (jn_conds j) rs) ?blk" using Suc.prems(1) by (simp add: inside_def)
  obtain i m where im: "next_match ?ms (cur_left_idx j) (cur_match_idx j) = (i, m)" by force
  note nm = next_match_ok [of ?blk ?ms "cur_left_idx j" "cur_match_idx j", unfolded im]
  show ?case
  proof (cases "i < length ?ms")
    case True
    let ?y = "j\<lparr>cur_left_idx := i, cur_right_data := ?ms ! i ! m, cur_match_idx := Suc m\<rparr>"
    have m: "m < length (?ms ! i)" "block_rest ?blk ?ms (cur_left_idx j) (cur_match_idx j) =
        (?blk ! i @ ?ms ! i ! m) # block_rest ?blk ?ms i (Suc m)"
      using nm ms True by simp_all
    have "?ms ! i ! m \<in> set (?ms ! i)" using m(1) by simp
    then have "?ms ! i ! m \<in> set rs" using True ms by (simp add: matches_def)
    moreover have "inside n ?y s ls rs" using Suc.prems(1)
      by (simp add: inside_def reading_def wf_right_def lcols_def rcols_def)
    moreover have "pending j ls rs = (?blk ! i @ ?ms ! i ! m) # pending ?y ls rs"
      using m(2) by (simp add: pending_def looped_def lcols_def rcols_def)
    moreover have "length ?ms = length ?blk" using ms by simp
    ultimately have "jat n ?y s (pending j ls rs)"
      by (intro jat_intro [of n ?y s ls rs]) (use True in simp_all)
    then show ?thesis using True im l.frame_refl by (simp add: prog_simps)
  next
    case False
    then have none: "pending j ls rs = looped j rs ls" using nm ms by (simp add: pending_def)
    let ?j = "j\<lparr>cur_left_idx := i, cur_match_idx := m\<rparr>"
    have rd: "reading n ?j s ls rs" using Suc.prems(1) by (simp add: inside_def reading_def wf_right_def)
    obtain y t where y: "fill_left_block L ?j s = (Inr (ls \<noteq> [], y), t)" "frame s t" "reading n y t (drop JOIN_BUFFER_ROWS ls) rs"
        "ls \<noteq> [] \<longrightarrow> left_block y = take JOIN_BUFFER_ROWS ls"
        "y = ?j\<lparr>jn_left := jn_left y, left_block := left_block y, left_exhausted := left_exhausted y\<rparr>" "lcols y = lcols ?j"
      using fill_left_block_ok [OF rd] by (elim exE conjE) (rule that)
    have yf: "jn_isend y = jn_isend j" "jn_cols y = jn_cols j" "jn_len y = jn_len j" "rcols y = rcols j" "jn_conds y = jn_conds j"
      "lcols y = lcols j"
      using arg_cong [OF y(5), of jn_isend] arg_cong [OF y(5), of jn_cols] arg_cong [OF y(5), of jn_len]
        arg_cong [OF y(5), of jn_right] arg_cong [OF y(5), of jn_conds] y(6)
      by (simp_all add: rcols_def lcols_def)
    show ?thesis
    proof (cases "ls = []")
      case True
      then have "jat n (y\<lparr>jn_isend := True, cur_right_data := []\<rparr>) t (pending j ls rs)"
        using none by (simp add: jat_def looped_def nested_loop_def)
      then show ?thesis using False im True y(1,2) yf by (simp add: prog_simps)
    next
      case more: False
      obtain z u where z: "build_block_matches n L R y t = (Inr (y\<lparr>jn_right := z, per_left_matches :=
          map (matches (lcols y) (rcols y) (jn_conds y) rs) (left_block y)\<rparr>), u)" "frame t u"
          "readyR z u rs" "op_cols R z = rcols y" "op_len R z = op_len R (jn_right y)"
        using build_ok [OF y(3)] by blast
      let ?z = "y\<lparr>jn_right := z, per_left_matches := map (matches (lcols y) (rcols y) (jn_conds y) rs) (left_block y),
          cur_left_idx := 0, cur_match_idx := 0\<rparr>"
      have "left_block y = take JOIN_BUFFER_ROWS ls" "\<not> jn_isend y" using y(4) more yf(1) Suc.prems(1) by (simp_all add: inside_def)
      note nb = next_block [OF y(3) this _ _ refl z(3-5,2)]
      have in_z: "inside n ?z u (drop JOIN_BUFFER_ROWS ls) rs" "pending ?z (drop JOIN_BUFFER_ROWS ls) rs = looped y rs ls"
        by (rule nb; simp)+
      have "length (drop JOIN_BUFFER_ROWS ls) < k" using Suc.prems(2) more by (cases ls) (simp_all add: JOIN_BUFFER_ROWS_def)
      from Suc.IH [OF in_z(1) this] in_z(2) obtain w v where
        w: "advance_to_next_output k n L R ?z u = (Inr w, v)" "frame u v" "jat n w v (looped y rs ls)" "jn_cols w = jn_cols y" "jn_len w = jn_len y"
        by auto
      have "looped y rs ls = pending j ls rs" using none looped_cong [OF yf(6,4,5)] by simp
      moreover have "frame s v" using y(2) z(2) w(2) l.frame_trans by blast
      ultimately show ?thesis using False im more y(1) z(1) w yf by (simp add: prog_simps)
    qed
  qed
qed simp

lemma begin_join:
  assumes "jready n j s out"
  shows "\<exists>y t. join_begin n L R j s = (Inr y, t) \<and> frame s t \<and> jat n y t out \<and> jn_cols y = jn_cols j \<and> jn_len y = jn_len j"
proof -
  obtain ls rs where ls: "readyL (jn_left j) s ls" "length ls \<le> n" "wf_right n j s rs" "out = looped j rs ls"
    using assms by (auto simp: jready_def)
  let ?j = "j\<lparr>jn_isend := False, left_exhausted := False, cur_left_idx := 0, cur_match_idx := 0, cur_right_data := [],
                per_left_matches := [], left_block := []\<rparr>"
  obtain x t where x: "op_begin L (jn_left j) s = (Inr x, t)" "frame s t" "atL x t ls" "op_cols L x = op_cols L (jn_left j)"
      "op_len L x = op_len L (jn_left j)"
    using l.begin_ok [OF ls(1)] by blast
  let ?k = "?j\<lparr>jn_left := x\<rparr>"
  have rd: "reading n ?k t ls rs"
    using jstable(1) [OF x(2) ls(3)] x(3,5) ls(2) by (simp add: reading_def wf_right_def)
  obtain y u where y: "fill_left_block L ?k t = (Inr (ls \<noteq> [], y), u)" "frame t u" "reading n y u (drop JOIN_BUFFER_ROWS ls) rs"
      "ls \<noteq> [] \<longrightarrow> left_block y = take JOIN_BUFFER_ROWS ls"
      "y = ?k\<lparr>jn_left := jn_left y, left_block := left_block y, left_exhausted := left_exhausted y\<rparr>" "lcols y = lcols ?k"
    using fill_left_block_ok [OF rd] by (elim exE conjE) (rule that)
  have yf: "jn_isend y = False" "jn_cols y = jn_cols j" "jn_len y = jn_len j" "rcols y = rcols j" "jn_conds y = jn_conds j"
    "cur_left_idx y = 0" "cur_match_idx y = 0" "lcols y = lcols j"
    using arg_cong [OF y(5), of jn_isend] arg_cong [OF y(5), of jn_cols] arg_cong [OF y(5), of jn_len]
      arg_cong [OF y(5), of jn_right] arg_cong [OF y(5), of jn_conds] arg_cong [OF y(5), of cur_left_idx]
      arg_cong [OF y(5), of cur_match_idx] y(6) x(4)
    by (simp_all add: rcols_def lcols_def)
  have su: "frame s u" using x(2) y(2) by (rule l.frame_trans)
  show ?thesis
  proof (cases "ls = []")
    case True
    then have "jat n (y\<lparr>jn_isend := True\<rparr>) u out" using ls(4) by (simp add: jat_def looped_def nested_loop_def)
    then show ?thesis using True x(1) y(1) su yf by (simp add: join_begin_def prog_simps Let_def)
  next
    case more: False
    obtain z v where z: "build_block_matches n L R y u = (Inr (y\<lparr>jn_right := z, per_left_matches :=
        map (matches (lcols y) (rcols y) (jn_conds y) rs) (left_block y)\<rparr>), v)" "frame u v"
        "readyR z v rs" "op_cols R z = rcols y" "op_len R z = op_len R (jn_right y)"
      using build_ok [OF y(3)] by blast
    let ?z = "y\<lparr>jn_right := z, per_left_matches := map (matches (lcols y) (rcols y) (jn_conds y) rs) (left_block y)\<rparr>"
    have eq: "?z = y\<lparr>jn_right := z, per_left_matches := map (matches (lcols y) (rcols y) (jn_conds y) rs) (left_block y),
        cur_left_idx := 0, cur_match_idx := 0\<rparr>" by (rule Join.equality) (simp_all add: yf)
    have blk: "left_block y = take JOIN_BUFFER_ROWS ls" "\<not> jn_isend y" "cur_left_idx ?z = 0" "cur_match_idx ?z = 0"
      using y(4) more yf by simp_all
    note nb = next_block [OF y(3) blk eq z(3-5,2)]
    have "length (drop JOIN_BUFFER_ROWS ls) < Suc n" using ls(2) by simp
    from advance_ok [OF nb(1) this] nb(2) obtain w k where
      w: "advance_to_next_output (Suc n) n L R ?z v = (Inr w, k)" "frame v k" "jat n w k (looped y rs ls)" "jn_cols w = jn_cols y" "jn_len w = jn_len y"
      by auto
    have "looped y rs ls = out" using ls(4) looped_cong [OF yf(8,4,5)] by simp
    moreover have "frame s k" using su z(2) w(2) l.frame_trans by blast
    ultimately show ?thesis
      using more x(1) y(1) z(1) w yf by (simp add: join_begin_def prog_simps Let_def del: advance_to_next_output.simps)
  qed
qed

lemma jat_Some:
  assumes "jat n j s (q # out)"
  obtains ls rs where "inside n j s ls rs" "cur_left_idx j < length (left_block j)" "cur_right_data j \<in> set rs"
    "q = left_block j ! cur_left_idx j @ cur_right_data j" "out = pending j ls rs" "\<not> jn_isend j"
  using assms unfolding jat_def by (auto split: if_splits)

lemma jat_end: "jat n j s [] \<Longrightarrow> jn_isend j"
  unfolding jat_def by (auto split: if_splits)

lemma row_lens:
  assumes "inside n j s ls rs" "cur_left_idx j < length (left_block j)" "cur_right_data j \<in> set rs"
  shows "length (left_block j ! cur_left_idx j) = op_len L (jn_left j)" "length (cur_right_data j) = op_len R (jn_right j)"
    "cur_right_data j \<noteq> []"
proof -
  show "length (left_block j ! cur_left_idx j) = op_len L (jn_left j)" using assms(1,2) by (simp add: inside_def reading_def)
  have "readyR (jn_right j) s rs" "0 < op_len R (jn_right j)" using assms(1) by (simp_all add: inside_def reading_def wf_right_def)
  then show "length (cur_right_data j) = op_len R (jn_right j)" "cur_right_data j \<noteq> []"
    using r.ready_len assms(3) by fastforce+
qed

lemma looped_lens:
  assumes "q \<in> set (looped j rs ls)" "\<forall>l \<in> set ls. length l = a" "\<forall>r \<in> set rs. length r = b"
  shows "length q = a + b"
  using assms by (auto simp: looped_def nested_loop_def matches_def)

lemma block_rest_in:
  assumes "q \<in> set (block_rest blk (map f blk) i m)"
  shows "\<exists>l \<in> set blk. \<exists>r \<in> set (f l). q = l @ r"
proof -
  have i: "i < length blk" using assms by (auto simp: block_rest_def split: if_splits)
  consider r where "r \<in> set (drop m (f (blk ! i)))" "q = blk ! i @ r"
    | l r where "(l, r) \<in> set (zip (drop (Suc i) blk) (drop (Suc i) (map f blk)))" "q \<in> (@) l ` set r"
    using assms i by (auto simp: block_rest_def)
  then show ?thesis
  proof cases
    case 1
    then show ?thesis using i nth_mem [OF i] in_set_dropD [OF 1(1)] by blast
  next
    case 2
    then have "l \<in> set blk" "r = f l"
      by (auto simp: in_set_zip drop_map dest!: in_set_dropD)
    then show ?thesis using 2(2) by blast
  qed
qed

lemma pending_lens:
  assumes "inside n j s ls rs" "q \<in> set (pending j ls rs)"
  shows "length q = jn_len j"
proof -
  have lens: "\<forall>l \<in> set ls. length l = op_len L (jn_left j)" "\<forall>r \<in> set rs. length r = op_len R (jn_right j)"
    "\<forall>l \<in> set (left_block j). length l = op_len L (jn_left j)" "jn_len j = op_len L (jn_left j) + op_len R (jn_right j)"
    "per_left_matches j = map (matches (lcols j) (rcols j) (jn_conds j) rs) (left_block j)"
    using assms(1) l.at_len r.ready_len by (auto simp: inside_def reading_def wf_right_def)
  consider "q \<in> set (looped j rs ls)" | "q \<in> set (block_rest (left_block j) (map (matches (lcols j) (rcols j) (jn_conds j) rs) (left_block j))
      (cur_left_idx j) (cur_match_idx j))"
    using assms(2) lens(5) by (auto simp: pending_def)
  then show ?thesis
  proof cases
    case 1
    then show ?thesis using looped_lens [OF 1 lens(1,2)] lens(4) by simp
  next
    case 2
    then show ?thesis using block_rest_in [OF 2] lens(2-4) by (auto simp: matches_def)
  qed
qed

lemma source: "exact_source (join_ops n L R) frame (jready n) (jat n) (jgot n)"
proof unfold_locales
  fix j s t out q
  show "\<exists>y t. op_begin (join_ops n L R) j s = (Inr y, t) \<and> frame s t \<and> jat n y t out \<and>
      op_cols (join_ops n L R) y = op_cols (join_ops n L R) j \<and> op_len (join_ops n L R) y = op_len (join_ops n L R) j"
    if "jready n j s out"
    using begin_join [OF that] by (simp add: join_ops_def)
  show "out = []" if "jat n j s out" "op_is_end (join_ops n L R) j s"
    using that by (simp add: join_ops_def jat_def)
  show "op_is_end (join_ops n L R) j s" if "jat n j s []"
    using jat_end [OF that] by (simp add: join_ops_def)
  show "\<exists>y t. op_Next (join_ops n L R) j s = (Inr (None, y), t) \<and> frame s t \<and> jat n y t [] \<and>
      op_cols (join_ops n L R) y = op_cols (join_ops n L R) j \<and> op_len (join_ops n L R) y = op_len (join_ops n L R) j"
    if "jat n j s []"
    using jat_end [OF that] that l.frame_refl by (simp add: join_ops_def join_Next_def prog_simps)
  show "\<exists>y t. op_Next (join_ops n L R) j s = (Inr (Some q, y), t) \<and> frame s t \<and> jgot n y t out \<and>
      op_cols (join_ops n L R) y = op_cols (join_ops n L R) j \<and> op_len (join_ops n L R) y = op_len (join_ops n L R) j"
    if h: "jat n j s (q # out)"
  proof -
    have "jgot n j s out" using h by (auto simp: jgot_def)
    moreover have "join_Next L R j s = (Inr (Some q, j), s)"
      by (rule jat_Some [OF h]) (use row_lens in \<open>simp add: join_Next_def prog_simps\<close>)
    ultimately show ?thesis using l.frame_refl by (simp add: join_ops_def)
  qed
  show "\<exists>y t. op_next (join_ops n L R) j s = (Inr y, t) \<and> frame s t \<and> jat n y t out \<and>
      op_cols (join_ops n L R) y = op_cols (join_ops n L R) j \<and> op_len (join_ops n L R) y = op_len (join_ops n L R) j"
    if h: "jgot n j s out"
  proof -
    obtain q where "jat n j s (q # out)" using h by (auto simp: jgot_def)
    then obtain ls rs where ls: "inside n j s ls rs" "out = pending j ls rs" "\<not> jn_isend j" by (rule jat_Some)
    have "length ls < Suc n" using ls(1) by (simp add: inside_def reading_def)
    from advance_ok [OF ls(1) this] ls(2,3) show ?thesis by (simp add: join_ops_def join_next_def)
  qed
  show "length q = op_len (join_ops n L R) j" if h: "jready n j s out" "q \<in> set out"
  proof -
    obtain ls rs where ls: "readyL (jn_left j) s ls" "wf_right n j s rs" "out = looped j rs ls"
      using h(1) by (auto simp: jready_def)
    have "\<forall>l \<in> set ls. length l = op_len L (jn_left j)" "\<forall>r \<in> set rs. length r = op_len R (jn_right j)"
      using ls(1,2) l.ready_len r.ready_len by (auto simp: wf_right_def)
    then show ?thesis using looped_lens [of q j rs ls] h(2) ls(2,3) by (simp add: join_ops_def wf_right_def)
  qed
  show "length q = op_len (join_ops n L R) j" if h: "jat n j s out" "q \<in> set out"
  proof -
    obtain p out' where "out = p # out'" using h(2) by (cases out) auto
    then obtain ls rs where ls: "inside n j s ls rs" "cur_left_idx j < length (left_block j)" "cur_right_data j \<in> set rs"
        "p = left_block j ! cur_left_idx j @ cur_right_data j" "out' = pending j ls rs"
      using h(1) jat_Some by metis
    have "jn_len j = op_len L (jn_left j) + op_len R (jn_right j)" using ls(1) by (simp add: inside_def reading_def wf_right_def)
    then show ?thesis
      using h(2) \<open>out = p # out'\<close> row_lens [OF ls(1-3)] pending_lens [OF ls(1)] ls(4,5) by (auto simp: join_ops_def)
  qed
qed (auto intro: l.frame_refl l.frame_trans jstable)

end

interpretation jn: joined seq_scan_ops seq_scan_ops db_frame seq_ready seq_at seq_got seq_ready seq_at seq_got
  by (rule joined.intro) unfold_locales

section \<open>Joining two tables\<close>

lemma seq_cols_len: "op_cols seq_scan_ops x = ss_cols x" "op_len seq_scan_ops x = ss_len x"
  by (simp_all add: seq_scan_ops_def)

lemma length_nested_loop: "length (nested_loop lc rc conds rs ls) \<le> length ls * length rs"
proof (induction ls)
  case (Cons l ls)
  then show ?case using length_filter_le [of "\<lambda>r. check_row lc l rc r conds" rs]
    by (simp add: nested_loop_def matches_def add_mono)
qed (simp add: nested_loop_def)

lemma nested_loop_ref:
  assumes fits: "\<forall>c \<in> set lc. col_fits a c" "\<forall>c \<in> set rc. col_fits b c"
    and wt: "\<forall>cond \<in> set conds. well_typed (join_cols lc (int a) rc) cond"
    and lens: "\<forall>l \<in> set ls. length l = a" "\<forall>r \<in> set rs. length r = b"
  shows "nested_loop lc rc conds rs ls =
    concat (map (\<lambda>l. map ((@) l) (filter (\<lambda>r. \<forall>c \<in> set conds. cond_holds (join_cols lc (int a) rc) (l @ r) c) rs)) ls)"
proof -
  have "check_row lc l rc r conds = (\<forall>c \<in> set conds. cond_holds (join_cols lc (int a) rc) (l @ r) c)"
    if "l \<in> set ls" "r \<in> set rs" for l r
    using check_row_ref [of lc l rc r conds] fits wt lens that by simp
  then show ?thesis
    unfolding nested_loop_def matches_def
    by (intro arg_cong [of _ _ concat] map_cong refl arg_cong [of _ _ "map _"] filter_cong) simp_all
qed

text \<open>C8 The block nested loop join of two sequential scans, on tables of any number of blocks, returns the rows of the
  plain nested loop over the matching records of both tables: for every left row in file order, the
  concatenation with every right row in file order for which the join conditions hold on the joined
  row. It ends, and leaves every table as it was.\<close>

theorem join_correct:
  assumes "db_inv s" and "alone (s_locks s) (txn_id (s_txn s))"
    and "tab_open s t1 cols1" and "tab_open s t2 cols2"
    and "\<forall>c \<in> set conds1. well_typed cols1 c" and "\<forall>c \<in> set conds2. well_typed cols2 c"
    and "\<forall>c \<in> set conds. well_typed (join_cols cols1 (cm_offset (last cols1) + cm_len (last cols1)) cols2) c"
    and "length (table_rows s t1) \<le> n" and "length (table_rows s t2) < n"
    and "length (table_rows s t1) * length (table_rows s t2) < m"
  shows "\<exists>u. bindE (new_SeqScan t1 conds1 ctx) (\<lambda>x. bindE (new_SeqScan t2 conds2 ctx) (\<lambda>y.
        run_exec m (join_ops n seq_scan_ops seq_scan_ops) (new_Join seq_scan_ops seq_scan_ops x y conds))) s =
      (Inr (concat (map (\<lambda>l. map ((@) l) (filter (\<lambda>r. \<forall>c \<in> set conds.
          cond_holds (join_cols cols1 (cm_offset (last cols1) + cm_len (last cols1)) cols2) (l @ r) c)
          (select cols2 conds2 (table_rows s t2)))) (select cols1 conds1 (table_rows s t1)))), u) \<and> db_frame s u"
proof -
  let ?L = "select cols1 conds1 (table_rows s t1)" and ?R = "select cols2 conds2 (table_rows s t2)"
  let ?E = seq_scan_ops
  obtain x where x: "new_SeqScan t1 conds1 ctx s = (Inr x, s)" "seq_ready x s ?L" "ss_cols x = cols1"
      "\<forall>c \<in> set cols1. col_fits (ss_len x) c" "int (ss_len x) = cm_offset (last cols1) + cm_len (last cols1)"
    using new_SeqScan_ok [OF assms(3,1,2,5)] by metis
  obtain y where y: "new_SeqScan t2 conds2 ctx s = (Inr y, s)" "seq_ready y s ?R" "ss_cols y = cols2"
      "\<forall>c \<in> set cols2. col_fits (ss_len y) c" "0 < ss_len y"
    using new_SeqScan_ok [OF assms(4,1,2,6)] by metis
  let ?j = "new_Join ?E ?E x y conds"
  have L: "length ?L \<le> length (table_rows s t1)" and R: "length ?R \<le> length (table_rows s t2)"
    by (simp_all add: select_def)
  have "jn.wf_right n ?j s ?R"
    using y(2,5) R assms(9) by (simp add: jn.wf_right_def new_Join_def seq_cols_len)
  then have "jn.jready n ?j s (nested_loop cols1 cols2 conds ?R ?L)"
    using x(2,3) y(3) L assms(8)
    unfolding jn.jready_def
    by - (rule exI [of _ ?L], rule exI [of _ ?R], simp add: jn.looped_def jn.lcols_def jn.rcols_def new_Join_def seq_cols_len)
  moreover have "length (nested_loop cols1 cols2 conds ?R ?L) < m"
    using length_nested_loop [of cols1 cols2 conds ?R ?L] mult_le_mono [OF L R] assms(10) by linarith
  ultimately obtain u where u: "run_exec m (join_ops n ?E ?E) ?j s = (Inr (nested_loop cols1 cols2 conds ?R ?L), u)" "db_frame s u"
    using row_source.run_exec_ok [OF exact_source.axioms(1) [OF jn.source]] by blast
  have "nested_loop cols1 cols2 conds ?R ?L =
      concat (map (\<lambda>l. map ((@) l) (filter (\<lambda>r. \<forall>c \<in> set conds. cond_holds (join_cols cols1 (int (ss_len x)) cols2) (l @ r) c) ?R)) ?L)"
    using assms(7) x(4,5) y(4) seq_lens(1) [OF x(2)] seq_lens(1) [OF y(2)] by (intro nested_loop_ref) auto
  then show ?thesis using u x(1,5) y(1) by (simp add: prog_simps)
qed

definition join_cond :: Condition where
  "join_cond = \<lparr>lhs_col = tab_col ''t'' ''a'', c_op = OP_LE, is_rhs_val = False, rhs_col = tab_col ''t'' ''b'', rhs_val = demo_int 0\<rparr>"

theorem join_correct_witness:
  "\<exists>u. bindE (new_SeqScan ''t'' [] None) (\<lambda>x. bindE (new_SeqScan ''t'' [] None) (\<lambda>y.
        run_exec 50 (join_ops 8 seq_scan_ops seq_scan_ops) (new_Join seq_scan_ops seq_scan_ops x y [join_cond]))) demo_state =
      (Inr (concat (map (\<lambda>l. map ((@) l) (filter (\<lambda>r. cond_holds (join_cols demo_cols 512 demo_cols) (l @ r) join_cond)
          (select demo_cols [] (table_rows demo_state ''t'')))) (select demo_cols [] (table_rows demo_state ''t'')))), u) \<and>
    db_frame demo_state u"
proof -
  have "well_typed (join_cols demo_cols 512 demo_cols) join_cond"
    by (simp add: well_typed_def join_cols_def find_col_def demo_cols_def col_is_def int_col_def tab_col_def join_cond_def same_shape_def)
  moreover have "cm_offset (last demo_cols) + cm_len (last demo_cols) = 512" by (simp add: demo_cols_def)
  ultimately show ?thesis
    using join_correct [OF demo_state_ok(1,2,3) demo_state_ok(3), of "[]" "[]" "[join_cond]" 8 50 None]
    by (simp add: demo_table_length)
qed

end
