(* ===== verification/Sort.thy ===== *)
theory Sort
  imports Join "HOL-Library.Multiset"
begin

text \<open>
  \<^verbatim>\<open>execution/execution_sort.h\<close>: ORDER BY, in memory for up to \<open>SORT_CHUNK_ROWS\<close> rows and by sorted runs in
  temporary files with a k-way merge over a binary heap beyond that. \<^verbatim>\<open>std::sort\<close> is a parameter of which
  only the documented contract is used. The lemmas show that the comparison of rows is a total preorder,
  that the heap keeps a least head on top, and that the executor delivers a sorted permutation of its
  input on both paths.
\<close>

section \<open>SortExecutor\<close>

type_synonym row = "byte list"

definition SORT_CHUNK_ROWS :: nat where "SORT_CHUNK_ROWS = 50000"

definition cmpcol :: "row \<Rightarrow> row \<Rightarrow> ColMeta \<Rightarrow> int" where
  "cmpcol a b c =
     (let p = ptr a (cm_offset c); q = ptr b (cm_offset c) in
      case cm_type c of
        TYPE_INT \<Rightarrow> if load_i32 p < load_i32 q then -1 else if load_i32 p > load_i32 q then 1 else 0
      | TYPE_FLOAT \<Rightarrow> if f32_less (load_f32 p) (load_f32 q) then -1 else if f32_less (load_f32 q) (load_f32 p) then 1 else 0
      | TYPE_STRING \<Rightarrow>
          if bytes_less (load_str p (cm_len c)) (load_str q (cm_len c)) then -1
          else if bytes_less (load_str q (cm_len c)) (load_str p (cm_len c)) then 1 else 0
      | _ \<Rightarrow> if load_i64 p < load_i64 q then -1 else if load_i64 p > load_i64 q then 1 else 0)"

text \<open>The sort columns come with their direction flags.\<close>

fun row_less :: "(ColMeta \<times> bool) list \<Rightarrow> row \<Rightarrow> row \<Rightarrow> bool" where
  "row_less [] a b = False"
| "row_less ((c, desc) # cs) a b =
     (let r = cmpcol a b c in if r \<noteq> 0 then (if desc then r > 0 else r < 0) else row_less cs a b)"

record 'x Sort =
  so_prev :: 'x
  sort_cols :: "(ColMeta \<times> bool) list"
  so_len :: nat
  output_cols :: "ColMeta list"
  sorted_data :: "row list"
  current_idx :: nat
  is_sorted :: bool
  is_external :: bool
  run_files :: "byte list list"
  run_streams :: "byte list list"
  run_heads :: "row list"
  so_heap :: "nat list"
  cur_output_row :: row

definition sort_col_match :: "TabCol \<Rightarrow> ColMeta \<Rightarrow> bool" where
  "sort_col_match sc c \<longleftrightarrow> (tc_tab_name sc = [] \<or> cm_tab_name c = tc_tab_name sc) \<and> cm_name c = tc_col_name sc"

text \<open>
  A selected column that is not found is left out, and the direction flags are not: the flags are read by
  the position among the columns that were found.
\<close>

definition new_Sort :: "('x, 's) ops \<Rightarrow> 'x \<Rightarrow> TabCol list \<Rightarrow> bool list \<Rightarrow> 'x Sort" where
  "new_Sort E prev sel_cols is_desc =
     (let out = op_cols E prev in
      \<lparr>so_prev = prev, sort_cols = zip (List.map_filter (\<lambda>sc. List.find (sort_col_match sc) out) sel_cols) is_desc,
       so_len = (if out = [] then 0 else nat (cm_offset (last out) + cm_len (last out))), output_cols = out,
       sorted_data = [], current_idx = 0, is_sorted = False, is_external = False, run_files = [], run_streams = [],
       run_heads = [], so_heap = [], cur_output_row = []\<rparr>)"

subsection \<open>Runs\<close>

text \<open>A run file is its content: the number of rows in eight bytes, then the rows.\<close>

definition write_sorted_run :: "nat \<Rightarrow> row list \<Rightarrow> byte list" where
  "write_sorted_run len rows = enc_le 8 (int (length rows)) @ concat (map (take len) rows)"

text \<open>Reading \<^verbatim>\<open>len_\<close> bytes from a stream: the bytes, the rest, and whether all were there.\<close>

definition read_row :: "nat \<Rightarrow> byte list \<Rightarrow> row \<times> byte list \<times> bool" where
  "read_row len str = (take len str @ replicate (len - length str) 0, drop len str, len \<le> length str)"

subsection \<open>The heap of runs\<close>

definition heap_gt :: "(row \<Rightarrow> row \<Rightarrow> bool) \<Rightarrow> row list \<Rightarrow> nat \<Rightarrow> nat \<Rightarrow> bool" where
  "heap_gt lt heads a b = lt (heads ! b) (heads ! a)"

definition swap :: "nat list \<Rightarrow> nat \<Rightarrow> nat \<Rightarrow> nat list" where
  "swap h i j = h[i := h ! j, j := h ! i]"

fun heap_sift_up :: "(nat \<Rightarrow> nat \<Rightarrow> bool) \<Rightarrow> nat list \<Rightarrow> nat \<Rightarrow> nat list" where
  "heap_sift_up gt h idx =
     (if idx > 0 then
        let p = (idx - 1) div 2 in
        if \<not> gt (h ! p) (h ! idx) then h else heap_sift_up gt (swap h p idx) p
      else h)"

declare heap_sift_up.simps [simp del]

text \<open>The least of a node and its children.\<close>

definition smallest :: "(nat \<Rightarrow> nat \<Rightarrow> bool) \<Rightarrow> nat list \<Rightarrow> nat \<Rightarrow> nat" where
  "smallest gt h idx =
     (let l = 2 * idx + 1; r = 2 * idx + 2;
          m = (if l < length h \<and> gt (h ! idx) (h ! l) then l else idx) in
      if r < length h \<and> gt (h ! m) (h ! r) then r else m)"

function heap_sift_down :: "(nat \<Rightarrow> nat \<Rightarrow> bool) \<Rightarrow> nat list \<Rightarrow> nat \<Rightarrow> nat list" where
  "heap_sift_down gt h idx =
     (let m = smallest gt h idx in if m = idx then h else heap_sift_down gt (swap h idx m) m)"
  by pat_completeness auto
termination
  by (relation "measure (\<lambda>(gt, h, idx). length h - idx)") (auto simp: smallest_def swap_def Let_def split: if_splits)

declare heap_sift_down.simps [simp del]

definition heap_push :: "(nat \<Rightarrow> nat \<Rightarrow> bool) \<Rightarrow> nat list \<Rightarrow> nat \<Rightarrow> nat list" where
  "heap_push gt h run_idx = heap_sift_up gt (h @ [run_idx]) (length h)"

definition heap_pop :: "(nat \<Rightarrow> nat \<Rightarrow> bool) \<Rightarrow> nat list \<Rightarrow> nat list" where
  "heap_pop gt h =
     (let h1 = butlast (h[0 := last h]) in if h1 \<noteq> [] then heap_sift_down gt h1 0 else h1)"

subsection \<open>The executor\<close>

text \<open>One chunk is complete: sort it and write it out.\<close>

definition sort_chunk :: "((row \<Rightarrow> row \<Rightarrow> bool) \<Rightarrow> row list \<Rightarrow> row list) \<Rightarrow> 'x Sort \<Rightarrow> row list \<Rightarrow> row list" where
  "sort_chunk std_sort x rows = (if sort_cols x \<noteq> [] then std_sort (row_less (sort_cols x)) rows else rows)"

fun read_chunks :: "nat \<Rightarrow> ((row \<Rightarrow> row \<Rightarrow> bool) \<Rightarrow> row list \<Rightarrow> row list) \<Rightarrow> ('x, 's) ops \<Rightarrow> 'x Sort \<Rightarrow> ('s, 'x Sort) prog" where
  "read_chunks 0 std_sort E x = raise OutOfFuel"
| "read_chunks (Suc n) std_sort E x =
     bindE (gets (op_is_end E (so_prev x))) (\<lambda>e.
       if e then ret x
       else bindE (op_Next E (so_prev x)) (\<lambda>(r, y).
         case r of
           None \<Rightarrow> bindE (op_next E y) (\<lambda>z. read_chunks n std_sort E (x\<lparr>so_prev := z\<rparr>))
         | Some rec \<Rightarrow>
             let tl = (if op_len E y = 0 then so_len x else op_len E y);
                 rows = sorted_data x @ [take tl rec] in
             bindE (op_next E y) (\<lambda>z.
               if SORT_CHUNK_ROWS \<le> length rows
               then read_chunks n std_sort E (x\<lparr>so_prev := z, sorted_data := [],
                      run_files := run_files x @ [write_sorted_run (so_len x) (sort_chunk std_sort x rows)]\<rparr>)
               else read_chunks n std_sort E (x\<lparr>so_prev := z, sorted_data := rows\<rparr>))))"

definition sort_gt :: "'x Sort \<Rightarrow> nat \<Rightarrow> nat \<Rightarrow> bool" where
  "sort_gt x = heap_gt (row_less (sort_cols x)) (run_heads x)"

definition open_run :: "nat \<Rightarrow> 'x Sort \<Rightarrow> bool \<times> 'x Sort" where
  "open_run i x =
     (case read_row (so_len x) (drop 8 (run_files x ! i)) of
        (head, str, ok) \<Rightarrow> (ok, x\<lparr>run_streams := (run_streams x)[i := str], run_heads := (run_heads x)[i := head]\<rparr>))"

definition advance_run :: "nat \<Rightarrow> 'x Sort \<Rightarrow> bool \<times> 'x Sort" where
  "advance_run i x =
     (case read_row (so_len x) (run_streams x ! i) of
        (head, str, ok) \<Rightarrow> (ok, x\<lparr>run_streams := (run_streams x)[i := str], run_heads := (run_heads x)[i := head]\<rparr>))"

definition push_if :: "nat \<Rightarrow> bool \<times> 'x Sort \<Rightarrow> 'x Sort" where
  "push_if i = (\<lambda>(ok, x). if ok then x\<lparr>so_heap := heap_push (sort_gt x) (so_heap x) i\<rparr> else x)"

definition start_merge :: "'x Sort \<Rightarrow> 'x Sort" where
  "start_merge x =
     (let n = length (run_files x);
          x1 = x\<lparr>is_external := True, is_sorted := True, run_streams := replicate n [], run_heads := replicate n [], so_heap := []\<rparr>;
          x2 = fold (\<lambda>i y. push_if i (open_run i y)) [0..<n] x1 in
      if so_heap x2 \<noteq> [] then x2\<lparr>cur_output_row := run_heads x2 ! (so_heap x2 ! 0)\<rparr> else x2)"

definition finish_sort :: "((row \<Rightarrow> row \<Rightarrow> bool) \<Rightarrow> row list \<Rightarrow> row list) \<Rightarrow> 'x Sort \<Rightarrow> 'x Sort" where
  "finish_sort std_sort x =
     (if sorted_data x \<noteq> [] then
        let rows = sort_chunk std_sort x (sorted_data x) in
        if run_files x = [] then x\<lparr>sorted_data := rows, current_idx := 0, is_sorted := True, is_external := False\<rparr>
        else start_merge (x\<lparr>sorted_data := [], run_files := run_files x @ [write_sorted_run (so_len x) rows]\<rparr>)
      else if run_files x = [] then x\<lparr>current_idx := 0, is_sorted := True, is_external := False\<rparr>
      else start_merge x)"

definition sort_begin :: "nat \<Rightarrow> ((row \<Rightarrow> row \<Rightarrow> bool) \<Rightarrow> row list \<Rightarrow> row list) \<Rightarrow> ('x, 's) ops \<Rightarrow> 'x Sort \<Rightarrow> ('s, 'x Sort) prog" where
  "sort_begin n std_sort E x =
     (if is_sorted x then ret x
      else bindE (op_begin E (so_prev x)) (\<lambda>y.
           bindE (read_chunks n std_sort E (x\<lparr>so_prev := y, sorted_data := []\<rparr>)) (\<lambda>z. ret (finish_sort std_sort z))))"

definition sort_next :: "'x Sort \<Rightarrow> 'x Sort" where
  "sort_next x =
     (if \<not> is_external x then
        if current_idx x < length (sorted_data x) then x\<lparr>current_idx := current_idx x + 1\<rparr> else x
      else if so_heap x = [] then x\<lparr>cur_output_row := []\<rparr>
      else
        let top = so_heap x ! 0;
            y = push_if top (advance_run top (x\<lparr>so_heap := heap_pop (sort_gt x) (so_heap x)\<rparr>)) in
        if so_heap y \<noteq> [] then y\<lparr>cur_output_row := run_heads y ! (so_heap y ! 0)\<rparr> else y\<lparr>cur_output_row := []\<rparr>)"

definition sort_is_end :: "'x Sort \<Rightarrow> bool" where
  "sort_is_end x = (if \<not> is_external x then length (sorted_data x) \<le> current_idx x else cur_output_row x = [])"

definition sort_Next :: "'x Sort \<Rightarrow> row option" where
  "sort_Next x =
     (if \<not> is_external x then
        if length (sorted_data x) \<le> current_idx x then None else Some (take (so_len x) (sorted_data x ! current_idx x))
      else if cur_output_row x = [] then None else Some (take (so_len x) (cur_output_row x)))"

definition sort_ops :: "nat \<Rightarrow> ((row \<Rightarrow> row \<Rightarrow> bool) \<Rightarrow> row list \<Rightarrow> row list) \<Rightarrow> ('x, 's) ops \<Rightarrow> ('x Sort, 's) ops" where
  "sort_ops n std_sort E =
     \<lparr>op_begin = sort_begin n std_sort E, op_next = (\<lambda>x. ret (sort_next x)), op_is_end = (\<lambda>x s. sort_is_end x),
      op_Next = (\<lambda>x. ret (sort_Next x, x)), op_cols = output_cols, op_len = so_len\<rparr>"

section \<open>The order of rows\<close>

text \<open>A three-way comparison that is a total preorder on \<open>S\<close>.\<close>

definition cmp_order :: "'a set \<Rightarrow> ('a \<Rightarrow> 'a \<Rightarrow> int) \<Rightarrow> bool" where
  "cmp_order S f \<longleftrightarrow> (\<forall>a \<in> S. \<forall>b \<in> S. f b a = - f a b) \<and>
     (\<forall>a \<in> S. \<forall>b \<in> S. \<forall>c \<in> S. f a b \<le> 0 \<longrightarrow> f b c \<le> 0 \<longrightarrow> f a c \<le> 0)"

lemma cmp_order_lex:
  assumes f: "cmp_order S f" and g: "cmp_order S g"
  shows "cmp_order S (\<lambda>a b. if f a b \<noteq> 0 then f a b else g a b)"
proof -
  have anti: "f b a = - f a b" "g b a = - g a b" if "a \<in> S" "b \<in> S" for a b 
    using f g that unfolding cmp_order_def by blast+
  have trans: "f a b \<le> 0 \<Longrightarrow> f b c \<le> 0 \<Longrightarrow> f a c \<le> 0" "g a b \<le> 0 \<Longrightarrow> g b c \<le> 0 \<Longrightarrow> g a c \<le> 0"
    if "a \<in> S" "b \<in> S" "c \<in> S" for a b c
    using f g that unfolding cmp_order_def by blast+
  have "(if f a c \<noteq> 0 then f a c else g a c) \<le> 0"
    if S: "a \<in> S" "b \<in> S" "c \<in> S" and ab: "(if f a b \<noteq> 0 then f a b else g a b) \<le> 0"
      and bc: "(if f b c \<noteq> 0 then f b c else g b c) \<le> 0" for a b c
  proof -
    have le: "f a b \<le> 0" "f b c \<le> 0" using ab bc by (auto split: if_splits)
    then have ac: "f a c \<le> 0" using trans(1) S by blast
    show ?thesis
    proof (cases "f a c = 0")
      case True
      then have "f c a = 0" using anti(1) [OF S(1,3)] by simp
      then have "f c b \<le> 0" "f b a \<le> 0" using S trans(1) [of c a b] trans(1) [of b c a] le by simp_all
      then have "f a b = 0" "f b c = 0" using anti(1) [OF S(1,2)] anti(1) [OF S(2,3)] le by simp_all
      then have "g a b \<le> 0" "g b c \<le> 0" using ab bc by simp_all
      then show ?thesis using True trans(2) [OF S] by simp
    qed (use ac in simp)
  qed
  moreover have "(if f b a \<noteq> 0 then f b a else g b a) = - (if f a b \<noteq> 0 then f a b else g a b)" if "a \<in> S" "b \<in> S" for a b
    by (simp add: anti [OF that])
  ultimately show ?thesis unfolding cmp_order_def by blast
qed

lemma cmp_order_neg:
  assumes "cmp_order S f" shows "cmp_order S (\<lambda>a b. - f a b)"
proof -
  have anti: "f b a = - f a b" if "a \<in> S" "b \<in> S" for a b 
    using assms that unfolding cmp_order_def by blast
  have "- f a c \<le> 0" if "a \<in> S" "b \<in> S" "c \<in> S" "- f a b \<le> 0" "- f b c \<le> 0" for a b c
  proof -
    have "f c b \<le> 0" "f b a \<le> 0" using anti [OF that(2,3)] anti [OF that(1,2)] that(4,5) by simp_all
    then have "f c a \<le> 0" using assms that unfolding cmp_order_def by blast
    then show ?thesis using anti [OF that(1,3)] by simp
  qed
  moreover have "- f b a = - (- f a b)" if "a \<in> S" "b \<in> S" for a b by (simp add: anti [OF that])
  ultimately show ?thesis unfolding cmp_order_def by blast
qed

lemma cmp_order_key:
  fixes key :: "'a \<Rightarrow> 'k" and lt :: "'k \<Rightarrow> 'k \<Rightarrow> bool"
  assumes asym: "\<And>x y. lt x y \<Longrightarrow> \<not> lt y x" and neg: "\<And>x y z. \<not> lt y x \<Longrightarrow> \<not> lt z y \<Longrightarrow> \<not> lt z x"
    and f: "\<And>a b. a \<in> S \<Longrightarrow> b \<in> S \<Longrightarrow> f a b = (if lt (key a) (key b) then -1 else if lt (key b) (key a) then 1 else 0)"
  shows "cmp_order S f"
proof -
  have le: "f a b \<le> 0 \<longleftrightarrow> \<not> lt (key b) (key a)" if "a \<in> S" "b \<in> S" for a b using f [OF that] asym by auto
  have "f b a = - f a b" if "a \<in> S" "b \<in> S" for a b using f that asym by auto
  moreover have "f a c \<le> 0" if "a \<in> S" "b \<in> S" "c \<in> S" "f a b \<le> 0" "f b c \<le> 0" for a b c
    using le that neg by blast
  ultimately show ?thesis unfolding cmp_order_def by blast
qed

lemma str_less_neg: "\<not> bytes_less y x \<Longrightarrow> \<not> bytes_less z y \<Longrightarrow> \<not> bytes_less z x"
proof (induction x arbitrary: y z)
  case Nil
  then show ?case by (cases z) auto
next
  case (Cons a x)
  then show ?case by (cases y; cases z) (auto split: if_splits)
qed

definition no_nan :: "ColMeta \<Rightarrow> row \<Rightarrow> bool" where
  "no_nan c r \<longleftrightarrow> (cm_type c = TYPE_FLOAT \<longrightarrow> \<not> f32_nan (load_f32 (ptr r (cm_offset c))))"

lemma cmpcol_order: "cmp_order {r. no_nan c r} (\<lambda>a b. cmpcol a b c)"
proof (cases "cm_type c")
  case TYPE_INT
  then show ?thesis
    by (intro cmp_order_key [of "(<)" _ _ "\<lambda>r. load_i32 (ptr r (cm_offset c))"]) (auto simp: cmpcol_def Let_def)
next
  case TYPE_FLOAT
  then show ?thesis
    by (intro cmp_order_key [of "\<lambda>x y. x < y" _ _ "\<lambda>r. f32_key (load_f32 (ptr r (cm_offset c)))"])
      (auto simp: cmpcol_def Let_def f32_less_def no_nan_def)
next
  case TYPE_STRING
  then show ?thesis
    by (intro cmp_order_key [of bytes_less _ _ "\<lambda>r. load_str (ptr r (cm_offset c)) (cm_len c)"])
      (auto simp: cmpcol_def Let_def dest: bytes_less_asym str_less_neg)
next
  case TYPE_BIGINT
  then show ?thesis
    by (intro cmp_order_key [of "(<)" _ _ "\<lambda>r. load_i64 (ptr r (cm_offset c))"]) (auto simp: cmpcol_def Let_def)
next
  case TYPE_DATETIME
  then show ?thesis
    by (intro cmp_order_key [of "(<)" _ _ "\<lambda>r. load_i64 (ptr r (cm_offset c))"]) (auto simp: cmpcol_def Let_def)
qed

fun row_cmp :: "(ColMeta \<times> bool) list \<Rightarrow> row \<Rightarrow> row \<Rightarrow> int" where
  "row_cmp [] a b = 0"
| "row_cmp ((c, desc) # cs) a b =
     (let r = (if desc then - cmpcol a b c else cmpcol a b c) in if r \<noteq> 0 then r else row_cmp cs a b)"

lemma row_less_cmp: "row_less cs a b \<longleftrightarrow> row_cmp cs a b < 0"
  by (induction cs a b rule: row_less.induct) (auto simp: Let_def)

definition comparable :: "(ColMeta \<times> bool) list \<Rightarrow> row set" where
  "comparable cs = {r. \<forall>(c, d) \<in> set cs. no_nan c r}"

lemma cmp_order_mono: "cmp_order S f \<Longrightarrow> T \<subseteq> S \<Longrightarrow> cmp_order T f"
  unfolding cmp_order_def by blast

lemma row_cmp_order: "cmp_order (comparable cs) (row_cmp cs)"
proof (induction cs)
  case Nil
  then show ?case by (simp add: cmp_order_def)
next
  case (Cons cd cs)
  obtain c d where cd: "cd = (c, d)" by force
  have "cmp_order {r. no_nan c r} (\<lambda>a b. if d then - cmpcol a b c else cmpcol a b c)"
    using cmpcol_order [of c] cmp_order_neg [OF cmpcol_order [of c]] by (cases d) simp_all
  then have "cmp_order (comparable (cd # cs)) (\<lambda>a b. if d then - cmpcol a b c else cmpcol a b c)"
    by (rule cmp_order_mono) (auto simp: comparable_def cd)
  moreover have "cmp_order (comparable (cd # cs)) (row_cmp cs)"
    by (rule cmp_order_mono [OF Cons.IH]) (auto simp: comparable_def)
  ultimately have "cmp_order (comparable (cd # cs)) (\<lambda>a b. if (if d then - cmpcol a b c else cmpcol a b c) \<noteq> 0
      then (if d then - cmpcol a b c else cmpcol a b c) else row_cmp cs a b)"
    by (rule cmp_order_lex)
  then show ?case by (simp add: cd Let_def cong: if_cong)
qed

text \<open>\<open>row_le cs a b\<close>: \<open>a\<close> may stand before \<open>b\<close>.\<close>

definition row_le :: "(ColMeta \<times> bool) list \<Rightarrow> row \<Rightarrow> row \<Rightarrow> bool" where
  "row_le cs a b \<longleftrightarrow> \<not> row_less cs b a"

lemma row_le_trans:
  "row_le cs a b \<Longrightarrow> row_le cs b c \<Longrightarrow> a \<in> comparable cs \<Longrightarrow> b \<in> comparable cs \<Longrightarrow> c \<in> comparable cs \<Longrightarrow> row_le cs a c"
  using row_cmp_order [of cs] unfolding cmp_order_def row_le_def row_less_cmp by (smt (verit, best))

lemma row_le_total: "a \<in> comparable cs \<Longrightarrow> b \<in> comparable cs \<Longrightarrow> row_le cs a b \<or> row_le cs b a"
  using row_cmp_order [of cs] unfolding cmp_order_def row_le_def row_less_cmp by (smt (verit, best))

lemma row_less_le: "row_less cs a b \<Longrightarrow> a \<in> comparable cs \<Longrightarrow> b \<in> comparable cs \<Longrightarrow> row_le cs a b"
  using row_le_total row_le_def by blast

lemma row_le_refl: "a \<in> comparable cs \<Longrightarrow> row_le cs a a"
  using row_le_total by blast

section \<open>The heap\<close>

definition par :: "nat \<Rightarrow> nat" where "par i = (i - 1) div 2"

lemma par_child: "0 < c \<Longrightarrow> par c = i \<longleftrightarrow> c = 2 * i + 1 \<or> c = 2 * i + 2"
  unfolding par_def by auto

lemma par_less: "0 < i \<Longrightarrow> par i < i"
  unfolding par_def by auto

definition ok_at :: "(nat \<Rightarrow> nat \<Rightarrow> bool) \<Rightarrow> nat list \<Rightarrow> nat \<Rightarrow> bool" where
  "ok_at gt h i \<longleftrightarrow> \<not> gt (h ! par i) (h ! i)"

definition heap_ok :: "(nat \<Rightarrow> nat \<Rightarrow> bool) \<Rightarrow> nat list \<Rightarrow> bool" where
  "heap_ok gt h \<longleftrightarrow> (\<forall>i. 0 < i \<longrightarrow> i < length h \<longrightarrow> ok_at gt h i)"

lemma heap_ok_cong:
  assumes "heap_ok gt h" "\<And>i j. i \<in> set h \<Longrightarrow> j \<in> set h \<Longrightarrow> gt' i j = gt i j"
  shows "heap_ok gt' h"
  using assms unfolding heap_ok_def ok_at_def by (metis nth_mem par_less order_less_trans)

text \<open>The order of the heads on the runs that still have one.\<close>

locale heap_order =
  fixes gt :: "nat \<Rightarrow> nat \<Rightarrow> bool" and I :: "nat set"
  assumes gt_asym: "i \<in> I \<Longrightarrow> j \<in> I \<Longrightarrow> gt i j \<Longrightarrow> \<not> gt j i"
    and le_trans: "i \<in> I \<Longrightarrow> j \<in> I \<Longrightarrow> k \<in> I \<Longrightarrow> \<not> gt i j \<Longrightarrow> \<not> gt j k \<Longrightarrow> \<not> gt i k"
begin

lemma heap_top:
  assumes "heap_ok gt h" "set h \<subseteq> I" "i < length h"
  shows "\<not> gt (h ! 0) (h ! i)"
  using assms(3)
proof (induction i rule: less_induct)
  case (less i)
  have mem: "h ! j \<in> I" if "j < length h" for j using assms(2) that by auto
  show ?case
  proof (cases "i = 0")
    case True
    then show ?thesis using gt_asym mem less.prems by blast
  next
    case False
    then have "par i < i" by (simp add: par_less)
    then have "\<not> gt (h ! 0) (h ! par i)" "par i < length h" using less by auto
    moreover have "\<not> gt (h ! par i) (h ! i)" using assms(1) False less.prems by (simp add: heap_ok_def ok_at_def)
    ultimately show ?thesis using le_trans [of "h ! 0" "h ! par i" "h ! i"] mem less.prems by (metis (full_types) length_pos_if_in_set nth_mem)
  qed
qed

lemma swap_props:
  assumes "i < length h" "j < length h" "i \<noteq> j"
  shows "length (swap h i j) = length h" "mset (swap h i j) = mset h" "swap h i j ! i = h ! j" "swap h i j ! j = h ! i"
    "k \<noteq> i \<Longrightarrow> k \<noteq> j \<Longrightarrow> swap h i j ! k = h ! k"
  using assms by (simp_all add: swap_def mset_swap)

lemma sift_up_ok:
  assumes "idx < length h" "set h \<subseteq> I"
    and "\<And>i. 0 < i \<Longrightarrow> i < length h \<Longrightarrow> i \<noteq> idx \<Longrightarrow> ok_at gt h i"
    and "\<And>c. 0 < idx \<Longrightarrow> 0 < c \<Longrightarrow> c < length h \<Longrightarrow> par c = idx \<Longrightarrow> \<not> gt (h ! par idx) (h ! c)"
  shows "heap_ok gt (heap_sift_up gt h idx) \<and> mset (heap_sift_up gt h idx) = mset h"
  using assms
proof (induction gt\<equiv>gt h idx rule: heap_sift_up.induct)
  case (1 h idx)
  show ?case
  proof (cases "0 < idx \<and> gt (h ! par idx) (h ! idx)")
    case False
    then have "heap_sift_up gt h idx = h" by (subst heap_sift_up.simps) (auto simp: Let_def par_def)
    moreover have "heap_ok gt h" using False 1(4) by (auto simp: heap_ok_def ok_at_def)
    ultimately show ?thesis by simp
  next
    case True
    let ?p = "par idx" and ?h = "swap h (par idx) idx"
    have p: "?p < idx" "?p < length h" using par_less [of idx] True 1(2) by auto
    note sw = swap_props [of ?p h idx, OF p(2) 1(2)]
    have len: "length ?h = length h" and ms: "mset ?h = mset h" and at: "?h ! ?p = h ! idx" "?h ! idx = h ! ?p"
      "\<And>k. k \<noteq> ?p \<Longrightarrow> k \<noteq> idx \<Longrightarrow> ?h ! k = h ! k"
      using sw p(1) by auto
    have mem: "h ! j \<in> I" if "j < length h" for j using 1(3) that by auto
    have ok: "ok_at gt ?h i" if i: "0 < i" "i < length ?h" "i \<noteq> ?p" for i
    proof (cases "i = idx")
      case True
      have "\<not> gt (h ! idx) (h ! ?p)"
        using gt_asym [OF mem mem, of ?p idx] p(2) 1(2) \<open>0 < idx \<and> gt (h ! ?p) (h ! idx)\<close> by simp
      then show ?thesis using True at by (simp add: ok_at_def)
    next
      case ni: False
      have oi: "\<not> gt (h ! par i) (h ! i)" using 1(4) [of i] i ni len by (simp add: ok_at_def)
      consider "par i = ?p" | "par i = idx" | "par i \<noteq> ?p" "par i \<noteq> idx" by blast
      then show ?thesis
      proof cases
        case 1
        have "\<not> gt (h ! idx) (h ! ?p)" using gt_asym [OF mem mem, of ?p idx] p(2) True \<open>idx < length h\<close> by simp
        then have "\<not> gt (h ! idx) (h ! i)" 
          using oi 1 le_trans [OF mem mem mem, of idx ?p i] p(2) i(2) len \<open>idx < length h\<close> by simp
        then show ?thesis using 1 at ni i by (simp add: ok_at_def)
      next
        case 2
        then show ?thesis using 1(5) [of i] True i ni at len by (simp add: ok_at_def)
      next
        case 3
        then show ?thesis using oi at ni i by (simp add: ok_at_def)
      qed
    qed
    have kids: "\<not> gt (?h ! par ?p) (?h ! c)" if c: "0 < ?p" "0 < c" "c < length ?h" "par c = ?p" for c
    proof -
      have pp: "par ?p < ?p" using par_less c(1) by blast
      have up: "\<not> gt (h ! par ?p) (h ! ?p)" using 1(4) [of ?p] c p by (simp add: ok_at_def)
      have top: "?h ! par ?p = h ! par ?p" using at(3) pp p by simp
      show ?thesis
      proof (cases "c = idx")
        case True
        then show ?thesis using top up at by simp
      next
        case False
        then have "c \<noteq> ?p" using c par_less [of c] by auto
        moreover have "\<not> gt (h ! ?p) (h ! c)" using 1(4) [of c] c False len by (simp add: ok_at_def)
        ultimately show ?thesis
          using top at(3) False up le_trans [of "h ! par ?p" "h ! ?p" "h ! c"] mem pp p c len by (simp)
      qed
    qed
    have "heap_sift_up gt h idx = heap_sift_up gt ?h ?p"
      by (subst heap_sift_up.simps) (use True in \<open>simp add: Let_def par_def\<close>)
    moreover have "heap_ok gt (heap_sift_up gt ?h ?p) \<and> mset (heap_sift_up gt ?h ?p) = mset ?h"
    proof (rule 1(1) [OF _ refl, folded par_def])
      show "set ?h \<subseteq> I" using 1(3) ms by (metis mset_eq_setD)
    qed (use True p len ok kids in auto)
    ultimately show ?thesis using ms by simp
  qed
qed

lemma smallest_props:
  assumes "idx < length h" "set h \<subseteq> I" and m_def: "m = smallest gt h idx"
  shows "m < length h" "m = idx \<or> m = 2 * idx + 1 \<or> m = 2 * idx + 2" "m \<noteq> idx \<Longrightarrow> gt (h ! idx) (h ! m)"
    "0 < c \<Longrightarrow> c < length h \<Longrightarrow> par c = idx \<Longrightarrow> \<not> gt (h ! m) (h ! c)"
proof -
  have mem: "h ! j \<in> I" if "j < length h" for j using assms(2) that by auto
  show m: "m < length h" "m = idx \<or> m = 2 * idx + 1 \<or> m = 2 * idx + 2"
    using assms(1) by (auto simp: m_def smallest_def Let_def)
  have refl: "\<not> gt (h ! j) (h ! j)" if "j < length h" for j using gt_asym [OF mem mem, of j j] that by blast
  define l r where "l = 2 * idx + 1" and "r = 2 * idx + 2"
  define k where "k = (if l < length h \<and> gt (h ! idx) (h ! l) then l else idx)"
  have k: "k < length h" using assms(1) by (simp add: k_def)
  have down: "\<not> gt (h ! k) (h ! l)" if "l < length h" using that refl by (simp add: k_def)
  have eq: "m = (if r < length h \<and> gt (h ! k) (h ! r) then r else k)"
    by (simp add: m_def smallest_def Let_def k_def l_def r_def)
  have below: "\<not> gt (h ! m) (h ! k)"
    using eq refl [OF k] gt_asym [OF mem [OF k] mem, of r] by (cases "r < length h \<and> gt (h ! k) (h ! r)") auto
  have le: "\<not> gt (h ! m) (h ! j)" if "j < length h" "\<not> gt (h ! k) (h ! j)" for j
    using le_trans [OF mem [OF m(1)] mem [OF k] mem [OF that(1)] below that(2)] .
  show "\<not> gt (h ! m) (h ! c)" if c: "0 < c" "c < length h" "par c = idx"
  proof -
    consider "c = l" | "c = r" using par_child [OF c(1), of idx] c(3) unfolding l_def r_def by argo
    then show ?thesis
    proof cases
      case 1
      then show ?thesis using le down c by blast
    next
      case 2
      then show ?thesis using eq le [of r] c refl [of r] by (cases "gt (h ! k) (h ! r)") auto
    qed
  qed
  show "gt (h ! idx) (h ! m)" if ne: "m \<noteq> idx"
  proof (cases "k = idx")
    case True
    then show ?thesis using eq ne by (simp split: if_splits)
  next
    case False
    then have kl: "gt (h ! idx) (h ! k)" by (simp add: k_def split: if_splits)
    show ?thesis
    proof (rule ccontr)
      assume "\<not> gt (h ! idx) (h ! m)"
      then have "\<not> gt (h ! idx) (h ! k)" using le_trans [OF mem [OF assms(1)] mem [OF m(1)] mem [OF k]] below by blast
      then show False using kl by simp
    qed
  qed
qed

lemma sift_down_ok:
  assumes "idx < length h" "set h \<subseteq> I"
    and "\<And>i. 0 < i \<Longrightarrow> i < length h \<Longrightarrow> par i \<noteq> idx \<Longrightarrow> ok_at gt h i"
    and "\<And>c. 0 < idx \<Longrightarrow> 0 < c \<Longrightarrow> c < length h \<Longrightarrow> par c = idx \<Longrightarrow> \<not> gt (h ! par idx) (h ! c)"
  shows "heap_ok gt (heap_sift_down gt h idx) \<and> mset (heap_sift_down gt h idx) = mset h"
  using assms
proof (induction gt\<equiv>gt h idx rule: heap_sift_down.induct)
  case (1 h idx)
  let ?m = "smallest gt h idx"
  note sm = smallest_props [OF 1(2,3) refl]
  show ?case
  proof (cases "?m = idx")
    case True
    then have "heap_sift_down gt h idx = h" by (subst heap_sift_down.simps) (simp add: Let_def)
    moreover have "ok_at gt h i" if "0 < i" "i < length h" for i
      using 1(4) [of i] sm(4) [of i] True that by (cases "par i = idx") (auto simp: ok_at_def)
    ultimately show ?thesis by (simp add: heap_ok_def)
  next
    case False
    let ?h = "swap h idx ?m"
    have m: "?m = 2 * idx + 1 \<or> ?m = 2 * idx + 2" "0 < ?m" "par ?m = idx" using sm(2) False by (auto simp: par_def)
    note sw = swap_props [of idx h ?m, OF 1(2) sm(1)]
    have len: "length ?h = length h" and ms: "mset ?h = mset h" and at: "?h ! idx = h ! ?m" "?h ! ?m = h ! idx"
      "\<And>k. k \<noteq> idx \<Longrightarrow> k \<noteq> ?m \<Longrightarrow> ?h ! k = h ! k"
      using sw False by auto
    have mem: "h ! j \<in> I" if "j < length h" for j using 1(3) that by auto
    have ok: "ok_at gt ?h i" if i: "0 < i" "i < length ?h" "par i \<noteq> ?m" for i
    proof -
      consider "i = ?m" | "par i = idx" "i \<noteq> ?m" | "i = idx" | "i \<noteq> ?m" "i \<noteq> idx" "par i \<noteq> idx" by blast
      then show ?thesis
      proof cases
        case 1
        then show ?thesis
          using m(3) at gt_asym [OF mem mem, of idx ?m] sm(1,3) False \<open>idx < length h\<close> by (simp add: ok_at_def)
      next
        case 2
        then have "i \<noteq> idx" using par_less [OF i(1)] by auto
        then show ?thesis using 2 at sm(4) [of i] i len by (simp add: ok_at_def)
      next
        case 3
        then have "par idx < idx" using par_less [of idx] i(1) by simp
        then have "par idx \<noteq> idx" "par idx \<noteq> ?m" using m(1) by linarith+
        then show ?thesis using 3 at 1(5) [of ?m] m i sm(1) by (simp add: ok_at_def)
      next
        case 4
        then show ?thesis using at 1(4) [of i] i len by (simp add: ok_at_def)
      qed
    qed
    have kids: "\<not> gt (?h ! par ?m) (?h ! c)" if c: "0 < c" "c < length ?h" "par c = ?m" for c
    proof -
      have "c \<noteq> ?m" "c \<noteq> idx" "par c \<noteq> idx" using c m par_less [OF c(1)] par_less [OF m(2)] by auto
      then show ?thesis using 1(4) [of c] c m(3) at len by (simp add: ok_at_def)
    qed
    have "heap_sift_down gt h idx = heap_sift_down gt ?h ?m"
      by (subst heap_sift_down.simps) (use False in \<open>simp add: Let_def\<close>)
    moreover have "heap_ok gt (heap_sift_down gt ?h ?m) \<and> mset (heap_sift_down gt ?h ?m) = mset ?h"
    proof (rule 1(1) [OF refl False])
      show "set ?h \<subseteq> I" using 1(3) ms by (metis mset_eq_setD)
    qed (use sm(1) len ok kids in auto)
    ultimately show ?thesis using ms by simp
  qed
qed

lemma push_ok:
  assumes "heap_ok gt h" "set h \<subseteq> I" "k \<in> I"
  shows "heap_ok gt (heap_push gt h k)" "mset (heap_push gt h k) = add_mset k (mset h)"
proof -
  have "heap_ok gt (heap_sift_up gt (h @ [k]) (length h)) \<and> mset (heap_sift_up gt (h @ [k]) (length h)) = mset (h @ [k])"
  proof (rule sift_up_ok)
    show "ok_at gt (h @ [k]) i" if i: "0 < i" "i < length (h @ [k])" "i \<noteq> length h" for i
    proof -
      have "i < length h" "par i < length h" using i par_less [OF i(1)] by auto
      then show ?thesis using assms(1) i(1) by (simp add: heap_ok_def ok_at_def nth_append)
    qed
    show "\<not> gt ((h @ [k]) ! par (length h)) ((h @ [k]) ! c)"
      if "0 < c" "c < length (h @ [k])" "par c = length h" for c
      using that par_less [of c] by simp
  qed (use assms in auto)
  then show "heap_ok gt (heap_push gt h k)" "mset (heap_push gt h k) = add_mset k (mset h)" by (simp_all add: heap_push_def)
qed

lemma nth_moved: "0 < j \<Longrightarrow> j < length (k # as) \<Longrightarrow> (a # as @ [k]) ! j = (k # as) ! j"
  by (cases j) (simp_all add: nth_append)

lemma pop_ok:
  assumes "heap_ok gt h" "set h \<subseteq> I" "h \<noteq> []"
  shows "heap_ok gt (heap_pop gt h)" "add_mset (h ! 0) (mset (heap_pop gt h)) = mset h"
proof -
  obtain h' k where h: "h = h' @ [k]" using assms(3) by (metis rev_exhaust)
  have "heap_ok gt (heap_pop gt h) \<and> add_mset (h ! 0) (mset (heap_pop gt h)) = mset h"
  proof (cases h')
    case Nil
    then show ?thesis using h by (simp add: heap_pop_def heap_ok_def)
  next
    case (Cons a as)
    let ?h = "k # as"
    have b: "butlast (h[0 := last h]) = ?h" using h Cons by simp
    have "heap_ok gt (heap_sift_down gt ?h 0) \<and> mset (heap_sift_down gt ?h 0) = mset ?h"
    proof (rule sift_down_ok)
      show "ok_at gt ?h i" if i: "0 < i" "i < length ?h" "par i \<noteq> 0" for i
      proof -
        have "ok_at gt h i" using assms(1) i h Cons by (simp add: heap_ok_def)
        moreover have "h ! i = ?h ! i" "h ! par i = ?h ! par i"
          using nth_moved [of i k as a] nth_moved [of "par i" k as a] i h Cons par_less [OF i(1)] by simp_all
        ultimately show ?thesis by (simp add: ok_at_def)
      qed
    qed (use assms h Cons in auto)
    then show ?thesis using b h Cons by (simp add: heap_pop_def)
  qed
  then show "heap_ok gt (heap_pop gt h)" "add_mset (h ! 0) (mset (heap_pop gt h)) = mset h" by simp_all
qed

end

definition strict_weak :: "'a set \<Rightarrow> ('a \<Rightarrow> 'a \<Rightarrow> bool) \<Rightarrow> bool" where
  "strict_weak S lt \<longleftrightarrow> (\<forall>a \<in> S. \<forall>b \<in> S. lt a b \<longrightarrow> \<not> lt b a) \<and>
     (\<forall>a \<in> S. \<forall>b \<in> S. \<forall>c \<in> S. \<not> lt b a \<longrightarrow> \<not> lt c b \<longrightarrow> \<not> lt c a)"

lemma strict_weak_mono: "strict_weak S lt \<Longrightarrow> T \<subseteq> S \<Longrightarrow> strict_weak T lt"
  unfolding strict_weak_def by blast

lemma row_less_weak: "S \<subseteq> comparable cs \<Longrightarrow> strict_weak S (row_less cs)"
  using row_le_trans [of cs] row_le_total [of _ cs] unfolding strict_weak_def row_le_def by (meson subsetD)

interpretation hp: heap_order "heap_gt (row_less cs) heads" "{i. heads ! i \<in> comparable cs}" for cs heads
proof unfold_locales
  fix i j k
  have w: "strict_weak (comparable cs) (row_less cs)" by (rule row_less_weak) simp
  show "\<not> heap_gt (row_less cs) heads j i"
    if "i \<in> {i. heads ! i \<in> comparable cs}" "j \<in> {i. heads ! i \<in> comparable cs}" "heap_gt (row_less cs) heads i j"
    using that w unfolding strict_weak_def heap_gt_def by blast
  show "\<not> heap_gt (row_less cs) heads i k"
    if "i \<in> {i. heads ! i \<in> comparable cs}" "j \<in> {i. heads ! i \<in> comparable cs}" "k \<in> {i. heads ! i \<in> comparable cs}"
      "\<not> heap_gt (row_less cs) heads i j" "\<not> heap_gt (row_less cs) heads j k"
    using that row_le_trans [of cs "heads ! i" "heads ! j" "heads ! k"] by (simp add: heap_gt_def row_le_def)
qed

section \<open>The merge\<close>

text \<open>The rows an executor state delivers when it is driven to its end.\<close>

fun delivers :: "'x Sort \<Rightarrow> row list \<Rightarrow> bool" where
  "delivers x [] = sort_is_end x"
| "delivers x (r # rs) = (\<not> sort_is_end x \<and> sort_Next x = Some r \<and> delivers (sort_next x) rs)"

text \<open>\<open>rem ! i\<close> are the rows of run \<open>i\<close> that have not been delivered; the first is the head, the others are in the stream.\<close>

definition run_ok :: "'x Sort \<Rightarrow> row list list \<Rightarrow> nat \<Rightarrow> bool" where
  "run_ok x rem i \<longleftrightarrow>
     (rem ! i = [] \<longrightarrow> i \<notin> set (so_heap x)) \<and>
     (rem ! i \<noteq> [] \<longrightarrow> i \<in> set (so_heap x) \<and> run_heads x ! i = hd (rem ! i) \<and> run_streams x ! i = concat (tl (rem ! i))) \<and>
     (\<forall>r \<in> set (rem ! i). length r = so_len x \<and> r \<in> comparable (sort_cols x)) \<and>
     sorted_wrt (row_le (sort_cols x)) (rem ! i)"

definition merge_ok :: "'x Sort \<Rightarrow> row list list \<Rightarrow> bool" where
  "merge_ok x rem \<longleftrightarrow> is_external x \<and> 0 < so_len x \<and>
     length (run_heads x) = length rem \<and> length (run_streams x) = length rem \<and>
     distinct (so_heap x) \<and> (\<forall>i \<in> set (so_heap x). i < length rem) \<and> heap_ok (sort_gt x) (so_heap x) \<and>
     (\<forall>i < length rem. run_ok x rem i)"

definition top_row :: "'x Sort \<Rightarrow> row" where
  "top_row x = (if so_heap x = [] then [] else run_heads x ! (so_heap x ! 0))"

lemma read_row_concat:
  assumes "\<forall>r \<in> set rows. length r = len" "0 < len"
  shows "read_row len (concat rows) = (if rows = [] then (replicate len 0, [], False) else (hd rows, concat (tl rows), True))"
  using assms by (cases rows) (simp_all add: read_row_def)

lemma merge_heads:
  assumes "merge_ok x rem" "i \<in> set (so_heap x)"
  shows "i < length rem" "rem ! i \<noteq> []" "run_heads x ! i = hd (rem ! i)" "run_heads x ! i \<in> comparable (sort_cols x)"
    "length (run_heads x ! i) = so_len x"
proof -
  show i: "i < length rem" using assms by (simp add: merge_ok_def)
  have r: "run_ok x rem i" using assms i by (simp add: merge_ok_def)
  then show ne: "rem ! i \<noteq> []" and h: "run_heads x ! i = hd (rem ! i)" using assms(2) by (auto simp: run_ok_def)
  show "run_heads x ! i \<in> comparable (sort_cols x)" "length (run_heads x ! i) = so_len x"
    using r ne h by (auto simp: run_ok_def)
qed

text \<open>Reading the next row of a run that is not in the heap, and pushing it.\<close>

definition set_run :: "nat \<Rightarrow> byte list \<Rightarrow> row \<Rightarrow> 'x Sort \<Rightarrow> 'x Sort" where
  "set_run i str h x = x\<lparr>run_streams := (run_streams x)[i := str], run_heads := (run_heads x)[i := h]\<rparr>"

lemma set_run_simps [simp]:
  "so_heap (set_run i str h x) = so_heap x" "sort_cols (set_run i str h x) = sort_cols x" "so_len (set_run i str h x) = so_len x"
  "is_external (set_run i str h x) = is_external x" "cur_output_row (set_run i str h x) = cur_output_row x"
  "run_heads (set_run i str h x) = (run_heads x)[i := h]" "run_streams (set_run i str h x) = (run_streams x)[i := str]"
  by (simp_all add: set_run_def)

lemma set_run_same_heap [simp]: "(set_run i str h x)\<lparr>so_heap := so_heap x\<rparr> = set_run i str h x"
  by (cases x) (simp add: set_run_def)

lemma set_run_heap:
  assumes "merge_ok x rem" "i \<notin> set (so_heap x)"
  shows "heap_ok (sort_gt (set_run i str h x)) (so_heap x)"
    and "k \<in> set (so_heap x) \<Longrightarrow> (run_heads x)[i := h] ! k \<in> comparable (sort_cols x)"
proof -
  have hk: "(run_heads x)[i := h] ! k = run_heads x ! k" if "k \<in> set (so_heap x)" for k
    using that assms(2) by (metis nth_list_update_neq)
  show "heap_ok (sort_gt (set_run i str h x)) (so_heap x)"
    by (rule heap_ok_cong [of "sort_gt x"]) (use assms(1) hk in \<open>auto simp: merge_ok_def sort_gt_def heap_gt_def\<close>)
  show "k \<in> set (so_heap x) \<Longrightarrow> (run_heads x)[i := h] ! k \<in> comparable (sort_cols x)"
    using hk merge_heads(4) [OF assms(1)] by simp
qed

lemma set_run_keep:
  assumes "merge_ok x rem" "k < length rem" "k \<noteq> i" "k \<in> set hh \<longleftrightarrow> k \<in> set (so_heap x)"
  shows "run_ok ((set_run i str h x)\<lparr>so_heap := hh\<rparr>) (rem[i := rows]) k"
proof -
  have "run_ok x rem k" using assms by (simp add: merge_ok_def)
  then show ?thesis using assms by (simp add: run_ok_def)
qed

lemma push_none:
  assumes ok: "merge_ok x rem" and i: "i < length rem" "i \<notin> set (so_heap x)"
  shows "merge_ok (set_run i str h x) (rem[i := []])"
proof -
  let ?z = "set_run i str h x"
  have "run_ok ?z (rem[i := []]) i" using i by (simp add: run_ok_def)
  then have "run_ok ?z (rem[i := []]) k" if "k < length rem" for k
    using set_run_keep [OF ok that, of i "so_heap ?z" str h "[]"] by (cases "k = i") simp_all
  then show ?thesis using ok set_run_heap(1) [OF ok i(2)] by (simp add: merge_ok_def)
qed

lemma push_some:
  assumes ok: "merge_ok x rem" and i: "i < length rem" "i \<notin> set (so_heap x)" and ne: "rows \<noteq> []"
    and rows: "\<forall>r \<in> set rows. length r = so_len x \<and> r \<in> comparable (sort_cols x)" "sorted_wrt (row_le (sort_cols x)) rows"
  shows "merge_ok (push_if i (True, set_run i (concat (tl rows)) (hd rows) x)) (rem[i := rows])"
proof -
  let ?z = "set_run i (concat (tl rows)) (hd rows) x"
  let ?h = "heap_push (sort_gt ?z) (so_heap x) i"
  have lens: "length (run_heads x) = length rem" "length (run_streams x) = length rem" using ok by (simp_all add: merge_ok_def)
  have gt: "sort_gt ?z = heap_gt (row_less (sort_cols x)) (run_heads ?z)" by (simp add: sort_gt_def)
  have sub: "set (so_heap x) \<subseteq> {k. run_heads ?z ! k \<in> comparable (sort_cols x)}" using set_run_heap(2) [OF ok i(2)] by auto
  have iI: "i \<in> {k. run_heads ?z ! k \<in> comparable (sort_cols x)}" using lens i ne rows(1) by simp
  have ph: "heap_ok (sort_gt ?z) ?h" "mset ?h = add_mset i (mset (so_heap x))"
    using hp.push_ok [of "sort_cols x" "run_heads ?z" "so_heap x" i, folded gt] set_run_heap(1) [OF ok i(2)] sub iI by blast+
  have set_h: "set ?h = insert i (set (so_heap x))" using ph(2) by (metis set_mset_add_mset_insert set_mset_mset)
  have "mset ?h = mset (i # so_heap x)" using ph(2) by simp
  then have dist: "distinct ?h" using mset_eq_imp_distinct_iff [of ?h "i # so_heap x"] ok i(2) by (simp add: merge_ok_def)
  have "run_ok (?z\<lparr>so_heap := ?h\<rparr>) (rem[i := rows]) i" using i ne rows lens set_h by (simp add: run_ok_def)
  then have "run_ok (?z\<lparr>so_heap := ?h\<rparr>) (rem[i := rows]) k" if "k < length rem" for k
    using set_run_keep [OF ok that, of i ?h] set_h by (cases "k = i") simp_all
  moreover have "heap_ok (sort_gt (?z\<lparr>so_heap := ?h\<rparr>)) ?h" using ph(1) by (simp add: sort_gt_def)
  ultimately show ?thesis using ok dist set_h i by (simp add: merge_ok_def push_if_def)
qed

text \<open>The run comes from a stream that holds the rows one behind the other.\<close>

lemma push_rows:
  assumes ok: "merge_ok x rem" and i: "i < length rem" "i \<notin> set (so_heap x)"
    and rows: "\<forall>r \<in> set rows. length r = so_len x \<and> r \<in> comparable (sort_cols x)" "sorted_wrt (row_le (sort_cols x)) rows"
    and y: "y = (case read_row (so_len x) (concat rows) of (h, str, ok) \<Rightarrow> (ok, set_run i str h x))"
  shows "merge_ok (push_if i y) (rem[i := rows])" "sort_cols (push_if i y) = sort_cols x" "so_len (push_if i y) = so_len x"
    "run_files (push_if i y) = run_files x"
proof -
  have "0 < so_len x" using ok by (simp add: merge_ok_def)
  then have r: "read_row (so_len x) (concat rows) =
      (if rows = [] then (replicate (so_len x) 0, [], False) else (hd rows, concat (tl rows), True))"
    using read_row_concat rows(1) by blast
  then show "merge_ok (push_if i y) (rem[i := rows])"
    using push_none [OF ok i] push_some [OF ok i _ rows] y by (cases "rows = []") (simp_all add: push_if_def)
  show "sort_cols (push_if i y) = sort_cols x" "so_len (push_if i y) = so_len x" "run_files (push_if i y) = run_files x"
    using y by (auto simp: push_if_def set_run_def split: prod.splits)
qed

text \<open>One step of the merge: the run of the delivered row moves on.\<close>

lemma pop_heap:
  assumes ok: "merge_ok x rem" and ne: "so_heap x \<noteq> []"
    and y_def: "y = x\<lparr>so_heap := heap_pop (sort_gt x) (so_heap x)\<rparr>" and tp_def: "tp = so_heap x ! 0"
  shows "merge_ok y (rem[tp := []])" "tp < length rem" "tp \<notin> set (so_heap y)"
proof -
  have gt: "sort_gt x = heap_gt (row_less (sort_cols x)) (run_heads x)" by (simp add: sort_gt_def)
  have sub: "set (so_heap x) \<subseteq> {k. run_heads x ! k \<in> comparable (sort_cols x)}" using merge_heads(4) [OF ok] by auto
  have pp: "heap_ok (sort_gt x) (so_heap y)" "add_mset tp (mset (so_heap y)) = mset (so_heap x)"
    using hp.pop_ok [of "sort_cols x" "run_heads x" "so_heap x", folded gt] ok sub ne by (auto simp: merge_ok_def y_def tp_def)
  have "mset (tp # so_heap y) = mset (so_heap x)" using pp(2) by simp
  then have d: "distinct (tp # so_heap y)" and st: "set (so_heap x) = insert tp (set (so_heap y))"
    using mset_eq_imp_distinct_iff [of "tp # so_heap y" "so_heap x"] mset_eq_setD [of "tp # so_heap y" "so_heap x"] ok
    by (auto simp: merge_ok_def)
  show "tp < length rem" "tp \<notin> set (so_heap y)" using d st ok by (auto simp: merge_ok_def)
  have "run_ok y (rem[tp := []]) k" if "k < length rem" for k
  proof -
    have "run_ok x rem k" using ok that by (simp add: merge_ok_def)
    then show ?thesis using that st d by (cases "k = tp") (auto simp: run_ok_def y_def)
  qed
  moreover have "heap_ok (sort_gt y) (so_heap y)" using pp(1) by (simp add: sort_gt_def y_def)
  ultimately show "merge_ok y (rem[tp := []])" using ok d st by (auto simp: merge_ok_def y_def)
qed

definition show_top :: "'x Sort \<Rightarrow> 'x Sort" where
  "show_top y = y\<lparr>cur_output_row := top_row y\<rparr>"

lemma show_top_simps [simp]:
  "cur_output_row (show_top y) = top_row (show_top y)" "sort_cols (show_top y) = sort_cols y" "so_len (show_top y) = so_len y"
  by (simp_all add: show_top_def top_row_def)

lemma merge_ok_show [simp]: "merge_ok (show_top y) rem = merge_ok y rem"
  by (simp add: merge_ok_def run_ok_def show_top_def sort_gt_def)

lemma merge_next:
  assumes ok: "merge_ok x rem" and ne: "so_heap x \<noteq> []"
    and tp_def: "tp = so_heap x ! 0"
  shows "\<exists>y. sort_next x = show_top y \<and> merge_ok y (rem[tp := tl (rem ! tp)]) \<and>
    sort_cols y = sort_cols x \<and> so_len y = so_len x"
proof -
  define w where "w = x\<lparr>so_heap := heap_pop (sort_gt x) (so_heap x)\<rparr>"
  note pop = pop_heap [OF ok ne, folded w_def tp_def]
  have "tp \<in> set (so_heap x)" using ne by (simp add: tp_def)
  then have r: "run_ok x rem tp" "rem ! tp \<noteq> []" using merge_heads(1,2) [OF ok] ok by (auto simp: merge_ok_def)
  have str: "run_streams w ! tp = concat (tl (rem ! tp))" using r \<open>tp \<in> set (so_heap x)\<close> by (simp add: run_ok_def w_def)
  have rows: "\<forall>r \<in> set (tl (rem ! tp)). length r = so_len w \<and> r \<in> comparable (sort_cols w)"
    "sorted_wrt (row_le (sort_cols w)) (tl (rem ! tp))"
    using r by (cases "rem ! tp"; simp add: run_ok_def w_def)+
  have adv: "advance_run tp w = (case read_row (so_len w) (concat (tl (rem ! tp))) of (h, str, ok) \<Rightarrow> (ok, set_run tp str h w))"
    by (simp add: advance_run_def str set_run_def)
  let ?y = "push_if tp (advance_run tp w)"
  have "merge_ok ?y (rem[tp := tl (rem ! tp)])" "sort_cols ?y = sort_cols x" "so_len ?y = so_len x"
    using push_rows [OF pop(1) _ pop(3) rows adv] pop(2) by (simp_all add: w_def)
  moreover have "sort_next x = show_top ?y"
    using ok ne by (simp add: sort_next_def merge_ok_def Let_def show_top_def top_row_def w_def tp_def)
  ultimately show ?thesis by blast
qed

text \<open>The merge delivers all rows in order.\<close>

lemma top_least:
  assumes ok: "merge_ok x rem" and ne: "so_heap x \<noteq> []" and r: "r \<in> set (concat rem)"
  shows "row_le (sort_cols x) (top_row x) r"
proof -
  obtain i where i: "i < length rem" "r \<in> set (rem ! i)" using r by (metis UN_E in_set_conv_nth set_concat)
  have ri: "run_ok x rem i" using ok i by (simp add: merge_ok_def)
  then have ih: "i \<in> set (so_heap x)" "run_heads x ! i = hd (rem ! i)" using i(2) by (auto simp: run_ok_def)
  then obtain k where k: "k < length (so_heap x)" "so_heap x ! k = i" by (auto simp: in_set_conv_nth)
  have sub: "set (so_heap x) \<subseteq> {k. run_heads x ! k \<in> comparable (sort_cols x)}" using merge_heads(4) [OF ok] by auto
  have "\<not> heap_gt (row_less (sort_cols x)) (run_heads x) (so_heap x ! 0) i"
    using hp.heap_top [OF _ sub k(1)] ok k(2) by (simp add: merge_ok_def sort_gt_def)
  then have a: "row_le (sort_cols x) (top_row x) (hd (rem ! i))" using ih ne by (simp add: heap_gt_def row_le_def top_row_def)
  have t: "top_row x \<in> comparable (sort_cols x)" using ne merge_heads(4) [OF ok, of "so_heap x ! 0"] by (simp add: top_row_def)
  have h: "hd (rem ! i) \<in> comparable (sort_cols x)" "r \<in> comparable (sort_cols x)" using ri i(2) by (auto simp: run_ok_def)
  have "r = hd (rem ! i) \<or> row_le (sort_cols x) (hd (rem ! i)) r" using ri i(2) by (cases "rem ! i") (auto simp: run_ok_def)
  then show ?thesis using a t h row_le_trans by blast
qed

lemma mset_concat_update:
  assumes "i < length rem" "rem ! i = a # as"
  shows "mset (concat rem) = add_mset a (mset (concat (rem[i := as])))"
  using assms by (simp add: upd_conv_take_nth_drop) (metis append_Cons assms(2) concat.simps(2) concat_append id_take_nth_drop mset.simps(2) mset_append union_mset_add_mset_left union_mset_add_mset_right)

lemma merge_delivers:
  assumes "merge_ok x rem" "cur_output_row x = top_row x"
  shows "\<exists>out. delivers x out \<and> mset out = mset (concat rem) \<and> sorted_wrt (row_le (sort_cols x)) out"
  using assms
proof (induction "length (concat rem)" arbitrary: x rem)
  case 0
  then have "set (so_heap x) = {}" using merge_heads(1,2) [OF 0(2)] by (auto simp: set_conv_nth)
  then have "sort_is_end x" using 0 by (simp add: sort_is_end_def merge_ok_def top_row_def)
  then show ?case using 0(1) by (intro exI [of _ "[]"]) simp
next
  case (Suc n)
  have ext: "is_external x" "0 < so_len x" using Suc.prems(1) by (simp_all add: merge_ok_def)
  obtain i where i: "i < length rem" "rem ! i \<noteq> []" using Suc(2) by (metis concat_eq_Nil_conv in_set_conv_nth list.size(3) nat.distinct(1))
  then have "run_ok x rem i" using Suc.prems(1) by (simp add: merge_ok_def)
  then have "i \<in> set (so_heap x)" using i(2) by (simp add: run_ok_def)
  then have ne: "so_heap x \<noteq> []" by auto
  let ?t = "so_heap x ! 0"
  have t: "?t \<in> set (so_heap x)" using ne by simp
  note th = merge_heads [OF Suc.prems(1) t]
  obtain y where y: "sort_next x = show_top y" "merge_ok y (rem[?t := tl (rem ! ?t)])" "sort_cols y = sort_cols x" "so_len y = so_len x"
    using merge_next [OF Suc.prems(1) ne refl] by blast
  have cur: "cur_output_row x = hd (rem ! ?t)" using Suc.prems(2) th ne by (simp add: top_row_def)
  have ms: "mset (concat rem) = add_mset (cur_output_row x) (mset (concat (rem[?t := tl (rem ! ?t)])))"
    using mset_concat_update [OF th(1), of "hd (rem ! ?t)" "tl (rem ! ?t)"] th(2) cur by simp
  then have "n = length (concat (rem[?t := tl (rem ! ?t)]))" using Suc(2) by (metis size_add_mset size_mset nat.inject)
  then obtain out where out: "delivers (show_top y) out" "mset out = mset (concat (rem[?t := tl (rem ! ?t)]))"
      "sorted_wrt (row_le (sort_cols y)) out"
    using Suc(1) [of "rem[?t := tl (rem ! ?t)]" "show_top y"] y(2) by auto
  have "delivers x (cur_output_row x # out)"
    using ext th(3,5) cur out(1) y(1) by (auto simp: sort_is_end_def sort_Next_def)
  moreover have "row_le (sort_cols x) (cur_output_row x) r" if "r \<in> set out" for r
  proof -
    have "r \<in># mset (concat rem)" using ms out(2) that by (metis insert_iff set_mset_add_mset_insert set_mset_mset)
    then show ?thesis using top_least [OF Suc.prems(1) ne, of r] Suc.prems(2) by simp
  qed
  ultimately show ?case using out ms y(3) by (intro exI [of _ "cur_output_row x # out"]) simp
qed

section \<open>The whole sort\<close>

definition feed_row :: "((row \<Rightarrow> row \<Rightarrow> bool) \<Rightarrow> row list \<Rightarrow> row list) \<Rightarrow> row \<Rightarrow> 'x Sort \<Rightarrow> 'x Sort" where
  "feed_row srt r x =
     (let rows = sorted_data x @ [r] in
      if SORT_CHUNK_ROWS \<le> length rows
      then x\<lparr>sorted_data := [], run_files := run_files x @ [write_sorted_run (so_len x) (sort_chunk srt x rows)]\<rparr>
      else x\<lparr>sorted_data := rows\<rparr>)"

definition feed :: "((row \<Rightarrow> row \<Rightarrow> bool) \<Rightarrow> row list \<Rightarrow> row list) \<Rightarrow> row list \<Rightarrow> 'x Sort \<Rightarrow> 'x Sort" where
  "feed srt rows x = fold (feed_row srt) rows x"

text \<open>What a state keeps while it is filled and driven.\<close>

definition keeps_shape :: "'x Sort \<Rightarrow> 'x Sort \<Rightarrow> bool" where
  "keeps_shape x y \<longleftrightarrow> sort_cols y = sort_cols x \<and> so_len y = so_len x \<and> output_cols y = output_cols x"

lemma feed_chunks:
  "\<exists>chunks. run_files (feed srt rows x) = run_files x @ map (\<lambda>c. write_sorted_run (so_len x) (sort_chunk srt x c)) chunks \<and>
     concat chunks @ sorted_data (feed srt rows x) = sorted_data x @ rows \<and> [] \<notin> set chunks \<and> keeps_shape x (feed srt rows x) \<and>
     current_idx (feed srt rows x) = current_idx x"
proof (induction rows arbitrary: x)
  case Nil
  then show ?case by (intro exI [of _ "[]"]) (simp add: feed_def keeps_shape_def)
next
  case (Cons r rows)
  let ?y = "feed_row srt r x"
  obtain chunks where c: "run_files (feed srt rows ?y) = run_files ?y @ map (\<lambda>c. write_sorted_run (so_len ?y) (sort_chunk srt ?y c)) chunks"
    "concat chunks @ sorted_data (feed srt rows ?y) = sorted_data ?y @ rows" "[] \<notin> set chunks" "keeps_shape ?y (feed srt rows ?y)"
    "current_idx (feed srt rows ?y) = current_idx ?y"
    using Cons.IH [of ?y] by blast
  have f: "feed srt (r # rows) x = feed srt rows ?y" by (simp add: feed_def)
  show ?case
  proof (cases "SORT_CHUNK_ROWS \<le> length (sorted_data x @ [r])")
    case True
    then show ?thesis using c f by (intro exI [of _ "(sorted_data x @ [r]) # chunks"])
      (simp add: feed_row_def Let_def keeps_shape_def sort_chunk_def)
  next
    case False
    then show ?thesis using c f by (intro exI [of _ chunks]) (simp add: feed_row_def Let_def keeps_shape_def sort_chunk_def)
  qed
qed

text \<open>The documented contract of \<^verbatim>\<open>std::sort\<close>: for a strict weak ordering the result is a sorted permutation.\<close>

definition sort_contract :: "(('a \<Rightarrow> 'a \<Rightarrow> bool) \<Rightarrow> 'a list \<Rightarrow> 'a list) \<Rightarrow> bool" where
  "sort_contract srt \<longleftrightarrow> (\<forall>lt rows. strict_weak (set rows) lt \<longrightarrow>
     mset (srt lt rows) = mset rows \<and> sorted_wrt (\<lambda>a b. \<not> lt b a) (srt lt rows))"

lemma row_le_Nil [simp]: "row_le [] a b"
  by (simp add: row_le_def)

lemma sort_chunk_ok:
  assumes "sort_contract srt" "set rows \<subseteq> comparable (sort_cols x)"
  shows "mset (sort_chunk srt x rows) = mset rows" "sorted_wrt (row_le (sort_cols x)) (sort_chunk srt x rows)"
    "set (sort_chunk srt x rows) = set rows"
proof -
  have "mset (srt (row_less (sort_cols x)) rows) = mset rows"
    "sorted_wrt (row_le (sort_cols x)) (srt (row_less (sort_cols x)) rows)"
    using assms row_less_weak [OF assms(2)] unfolding sort_contract_def row_le_def by blast+
  moreover have "sorted_wrt (row_le []) rows" by (simp add: sorted_wrt_iff_nth_less)
  ultimately show m: "mset (sort_chunk srt x rows) = mset rows" and "sorted_wrt (row_le (sort_cols x)) (sort_chunk srt x rows)"
    by (cases "sort_cols x = []"; simp add: sort_chunk_def)+
  show "set (sort_chunk srt x rows) = set rows" using m by (rule mset_eq_setD)
qed

text \<open>Opening all runs.\<close>

definition chunk_ok :: "'x Sort \<Rightarrow> row list \<Rightarrow> bool" where
  "chunk_ok x c \<longleftrightarrow> (\<forall>r \<in> set c. length r = so_len x \<and> r \<in> comparable (sort_cols x)) \<and> sorted_wrt (row_le (sort_cols x)) c"

lemma open_run_step:
  assumes ok: "merge_ok y (take k chunks @ replicate (n - k) [])" and k: "k < n" "n = length chunks"
    and run: "run_files y ! k = write_sorted_run (so_len y) (chunks ! k)" and c: "chunk_ok y (chunks ! k)"
  shows "merge_ok (push_if k (open_run k y)) (take (Suc k) chunks @ replicate (n - Suc k) [])"
    "sort_cols (push_if k (open_run k y)) = sort_cols y" "so_len (push_if k (open_run k y)) = so_len y"
    "run_files (push_if k (open_run k y)) = run_files y"
proof -
  let ?rem = "take k chunks @ replicate (n - k) []"
  have km: "k < length ?rem" "?rem ! k = []" using k by (simp_all add: nth_append min_def)
  then have "run_ok y ?rem k" using ok by (simp add: merge_ok_def)
  then have kh: "k \<notin> set (so_heap y)" using km by (simp add: run_ok_def)
  have rows: "\<forall>r \<in> set (chunks ! k). length r = so_len y \<and> r \<in> comparable (sort_cols y)"
    "sorted_wrt (row_le (sort_cols y)) (chunks ! k)"
    using c unfolding chunk_ok_def by blast+
  then have "map (take (so_len y)) (chunks ! k) = chunks ! k" by (intro map_idI) simp
  then have "open_run k y = (case read_row (so_len y) (concat (chunks ! k)) of (h, str, ok) \<Rightarrow> (ok, set_run k str h y))"
    using run by (simp add: open_run_def set_run_def write_sorted_run_def)
  note p = push_rows [OF ok km(1) kh rows this]
  have "?rem[k := chunks ! k] = take (Suc k) chunks @ replicate (n - Suc k) []"
    using k by (simp add: list_update_append take_Suc_conv_app_nth min_def) (metis Suc_diff_Suc list_update_code(2) replicate_Suc)
  then show "merge_ok (push_if k (open_run k y)) (take (Suc k) chunks @ replicate (n - Suc k) [])"
    "sort_cols (push_if k (open_run k y)) = sort_cols y" "so_len (push_if k (open_run k y)) = so_len y"
    "run_files (push_if k (open_run k y)) = run_files y"
    using p by simp_all
qed

lemma open_all_runs:
  assumes "0 < so_len x" "is_external x" "so_heap x = []" "run_streams x = replicate n []" "run_heads x = replicate n []"
    and runs: "run_files x = map (write_sorted_run (so_len x)) chunks" and ok: "\<forall>c \<in> set chunks. chunk_ok x c"
    and n: "n = length chunks" and k: "k \<le> n"
  defines "y \<equiv> fold (\<lambda>i y. push_if i (open_run i y)) [0..<k] x"
  shows "merge_ok y (take k chunks @ replicate (n - k) []) \<and> sort_cols y = sort_cols x \<and> so_len y = so_len x \<and> run_files y = run_files x"
  using k unfolding y_def
proof (induction k)
  case 0
  then show ?case using assms(1-5) by (simp add: merge_ok_def heap_ok_def run_ok_def)
next
  case (Suc k)
  let ?y = "fold (\<lambda>i y. push_if i (open_run i y)) [0..<k] x"
  have IH: "merge_ok ?y (take k chunks @ replicate (n - k) [])" "sort_cols ?y = sort_cols x" "so_len ?y = so_len x" "run_files ?y = run_files x"
    using Suc by simp_all
  have "chunk_ok x (chunks ! k)" using ok Suc.prems n by simp
  then have "chunk_ok ?y (chunks ! k)" unfolding chunk_ok_def IH(2,3) .
  then show ?case using open_run_step [OF IH(1) _ n] IH Suc.prems runs n by simp
qed

lemma start_merge_runs:
  assumes len: "0 < so_len x" and runs: "run_files x = map (write_sorted_run (so_len x)) chunks"
    and ok: "\<forall>c \<in> set chunks. chunk_ok x c" and ne: "concat chunks \<noteq> []"
  shows "\<exists>out. delivers (start_merge x) out \<and> mset out = mset (concat chunks) \<and> sorted_wrt (row_le (sort_cols x)) out"
proof -
  define n where "n = length chunks"
  define x1 where "x1 = x\<lparr>is_external := True, is_sorted := True, run_streams := replicate n [], run_heads := replicate n [], so_heap := []\<rparr>"
  define y where "y = fold (\<lambda>i y. push_if i (open_run i y)) [0..<n] x1"
  have "\<forall>c \<in> set chunks. chunk_ok x1 c" using ok by (simp add: chunk_ok_def x1_def)
  then have m: "merge_ok y chunks" "sort_cols y = sort_cols x"
    using open_all_runs [of x1 n chunks n] len runs by (simp_all add: x1_def y_def n_def)
  obtain i where i: "i < length chunks" "chunks ! i \<noteq> []" using ne by (metis concat_eq_Nil_conv in_set_conv_nth)
  then have "run_ok y chunks i" using m(1) by (simp add: merge_ok_def)
  then have "so_heap y \<noteq> []" using i by (auto simp: run_ok_def)
  moreover have "n = length (run_files x)" using runs by (simp add: n_def)
  ultimately have "start_merge x = show_top y"
    by (simp add: start_merge_def Let_def y_def x1_def show_top_def top_row_def)
  then show ?thesis using merge_delivers [of "show_top y" chunks] m by simp
qed

lemma mem_delivers:
  assumes "\<not> is_external x" "\<forall>r \<in> set (sorted_data x). length r = so_len x" "current_idx x \<le> length (sorted_data x)"
  shows "delivers x (drop (current_idx x) (sorted_data x))"
  using assms
proof (induction "length (sorted_data x) - current_idx x" arbitrary: x)
  case 0
  then show ?case by (simp add: sort_is_end_def)
next
  case (Suc n)
  let ?y = "x\<lparr>current_idx := Suc (current_idx x)\<rparr>"
  have i: "current_idx x < length (sorted_data x)" using Suc(2) by simp
  then have "delivers ?y (drop (Suc (current_idx x)) (sorted_data x))" using Suc(1) [of ?y] Suc.hyps(2) Suc.prems by simp
  moreover have "drop (current_idx x) (sorted_data x) = sorted_data x ! current_idx x # drop (Suc (current_idx x)) (sorted_data x)"
    using Cons_nth_drop_Suc [OF i] by simp
  ultimately show ?case using i Suc.prems by (simp add: sort_is_end_def sort_Next_def sort_next_def)
qed

text \<open>The two ways a filled state goes on.\<close>

lemma finish_memory:
  assumes "run_files y = []" "sort_chunk srt y (sorted_data y) = rows" "\<forall>r \<in> set rows. length r = so_len y"
    "sorted_data y = [] \<Longrightarrow> rows = []"
  shows "delivers (finish_sort srt y) rows"
proof (cases "sorted_data y = []")
  case True
  then show ?thesis using assms by (simp add: finish_sort_def sort_is_end_def)
next
  case False
  then show ?thesis
    using assms mem_delivers [of "y\<lparr>sorted_data := rows, current_idx := 0, is_sorted := True, is_external := False\<rparr>"]
    by (simp add: finish_sort_def Let_def)
qed

lemma finish_external:
  assumes len: "0 < so_len y" and runs: "run_files y = map (write_sorted_run (so_len y)) runs" "runs \<noteq> []" "[] \<notin> set runs"
    and ok: "\<forall>c \<in> set runs. chunk_ok y c" "chunk_ok y last_run" and l: "sort_chunk srt y (sorted_data y) = last_run"
    "sorted_data y = [] \<Longrightarrow> last_run = []"
  shows "\<exists>out. delivers (finish_sort srt y) out \<and> mset out = mset (concat (runs @ [last_run])) \<and> sorted_wrt (row_le (sort_cols y)) out"
proof -
  have ne: "concat runs \<noteq> []" using runs(2,3) by (cases runs) auto
  show ?thesis
  proof (cases "sorted_data y = []")
    case True
    then show ?thesis using start_merge_runs [OF len runs(1) ok(1) ne] l(2) runs(1,2) by (simp add: finish_sort_def)
  next
    case False
    let ?z = "y\<lparr>sorted_data := [], run_files := run_files y @ [write_sorted_run (so_len y) last_run]\<rparr>"
    have "\<forall>c \<in> set (runs @ [last_run]). chunk_ok ?z c" using ok by (auto simp: chunk_ok_def)
    then have "\<exists>out. delivers (start_merge ?z) out \<and> mset out = mset (concat (runs @ [last_run])) \<and> sorted_wrt (row_le (sort_cols y)) out"
      using start_merge_runs [of ?z "runs @ [last_run]"] len runs(1) ne by simp
    then show ?thesis using False l(1) runs(1,2) by (simp add: finish_sort_def Let_def)
  qed
qed

lemma finish_delivers:
  assumes srt: "sort_contract srt" and len: "0 < so_len x" and ini: "run_files x = []" "sorted_data x = []"
    and rows: "\<forall>r \<in> set rows. length r = so_len x \<and> r \<in> comparable (sort_cols x)"
  shows "\<exists>out. delivers (finish_sort srt (feed srt rows x)) out \<and> mset out = mset rows \<and> sorted_wrt (row_le (sort_cols x)) out"
proof -
  let ?y = "feed srt rows x"
  obtain chunks where c: "run_files ?y = map (\<lambda>c. write_sorted_run (so_len x) (sort_chunk srt x c)) chunks"
    "rows = concat chunks @ sorted_data ?y" "[] \<notin> set chunks" "keeps_shape x ?y"
    using feed_chunks [of srt rows x] ini by auto
  let ?runs = "map (sort_chunk srt x) chunks" and ?last = "sort_chunk srt x (sorted_data ?y)"
  have sh: "sort_cols ?y = sort_cols x" "so_len ?y = so_len x" using c(4) by (simp_all add: keeps_shape_def)
  then have sc: "sort_chunk srt ?y = sort_chunk srt x" by (simp add: sort_chunk_def fun_eq_iff)
  let ?all = "set (chunks @ [sorted_data ?y])"
  have sub: "\<forall>r \<in> set d. length r = so_len x \<and> r \<in> comparable (sort_cols x)" if "d \<in> ?all" for d
  proof -
    have "set d \<subseteq> set (concat chunks @ sorted_data ?y)" using that by auto
    then show ?thesis using rows c(2) by (metis subsetD)
  qed
  have ck: "chunk_ok ?y (sort_chunk srt x d)" "mset (sort_chunk srt x d) = mset d" if "d \<in> ?all" for d
    using sort_chunk_ok [OF srt, of d x] sub [OF that] sh by (auto simp: chunk_ok_def)
  have nil: "sort_chunk srt x d = [] \<longleftrightarrow> d = []" if "d \<in> ?all" for d
    using ck(2) [OF that] by (metis mset_zero_iff)
  have "mset (concat (map (sort_chunk srt x) ds)) = mset (concat ds)" if "set ds \<subseteq> ?all" for ds
    using that ck(2) by (induction ds) auto
  from this [of "chunks @ [sorted_data ?y]"] have ms: "mset (concat (?runs @ [?last])) = mset rows" using c(2) by simp
  show ?thesis
  proof (cases "chunks = []")
    case True
    then have "delivers (finish_sort srt ?y) ?last"
      using ck(1) [of "sorted_data ?y"] nil [of "sorted_data ?y"] c(1) sc by (intro finish_memory) (auto simp: chunk_ok_def)
    then show ?thesis using ms ck(1) [of "sorted_data ?y"] sh True by (auto simp: chunk_ok_def)
  next
    case False
    have "[] \<notin> set ?runs" using c(3) nil by (metis (no_types, lifting) UnI1 image_iff list.set_map set_append)
    then have "\<exists>out. delivers (finish_sort srt ?y) out \<and> mset out = mset (concat (?runs @ [?last])) \<and> sorted_wrt (row_le (sort_cols ?y)) out"
      using False ck(1) nil [of "sorted_data ?y"] c(1) len sh sc by (intro finish_external) (auto simp: o_def)
    then show ?thesis using ms sh by simp
  qed
qed

section \<open>The executor\<close>

text \<open>The child does not matter once its rows are read.\<close>

lemma push_if_prev: "push_if i (b, x\<lparr>so_prev := p\<rparr>) = (push_if i (b, x))\<lparr>so_prev := p\<rparr>"
  by (simp add: push_if_def sort_gt_def)

lemma run_prev: "open_run i (x\<lparr>so_prev := p\<rparr>) = apsnd (so_prev_update (\<lambda>_. p)) (open_run i x)"
  "advance_run i (x\<lparr>so_prev := p\<rparr>) = apsnd (so_prev_update (\<lambda>_. p)) (advance_run i x)"
  by (simp_all add: open_run_def advance_run_def split: prod.split)

lemma push_run_prev: "push_if i (apsnd (so_prev_update (\<lambda>_. p)) bx) = (push_if i bx)\<lparr>so_prev := p\<rparr>"
  by (cases bx) (simp add: push_if_prev)

lemma prev_commutes:
  "x\<lparr>so_prev := p, so_heap := h\<rparr> = x\<lparr>so_heap := h, so_prev := p\<rparr>"
  "x\<lparr>so_prev := p, cur_output_row := r\<rparr> = x\<lparr>cur_output_row := r, so_prev := p\<rparr>"
  "x\<lparr>so_prev := p, current_idx := i\<rparr> = x\<lparr>current_idx := i, so_prev := p\<rparr>"
  "x\<lparr>so_prev := p, sorted_data := d\<rparr> = x\<lparr>sorted_data := d, so_prev := p\<rparr>"
  "x\<lparr>so_prev := p, run_files := f\<rparr> = x\<lparr>run_files := f, so_prev := p\<rparr>"
  "x\<lparr>so_prev := p, is_sorted := b\<rparr> = x\<lparr>is_sorted := b, so_prev := p\<rparr>"
  "x\<lparr>so_prev := p, is_external := b\<rparr> = x\<lparr>is_external := b, so_prev := p\<rparr>"
  "x\<lparr>so_prev := p, run_streams := st\<rparr> = x\<lparr>run_streams := st, so_prev := p\<rparr>"
  "x\<lparr>so_prev := p, run_heads := hs\<rparr> = x\<lparr>run_heads := hs, so_prev := p\<rparr>"
  by (cases x; simp)+

lemma sort_next_prev: "sort_next (x\<lparr>so_prev := p\<rparr>) = (sort_next x)\<lparr>so_prev := p\<rparr>"
  by (simp add: sort_next_def Let_def sort_gt_def push_run_prev run_prev prev_commutes)

lemma delivers_prev: "delivers (x\<lparr>so_prev := p\<rparr>) out = delivers x out"
  by (induction out arbitrary: x) (simp_all add: sort_is_end_def sort_Next_def sort_next_prev)

lemma start_merge_prev: "start_merge (x\<lparr>so_prev := p\<rparr>) = (start_merge x)\<lparr>so_prev := p\<rparr>"
proof -
  have "fold (\<lambda>i y. push_if i (open_run i y)) js (y\<lparr>so_prev := p\<rparr>) = (fold (\<lambda>i y. push_if i (open_run i y)) js y)\<lparr>so_prev := p\<rparr>" for js y
    by (induction js arbitrary: y) (simp_all add: run_prev push_run_prev)
  then show ?thesis by (simp add: start_merge_def Let_def prev_commutes)
qed

lemma finish_prev: "finish_sort srt (x\<lparr>so_prev := p\<rparr>) = (finish_sort srt x)\<lparr>so_prev := p\<rparr>"
  by (simp add: finish_sort_def Let_def sort_chunk_def start_merge_prev prev_commutes)

lemma feed_prev: "feed srt rows (x\<lparr>so_prev := p\<rparr>) = (feed srt rows x)\<lparr>so_prev := p\<rparr>"
proof (induction rows arbitrary: x)
  case (Cons r rows)
  have "feed_row srt r (x\<lparr>so_prev := p\<rparr>) = (feed_row srt r x)\<lparr>so_prev := p\<rparr>" by (simp add: feed_row_def Let_def sort_chunk_def prev_commutes)
  then show ?case using Cons [of "feed_row srt r x"] by (simp add: feed_def)
qed (simp add: feed_def)

lemma push_shape: "keeps_shape x y \<Longrightarrow> keeps_shape x (push_if i (b, y))"
  by (simp add: push_if_def keeps_shape_def)

lemma run_shape: "keeps_shape x y \<Longrightarrow> keeps_shape x (push_if i (open_run i y))"
  "keeps_shape x y \<Longrightarrow> keeps_shape x (push_if i (advance_run i y))"
  by (cases "open_run i y"; cases "advance_run i y"; simp add: push_if_def keeps_shape_def open_run_def advance_run_def split: prod.splits; force)+

lemma sort_next_shape: "keeps_shape x (sort_next x)"
proof -
  have "keeps_shape x (push_if i (advance_run i (x\<lparr>so_heap := h\<rparr>)))" for i h
    by (rule run_shape) (simp add: keeps_shape_def)
  then show ?thesis by (simp add: sort_next_def Let_def) (simp add: keeps_shape_def)
qed

lemma start_merge_shape: "keeps_shape y x \<Longrightarrow> keeps_shape y (start_merge x)"
proof -
  assume a: "keeps_shape y x"
  have "keeps_shape y (fold (\<lambda>i y. push_if i (open_run i y)) js z)" if "keeps_shape y z" for js z
    using that by (induction js arbitrary: z) (simp_all add: run_shape)
  from this [of "x\<lparr>is_external := True, is_sorted := True, run_streams := replicate (length (run_files x)) [],
      run_heads := replicate (length (run_files x)) [], so_heap := []\<rparr>"]
  show ?thesis using a by (simp add: start_merge_def Let_def keeps_shape_def)
qed

lemma finish_shape: "keeps_shape x (finish_sort srt x)"
  by (auto simp: finish_sort_def Let_def intro!: start_merge_shape) (simp_all add: keeps_shape_def)

context exact_source
begin

lemma read_all:
  assumes "at (so_prev x) s rows" "length rows < n"
  shows "\<exists>y t. read_chunks n srt E x s = (Inr ((feed srt rows x)\<lparr>so_prev := y\<rparr>), t) \<and> frame s t"
  using assms
proof (induction n arbitrary: x s rows)
  case (Suc n)
  show ?case
  proof (cases rows)
    case Nil
    then have "op_is_end E (so_prev x) s" using end_exact Suc.prems(1) by simp
    then show ?thesis using Nil frame_refl by (intro exI [of _ "so_prev x"] exI [of _ s]) (simp add: prog_simps feed_def)
  next
    case (Cons r rs)
    have ne: "\<not> op_is_end E (so_prev x) s" using is_end_ok [OF Suc.prems(1)] Cons by blast
    obtain y t where y: "op_Next E (so_prev x) s = (Inr (Some r, y), t)" "frame s t" "got y t rs" "op_len E y = op_len E (so_prev x)"
      using Next_some [of "so_prev x" s r rs] Suc.prems(1) Cons by auto
    obtain z u where z: "op_next E y t = (Inr z, u)" "frame t u" "at z u rs"
      using next_ok [OF y(3)] by auto
    have "length r = op_len E y" using at_len [OF Suc.prems(1), of r] Cons y(4) by simp
    then have tk: "take (if op_len E y = 0 then so_len x else op_len E y) r = r" by simp
    let ?x = "(feed_row srt r x)\<lparr>so_prev := z\<rparr>"
    obtain p v where v: "read_chunks n srt E ?x u = (Inr ((feed srt rs ?x)\<lparr>so_prev := p\<rparr>), v)" "frame u v"
      using Suc.IH [of ?x u rs] z(3) Suc.prems(2) Cons by auto
    have "read_chunks (Suc n) srt E x s = read_chunks n srt E ?x u"
      using ne y(1) z(1) tk by (simp add: prog_simps feed_row_def Let_def prev_commutes)
    moreover have "(feed srt rs ?x)\<lparr>so_prev := p\<rparr> = (feed srt rows x)\<lparr>so_prev := p\<rparr>"
      unfolding feed_prev using Cons by (simp add: feed_def)
    ultimately show ?thesis using v frame_trans [OF y(2) frame_trans [OF z(2)]] by auto
  qed
qed simp

definition sready :: "nat \<Rightarrow> ((row \<Rightarrow> row \<Rightarrow> bool) \<Rightarrow> row list \<Rightarrow> row list) \<Rightarrow> 'x Sort \<Rightarrow> 's \<Rightarrow> row list \<Rightarrow> bool" where
  "sready n srt x s out \<longleftrightarrow> \<not> is_sorted x \<and> (\<forall>r \<in> set out. length r = so_len x) \<and>
     (\<exists>rows. ready (so_prev x) s rows \<and> length rows < n \<and> delivers (finish_sort srt (feed srt rows (x\<lparr>sorted_data := []\<rparr>))) out)"

definition sat :: "'x Sort \<Rightarrow> 's \<Rightarrow> row list \<Rightarrow> bool" where
  "sat x s out \<longleftrightarrow> delivers x out \<and> (\<forall>r \<in> set out. length r = so_len x)"

definition sgot :: "'x Sort \<Rightarrow> 's \<Rightarrow> row list \<Rightarrow> bool" where
  "sgot x s out \<longleftrightarrow> delivers (sort_next x) out \<and> (\<forall>r \<in> set out. length r = so_len x)"

lemma sort_begins:
  assumes "sready n srt x s out"
  shows "\<exists>y t. sort_begin n srt E x s = (Inr y, t) \<and> frame s t \<and> sat y t out \<and> output_cols y = output_cols x \<and> so_len y = so_len x"
proof -
  obtain rows where rows: "ready (so_prev x) s rows" "length rows < n" "delivers (finish_sort srt (feed srt rows (x\<lparr>sorted_data := []\<rparr>))) out"
    and ns: "\<not> is_sorted x" and len: "\<forall>r \<in> set out. length r = so_len x"
    using assms unfolding sready_def by blast
  obtain y t where y: "op_begin E (so_prev x) s = (Inr y, t)" "frame s t" "at y t rows"
    using begin_ok [OF rows(1)] by blast
  let ?x = "x\<lparr>sorted_data := [], so_prev := y\<rparr>"
  obtain p u where u: "read_chunks n srt E ?x t = (Inr ((feed srt rows ?x)\<lparr>so_prev := p\<rparr>), u)" "frame t u"
    using read_all [of ?x t rows n srt] y(3) rows(2) by auto
  let ?f = "feed srt rows (x\<lparr>sorted_data := []\<rparr>)"
  let ?z = "(finish_sort srt ?f)\<lparr>so_prev := p\<rparr>"
  have z: "finish_sort srt ((feed srt rows ?x)\<lparr>so_prev := p\<rparr>) = ?z" by (simp add: feed_prev finish_prev)
  have "keeps_shape (x\<lparr>sorted_data := []\<rparr>) ?f" using feed_chunks by blast
  then have sh: "output_cols ?z = output_cols x" "so_len ?z = so_len x"
    using finish_shape [of ?f srt] by (simp_all add: keeps_shape_def)
  have "sort_begin n srt E x s = (Inr ?z, u)"
    using ns y(1) u(1) z by (simp add: sort_begin_def prog_simps prev_commutes)
  moreover have "sat ?z u out" using rows(3) len sh by (simp add: sat_def delivers_prev)
  ultimately show ?thesis using frame_trans [OF y(2) u(2)] sh by blast
qed

lemma source: "row_source (sort_ops n srt E) frame (sready n srt) sat sgot"
proof unfold_locales
  fix x s t out r
  show "\<exists>y t. op_begin (sort_ops n srt E) x s = (Inr y, t) \<and> frame s t \<and> sat y t out \<and>
      op_cols (sort_ops n srt E) y = op_cols (sort_ops n srt E) x \<and> op_len (sort_ops n srt E) y = op_len (sort_ops n srt E) x"
    if "sready n srt x s out"
    using sort_begins [OF that] by (simp add: sort_ops_def)
  show "out = []" if "sat x s out" "op_is_end (sort_ops n srt E) x s"
    using that by (cases out) (simp_all add: sat_def sort_ops_def)
  show "\<exists>y t. op_Next (sort_ops n srt E) x s = (Inr (None, y), t) \<and> frame s t \<and> sat y t [] \<and>
      op_cols (sort_ops n srt E) y = op_cols (sort_ops n srt E) x \<and> op_len (sort_ops n srt E) y = op_len (sort_ops n srt E) x"
    if "sat x s []"
    using that frame_refl by (simp add: sat_def sort_ops_def prog_simps sort_Next_def sort_is_end_def)
  show "\<exists>y t. op_Next (sort_ops n srt E) x s = (Inr (Some r, y), t) \<and> frame s t \<and> sgot y t out \<and>
      op_cols (sort_ops n srt E) y = op_cols (sort_ops n srt E) x \<and> op_len (sort_ops n srt E) y = op_len (sort_ops n srt E) x"
    if "sat x s (r # out)"
    using that frame_refl by (simp add: sat_def sgot_def sort_ops_def prog_simps)
  show "\<exists>y t. op_next (sort_ops n srt E) x s = (Inr y, t) \<and> frame s t \<and> sat y t out \<and>
      op_cols (sort_ops n srt E) y = op_cols (sort_ops n srt E) x \<and> op_len (sort_ops n srt E) y = op_len (sort_ops n srt E) x"
    if "sgot x s out"
    using that frame_refl sort_next_shape [of x] by (simp add: sat_def sgot_def sort_ops_def prog_simps keeps_shape_def)
  show "sready n srt x t out" if "sready n srt x s out" "frame s t"
    using that ready_stable unfolding sready_def by blast
qed (auto simp: sat_def sgot_def sready_def sort_ops_def intro: frame_refl frame_trans)

text \<open>Fresh from its constructor the executor delivers a sorted permutation of the child's rows.\<close>

lemma new_sort_ready:
  assumes "sort_contract srt" "ready p s rows" "length rows < n" "op_cols E p \<noteq> []"
    and len: "int (op_len E p) = cm_offset (last (op_cols E p)) + cm_len (last (op_cols E p))" "0 < op_len E p"
    and cmp: "set rows \<subseteq> comparable (sort_cols (new_Sort E p sel desc))"
  shows "\<exists>out. sready n srt (new_Sort E p sel desc) s out \<and> mset out = mset rows \<and>
    sorted_wrt (row_le (sort_cols (new_Sort E p sel desc))) out"
proof -
  let ?x = "new_Sort E p sel desc"
  have sl: "so_len ?x = op_len E p" using assms(4) len by (simp add: new_Sort_def Let_def)
  have l: "\<forall>r \<in> set rows. length r = so_len ?x" using ready_len [OF assms(2)] sl by simp
  obtain out where out: "delivers (finish_sort srt (feed srt rows ?x)) out" "mset out = mset rows" "sorted_wrt (row_le (sort_cols ?x)) out"
    using finish_delivers [OF assms(1), of ?x rows] l cmp sl len(2) by (auto simp: new_Sort_def Let_def)
  have x: "?x\<lparr>sorted_data := []\<rparr> = ?x" "\<not> is_sorted ?x" "so_prev ?x = p" by (simp_all add: new_Sort_def Let_def)
  have "set out = set rows" using out(2) by (rule mset_eq_setD)
  then have "sready n srt ?x s out" using out(1) assms(2,3) l x unfolding sready_def by auto
  then show ?thesis using out by blast
qed

end

section \<open>ORDER BY on a table\<close>

text \<open>A sequential scan without conditions knows its end.\<close>

definition plain :: "(SeqScan \<Rightarrow> DbState \<Rightarrow> byte list list \<Rightarrow> bool) \<Rightarrow> SeqScan \<Rightarrow> DbState \<Rightarrow> byte list list \<Rightarrow> bool" where
  "plain P x s rs \<longleftrightarrow> P x s rs \<and> ss_conds x = []"

lemma seq_conds_kept:
  "seq_begin x s = (Inr y, t) \<Longrightarrow> ss_conds y = ss_conds x"
  "seq_nextTuple x s = (Inr y, t) \<Longrightarrow> ss_conds y = ss_conds x"
  "seq_Next_from n x s = (Inr (r, y), t) \<Longrightarrow> ss_conds y = ss_conds x"
proof -
  show nx: "ss_conds y = ss_conds x" if "seq_nextTuple x s = (Inr y, t)" for x y s t
    using that by (auto simp: seq_nextTuple_def prog_Inr_iff Let_def)
  show "seq_begin x s = (Inr y, t) \<Longrightarrow> ss_conds y = ss_conds x"
    by (auto simp: seq_begin_def prog_Inr_iff Let_def)
  show "seq_Next_from n x s = (Inr (r, y), t) \<Longrightarrow> ss_conds y = ss_conds x"
  proof (induction n arbitrary: x s)
    case (Suc n)
    then show ?case by (auto simp: prog_Inr_iff split: if_splits dest: nx)
  qed (simp add: prog_Inr_iff)
qed

lemma seq_end_exact:
  assumes "seq_at x s []" "ss_conds x = []" shows "seq_is_end x s"
proof (rule ccontr)
  assume n: "\<not> seq_is_end x s"
  obtain fh rid where h: "seq_ok x s fh" "ss_scan x = Some rid" "on_record (file_of s fh) rid"
      "[] = matching x (file_of s fh) (to_come (file_of s fh) rid)"
    using assms(1) by (auto simp: seq_at_def)
  then have "\<not> scan_is_end (file_of s fh) rid" using n seq_is_end_ok by simp
  then obtain rid' where "to_come (file_of s fh) rid = rid # to_come (file_of s fh) rid'" by (rule seq_step [OF h(1,2,3)]) auto
  then show False using h(4) assms(2) by (simp add: matching_def select_def rows_of_def)
qed

interpretation sx: exact_source seq_scan_ops db_frame "plain seq_ready" "plain seq_at" "plain seq_got"
proof unfold_locales
  fix x y s t rs r
  have k: "op_cols seq_scan_ops = ss_cols" "op_len seq_scan_ops = ss_len" "op_begin seq_scan_ops = seq_begin"
    "op_next seq_scan_ops = seq_nextTuple" "op_Next seq_scan_ops = seq_Next" "op_is_end seq_scan_ops = seq_is_end"
    by (simp_all add: seq_scan_ops_def)
  show "\<exists>y t. op_begin seq_scan_ops x s = (Inr y, t) \<and> db_frame s t \<and> plain seq_at y t rs \<and>
      op_cols seq_scan_ops y = op_cols seq_scan_ops x \<and> op_len seq_scan_ops y = op_len seq_scan_ops x"
    if "plain seq_ready x s rs"
    using that seq.begin_ok [of x s rs] seq_conds_kept(1) unfolding plain_def k by metis
  show "\<exists>y t. op_Next seq_scan_ops x s = (Inr (None, y), t) \<and> db_frame s t \<and> plain seq_at y t [] \<and>
      op_cols seq_scan_ops y = op_cols seq_scan_ops x \<and> op_len seq_scan_ops y = op_len seq_scan_ops x"
    if "plain seq_at x s []"
    using that seq.Next_none [of x s] seq_conds_kept(3) unfolding plain_def k seq_Next_def by metis
  show "\<exists>y t. op_Next seq_scan_ops x s = (Inr (Some r, y), t) \<and> db_frame s t \<and> plain seq_got y t rs \<and>
      op_cols seq_scan_ops y = op_cols seq_scan_ops x \<and> op_len seq_scan_ops y = op_len seq_scan_ops x"
    if "plain seq_at x s (r # rs)"
    using that seq.Next_some [of x s r rs] seq_conds_kept(3) unfolding plain_def k seq_Next_def by metis
  show "\<exists>y t. op_next seq_scan_ops x s = (Inr y, t) \<and> db_frame s t \<and> plain seq_at y t rs \<and>
      op_cols seq_scan_ops y = op_cols seq_scan_ops x \<and> op_len seq_scan_ops y = op_len seq_scan_ops x"
    if "plain seq_got x s rs"
    using that seq.next_ok [of x s rs] seq_conds_kept(2) unfolding plain_def k by metis
  show "op_is_end seq_scan_ops x s" if "plain seq_at x s []"
    using that seq_end_exact unfolding plain_def k by blast
qed (auto simp: plain_def db_frame_refl intro: db_frame_trans seq_stable seq.is_end_ok seq.ready_len seq.at_len)

interpretation sp: projected "sort_ops n srt seq_scan_ops" db_frame "sx.sready n srt" sx.sat sx.sgot for n srt
  by (rule projected.intro) (rule sx.source)

definition order_cols :: "ColMeta list \<Rightarrow> TabCol list \<Rightarrow> bool list \<Rightarrow> (ColMeta \<times> bool) list" where
  "order_cols cols ord desc = zip (List.map_filter (\<lambda>sc. List.find (sort_col_match sc) cols) ord) desc"

section \<open>Properties\<close>

text \<open>C9 SELECT with ORDER BY on a table: whether the rows fit into one chunk or go through sorted runs and the k-way
  merge, the query returns the selected columns of a permutation of the records of the table that is sorted by the ORDER BY
  columns and their directions, and it leaves every table as it was. Of \<^verbatim>\<open>std::sort\<close> only its contract is used: for a strict
  weak ordering it gives a sorted permutation. The float columns ordered by hold no NaN.\<close>

theorem sort_correct:
  assumes "db_inv s" and "alone (s_locks s) (txn_id (s_txn s))" and "tab_open s tab cols"
    and "\<forall>t \<in> set sel. find_pos (col_is t) cols \<noteq> None"
    and "sort_contract srt"
    and "\<forall>r \<in> set (table_rows s tab). \<forall>(c, d) \<in> set (order_cols cols ord desc). no_nan c r"
    and "length (table_rows s tab) < n"
  shows "\<exists>u out. bindE (new_SeqScan tab [] ctx) (\<lambda>x.
        bindE (new_Projection (sort_ops n srt seq_scan_ops) (new_Sort seq_scan_ops x ord desc) sel)
          (run_exec n (projection_ops (sort_ops n srt seq_scan_ops)))) s =
      (Inr (map (project cols (map (col_pos cols) sel)) out), u) \<and>
    mset out = mset (table_rows s tab) \<and> sorted_wrt (row_le (order_cols cols ord desc)) out \<and> db_frame s u"
proof -
  let ?E = "sort_ops n srt seq_scan_ops" and ?rows = "table_rows s tab"
  obtain x where x: "new_SeqScan tab [] ctx s = (Inr x, s)" "seq_ready x s (select cols [] ?rows)"
      "ss_cols x = cols" "\<forall>c \<in> set cols. col_fits (ss_len x) c" "int (ss_len x) = cm_offset (last cols) + cm_len (last cols)"
      "0 < ss_len x"
    using new_SeqScan_ok [OF assms(3,1,2), of "[]" ctx] by auto
  have cn: "cols \<noteq> []" using assms(3) by (auto simp: tab_open_def)
  have "ss_conds x = []" using x(1) by (auto simp: new_SeqScan_def prog_Inr_iff Let_def)
  then have rdy: "plain seq_ready x s ?rows" using x(2) by (simp add: plain_def select_def)
  let ?x = "new_Sort seq_scan_ops x ord desc"
  have sc: "sort_cols ?x = order_cols cols ord desc" "output_cols ?x = cols" "so_len ?x = ss_len x"
    using x(3,5) cn by (simp_all add: new_Sort_def Let_def order_cols_def seq_cols_len flip: x(5))
  have cmp: "set ?rows \<subseteq> comparable (sort_cols ?x)" using assms(6) sc(1) by (auto simp: comparable_def)
  obtain out where out: "sx.sready n srt ?x s out" "mset out = mset ?rows" "sorted_wrt (row_le (order_cols cols ord desc)) out"
    using sx.new_sort_ready [OF assms(5) rdy assms(7) _ _ _ cmp] x(3,5,6) cn sc(1) by (auto simp: seq_cols_len)
  have E: "op_cols ?E ?x = cols" "op_len ?E ?x = ss_len x" using sc by (simp_all add: sort_ops_def)
  obtain p where p: "new_Projection ?E ?x sel s = (Inr p, s)" "proj_wf ?E p" "pj_prev p = ?x" "pj_sel p = map (col_pos cols) sel"
    by (rule new_Projection_ok [where E = ?E and x = ?x and sels = sel and s = s]) (use assms(4) x(4) E in auto)
  have lens: "\<forall>r \<in> set out. length r = ss_len x" using out(1) sc(3) by (simp add: sx.sready_def)
  have "sp.lifted n srt (sx.sready n srt) p s (map (project cols (map (col_pos cols) sel)) out)"
    using p out(1) E lens by (auto simp: sp.lifted_def)
  moreover have "length (map (project cols (map (col_pos cols) sel)) out) < n"
    using assms(7) out(2) by (metis length_map size_mset)
  ultimately obtain u where "run_exec n (projection_ops ?E) p s = (Inr (map (project cols (map (col_pos cols) sel)) out), u)" "db_frame s u"
    using sp.out.run_exec_ok by blast
  then show ?thesis using x(1) p(1) out by (auto simp: prog_simps)
qed

text \<open>Insertion sort keeps the contract.\<close>

fun put_in :: "('a \<Rightarrow> 'a \<Rightarrow> bool) \<Rightarrow> 'a \<Rightarrow> 'a list \<Rightarrow> 'a list" where
  "put_in lt x [] = [x]"
| "put_in lt x (y # ys) = (if lt y x then y # put_in lt x ys else x # y # ys)"

definition simple_sort :: "('a \<Rightarrow> 'a \<Rightarrow> bool) \<Rightarrow> 'a list \<Rightarrow> 'a list" where
  "simple_sort lt rows = foldr (put_in lt) rows []"

lemma mset_put_in [simp]: "mset (put_in lt x ys) = add_mset x (mset ys)"
  by (induction ys) auto

lemma set_put_in [simp]: "set (put_in lt x ys) = insert x (set ys)"
  by (induction ys) auto

lemma put_in_sorted:
  assumes "sorted_wrt (\<lambda>a b. \<not> lt b a) ys" "strict_weak (insert x (set ys)) lt"
  shows "sorted_wrt (\<lambda>a b. \<not> lt b a) (put_in lt x ys)"
  using assms
proof (induction ys)
  case (Cons y ys)
  have w: "strict_weak (insert x (set ys)) lt" by (rule strict_weak_mono [OF Cons.prems(2)]) auto
  have "\<not> lt z x" if "\<not> lt y x" "z \<in> set ys" for z
  proof -
    have "\<not> lt z y" using Cons.prems(1) that(2) by simp
    then show ?thesis using Cons.prems(2) that unfolding strict_weak_def by (meson insertCI list.set_intros)
  qed
  moreover have "\<not> lt x y" if "lt y x" using Cons.prems(2) that by (simp add: strict_weak_def)
  ultimately show ?case using Cons w by auto
qed simp

lemma simple_sort_contract: "sort_contract simple_sort"
  unfolding sort_contract_def
proof (intro allI impI)
  fix lt :: "'a \<Rightarrow> 'a \<Rightarrow> bool" and rows :: "'a list"
  assume "strict_weak (set rows) lt"
  then show "mset (simple_sort lt rows) = mset rows \<and> sorted_wrt (\<lambda>a b. \<not> lt b a) (simple_sort lt rows)"
  proof (induction rows)
    case (Cons r rows)
    have "strict_weak (set rows) lt" by (rule strict_weak_mono [OF Cons.prems]) auto
    then have IH: "mset (simple_sort lt rows) = mset rows" "sorted_wrt (\<lambda>a b. \<not> lt b a) (simple_sort lt rows)" using Cons.IH by auto
    have "set (simple_sort lt rows) = set rows" using IH(1) by (rule mset_eq_setD)
    then have "sorted_wrt (\<lambda>a b. \<not> lt b a) (put_in lt r (simple_sort lt rows))"
      using put_in_sorted [OF IH(2), of r] Cons.prems by simp
    then show ?case using IH(1) by (simp add: simple_sort_def)
  qed (simp add: simple_sort_def)
qed

theorem sort_correct_witness:
  "\<exists>u out. bindE (new_SeqScan ''t'' [] None) (\<lambda>x.
        bindE (new_Projection (sort_ops 8 simple_sort seq_scan_ops) (new_Sort seq_scan_ops x [tab_col ''t'' ''a''] [True]) [tab_col ''t'' ''b''])
          (run_exec 8 (projection_ops (sort_ops 8 simple_sort seq_scan_ops)))) demo_state =
      (Inr (map (project demo_cols [1]) out), u) \<and>
    mset out = mset (table_rows demo_state ''t'') \<and>
    sorted_wrt (row_le [(int_col ''t'' ''a'' 0, True)]) out \<and> db_frame demo_state u"
proof -
  have pos: "find_pos (col_is (tab_col ''t'' ''b'')) demo_cols = Some 1"
    by (simp add: demo_cols_def col_is_def int_col_def tab_col_def)
  have o: "order_cols demo_cols [tab_col ''t'' ''a''] [True] = [(int_col ''t'' ''a'' 0, True)]"
    by (simp add: order_cols_def demo_cols_def sort_col_match_def tab_col_def int_col_def List.map_filter_simps)
  have "\<forall>r \<in> set (table_rows demo_state ''t''). \<forall>(c, d) \<in> set [(int_col ''t'' ''a'' 0, True)]. no_nan c r"
    by (simp add: no_nan_def int_col_def)
  then show ?thesis
    using sort_correct [OF demo_state_ok, of "[tab_col ''t'' ''b'']" simple_sort "[tab_col ''t'' ''a'']" "[True]" 8 None]
      simple_sort_contract pos by (simp add: o demo_table_length col_pos_def)
qed

end
