(* ===== verification/Dml.thy ===== *)
theory Dml
  imports Sys_State Ix_Tree Predicates
begin

text \<open>
  The executors that change tables: \<^verbatim>\<open>InsertExecutor\<close> (\<^verbatim>\<open>execution/executor_insert.h\<close>), \<^verbatim>\<open>DeleteExecutor\<close>
  (\<^verbatim>\<open>executor_delete.h\<close>) and \<^verbatim>\<open>UpdateExecutor\<close> (\<^verbatim>\<open>executor_update.h\<close>), on the shared state. Every change of a
  record is logged, remembered in the write set of the transaction and followed by the changes of the indexes.
\<close>

section \<open>Shared steps\<close>

text \<open>\<^verbatim>\<open>ihs_.at(name)\<close> and an operation of the index handle.\<close>

definition on_index :: "string \<Rightarrow> (IxState, 'a) prog \<Rightarrow> (DbState, 'a) prog" where
  "on_index name m s =
     (case s_ihs s name of
        None \<Rightarrow> (Inl (StdException ''std::out_of_range''), s)
      | Some ih \<Rightarrow>
          (case m \<lparr>ix_pool = s_pool s, ix_ih = ih\<rparr> of
             (r, t) \<Rightarrow> (r, s\<lparr>s_pool := ix_pool t, s_ihs := (s_ihs s)(name \<mapsto> ix_ih t)\<rparr>)))"

definition on_bpm :: "(BufferPoolManager, 'a) prog \<Rightarrow> (DbState, 'a) prog" where
  "on_bpm m = zoom s_pool (\<lambda>b s. s\<lparr>s_pool := b\<rparr>) m"

definition index_file :: "string \<Rightarrow> IndexMeta \<Rightarrow> string" where
  "index_file tab index = get_index_name tab (map cm_name (im_cols index))"

definition col_data :: "byte list \<Rightarrow> ColMeta \<Rightarrow> byte list" where
  "col_data rec c = read_at rec (nat (cm_offset c)) (nat (cm_len c))"

text \<open>The key of a record: the bytes of the indexed columns one after the other.\<close>

definition index_key :: "IndexMeta \<Rightarrow> byte list \<Rightarrow> byte list" where
  "index_key index rec = concat (map (col_data rec) (take (nat (col_num index)) (im_cols index)))"

definition same_key :: "IndexMeta \<Rightarrow> byte list \<Rightarrow> byte list \<Rightarrow> bool" where
  "same_key index k k' \<longleftrightarrow> memcmp k k' (nat (col_tot_len index)) = 0"

text \<open>The log record of a change, chained to the transaction's last one.\<close>

definition log_change :: "Context option \<Rightarrow> (int \<Rightarrow> LogRecord) \<Rightarrow> (DbState, unit) prog" where
  "log_change ctx mk =
     (case ctx of
        Some c \<Rightarrow>
          if cx_log_mgr c \<and> cx_txn c
          then bindE (gets s_txn) (\<lambda>t.
               bindE (on_logs (add_log_to_buffer (set_prev_lsn (prev_lsn t) (mk (txn_id t))))) (\<lambda>l.
               modify (\<lambda>s. s\<lparr>s_txn := (s_txn s)\<lparr>prev_lsn := l\<rparr>\<rparr>)))
          else ret ()
      | None \<Rightarrow> ret ())"

text \<open>\<^verbatim>\<open>context_->txn_\<close> is read here without a test of \<^verbatim>\<open>context_\<close>.\<close>

definition remember_write :: "Context option \<Rightarrow> WriteRecord \<Rightarrow> (DbState, unit) prog" where
  "remember_write ctx wr =
     (case ctx of
        None \<Rightarrow> raise NullPointer
      | Some c \<Rightarrow> if cx_txn c then modify (\<lambda>s. s\<lparr>s_txn := append_write_record wr (s_txn s)\<rparr>) else ret ())"

fun index_deletes :: "string \<Rightarrow> byte list \<Rightarrow> IndexMeta list \<Rightarrow> (DbState, unit) prog" where
  "index_deletes tab rec [] = ret ()"
| "index_deletes tab rec (index # ixs) =
     thenE (on_index (index_file tab index) (delete_entry (index_key index rec))) (index_deletes tab rec ixs)"

fun index_inserts :: "string \<Rightarrow> byte list \<Rightarrow> Rid \<Rightarrow> IndexMeta list \<Rightarrow> (DbState, unit) prog" where
  "index_inserts tab rec rid [] = ret ()"
| "index_inserts tab rec rid (index # ixs) =
     thenE (on_index (index_file tab index) (insert_entry (index_key index rec) rid)) (index_inserts tab rec rid ixs)"

section \<open>INSERT\<close>

record InsertExecutor =
  ie_tab :: TabMeta
  ie_values :: "Value list"
  ie_tab_name :: string
  ie_rid :: Rid
  ie_ctx :: "Context option"

text \<open>The record id has no value before the insertion; it is given here as \<open>(-1, -1)\<close>.\<close>

definition new_InsertExecutor :: "string \<Rightarrow> Value list \<Rightarrow> Context option \<Rightarrow> (DbState, InsertExecutor) prog" where
  "new_InsertExecutor tab_name values ctx =
     bindE (gets s_meta) (\<lambda>db.
     bindE (get_table db tab_name) (\<lambda>tab.
       if length values \<noteq> length (tm_cols tab) then raise InvalidValueCountError
       else thenE (get_fd tab_name)
            (ret \<lparr>ie_tab = tab, ie_values = values, ie_tab_name = tab_name, ie_rid = \<lparr>page_no = -1, slot_no = -1\<rparr>,
              ie_ctx = ctx\<rparr>)))"

definition convert_value :: "ColMeta \<Rightarrow> Value \<Rightarrow> ('s, Value) prog" where
  "convert_value col v =
     (if cm_type col = v_type v then ret v
      else if cm_type col = TYPE_DATETIME \<and> v_type v = TYPE_STRING
      then bindE (parse_datetime (str_of (str_val v))) (\<lambda>d. ret (set_datetime d v))
      else if cm_type col = TYPE_BIGINT \<and> v_type v = TYPE_INT then ret (v\<lparr>v_type := TYPE_BIGINT\<rparr>)
      else if cm_type col = TYPE_INT \<and> v_type v = TYPE_BIGINT
      then if bigint_val v > 2147483647 \<or> bigint_val v < -2147483648
           then raise (RMDBError ''BIGINT value out of INT range'')
           else ret (v\<lparr>v_type := TYPE_INT\<rparr>)
      else raise (IncompatibleTypeError (coltype2str (cm_type col)) (coltype2str (v_type v))))"

text \<open>One round of the loop over the values: the record and the converted value.\<close>

definition put_value :: "byte list \<Rightarrow> ColMeta \<Rightarrow> Value \<Rightarrow> ('s, byte list \<times> Value) prog" where
  "put_value rec col v =
     bindE (convert_value col v) (\<lambda>v1.
     bindE (init_raw (cm_len col) v1) (\<lambda>v2.
       case v_raw v2 of
         None \<Rightarrow> raise NullPointer
       | Some raw \<Rightarrow>
           if length rec < nat (cm_offset col) + nat (cm_len col) then raise OutOfBounds
           else ret (write_at rec (nat (cm_offset col)) raw, v2)))"

fun put_values :: "byte list \<Rightarrow> (ColMeta \<times> Value) list \<Rightarrow> ('s, byte list \<times> Value list) prog" where
  "put_values rec [] = ret (rec, [])"
| "put_values rec ((col, v) # cvs) =
     bindE (put_value rec col v) (\<lambda>(rec1, v1).
     bindE (put_values rec1 cvs) (\<lambda>(rec2, vs). ret (rec2, v1 # vs)))"

text \<open>The check of one unique index: the scan of the table up to its number of slots.\<close>

definition scan_bound :: "RmFileHdr \<Rightarrow> nat" where
  "scan_bound h = Suc (nat (num_pages h) * nat (num_records_per_page h))"

fun check_unique :: "nat \<Rightarrow> IndexMeta \<Rightarrow> byte list \<Rightarrow> Rid \<Rightarrow> (RmState, unit) prog" where
  "check_unique 0 index key rid = raise OutOfFuel"
| "check_unique (Suc n) index key rid =
     bindE (gets (\<lambda>s. scan_is_end s rid)) (\<lambda>e.
       if e then ret ()
       else bindE (get_record rid) (\<lambda>rec.
         if same_key index key (index_key index rec) then raise (RMDBError ''Duplicate entry for unique index'')
         else bindE (scan_next rid) (check_unique n index key)))"

fun check_indexes :: "byte list \<Rightarrow> IndexMeta list \<Rightarrow> (RmState, unit) prog" where
  "check_indexes rec [] = ret ()"
| "check_indexes rec (index # ixs) =
     thenE (bindE (gets hdr) (\<lambda>h. bindE new_RmScan (check_unique (scan_bound h) index (index_key index rec))))
     (check_indexes rec ixs)"

text \<open>The place of the new record, and whether a page has to be made for it.\<close>

definition choose_rid :: "(RmState, bool \<times> Rid) prog" where
  "choose_rid =
     bindE (gets hdr) (\<lambda>h.
       if first_free_page_no h = RM_NO_PAGE then ret (True, \<lparr>page_no = num_pages h, slot_no = 0\<rparr>)
       else bindE (fetch_page_handle (first_free_page_no h)) (\<lambda>f.
         bindE (page_bytes f) (\<lambda>d.
         bindE (gets (\<lambda>s. pg_id (pages (rm_pool s) ! f))) (\<lambda>pid.
         let slot = first_bit False (bitmap h d) (nat (num_records_per_page h)) in
         thenE (assertE (int slot < num_records_per_page h))
         (thenE (unpin_handle f False)
         (ret (False, \<lparr>page_no = pid_no pid, slot_no = int slot\<rparr>)))))))"

definition place_record :: "bool \<Rightarrow> Rid \<Rightarrow> byte list \<Rightarrow> (RmState, Rid) prog" where
  "place_record need_new_page rid rec =
     (if need_new_page then insert_record rec else thenE (insert_record_at rid rec) (ret rid))"

definition insert_Next :: "InsertExecutor \<Rightarrow> (DbState, InsertExecutor) prog" where
  "insert_Next ie =
     (let tab = ie_tab_name ie; ixs = indexes (ie_tab ie); ctx = ie_ctx ie in
      bindE (on_file tab (gets (\<lambda>r. record_size (hdr r)))) (\<lambda>size.
      bindE (put_values (replicate (nat size) 0) (zip (tm_cols (ie_tab ie)) (ie_values ie))) (\<lambda>(rec, vs).
      thenE (on_file tab (check_indexes rec ixs))
      (bindE (get_fd tab) (\<lambda>fd.
      thenE (with_lock ctx (lock_IX_on_table fd))
      (bindE (on_file tab choose_rid) (\<lambda>(need_new_page, rid0).
      thenE (log_change ctx (\<lambda>tid. new_InsertLogRecord tid rec rid0 (bytes_of tab)))
      (bindE (on_file tab (place_record need_new_page rid0 rec)) (\<lambda>rid.
      thenE (with_lock ctx (lock_exclusive_on_record rid fd))
      (thenE (remember_write ctx (new_WriteRecord INSERT_TUPLE tab rid rec))
      (thenE (index_inserts tab rec rid ixs)
      (ret (ie\<lparr>ie_values := vs, ie_rid := rid\<rparr>)))))))))))))"

section \<open>DELETE\<close>

record DeleteExecutor =
  de_tab :: TabMeta
  de_conds :: "Condition list"
  de_rids :: "Rid list"
  de_tab_name :: string
  de_ctx :: "Context option"

definition new_DeleteExecutor :: "string \<Rightarrow> Condition list \<Rightarrow> Rid list \<Rightarrow> Context option \<Rightarrow> (DbState, DeleteExecutor) prog" where
  "new_DeleteExecutor tab_name conds rids ctx =
     bindE (gets s_meta) (\<lambda>db.
     bindE (get_table db tab_name) (\<lambda>tab.
     thenE (get_fd tab_name)
     (ret \<lparr>de_tab = tab, de_conds = conds, de_rids = rids, de_tab_name = tab_name, de_ctx = ctx\<rparr>)))"

definition delete_one :: "DeleteExecutor \<Rightarrow> Rid \<Rightarrow> (DbState, unit) prog" where
  "delete_one de rid =
     (let tab = de_tab_name de; ctx = de_ctx de in
      bindE (get_fd tab) (\<lambda>fd.
      thenE (with_lock ctx (lock_exclusive_on_record rid fd))
      (bindE (on_file tab (get_record rid)) (\<lambda>rec.
      thenE (log_change ctx (\<lambda>tid. new_DeleteLogRecord tid rec rid (bytes_of tab)))
      (thenE (remember_write ctx (new_WriteRecord DELETE_TUPLE tab rid rec))
      (thenE (index_deletes tab rec (indexes (de_tab de)))
      (on_file tab (delete_record rid))))))))"

fun delete_rids :: "DeleteExecutor \<Rightarrow> Rid list \<Rightarrow> (DbState, unit) prog" where
  "delete_rids de [] = ret ()"
| "delete_rids de (rid # rids) = thenE (delete_one de rid) (delete_rids de rids)"

definition delete_Next :: "DeleteExecutor \<Rightarrow> (DbState, unit) prog" where
  "delete_Next de =
     bindE (get_fd (de_tab_name de)) (\<lambda>fd.
     thenE (with_lock (de_ctx de) (lock_IX_on_table fd))
     (delete_rids de (de_rids de)))"

section \<open>UPDATE\<close>

record UpdateExecutor =
  ue_tab :: TabMeta
  ue_conds :: "Condition list"
  ue_rids :: "Rid list"
  ue_tab_name :: string
  ue_set_clauses :: "SetClause list"
  ue_ctx :: "Context option"

definition new_UpdateExecutor ::
  "string \<Rightarrow> SetClause list \<Rightarrow> Condition list \<Rightarrow> Rid list \<Rightarrow> Context option \<Rightarrow> (DbState, UpdateExecutor) prog" where
  "new_UpdateExecutor tab_name set_clauses conds rids ctx =
     bindE (gets s_meta) (\<lambda>db.
     bindE (get_table db tab_name) (\<lambda>tab.
     thenE (get_fd tab_name)
     (ret \<lparr>ue_tab = tab, ue_conds = conds, ue_rids = rids, ue_tab_name = tab_name, ue_set_clauses = set_clauses, ue_ctx = ctx\<rparr>)))"

fun init_clauses :: "TabMeta \<Rightarrow> SetClause list \<Rightarrow> ('s, SetClause list) prog" where
  "init_clauses tab [] = ret []"
| "init_clauses tab (c # cs) =
     bindE (get_col tab (tc_col_name (sc_lhs c))) (\<lambda>col.
     bindE (if v_raw (sc_rhs c) = None then init_raw (cm_len col) (sc_rhs c) else ret (sc_rhs c)) (\<lambda>v.
     bindE (init_clauses tab cs) (\<lambda>cs1. ret (c\<lparr>sc_rhs := v\<rparr> # cs1))))"

fun apply_clauses :: "TabMeta \<Rightarrow> SetClause list \<Rightarrow> byte list \<Rightarrow> ('s, byte list) prog" where
  "apply_clauses tab [] rec = ret rec"
| "apply_clauses tab (c # cs) rec =
     bindE (get_col tab (tc_col_name (sc_lhs c))) (\<lambda>col.
       case v_raw (sc_rhs c) of
         None \<Rightarrow> raise NullPointer
       | Some raw \<Rightarrow>
           if length raw < nat (cm_len col) \<or> length rec < nat (cm_offset col) + nat (cm_len col) then raise OutOfBounds
           else apply_clauses tab cs (write_at rec (nat (cm_offset col)) (take (nat (cm_len col)) raw)))"

text \<open>The key of the changed record must not belong to another record.\<close>

fun check_new_keys :: "string \<Rightarrow> Rid \<Rightarrow> byte list \<Rightarrow> byte list \<Rightarrow> IndexMeta list \<Rightarrow> (DbState, unit) prog" where
  "check_new_keys tab rid old_rec new_rec [] = ret ()"
| "check_new_keys tab rid old_rec new_rec (index # ixs) =
     thenE (if \<not> same_key index (index_key index new_rec) (index_key index old_rec)
            then bindE (on_index (index_file tab index) (get_value (index_key index new_rec))) (\<lambda>r.
                 case r of
                   None \<Rightarrow> ret ()
                 | Some other \<Rightarrow> if other = rid then ret () else raise (RMDBError ''Duplicate entry for unique index''))
            else ret ())
     (check_new_keys tab rid old_rec new_rec ixs)"

text \<open>Whether all columns of a multi-column index change: then the old record stays and a new one is inserted.\<close>

definition insert_new_record :: "byte list \<Rightarrow> byte list \<Rightarrow> IndexMeta list \<Rightarrow> bool" where
  "insert_new_record old_rec new_rec ixs \<longleftrightarrow>
     (\<exists>index \<in> set ixs. col_num index > 1 \<and>
        (\<forall>c \<in> set (take (nat (col_num index)) (im_cols index)). col_data new_rec c \<noteq> col_data old_rec c))"

text \<open>The write record was appended before the update; it is the last of the write set.\<close>

definition remember_new_rid :: "Context option \<Rightarrow> Rid \<Rightarrow> (DbState, unit) prog" where
  "remember_new_rid ctx rid =
     (case ctx of
        Some c \<Rightarrow>
          if cx_txn c
          then modify (\<lambda>s. s\<lparr>s_txn := (s_txn s)\<lparr>write_set :=
                 (let ws = write_set (s_txn s) in ws[length ws - 1 := set_new_rid rid (last ws)])\<rparr>\<rparr>)
          else ret ()
      | None \<Rightarrow> ret ())"

fun move_keys :: "string \<Rightarrow> Rid \<Rightarrow> byte list \<Rightarrow> byte list \<Rightarrow> IndexMeta list \<Rightarrow> (DbState, unit) prog" where
  "move_keys tab rid old_rec new_rec [] = ret ()"
| "move_keys tab rid old_rec new_rec (index # ixs) =
     thenE (thenE (on_index (index_file tab index) (ret ()))
            (if \<not> same_key index (index_key index new_rec) (index_key index old_rec)
            then thenE (on_index (index_file tab index) (delete_entry (index_key index old_rec)))
                 (thenE (on_index (index_file tab index) (insert_entry (index_key index new_rec) rid)) (ret ()))
            else ret ()))
     (move_keys tab rid old_rec new_rec ixs)"

definition update_one :: "UpdateExecutor \<Rightarrow> Rid \<Rightarrow> (DbState, unit) prog" where
  "update_one ue rid =
     (let tab = ue_tab_name ue; ctx = ue_ctx ue; ixs = indexes (ue_tab ue) in
      bindE (get_fd tab) (\<lambda>fd.
      thenE (with_lock ctx (lock_exclusive_on_record rid fd))
      (bindE (on_file tab (get_record rid)) (\<lambda>rec.
      thenE (remember_write ctx (new_WriteRecord UPDATE_TUPLE tab rid rec))
      (bindE (apply_clauses (ue_tab ue) (ue_set_clauses ue) rec) (\<lambda>new_rec.
      thenE (check_new_keys tab rid rec new_rec ixs)
      (thenE (log_change ctx (\<lambda>tid. new_UpdateLogRecord tid rec new_rec rid (bytes_of tab)))
      (bindE (if insert_new_record rec new_rec ixs
              then bindE (on_file tab (insert_record new_rec)) (\<lambda>new_rid.
                   thenE (remember_new_rid ctx new_rid) (ret new_rid))
              else thenE (on_file tab (update_record rid new_rec)) (ret rid)) (\<lambda>target_rid.
      move_keys tab target_rid rec new_rec ixs)))))))))"

fun update_rids :: "UpdateExecutor \<Rightarrow> Rid list \<Rightarrow> (DbState, unit) prog" where
  "update_rids ue [] = ret ()"
| "update_rids ue (rid # rids) = thenE (update_one ue rid) (update_rids ue rids)"

definition update_Next :: "UpdateExecutor \<Rightarrow> (DbState, UpdateExecutor) prog" where
  "update_Next ue =
     bindE (get_fd (ue_tab_name ue)) (\<lambda>fd.
     thenE (with_lock (ue_ctx ue) (lock_IX_on_table fd))
     (bindE (init_clauses (ue_tab ue) (ue_set_clauses ue)) (\<lambda>cs.
      let ue1 = ue\<lparr>ue_set_clauses := cs\<rparr> in
      thenE (update_rids ue1 (ue_rids ue1)) (ret ue1))))"

end
