(* ===== verification/Index_Scan.thy ===== *)
theory Index_Scan
  imports Seq_Scan Dml
begin

text \<open>
  \<^verbatim>\<open>IndexScanExecutor\<close> (\<^verbatim>\<open>execution/executor_index_scan.h\<close>): the range of keys a WHERE clause allows, and the scan of
  the leaves in that range.
\<close>

section \<open>Bounds of the range\<close>

definition write_col_min :: "ColType \<Rightarrow> nat \<Rightarrow> byte list" where
  "write_col_min ty len =
     (case ty of
        TYPE_INT \<Rightarrow> take len (enc_le 4 (-2147483648))
      | TYPE_BIGINT \<Rightarrow> take len (enc_le 8 (-9223372036854775808))
      | TYPE_DATETIME \<Rightarrow> take len (enc_le 8 (-9223372036854775808))
      | TYPE_FLOAT \<Rightarrow> take len (enc_le 4 0xFF7FFFFF)
      | TYPE_STRING \<Rightarrow> replicate len 0)"

definition write_col_max :: "ColType \<Rightarrow> nat \<Rightarrow> byte list" where
  "write_col_max ty len =
     (case ty of
        TYPE_INT \<Rightarrow> take len (enc_le 4 2147483647)
      | TYPE_BIGINT \<Rightarrow> take len (enc_le 8 9223372036854775807)
      | TYPE_DATETIME \<Rightarrow> take len (enc_le 8 9223372036854775807)
      | TYPE_FLOAT \<Rightarrow> take len (enc_le 4 0x7F7FFFFF)
      | TYPE_STRING \<Rightarrow> replicate len 255)"

definition fill_col :: "bool \<Rightarrow> ColMeta \<Rightarrow> byte list" where
  "fill_col use_lower col =
     (if use_lower then write_col_min (cm_type col) (nat (cm_len col)) else write_col_max (cm_type col) (nat (cm_len col)))"

definition range_applies :: "bool \<Rightarrow> CompOp \<Rightarrow> bool" where
  "range_applies use_lower op \<longleftrightarrow>
     (if use_lower then op = OP_GT \<or> op = OP_GE else op = OP_LT \<or> op = OP_LE)"

text \<open>
  The loop over the conditions for one column: an equality ends it, and of the bounds on the wanted side the last one
  is kept. The result says whether the value comes from an equality.
\<close>

fun find_bound :: "bool \<Rightarrow> string \<Rightarrow> string \<Rightarrow> Condition list \<Rightarrow> byte list option \<Rightarrow> (byte list \<times> bool) option" where
  "find_bound use_lower tab nm [] range_val = map_option (\<lambda>v. (v, False)) range_val"
| "find_bound use_lower tab nm (c # cs) range_val =
     (if \<not> is_rhs_val c \<or> tc_col_name (lhs_col c) \<noteq> nm \<or> tc_tab_name (lhs_col c) \<noteq> tab
      then find_bound use_lower tab nm cs range_val
      else case v_raw (rhs_val c) of
             None \<Rightarrow> find_bound use_lower tab nm cs range_val
           | Some raw \<Rightarrow>
               if c_op c = OP_EQ then Some (raw, True)
               else if range_applies use_lower (c_op c) then find_bound use_lower tab nm cs (Some raw)
               else find_bound use_lower tab nm cs range_val)"

fun build_bound_key :: "bool \<Rightarrow> string \<Rightarrow> Condition list \<Rightarrow> bool \<Rightarrow> ColMeta list \<Rightarrow> byte list" where
  "build_bound_key use_lower tab conds stopped [] = []"
| "build_bound_key use_lower tab conds stopped (col # cols) =
     (if stopped then fill_col use_lower col @ build_bound_key use_lower tab conds True cols
      else case find_bound use_lower tab (cm_name col) conds None of
             Some (raw, found_eq) \<Rightarrow>
               take (nat (cm_len col)) raw @ build_bound_key use_lower tab conds (\<not> found_eq) cols
           | None \<Rightarrow> fill_col use_lower col @ build_bound_key use_lower tab conds True cols)"

section \<open>The executor\<close>

record IndexScan =
  isc_tab_name :: string
  isc_conds :: "Condition list"
  isc_cols :: "ColMeta list"
  isc_len :: nat
  isc_index :: IndexMeta
  isc_rid :: Rid
  isc_scan :: "IxScan option"
  isc_ctx :: "Context option"

fun swap_op :: "CompOp \<Rightarrow> CompOp" where
  "swap_op OP_EQ = OP_EQ"
| "swap_op OP_NE = OP_NE"
| "swap_op OP_LT = OP_GT"
| "swap_op OP_GT = OP_LT"
| "swap_op OP_LE = OP_GE"
| "swap_op OP_GE = OP_LE"

definition turn_cond :: "string \<Rightarrow> Condition \<Rightarrow> ('s, Condition) prog" where
  "turn_cond tab_name c =
     (if tc_tab_name (lhs_col c) \<noteq> tab_name
      then thenE (assertE (\<not> is_rhs_val c \<and> tc_tab_name (rhs_col c) = tab_name))
           (ret (c\<lparr>lhs_col := rhs_col c, rhs_col := lhs_col c, c_op := swap_op (c_op c)\<rparr>))
      else ret c)"

fun turn_conds :: "string \<Rightarrow> Condition list \<Rightarrow> ('s, Condition list) prog" where
  "turn_conds tab_name [] = ret []"
| "turn_conds tab_name (c # cs) =
     bindE (turn_cond tab_name c) (\<lambda>c1. bindE (turn_conds tab_name cs) (\<lambda>cs1. ret (c1 # cs1)))"

definition new_IndexScan :: "string \<Rightarrow> Condition list \<Rightarrow> string list \<Rightarrow> Context option \<Rightarrow> (DbState, IndexScan) prog" where
  "new_IndexScan tab_name conds index_col_names ctx =
     bindE (gets s_meta) (\<lambda>db.
     bindE (get_table db tab_name) (\<lambda>tab.
     bindE (get_index_meta tab index_col_names) (\<lambda>i.
     thenE (get_fd tab_name)
     (bindE (row_len (tm_cols tab)) (\<lambda>len.
     let index = indexes tab ! i in
     thenE (on_index (index_file tab_name index) (ret ()))
     (bindE (turn_conds tab_name conds) (\<lambda>cs.
      ret \<lparr>isc_tab_name = tab_name, isc_conds = cs, isc_cols = tm_cols tab, isc_len = len, isc_index = index,
           isc_rid = \<lparr>page_no = 0, slot_no = 0\<rparr>, isc_scan = None, isc_ctx = ctx\<rparr>)))))))"

definition on_own_index :: "IndexScan \<Rightarrow> (IxState, 'a) prog \<Rightarrow> (DbState, 'a) prog" where
  "on_own_index x m = on_index (index_file (isc_tab_name x) (isc_index x)) m"

definition scan_range :: "IndexScan \<Rightarrow> (DbState, IxScan) prog" where
  "scan_range x =
     (if isc_conds x = []
      then bindE (on_own_index x leaf_begin) (\<lambda>lower.
           bindE (on_own_index x leaf_end) (\<lambda>upper. ret \<lparr>is_iid = lower, is_stop = upper\<rparr>))
      else let lower_key = build_bound_key True (isc_tab_name x) (isc_conds x) False (im_cols (isc_index x));
               upper_key = build_bound_key False (isc_tab_name x) (isc_conds x) False (im_cols (isc_index x)) in
           bindE (on_own_index x (ih_lower_bound lower_key)) (\<lambda>lower.
           bindE (on_own_index x (ih_upper_bound upper_key)) (\<lambda>upper. ret \<lparr>is_iid = lower, is_stop = upper\<rparr>)))"

text \<open>The record id is read when the scan is not at its end.\<close>

definition set_scan :: "IxScan \<Rightarrow> IndexScan \<Rightarrow> (DbState, IndexScan) prog" where
  "set_scan sc x =
     (if ix_scan_is_end sc then ret (x\<lparr>isc_scan := Some sc\<rparr>)
      else bindE (on_own_index x (ix_scan_rid sc)) (\<lambda>rid. ret (x\<lparr>isc_scan := Some sc, isc_rid := rid\<rparr>)))"

definition isc_begin :: "IndexScan \<Rightarrow> (DbState, IndexScan) prog" where
  "isc_begin x =
     bindE (get_fd (isc_tab_name x)) (\<lambda>fd.
     thenE (with_lock (isc_ctx x) (lock_shared_on_table fd))
     (bindE (scan_range x) (\<lambda>sc. set_scan sc x)))"

definition isc_nextTuple :: "IndexScan \<Rightarrow> (DbState, IndexScan) prog" where
  "isc_nextTuple x =
     (case isc_scan x of
        None \<Rightarrow> raise NullPointer
      | Some sc \<Rightarrow>
          if ix_scan_is_end sc then ret x
          else bindE (on_own_index x (ix_scan_next sc)) (\<lambda>sc1. set_scan sc1 x))"

definition isc_is_end :: "IndexScan \<Rightarrow> DbState \<Rightarrow> bool" where
  "isc_is_end x s = (case isc_scan x of None \<Rightarrow> True | Some sc \<Rightarrow> ix_scan_is_end sc)"

fun isc_Next_from :: "nat \<Rightarrow> IndexScan \<Rightarrow> (DbState, byte list option \<times> IndexScan) prog" where
  "isc_Next_from 0 x = raise OutOfFuel"
| "isc_Next_from (Suc n) x =
     (case isc_scan x of
        None \<Rightarrow> raise NullPointer
      | Some sc \<Rightarrow>
          if ix_scan_is_end sc then ret (None, x)
          else bindE (get_fd (isc_tab_name x)) (\<lambda>fd.
            thenE (with_lock (isc_ctx x) (lock_shared_on_record (isc_rid x) fd))
            (bindE (on_file (isc_tab_name x) (get_record (isc_rid x))) (\<lambda>rec.
              if ix_eval_conds (isc_conds x) rec (isc_cols x) then ret (Some rec, x)
              else bindE (isc_nextTuple x) (isc_Next_from n)))))"

text \<open>The number of entries the pages of the index can hold bounds the calls.\<close>

definition index_slots :: "string \<Rightarrow> DbState \<Rightarrow> nat" where
  "index_slots name s =
     (case s_ihs s name of
        None \<Rightarrow> 0
      | Some ih \<Rightarrow> nat (ix_num_pages (ih_hdr ih)) * nat (get_max_size (ih_hdr ih)))"

definition isc_Next :: "IndexScan \<Rightarrow> (DbState, byte list option \<times> IndexScan) prog" where
  "isc_Next x s = isc_Next_from (Suc (index_slots (index_file (isc_tab_name x) (isc_index x)) s)) x s"

definition index_scan_ops :: "(IndexScan, DbState) ops" where
  "index_scan_ops = \<lparr>op_begin = isc_begin, op_next = isc_nextTuple, op_is_end = isc_is_end, op_Next = isc_Next,
     op_cols = isc_cols, op_len = isc_len\<rparr>"

end
