(* ===== verification/Log_Frame.thy ===== *)
theory Log_Frame
  imports Sys_State
begin

text \<open>
  The log and the table files do not disturb each other: working on the records of a table leaves the descriptors and
  with them the open log as they are, whatever the outcome, and appending to the log leaves every page of
  every table as it was.
\<close>

section \<open>Programs that keep a relation\<close>

locale step_frame =
  fixes R :: "'s \<Rightarrow> 's \<Rightarrow> bool"
  assumes R_refl: "R s s" and R_trans: "R s t \<Longrightarrow> R t u \<Longrightarrow> R s u"
begin

definition stays :: "('s, 'a) prog \<Rightarrow> bool" where
  "stays m \<longleftrightarrow> (\<forall>s. R s (snd (m s)))"

lemma stays_run: "stays m \<Longrightarrow> m s = (r, t) \<Longrightarrow> R s t"
  by (metis stays_def snd_conv)

lemma stays_basic: "stays (ret x)" "stays (raise e)" "stays (gets f)" "stays (assertE b)"
  by (simp_all add: stays_def prog_simps R_refl)

lemma stays_modify: "(\<And>s. R s (g s)) \<Longrightarrow> stays (modify g)"
  by (simp add: stays_def prog_simps)

lemma stays_bind:
  assumes "stays m" "\<And>x. stays (f x)"
  shows "stays (bindE m f)"
proof (unfold stays_def, rule allI)
  fix s
  obtain r t where m: "m s = (r, t)" by force
  have "R s t" by (rule stays_run [OF assms(1) m])
  moreover have "R t (snd (f x t))" for x using assms(2) by (simp add: stays_def)
  ultimately show "R s (snd (bindE m f s))" using m R_trans by (cases r) (auto simp: bindE_def)
qed

lemma stays_then: "stays m \<Longrightarrow> stays k \<Longrightarrow> stays (thenE m k)"
  unfolding thenE_def by (rule stays_bind)

lemma stays_if: "stays m \<Longrightarrow> stays k \<Longrightarrow> stays (if b then m else k)"
  by simp

lemma stays_option: "stays m \<Longrightarrow> (\<And>x. stays (f x)) \<Longrightarrow> stays (case v of None \<Rightarrow> m | Some x \<Rightarrow> f x)"
  by (cases v) simp_all

lemma stays_list: "stays m \<Longrightarrow> (\<And>x xs. stays (f x xs)) \<Longrightarrow> stays (case v of [] \<Rightarrow> m | x # xs \<Rightarrow> f x xs)"
  by (cases v) simp_all

lemma stays_pair: "(\<And>x y. stays (f x y)) \<Longrightarrow> stays (case v of (x, y) \<Rightarrow> f x y)"
  by (cases v) simp

lemma stays_let: "(\<And>x. stays (f x)) \<Longrightarrow> stays (let x = v in f x)"
  by simp

lemmas stays_intros = stays_basic stays_modify stays_bind stays_then stays_if stays_option stays_list stays_pair stays_let

end

section \<open>The open log\<close>

definition same_log :: "DiskManager \<Rightarrow> DiskManager \<Rightarrow> bool" where
  "same_log d e \<longleftrightarrow> log_fd e = log_fd d \<and> path2fd e = path2fd d \<and> fd_inode e = fd_inode d"

definition same_log_pool :: "BufferPoolManager \<Rightarrow> BufferPoolManager \<Rightarrow> bool" where
  "same_log_pool b u \<longleftrightarrow> same_log (bpm_disk b) (bpm_disk u)"

definition same_log_file :: "RmState \<Rightarrow> RmState \<Rightarrow> bool" where
  "same_log_file s t \<longleftrightarrow> same_log_pool (rm_pool s) (rm_pool t)"

lemmas same_log_defs = same_log_file_def same_log_pool_def same_log_def

interpretation dk: step_frame same_log
  by unfold_locales (simp_all add: same_log_def)

interpretation bp: step_frame same_log_pool
  by unfold_locales (simp_all add: same_log_defs)

interpretation rf: step_frame same_log_file
  by unfold_locales (simp_all add: same_log_defs)

lemma bp_disk: "dk.stays m \<Longrightarrow> bp.stays (on_disk m)"
  by (auto simp: dk.stays_def bp.stays_def on_disk_def zoom_def same_log_pool_def split: prod.split) (metis snd_conv)

lemma rf_pool: "bp.stays m \<Longrightarrow> rf.stays (on_pool m)"
  by (auto simp: bp.stays_def rf.stays_def on_pool_def zoom_def same_log_file_def split: prod.split) (metis snd_conv)

lemma fd_inode_os: "map (\<lambda>e. (fst e, fst (snd e))) (os_fds w) = map (\<lambda>e. (fst e, fst (snd e))) (os_fds (dm_os d)) \<Longrightarrow>
   fd_inode (d\<lparr>dm_os := w\<rparr>) = fd_inode d"
proof -
  have "map_option fst (map_of xs k) = map_of (map (\<lambda>e. (fst e, fst (snd e))) xs) k" for xs :: "(int \<times> nat \<times> nat) list" and k
    by (induction xs) auto
  then show "map (\<lambda>e. (fst e, fst (snd e))) (os_fds w) = map (\<lambda>e. (fst e, fst (snd e))) (os_fds (dm_os d)) \<Longrightarrow>
     fd_inode (d\<lparr>dm_os := w\<rparr>) = fd_inode d"
    by (simp add: fd_inode_def fun_eq_iff)
qed

lemma os_fds_kept:
  "map (\<lambda>e. (fst e, fst (snd e))) (os_fds (set_offset fd off w)) = map (\<lambda>e. (fst e, fst (snd e))) (os_fds w)"
  by (auto simp: set_offset_def)

lemma dk_lseek: "dk.stays (sys_do (lseek_set fd off))"
  unfolding sys_do_def by (rule dk.stays_modify) (auto simp: same_log_def lseek_set_def fd_inode_os os_fds_kept)

lemma dk_write: "dk.stays (sys (os_write fd bs))"
  by (auto simp: dk.stays_def sys_def os_write_def same_log_def fd_inode_os os_fds_kept split: option.split)

lemma dk_read: "dk.stays (sys (os_read fd n))"
  by (auto simp: dk.stays_def sys_def os_read_def same_log_def fd_inode_os os_fds_kept Let_def split: option.split)

lemma dk_pages: "dk.stays (write_page fd p buf)" "dk.stays (read_page_io fd p n)" "dk.stays (get_file_name fd)"
  unfolding write_page_def read_page_io_def get_file_name_def
  by (intro dk.stays_intros dk_lseek dk_write dk_read)+

lemma bp_upd: "bp.stays (upd_page f g)"
  unfolding upd_page_def by (rule bp.stays_modify) (simp add: same_log_defs)

lemma bp_victim: "bp.stays find_victim_page"
  unfolding find_victim_page_def by (intro bp.stays_intros) (simp_all add: same_log_defs)

lemma bp_update: "bp.stays (update_page f pid)"
  unfolding update_page_def by (intro bp.stays_intros bp_upd bp_disk dk_pages) (simp_all add: same_log_defs)

lemma bp_check: "bp.stays (read_page_check r n)"
  unfolding read_page_check_def by (intro bp.stays_intros)

lemma bp_fetch: "bp.stays (fetch_page pid)"
  unfolding fetch_page_def by (intro bp.stays_intros bp_upd bp_victim bp_update bp_disk dk_pages bp_check) (simp_all add: same_log_defs)

lemma bp_unpin: "bp.stays (unpin_page pid dirty)"
  unfolding unpin_page_def by (intro bp.stays_intros bp_upd) (simp_all add: same_log_defs)

lemma bp_set_data: "bp.stays (set_data f d)"
  unfolding set_data_def by (intro bp.stays_intros bp_upd)

lemma rf_steps:
  "rf.stays (page_bytes f)" "rf.stays (edit_bytes f g)" "rf.stays (unpin_handle f dirty)" "rf.stays (check_slot k)"
  "rf.stays (fetch_page_handle p)" "rf.stays (upd_hdr k')"
  unfolding page_bytes_def edit_bytes_def unpin_handle_def check_slot_def fetch_page_handle_def upd_hdr_def
  by (intro rf.stays_intros rf_pool bp_unpin bp_fetch bp_set_data bp_disk dk_pages; simp add: same_log_defs)+

lemma rf_ops:
  "rf.stays (get_record rid)" "rf.stays (update_record rid r)" "rf.stays (delete_record rid)" "rf.stays (insert_record_at rid r)"
  unfolding get_record_def update_record_def delete_record_def release_page_handle_def insert_record_at_def mark_slot_def
  by (intro rf.stays_intros rf_steps)+

section \<open>Appending to the log\<close>

lemma disk_page_grown:
  assumes "log_grown d e" "disk_page d fd p = Some x"
  shows "disk_page e fd p = Some x"
proof -
  obtain i where i: "fd_inode d fd = Some i" using disk_page_open [OF assms(2)] by blast
  have "fd_inode e fd = Some i" using assms(1) i by (simp add: log_grown_def same_tables_def)
  moreover obtain bs where "os_data (dm_os e) i = os_data (dm_os d) i @ bs" using assms(1) by (auto simp: log_grown_def)
  ultimately have "fd_data e fd = fd_data d fd @ bs" using i by (simp add: fd_data_def)
  then show ?thesis using assms(2) by (auto simp: disk_page_def Let_def read_at_def split: if_splits)
qed

lemma view_grown:
  assumes "log_grown (bpm_disk b) e" "view b pid = Some x"
  shows "view (b\<lparr>bpm_disk := e\<rparr>) pid = Some x"
  using assms disk_page_grown by (auto simp: view_def page_on_disk_def split: option.splits)

lemma pool_grown:
  assumes "bpm_inv b" "log_grown (bpm_disk b) e"
  shows "bpm_inv (b\<lparr>bpm_disk := e\<rparr>)" "keeps P b (b\<lparr>bpm_disk := e\<rparr>)" "pins (b\<lparr>bpm_disk := e\<rparr>) = pins b"
proof -
  have t: "same_tables (bpm_disk b) e" using assms(2) by (simp add: log_grown_def)
  have f: "fd_inode e = fd_inode (bpm_disk b)" "fd2path e = fd2path (bpm_disk b)" using t by (simp_all add: same_tables_def)
  have od: "page_on_disk b pid = Some x \<Longrightarrow> page_on_disk (b\<lparr>bpm_disk := e\<rparr>) pid = Some x" for pid x
    using disk_page_grown [OF assms(2)] by (simp add: page_on_disk_def)
  have "inv_disk (b\<lparr>bpm_disk := e\<rparr>)"
    using assms(1) od same_tables_wf [OF t] f by (auto simp: held_inv_def inv_disk_def)
  then show "bpm_inv (b\<lparr>bpm_disk := e\<rparr>)" using assms(1) by (simp add: held_inv_def inv_frames_def inv_table_def inv_lru_def)
  show "pins (b\<lparr>bpm_disk := e\<rparr>) = pins b" by (simp add: pins_def fun_eq_iff split: option.split)
  then show "keeps P b (b\<lparr>bpm_disk := e\<rparr>)"
    using view_grown [OF assms(2)] f od by (auto simp: keeps_def settled_def)
qed

lemma file_grown:
  assumes inv: "rm_inv \<lparr>rm_pool = b, rm_fh = fh\<rparr>" and g: "log_grown (bpm_disk b) e"
  shows "rm_inv \<lparr>rm_pool = b\<lparr>bpm_disk := e\<rparr>, rm_fh = fh\<rparr>"
    "rm_recs \<lparr>rm_pool = b\<lparr>bpm_disk := e\<rparr>, rm_fh = fh\<rparr> = rm_recs \<lparr>rm_pool = b, rm_fh = fh\<rparr>"
proof -
  let ?s = "\<lparr>rm_pool = b, rm_fh = fh\<rparr>" and ?t = "\<lparr>rm_pool = b\<lparr>bpm_disk := e\<rparr>, rm_fh = fh\<rparr>"
  have b: "bpm_inv b" using inv by (simp add: rm_inv_def rm_pool_ok_def)
  note grown = pool_grown [OF b g]
  have "read_only (fh_fd fh + 1) b (b\<lparr>bpm_disk := e\<rparr>)"
    using grown g by (simp add: read_only_def log_grown_def same_tables_def)
  note other = rm_inv_other [OF inv this]
  show "rm_inv ?t" using other(1) by simp
  have "file_page ?t q = file_page ?s q" if "q \<in> data_pages (hdr ?s)" for q
    using other(2) [of q] that by (simp add: hdr_def)
  then show "rm_recs ?t = rm_recs ?s"
    by (auto simp: rm_recs_def file_recs_def hdr_def data_pages_def fun_eq_iff split: option.splits)
qed

end
