(* ===== verification/Txn_Manager.thy ===== *)
theory Txn_Manager
  imports Dml Seq_Scan Log_Frame
begin

text \<open>
  \<^verbatim>\<open>TransactionManager\<close> (\<^verbatim>\<open>transaction/transaction_manager.cpp\<close>): beginning, committing and aborting a transaction.
  Of the transaction table \<^verbatim>\<open>txn_map\<close> the model keeps the identifiers; the object of the running
  transaction is the one of the shared state. The two loops of \<^verbatim>\<open>commit\<close> over unordered maps take the order
  in which the maps are walked as an argument. \<open>txn\<close> and \<open>log_manager\<close> say whether those pointers are set.
\<close>

record TxnState =
  tm_db :: DbState
  next_txn_id :: int
  txn_map :: "int set"

definition on_db :: "(DbState, 'a) prog \<Rightarrow> (TxnState, 'a) prog" where
  "on_db m = zoom tm_db (\<lambda>d s. s\<lparr>tm_db := d\<rparr>) m"

section \<open>Begin\<close>

definition txn_begin :: "Transaction option \<Rightarrow> bool \<Rightarrow> (TxnState, Transaction) prog" where
  "txn_begin txn log_manager =
     (case txn of
        Some t \<Rightarrow> ret t
      | None \<Rightarrow>
          bindE (gets next_txn_id) (\<lambda>i.
          thenE (modify (\<lambda>s. s\<lparr>next_txn_id := wrap32 (i + 1)\<rparr>))
          (let t = (new_Transaction i)\<lparr>txn_state := GROWING\<rparr> in
           thenE (modify (\<lambda>s. s\<lparr>txn_map := insert i (txn_map s)\<rparr>))
           (if log_manager
            then bindE (on_db (on_logs (add_log_to_buffer (set_prev_lsn (prev_lsn t) (new_BeginLogRecord i))))) (\<lambda>l.
                 ret (t\<lparr>prev_lsn := l\<rparr>))
            else ret t))))"

section \<open>Commit\<close>

fun unlock_all :: "LockDataId list \<Rightarrow> (DbState, unit) prog" where
  "unlock_all [] = ret ()"
| "unlock_all (lid # lids) = thenE (on_locks (unlock lid)) (unlock_all lids)"

definition release_locks :: "(DbState, unit) prog" where
  "release_locks =
     bindE (gets (\<lambda>s. lock_set (s_txn s))) (\<lambda>lids.
     thenE (unlock_all lids) (modify (\<lambda>s. s\<lparr>s_txn := (s_txn s)\<lparr>lock_set := []\<rparr>\<rparr>)))"

text \<open>The last log record of a transaction, flushed to the disk at once.\<close>

definition final_log :: "bool \<Rightarrow> (int \<Rightarrow> LogRecord) \<Rightarrow> (DbState, unit) prog" where
  "final_log log_manager mk =
     (if log_manager
      then bindE (gets s_txn) (\<lambda>t.
           bindE (on_logs (add_log_to_buffer (set_prev_lsn (prev_lsn t) (mk (txn_id t))))) (\<lambda>l.
           thenE (modify (\<lambda>s. s\<lparr>s_txn := (s_txn s)\<lparr>prev_lsn := l\<rparr>\<rparr>))
           (on_logs flush_log_to_disk)))
      else ret ())"

definition flush_table :: "RmFileHandle \<Rightarrow> (BufferPoolManager, unit) prog" where
  "flush_table fh =
     thenE (flush_all_pages (fh_fd fh))
     (on_disk (write_page (fh_fd fh) RM_FILE_HDR_PAGE (enc_RmFileHdr (file_hdr fh))))"

fun flush_tables :: "string list \<Rightarrow> (DbState, unit) prog" where
  "flush_tables [] = ret ()"
| "flush_tables (tab # tabs) =
     thenE (bindE (gets (\<lambda>s. s_fhs s tab)) (\<lambda>fh.
              case fh of None \<Rightarrow> ret () | Some fh \<Rightarrow> on_bpm (flush_table fh)))
     (flush_tables tabs)"

fun flush_indexes :: "string list \<Rightarrow> (DbState, unit) prog" where
  "flush_indexes [] = ret ()"
| "flush_indexes (ix # ixs) =
     thenE (bindE (gets (\<lambda>s. s_ihs s ix)) (\<lambda>ih.
              case ih of None \<Rightarrow> ret () | Some ih \<Rightarrow> on_bpm (flush_index ih)))
     (flush_indexes ixs)"

definition end_txn :: "TransactionState \<Rightarrow> (TxnState, unit) prog" where
  "end_txn st =
     thenE (on_db (modify (\<lambda>s. s\<lparr>s_txn := (s_txn s)\<lparr>txn_state := st\<rparr>\<rparr>)))
     (modify (\<lambda>s. s\<lparr>txn_map := txn_map s - {txn_id (s_txn (tm_db s))}\<rparr>))"

definition txn_commit :: "bool \<Rightarrow> bool \<Rightarrow> string list \<Rightarrow> string list \<Rightarrow> (TxnState, unit) prog" where
  "txn_commit txn log_manager tabs ixs =
     bindE (gets (\<lambda>s. txn_state (s_txn (tm_db s)))) (\<lambda>st.
       if \<not> txn \<or> st = COMMITTED \<or> st = ABORTED then ret ()
       else thenE (on_db release_locks)
            (thenE (on_db (final_log log_manager new_CommitLogRecord))
            (thenE (on_db (flush_tables tabs))
            (thenE (on_db (flush_indexes ixs))
            (end_txn COMMITTED)))))"

section \<open>Abort\<close>

definition full_key :: "IndexMeta \<Rightarrow> byte list \<Rightarrow> byte list" where
  "full_key index rec = concat (map (col_data rec) (im_cols index))"

fun undo_index_deletes :: "string \<Rightarrow> byte list \<Rightarrow> IndexMeta list \<Rightarrow> (DbState, unit) prog" where
  "undo_index_deletes tab rec [] = ret ()"
| "undo_index_deletes tab rec (index # ixs) =
     thenE (on_index (index_file tab index) (delete_entry (full_key index rec))) (undo_index_deletes tab rec ixs)"

fun undo_index_inserts :: "string \<Rightarrow> byte list \<Rightarrow> Rid \<Rightarrow> IndexMeta list \<Rightarrow> (DbState, unit) prog" where
  "undo_index_inserts tab rec rid [] = ret ()"
| "undo_index_inserts tab rec rid (index # ixs) =
     thenE (on_index (index_file tab index) (insert_entry (full_key index rec) rid)) (undo_index_inserts tab rec rid ixs)"

text \<open>Undoing one write.\<close>

definition undo_insert :: "WriteRecord \<Rightarrow> (DbState, unit) prog" where
  "undo_insert wr =
     (let tab = wr_tab_name wr in
      bindE (gets s_meta) (\<lambda>db.
      bindE (get_table db tab) (\<lambda>tm.
      thenE (undo_index_deletes tab (wr_record wr) (indexes tm))
      (on_file tab (delete_record (wr_rid wr))))))"

definition undo_delete :: "WriteRecord \<Rightarrow> (DbState, unit) prog" where
  "undo_delete wr =
     (let tab = wr_tab_name wr in
      thenE (on_file tab (insert_record_at (wr_rid wr) (wr_record wr)))
      (bindE (gets s_meta) (\<lambda>db.
      bindE (get_table db tab) (\<lambda>tm.
      undo_index_inserts tab (wr_record wr) (wr_rid wr) (indexes tm)))))"

definition undo_update :: "WriteRecord \<Rightarrow> (DbState, unit) prog" where
  "undo_update wr =
     (let tab = wr_tab_name wr in
      bindE (gets s_meta) (\<lambda>db.
      bindE (get_table db tab) (\<lambda>tm.
        case wr_new_rid wr of
          Some new_rid \<Rightarrow>
            bindE (on_file tab (get_record new_rid)) (\<lambda>new_rec.
            thenE (undo_index_deletes tab new_rec (indexes tm))
            (thenE (on_file tab (delete_record new_rid))
            (undo_index_inserts tab (wr_record wr) (wr_rid wr) (indexes tm))))
        | None \<Rightarrow>
            bindE (on_file tab (get_record (wr_rid wr))) (\<lambda>cur_rec.
            thenE (undo_index_deletes tab cur_rec (indexes tm))
            (thenE (on_file tab (update_record (wr_rid wr) (wr_record wr)))
            (undo_index_inserts tab (wr_record wr) (wr_rid wr) (indexes tm)))))))"

definition undo_write :: "WriteRecord \<Rightarrow> (DbState, unit) prog" where
  "undo_write wr =
     thenE (get_fd (wr_tab_name wr))
     (case wtype wr of
        INSERT_TUPLE \<Rightarrow> undo_insert wr
      | DELETE_TUPLE \<Rightarrow> undo_delete wr
      | UPDATE_TUPLE \<Rightarrow> undo_update wr)"

text \<open>The loop that takes the writes from the back; its argument is the write set reversed.\<close>

fun rollback :: "WriteRecord list \<Rightarrow> (DbState, unit) prog" where
  "rollback [] = ret ()"
| "rollback (wr # ws) =
     thenE (modify (\<lambda>s. s\<lparr>s_txn := (s_txn s)\<lparr>write_set := rev ws\<rparr>\<rparr>))
     (thenE (undo_write wr) (rollback ws))"

definition undo_all :: "(DbState, unit) prog" where
  "undo_all = bindE (gets (\<lambda>s. write_set (s_txn s))) (\<lambda>ws. rollback (rev ws))"

definition txn_abort :: "bool \<Rightarrow> bool \<Rightarrow> (TxnState, unit) prog" where
  "txn_abort txn log_manager =
     bindE (gets (\<lambda>s. txn_state (s_txn (tm_db s)))) (\<lambda>st.
       if \<not> txn \<or> st = ABORTED then ret ()
       else thenE (on_db undo_all)
            (thenE (on_db release_locks)
            (thenE (on_db (final_log log_manager new_AbortLogRecord))
            (end_txn ABORTED))))"

section \<open>Running on the file of one table\<close>

text \<open>Two states that differ at most in the pool and in the file of one table.\<close>

definition only_table :: "string \<Rightarrow> DbState \<Rightarrow> DbState \<Rightarrow> bool" where
  "only_table tab s t \<longleftrightarrow> s_meta t = s_meta s \<and> s_ihs t = s_ihs s \<and> s_locks t = s_locks s \<and> s_log t = s_log s \<and>
     s_txn t = s_txn s \<and> (\<forall>tab'. tab' \<noteq> tab \<longrightarrow> s_fhs t tab' = s_fhs s tab') \<and> same_log_pool (s_pool s) (s_pool t)"

lemma only_table_trans: "only_table tab s t \<Longrightarrow> only_table tab t u \<Longrightarrow> only_table tab s u"
  using bp.R_trans [of "s_pool s" "s_pool t" "s_pool u"] by (simp add: only_table_def)

definition tab_file :: "DbState \<Rightarrow> string \<Rightarrow> RmState option" where
  "tab_file s tab = map_option (file_of s) (s_fhs s tab)"

lemma on_file_run:
  assumes "tab_file s tab = Some f" "m f = (Inr x, g)" "rf.stays m"
  obtains t where "on_file tab m s = (Inr x, t)" "tab_file t tab = Some g" "only_table tab s t"
proof -
  obtain fh where fh: "s_fhs s tab = Some fh" "f = \<lparr>rm_pool = s_pool s, rm_fh = fh\<rparr>"
    using assms(1) by (auto simp: tab_file_def file_of_def)
  let ?t = "s\<lparr>s_pool := rm_pool g, s_fhs := (s_fhs s)(tab \<mapsto> rm_fh g)\<rparr>"
  have "on_file tab m s = (Inr x, ?t)" using fh assms(2) by (simp add: on_file_def)
  moreover have "tab_file ?t tab = Some g" by (simp add: tab_file_def file_of_def)
  moreover have "only_table tab s ?t"
    using rf.stays_run [OF assms(3,2)] fh(2) by (simp add: only_table_def same_log_file_def)
  ultimately show ?thesis by (rule that)
qed

section \<open>What a transaction wrote\<close>

type_synonym recs = "Rid \<Rightarrow> byte list option"

definition rid_in :: "RmFileHdr \<Rightarrow> Rid \<Rightarrow> bool" where
  "rid_in h rid \<longleftrightarrow> page_no rid \<in> data_pages h \<and> 0 \<le> slot_no rid \<and> slot_no rid < num_records_per_page h"

text \<open>Another slot of the page is free.\<close>

definition room_beside :: "RmFileHdr \<Rightarrow> recs \<Rightarrow> Rid \<Rightarrow> bool" where
  "room_beside h M rid \<longleftrightarrow>
     (\<exists>k < nat (num_records_per_page h). int k \<noteq> slot_no rid \<and> M \<lparr>page_no = page_no rid, slot_no = int k\<rparr> = None)"

text \<open>
  The records a table had before, the write set, and the records it has after the writes. An \<^verbatim>\<open>UPDATE\<close> changes
  the record in place or, with a new record id, adds a changed copy.
\<close>

inductive wrote :: "string \<Rightarrow> RmFileHdr \<Rightarrow> recs \<Rightarrow> WriteRecord list \<Rightarrow> recs \<Rightarrow> bool"
  for tab :: string and h :: RmFileHdr and M :: recs where
  wrote_nothing: "wrote tab h M [] M"
| wrote_insert: "wrote tab h M ws M' \<Longrightarrow> M' rid = None \<Longrightarrow>
    wrote tab h M (ws @ [new_WriteRecord INSERT_TUPLE tab rid r]) (M'(rid \<mapsto> r))"
| wrote_delete: "wrote tab h M ws M' \<Longrightarrow> M' rid = Some r \<Longrightarrow> rid_in h rid \<Longrightarrow> length r = nat (record_size h) \<Longrightarrow>
    room_beside h M' rid \<Longrightarrow> wrote tab h M (ws @ [new_WriteRecord DELETE_TUPLE tab rid r]) (M'(rid := None))"
| wrote_update: "wrote tab h M ws M' \<Longrightarrow> M' rid = Some r \<Longrightarrow> length r = nat (record_size h) \<Longrightarrow>
    wrote tab h M (ws @ [new_WriteRecord UPDATE_TUPLE tab rid r]) (M'(rid \<mapsto> r'))"
| wrote_copy: "wrote tab h M ws M' \<Longrightarrow> M' rid' = None \<Longrightarrow>
    wrote tab h M (ws @ [set_new_rid rid' (new_WriteRecord UPDATE_TUPLE tab rid r)]) (M'(rid' \<mapsto> r'))"

text \<open>A table without indexes whose file holds the given records.\<close>

definition holds :: "string \<Rightarrow> RmFileHdr \<Rightarrow> recs \<Rightarrow> DbState \<Rightarrow> bool" where
  "holds tab h M s \<longleftrightarrow> (\<exists>f tm. tab_file s tab = Some f \<and> rm_inv f \<and> rm_recs f = M \<and> same_layout h (hdr f) \<and>
     num_pages (hdr f) = num_pages h \<and> map_of (db_tabs (s_meta s)) tab = Some tm \<and> indexes tm = [])"

section \<open>Undoing one write\<close>

lemma page_not_full_put:
  assumes wf: "hdr_wf h" and d: "page_ok h d" and k: "k < nat (num_records_per_page h)" and bl: "length buf = nat (record_size h)"
    and j: "j < nat (num_records_per_page h)" "j \<noteq> k" "page_recs h d j = None"
  shows "\<not> page_full h (page_put h k buf d)"
proof -
  note po = page_put_ok [OF wf d k bl]
  have "page_recs h (page_put h k buf d) j = None" using po(3) j by simp
  then have "\<not> is_set (bitmap h (page_put h k buf d)) j" using j(1) by (auto simp: page_recs_def split: if_splits)
  then show ?thesis
    using j(1) bit_count_full [of "bitmap h (page_put h k buf d)" "nat (num_records_per_page h)"] po(1) hdr_wf_bounds(2) [OF wf]
    by (auto simp: page_full_def page_ok_def)
qed

lemma insert_at_room:
  assumes f: "rm_inv f" "rid_in (hdr f) rid" "room_beside (hdr f) (rm_recs f) rid" and r: "length r = nat (record_size (hdr f))"
  obtains g where "insert_record_at rid r f = (Inr (), g)" "rm_inv g" "rm_recs g = (rm_recs f)(rid \<mapsto> r)"
    "same_layout (hdr f) (hdr g)" "num_pages (hdr g) = num_pages (hdr f)"
proof -
  let ?h = "hdr f"
  note parts = rm_inv_parts [OF f(1)]
  have p: "page_no rid \<in> data_pages ?h" "0 \<le> slot_no rid" "slot_no rid < num_records_per_page ?h"
    using f(2) by (simp_all add: rid_in_def)
  obtain d where d: "file_page f (page_no rid) = Some d" using parts(3) p(1) by (auto simp: pages_ok_def)
  obtain j where j: "j < nat (num_records_per_page ?h)" "int j \<noteq> slot_no rid" "rm_recs f \<lparr>page_no = page_no rid, slot_no = int j\<rparr> = None"
    using f(3) by (auto simp: room_beside_def)
  have "page_recs ?h d j = None" using j(3) p(1) d by (simp add: rm_recs_def file_recs_def data_pages_def)
  then have "\<not> page_full ?h (page_put ?h (nat (slot_no rid)) r d)"
    using p j by (intro page_not_full_put [OF parts(2) parts(5) [OF p(1) d] _ r j(1)]) auto
  then show ?thesis using insert_record_at_ok [OF f(1) p(1) d p(2,3) r] that by blast
qed

lemma same_layout_trans: "same_layout h h' \<Longrightarrow> same_layout h' h'' \<Longrightarrow> same_layout h h''"
  by (simp add: same_layout_def)

lemma same_layout_size:
  assumes "same_layout h h'" "num_pages h' = num_pages h"
  shows "record_size h' = record_size h" "rid_in h' = rid_in h" "room_beside h' = room_beside h"
  using assms by (auto simp: same_layout_def rid_in_def room_beside_def data_pages_def fun_eq_iff)

lemma on_file_holds:
  assumes f: "tab_file s tab = Some f" "m f = (Inr x, g)" "rf.stays m" and h: "holds tab h M s"
    and g: "rm_inv g" "rm_recs g = M'" "same_layout (hdr f) (hdr g)" "num_pages (hdr g) = num_pages (hdr f)"
  obtains t where "on_file tab m s = (Inr x, t)" "holds tab h M' t" "only_table tab s t"
proof -
  obtain t where t: "on_file tab m s = (Inr x, t)" "tab_file t tab = Some g" "only_table tab s t"
    by (rule on_file_run [where m = m, OF f])
  have "holds tab h M' t"
    using h f(1) g(1-4) t(2,3) same_layout_trans [of h "hdr f" "hdr g"] by (auto simp: holds_def only_table_def)
  then show ?thesis using that t(1,3) by blast
qed

lemma holds_delete:
  assumes "holds tab h M s" "M rid = Some r"
  obtains t where "on_file tab (delete_record rid) s = (Inr (), t)" "holds tab h (M(rid := None)) t" "only_table tab s t"
proof -
  obtain f where f: "tab_file s tab = Some f" "rm_inv f" "rm_recs f = M" using assms(1) by (auto simp: holds_def)
  obtain g where g: "delete_record rid f = (Inr (), g)" "rm_inv g" "rm_recs g = (rm_recs f)(rid := None)"
      "same_layout (hdr f) (hdr g)" "num_pages (hdr g) = num_pages (hdr f)"
    by (rule delete_record_ok [OF f(2)]) (use f(3) assms(2) in simp)
  show ?thesis
    by (rule on_file_holds [where m = "delete_record rid", OF f(1) g(1) rf_ops(3) assms(1) g(2-5)]) (use that f(3) in simp)
qed

lemma holds_update:
  assumes "holds tab h M s" "M rid = Some r" "length r' = nat (record_size h)"
  obtains t where "on_file tab (update_record rid r') s = (Inr (), t)" "holds tab h (M(rid \<mapsto> r')) t" "only_table tab s t"
proof -
  obtain f where f: "tab_file s tab = Some f" "rm_inv f" "rm_recs f = M" "same_layout h (hdr f)" using assms(1) by (auto simp: holds_def)
  obtain g where g: "update_record rid r' f = (Inr (), g)" "rm_inv g" "rm_recs g = (rm_recs f)(rid \<mapsto> r')" "hdr g = hdr f"
    by (rule update_record_ok [OF f(2)]) (use f(3,4) assms(2,3) in \<open>simp_all add: same_layout_def\<close>)
  show ?thesis
    by (rule on_file_holds [where m = "update_record rid r'", OF f(1) g(1) rf_ops(2) assms(1) g(2,3)]) (use that f(3) g(4) in \<open>simp_all add: same_layout_def\<close>)
qed

lemma holds_insert_at:
  assumes "holds tab h M s" "rid_in h rid" "room_beside h M rid" "length r = nat (record_size h)"
  obtains t where "on_file tab (insert_record_at rid r) s = (Inr (), t)" "holds tab h (M(rid \<mapsto> r)) t" "only_table tab s t"
proof -
  obtain f where f: "tab_file s tab = Some f" "rm_inv f" "rm_recs f = M" "same_layout h (hdr f)" "num_pages (hdr f) = num_pages h"
    using assms(1) by (auto simp: holds_def)
  note same = same_layout_size [OF f(4,5)]
  obtain g where g: "insert_record_at rid r f = (Inr (), g)" "rm_inv g" "rm_recs g = (rm_recs f)(rid \<mapsto> r)"
      "same_layout (hdr f) (hdr g)" "num_pages (hdr g) = num_pages (hdr f)"
    by (rule insert_at_room [OF f(2), of rid r]) (use same f(3) assms(2-4) in simp_all)
  show ?thesis
    by (rule on_file_holds [where m = "insert_record_at rid r", OF f(1) g(1) rf_ops(4) assms(1) g(2-5)]) (use that f(3) in simp)
qed

lemma holds_get:
  assumes "holds tab h M s" "M rid = Some r"
  obtains t where "on_file tab (get_record rid) s = (Inr r, t)" "holds tab h M t" "only_table tab s t"
proof -
  obtain f where f: "tab_file s tab = Some f" "rm_inv f" "rm_recs f = M" using assms(1) by (auto simp: holds_def)
  obtain g where g: "get_record rid f = (Inr r, g)" "same_file f g"
    by (rule get_record_same [OF f(2)]) (use f(3) assms(2) in simp)
  have g': "rm_inv g" "hdr g = hdr f" "rm_recs g = M" using g(2) same_file_recs [OF g(2)] f(3) by (simp_all add: same_file_def)
  show ?thesis
    by (rule on_file_holds [where m = "get_record rid", OF f(1) g(1) rf_ops(1) assms(1) g'(1,3)]) (use that g'(2) in \<open>simp_all add: same_layout_def\<close>)
qed


section \<open>Abort\<close>

lemma holds_table:
  assumes "holds tab h M s"
  obtains tm where "get_table (s_meta s) tab t = (Inr tm, t)" "indexes tm = []"
  using assms that by (auto simp: holds_def get_table_def prog_simps)

lemma holds_get_fd:
  assumes "holds tab h M s"
  shows "\<exists>fd. get_fd tab s = (Inr fd, s)"
proof -
  obtain fh where "s_fhs s tab = Some fh" using assms by (auto simp: holds_def tab_file_def)
  then have "get_fd tab s = (Inr (fh_fd fh), s)" by (simp add: get_fd_def on_file_def prog_simps fun_upd_idem)
  then show ?thesis by blast
qed

lemma undo_delete_simple:
  assumes "holds tab h M s" "wr_tab_name wr = tab" "on_file tab (insert_record_at (wr_rid wr) (wr_record wr)) s = (Inr (), t)"
    "holds tab h M' t"
  shows "undo_delete wr s = (Inr (), t)"
proof -
  obtain tm where "get_table (s_meta t) tab t = (Inr tm, t)" "indexes tm = []" by (rule holds_table [OF assms(4)])
  then show ?thesis using assms(2,3) by (simp add: undo_delete_def prog_simps)
qed

lemma undo_update_in_place:
  assumes s: "holds tab h M s" and M: "M rid = Some r'" "length r = nat (record_size h)"
  obtains t where "undo_update (new_WriteRecord UPDATE_TUPLE tab rid r) s = (Inr (), t)" "holds tab h (M(rid \<mapsto> r)) t" "only_table tab s t"
proof -
  obtain tm where tm: "get_table (s_meta s) tab s = (Inr tm, s)" "indexes tm = []" by (rule holds_table [OF s])
  obtain u where u: "on_file tab (get_record rid) s = (Inr r', u)" "holds tab h M u" "only_table tab s u"
    by (rule holds_get [OF s M(1)])
  obtain t where t: "on_file tab (update_record rid r) u = (Inr (), t)" "holds tab h (M(rid \<mapsto> r)) t" "only_table tab u t"
    by (rule holds_update [OF u(2) M])
  have "undo_update (new_WriteRecord UPDATE_TUPLE tab rid r) s = (Inr (), t)"
    using tm t(1) u(1) by (simp add: undo_update_def new_WriteRecord_def prog_simps)
  then show ?thesis using that t(2) only_table_trans [OF u(3) t(3)] by blast
qed

lemma undo_update_copy:
  assumes s: "holds tab h M s" and M: "M rid' = Some r'"
  obtains t where "undo_update (set_new_rid rid' (new_WriteRecord UPDATE_TUPLE tab rid r)) s = (Inr (), t)"
    "holds tab h (M(rid' := None)) t" "only_table tab s t"
proof -
  obtain tm where tm: "get_table (s_meta s) tab s = (Inr tm, s)" "indexes tm = []" by (rule holds_table [OF s])
  obtain u where u: "on_file tab (get_record rid') s = (Inr r', u)" "holds tab h M u" "only_table tab s u"
    by (rule holds_get [OF s M])
  obtain t where t: "on_file tab (delete_record rid') u = (Inr (), t)" "holds tab h (M(rid' := None)) t" "only_table tab u t"
    by (rule holds_delete [OF u(2) M])
  have "undo_update (set_new_rid rid' (new_WriteRecord UPDATE_TUPLE tab rid r)) s = (Inr (), t)"
    using tm t(1) u(1) by (simp add: undo_update_def new_WriteRecord_def set_new_rid_def prog_simps)
  then show ?thesis using that t(2) only_table_trans [OF u(3) t(3)] by blast
qed

lemma undo_write_ok:
  assumes "wrote tab h M ws M'" "ws = us @ [wr]" "holds tab h M' s"
  obtains t M1 where "undo_write wr s = (Inr (), t)" "wrote tab h M us M1" "holds tab h M1 t" "only_table tab s t"
proof -
  obtain fd where fd: "get_fd tab s = (Inr fd, s)" using holds_get_fd [OF assms(3)] by blast
  obtain tm where tm: "get_table (s_meta s) tab s = (Inr tm, s)" "indexes tm = []" by (rule holds_table [OF assms(3)])
  from assms(1) show ?thesis
  proof cases
    case wrote_nothing
    then show ?thesis using assms(2) by simp
  next
    case (wrote_insert vs M1 rid r)
    then have wr: "us = vs" "wr = new_WriteRecord INSERT_TUPLE tab rid r" using assms(2) by auto
    obtain t where t: "on_file tab (delete_record rid) s = (Inr (), t)" "holds tab h (M'(rid := None)) t" "only_table tab s t"
      by (rule holds_delete [OF assms(3), of rid r]) (use wrote_insert in auto)
    have "M'(rid := None) = M1" using wrote_insert by auto
    moreover have "undo_write wr s = (Inr (), t)"
      using fd tm t(1) wr by (simp add: undo_write_def undo_insert_def new_WriteRecord_def prog_simps)
    ultimately show ?thesis using that t wrote_insert wr by auto
  next
    case (wrote_delete vs M1 rid r)
    then have wr: "us = vs" "wr = new_WriteRecord DELETE_TUPLE tab rid r" using assms(2) by auto
    have "room_beside h M' rid" using wrote_delete by (auto simp: room_beside_def)
    then obtain t where t: "on_file tab (insert_record_at rid r) s = (Inr (), t)" "holds tab h (M'(rid \<mapsto> r)) t" "only_table tab s t"
      using holds_insert_at [OF assms(3)] wrote_delete by blast
    have "M'(rid \<mapsto> r) = M1" using wrote_delete by auto
    moreover have "undo_delete wr s = (Inr (), t)"
      by (rule undo_delete_simple [OF assms(3) _ _ t(2)]) (use wr t(1) in \<open>simp_all add: new_WriteRecord_def\<close>)
    then have "undo_write wr s = (Inr (), t)"
      using fd wr by (simp add: undo_write_def new_WriteRecord_def prog_simps)
    ultimately show ?thesis using that t wrote_delete wr by auto
  next
    case (wrote_update vs M1 rid r r')
    then have wr: "us = vs" "wr = new_WriteRecord UPDATE_TUPLE tab rid r" using assms(2) by auto
    have M: "M' rid = Some r'" "M'(rid \<mapsto> r) = M1" using wrote_update(2,4) by auto
    obtain t where t: "undo_update wr s = (Inr (), t)" "holds tab h M1 t" "only_table tab s t"
      by (rule undo_update_in_place [OF assms(3) M(1) wrote_update(5)]) (use M(2) wr in simp)
    have "undo_write wr s = (Inr (), t)" using t(1) fd wr(2) by (simp add: undo_write_def new_WriteRecord_def prog_simps)
    then show ?thesis by (rule that [OF _ wrote_update(3) [folded wr(1)] t(2,3)])
  next
    case (wrote_copy vs M1 rid' rid r r')
    then have wr: "us = vs" "wr = set_new_rid rid' (new_WriteRecord UPDATE_TUPLE tab rid r)" using assms(2) by auto
    have M: "M' rid' = Some r'" "M'(rid' := None) = M1" using wrote_copy(2,4) by auto
    obtain t where t: "undo_update wr s = (Inr (), t)" "holds tab h M1 t" "only_table tab s t"
      by (rule undo_update_copy [OF assms(3) M(1), of rid r]) (use M(2) wr in simp)
    have "undo_write wr s = (Inr (), t)" using t(1) fd wr(2) by (simp add: undo_write_def new_WriteRecord_def set_new_rid_def prog_simps)
    then show ?thesis by (rule that [OF _ wrote_copy(3) [folded wr(1)] t(2,3)])
  qed
qed

lemma holds_txn [simp]: "holds tab h M (s\<lparr>s_txn := x\<rparr>) = holds tab h M s"
  by (simp add: holds_def tab_file_def file_of_def)

lemma rollback_ok:
  assumes "wrote tab h M ws M'" "holds tab h M' s" "write_set (s_txn s) = ws"
  shows "\<exists>t. rollback (rev ws) s = (Inr (), t) \<and> holds tab h M t \<and> only_table tab (s\<lparr>s_txn := (s_txn s)\<lparr>write_set := []\<rparr>\<rparr>) t"
  using assms
proof (induction ws arbitrary: M' s rule: rev_induct)
  case Nil
  then have "M' = M" by (auto elim: wrote.cases)
  moreover have "s\<lparr>s_txn := (s_txn s)\<lparr>write_set := []\<rparr>\<rparr> = s" using Nil(3) by simp
  ultimately show ?case using Nil by (simp add: prog_simps only_table_def bp.R_refl)
next
  case (snoc wr us)
  let ?s = "s\<lparr>s_txn := (s_txn s)\<lparr>write_set := us\<rparr>\<rparr>"
  obtain t M1 where t: "undo_write wr ?s = (Inr (), t)" "wrote tab h M us M1" "holds tab h M1 t" "only_table tab ?s t"
    by (rule undo_write_ok [OF snoc.prems(1) refl, of ?s]) (use snoc.prems in simp)
  have tx: "s_txn t = (s_txn s)\<lparr>write_set := us\<rparr>" using t(4) by (simp add: only_table_def)
  obtain v where v: "rollback (rev us) t = (Inr (), v)" "holds tab h M v" "only_table tab (t\<lparr>s_txn := (s_txn t)\<lparr>write_set := []\<rparr>\<rparr>) v"
    using snoc.IH [OF t(2,3)] tx by auto
  have "only_table tab (s\<lparr>s_txn := (s_txn s)\<lparr>write_set := []\<rparr>\<rparr>) v"
    using v(3) t(4) tx bp.R_trans [of "s_pool s" "s_pool t" "s_pool v"] by (simp add: only_table_def)
  then show ?case using t(1) v by (auto simp: prog_simps)
qed

lemma unlock_all_run: "\<exists>T. unlock_all lids s = (Inr (), s\<lparr>s_locks := T\<rparr>)"
proof (induction lids arbitrary: s)
  case Nil
  show ?case by (auto simp: prog_simps intro: exI [of _ "s_locks s"])
next
  case (Cons lid lids)
  have same: "\<exists>T. s = s\<lparr>s_locks := T\<rparr>" by (rule exI [of _ "s_locks s"]) simp
  have "\<exists>T. on_locks (unlock lid) s = (Inr True, s\<lparr>s_locks := T\<rparr>)"
    using same by (auto simp: on_locks_def unlock_def put_queue_def prog_simps Let_def split: option.splits)
  then obtain T where "on_locks (unlock lid) s = (Inr True, s\<lparr>s_locks := T\<rparr>)" by blast
  then show ?case using Cons.IH [of "s\<lparr>s_locks := T\<rparr>"] by (auto simp: prog_simps)
qed

lemma release_locks_run: "\<exists>T. release_locks s = (Inr (), s\<lparr>s_locks := T, s_txn := (s_txn s)\<lparr>lock_set := []\<rparr>\<rparr>)"
  using unlock_all_run [of "lock_set (s_txn s)" s] by (auto simp: release_locks_def prog_simps)

lemma holds_locks [simp]: "holds tab h M (s\<lparr>s_locks := T\<rparr>) = holds tab h M s"
  by (simp add: holds_def tab_file_def file_of_def)

section \<open>The last log record\<close>

definition log_of :: "DbState \<Rightarrow> LogEnv" where
  "log_of s = \<lparr>le_log = s_log s, le_disk = bpm_disk (s_pool s)\<rparr>"

text \<open>The log is open and has numbers left, and the fields of the transaction fit into a log record.\<close>

definition can_log :: "DbState \<Rightarrow> bool" where
  "can_log s \<longleftrightarrow> log_ok (log_of s) \<and> 0 \<le> global_lsn (s_log s) \<and> global_lsn (s_log s) + 1 < 2 ^ 31 \<and>
     fits_signed 4 (txn_id (s_txn s)) \<and> fits_signed 4 (prev_lsn (s_txn s))"

lemma can_log_kept:
  assumes "can_log s" "same_log_pool (s_pool s) (s_pool t)" "s_log t = s_log s" "txn_id (s_txn t) = txn_id (s_txn s)" "prev_lsn (s_txn t) = prev_lsn (s_txn s)"
  shows "can_log t"
  using assms by (simp add: can_log_def log_ok_def log_of_def log_open_def same_log_defs)

lemma holds_grown:
  assumes "holds tab h M s" "log_grown (bpm_disk (s_pool s)) e" "s_pool t = (s_pool s)\<lparr>bpm_disk := e\<rparr>" "s_fhs t = s_fhs s" "s_meta t = s_meta s"
  shows "holds tab h M t"
proof -
  obtain fh tm where fh: "s_fhs s tab = Some fh" "rm_inv (file_of s fh)" "rm_recs (file_of s fh) = M" "same_layout h (file_hdr fh)"
      "num_pages (file_hdr fh) = num_pages h" "map_of (db_tabs (s_meta s)) tab = Some tm" "indexes tm = []"
    using assms(1) by (auto simp: holds_def tab_file_def file_of_def hdr_def)
  note grown = file_grown [OF fh(2) [unfolded file_of_def] assms(2)]
  show ?thesis using fh grown assms(3-5) by (simp add: holds_def tab_file_def file_of_def hdr_def)
qed

lemma abort_record_ok:
  "fits_signed 4 tid \<Longrightarrow> fits_signed 4 p \<Longrightarrow> log_record_ok (set_prev_lsn p (new_AbortLogRecord tid))"
  "length (serialize (set_prev_lsn p (new_AbortLogRecord tid))) \<le> LOG_BUFFER_SIZE"
  by (simp_all add: new_AbortLogRecord_def new_header_def header_fits_def fits_signed_def fits_unsigned_def INVALID_LSN_def log_offsets
      LOG_BUFFER_SIZE_def PAGE_SIZE_def)

lemma abort_log_ok:
  assumes s: "can_log s" and h: "holds tab h M s"
  obtains t l where "final_log True new_AbortLogRecord s = (Inr (), t)" "holds tab h M t" "s_txn t = (s_txn s)\<lparr>prev_lsn := l\<rparr>"
    "\<exists>earlier. log_file (log_of t) = earlier @ serialize (set_lsn l (set_prev_lsn (prev_lsn (s_txn s)) (new_AbortLogRecord (txn_id (s_txn s)))))"
proof -
  let ?l = "global_lsn (s_log s)" and ?r = "set_prev_lsn (prev_lsn (s_txn s)) (new_AbortLogRecord (txn_id (s_txn s)))"
  have r: "log_record_ok ?r" "length (serialize ?r) \<le> LOG_BUFFER_SIZE" using s abort_record_ok by (simp_all add: can_log_def)
  obtain e where e: "add_log_to_buffer ?r (log_of s) = (Inr ?l, e)" "log_ok e" "log_stream e = log_stream (log_of s) @ serialize (set_lsn ?l ?r)"
      "log_grown (le_disk (log_of s)) (le_disk e)"
    by (rule add_log_correct [where e = "log_of s" and r = ?r and l = ?l]) (use s r in \<open>simp_all add: can_log_def log_of_def\<close>)
  obtain e' where e': "flush_log_to_disk e = (Inr (), e')" "log_stream e' = log_stream e" "log_offset (le_log e') = 0" "log_grown (le_disk e) (le_disk e')"
    by (rule flush_log_correct [OF e(2)])
  let ?t = "s\<lparr>s_log := le_log e', s_pool := (s_pool s)\<lparr>bpm_disk := le_disk e'\<rparr>, s_txn := (s_txn s)\<lparr>prev_lsn := ?l\<rparr>\<rparr>"
  have env: "\<lparr>le_log = s_log s, le_disk = bpm_disk (s_pool s)\<rparr> = log_of s" "\<lparr>le_log = le_log e, le_disk = le_disk e\<rparr> = e"
    by (simp_all add: log_of_def)
  have run: "final_log True new_AbortLogRecord s = (Inr (), ?t)"
    using e(1) e'(1) by (simp add: final_log_def on_logs_def prog_simps env)
  have "log_grown (bpm_disk (s_pool s)) (le_disk e')" using log_grown_trans [OF e(4) e'(4)] by (simp add: log_of_def)
  then have "holds tab h M ?t" by (intro holds_grown [OF h]) simp_all
  moreover have "log_file (log_of ?t) = log_stream (log_of s) @ serialize (set_lsn ?l ?r)"
    using e(3) e'(2,3) by (simp add: log_stream_def log_file_def log_of_def)
  ultimately show ?thesis using that [OF run, of ?l] by auto
qed

lemma abort_ok:
  assumes "wrote tab h M (write_set (s_txn (tm_db s))) M'" "holds tab h M' (tm_db s)" "txn_state (s_txn (tm_db s)) \<noteq> ABORTED" "can_log (tm_db s)"
  obtains t l where "txn_abort True True s = (Inr (), t)" "holds tab h M (tm_db t)"
    "write_set (s_txn (tm_db t)) = []" "lock_set (s_txn (tm_db t)) = []" "txn_state (s_txn (tm_db t)) = ABORTED"
    "txn_map t = txn_map s - {txn_id (s_txn (tm_db s))}" "next_txn_id t = next_txn_id s"
    "\<exists>earlier. log_file (log_of (tm_db t)) = earlier @ serialize
        (set_lsn l (set_prev_lsn (prev_lsn (s_txn (tm_db s))) (new_AbortLogRecord (txn_id (s_txn (tm_db s))))))"
proof -
  let ?tx = "s_txn (tm_db s)"
  obtain u where u: "rollback (rev (write_set ?tx)) (tm_db s) = (Inr (), u)" "holds tab h M u"
      "only_table tab ((tm_db s)\<lparr>s_txn := ?tx\<lparr>write_set := []\<rparr>\<rparr>) u"
    using rollback_ok [OF assms(1,2) refl] by auto
  have tx: "s_txn u = ?tx\<lparr>write_set := []\<rparr>" using u(3) by (simp add: only_table_def)
  obtain T where T: "release_locks u = (Inr (), u\<lparr>s_locks := T, s_txn := (s_txn u)\<lparr>lock_set := []\<rparr>\<rparr>)"
    using release_locks_run [of u] by blast
  let ?u = "u\<lparr>s_locks := T, s_txn := (s_txn u)\<lparr>lock_set := []\<rparr>\<rparr>"
  have "can_log ?u" by (rule can_log_kept [OF assms(4)]) (use u(3) tx in \<open>simp_all add: only_table_def\<close>)
  then obtain v l where v: "final_log True new_AbortLogRecord ?u = (Inr (), v)" "holds tab h M v" "s_txn v = (s_txn ?u)\<lparr>prev_lsn := l\<rparr>"
      "\<exists>earlier. log_file (log_of v) = earlier @ serialize (set_lsn l (set_prev_lsn (prev_lsn (s_txn ?u)) (new_AbortLogRecord (txn_id (s_txn ?u)))))"
    using abort_log_ok [of ?u tab h M] u(2) by (auto simp: holds_txn holds_locks)
  let ?v = "v\<lparr>s_txn := (s_txn v)\<lparr>txn_state := ABORTED\<rparr>\<rparr>"
  have run: "txn_abort True True s = (Inr (), s\<lparr>tm_db := ?v, txn_map := txn_map s - {txn_id ?tx}\<rparr>)"
    using assms(3) u(1) T v(1,3) tx by (simp add: txn_abort_def undo_all_def end_txn_def on_db_def prog_simps)
  have "log_of ?v = log_of v" by (simp add: log_of_def)
  then show ?thesis using v tx by (intro that [OF run, of l]) simp_all
qed

section \<open>Properties\<close>


text \<open>A record inserted and then changed.\<close>

definition demo_rid :: Rid where
  "demo_rid = \<lparr>page_no = 1, slot_no = 0\<rparr>"

definition demo_writes :: "WriteRecord list" where
  "demo_writes = [new_WriteRecord INSERT_TUPLE ''t'' demo_rid (replicate 512 9), new_WriteRecord UPDATE_TUPLE ''t'' demo_rid (replicate 512 9)]"

text \<open>The table of \<^term>\<open>demo_state\<close> with an empty log opened beside it, and a transaction that inserted a record into the
  table and then changed it.\<close>

definition demo_disk :: DiskManager where
  "demo_disk = \<lparr>path2fd = [LOG_FILE_NAME \<mapsto> 4], fd2path = Map.empty, log_fd = 4, fd2pageno = (\<lambda>_. 3),
     dm_os = \<lparr>os_names = [''t'' \<mapsto> 0, LOG_FILE_NAME \<mapsto> 1], os_data = (\<lambda>_. [])(0 := zero_page @ demo_full @ demo_free),
       os_inodes = 2, os_dirs = [], os_fds = [(3, 0, 0), (4, 1, 0)], os_max_fd = 16\<rparr>\<rparr>"

definition demo_txn_db :: DbState where
  "demo_txn_db = demo_state\<lparr>s_pool := new_BufferPoolManager 4 demo_disk, s_txn := (new_Transaction 1)\<lparr>write_set := demo_writes\<rparr>\<rparr>"

definition demo_txn :: TxnState where
  "demo_txn = \<lparr>tm_db = demo_txn_db, next_txn_id = 2, txn_map = {1}\<rparr>"

lemma demo_disk_inode: "fd_inode demo_disk fd = (if fd = 3 then Some 0 else if fd = 4 then Some 1 else None)"
  by (simp add: demo_disk_def fd_inode_def)

lemma demo_disk_table: "fd_data demo_disk 3 = zero_page @ demo_full @ demo_free"
  by (simp add: fd_data_def demo_disk_inode) (simp add: demo_disk_def)

lemma demo_txn_db_table: "rm_inv (file_of demo_txn_db (rm_fh demo_rm))" "rm_recs (file_of demo_txn_db (rm_fh demo_rm)) = rm_recs demo_rm"
proof -
  let ?f = "file_of demo_txn_db (rm_fh demo_rm)"
  have f: "rm_pool ?f = new_BufferPoolManager 4 demo_disk" "rm_fh ?f = rm_fh demo_rm" "hdr ?f = hdr demo_rm"
    by (simp_all add: file_of_def demo_txn_db_def hdr_def)
  have pg: "file_page ?f = file_page demo_rm"
    by (simp add: fun_eq_iff file_page_def view_def f(1,2) demo_pool_fields page_on_disk_def disk_page_def)
      (simp add: new_BufferPoolManager_def page_on_disk_def disk_page_def demo_disk_table demo_data Let_def)
  have "dm_wf demo_disk" by (simp add: dm_wf_def demo_disk_inode)
  then have "bpm_inv (rm_pool ?f)" by (simp add: f(1) bpm_inv_new)
  moreover have "room 1 (rm_pool ?f)" by (simp add: f(1) room_def pinned_def pins_def new_BufferPoolManager_def)
  ultimately have "rm_pool_ok ?f"
    by (simp add: rm_pool_ok_def f demo_pool_fields demo_hdr_fields MAX_FD_def)
      (simp add: new_BufferPoolManager_def demo_disk_inode, simp add: demo_disk_def)
  then show "rm_inv ?f" using demo_rm_inv by (simp add: rm_inv_def f(3) pg)
  show "rm_recs ?f = rm_recs demo_rm" by (simp add: rm_recs_def f(3) pg)
qed

lemma demo_holds: "holds ''t'' demo_hdr (rm_recs demo_rm) demo_txn_db"
proof -
  have "s_fhs demo_txn_db ''t'' = Some (rm_fh demo_rm)" "map_of (db_tabs (s_meta demo_txn_db)) ''t'' = Some \<lparr>tm_name = ''t'', tm_cols = demo_cols, indexes = []\<rparr>"
    by (simp_all add: demo_txn_db_def demo_state_def)
  moreover have "hdr (file_of demo_txn_db (rm_fh demo_rm)) = demo_hdr" using demo_hdr_fields(6) by (simp add: file_of_def hdr_def)
  ultimately show ?thesis using demo_txn_db_table by (simp add: holds_def tab_file_def same_layout_def)
qed

lemma demo_can_log: "can_log demo_txn_db"
proof -
  have "log_open demo_disk" by (simp add: log_open_def demo_disk_inode) (simp add: demo_disk_def)
  then show ?thesis
    by (simp add: can_log_def log_ok_def log_of_def demo_txn_db_def demo_state_def new_BufferPoolManager_def new_LogManager_def
        new_Transaction_def fits_signed_def INVALID_LSN_def)
qed

lemma demo_wrote: "wrote ''t'' demo_hdr ((rm_recs demo_rm)(demo_rid := None)) demo_writes (rm_recs demo_rm)"
proof -
  let ?M = "(rm_recs demo_rm)(demo_rid := None)" and ?x = "replicate 512 9 :: byte list"
  have "wrote ''t'' demo_hdr ?M ([] @ [new_WriteRecord INSERT_TUPLE ''t'' demo_rid ?x]) (?M(demo_rid \<mapsto> ?x))"
    by (intro wrote_insert wrote_nothing) simp
  then have "wrote ''t'' demo_hdr ?M (([] @ [new_WriteRecord INSERT_TUPLE ''t'' demo_rid ?x]) @ [new_WriteRecord UPDATE_TUPLE ''t'' demo_rid ?x])
      ((?M(demo_rid \<mapsto> ?x))(demo_rid \<mapsto> get_slot demo_hdr 0 demo_full))"
    by (rule wrote_update) (simp_all add: demo_hdr_fields)
  moreover have "(?M(demo_rid \<mapsto> ?x))(demo_rid \<mapsto> get_slot demo_hdr 0 demo_full) = rm_recs demo_rm"
    using demo_recs by (auto simp: demo_rid_def)
  ultimately show ?thesis by (simp add: demo_writes_def)
qed


end
