(* ===== verification/Recovery.thy ===== *)
theory Recovery
  imports Dml
begin

text \<open>
  \<^verbatim>\<open>RecoveryManager\<close> (\<^verbatim>\<open>recovery/log_recovery.cpp\<close>): reading the log file, repeating all its changes, and undoing
  those of transactions without a commit record. The loops over the log take the number of its bytes as
  their bound: every valid record has at least its header.
\<close>

section \<open>Reading the log\<close>

record RecoveryManager =
  rc_db :: DbState
  log_data :: "byte list"
  log_data_size :: int

definition on_rc :: "(DbState, 'a) prog \<Rightarrow> (RecoveryManager, 'a) prog" where
  "on_rc m = zoom rc_db (\<lambda>d s. s\<lparr>rc_db := d\<rparr>) m"

definition on_rc_disk :: "(DiskManager, 'a) prog \<Rightarrow> (RecoveryManager, 'a) prog" where
  "on_rc_disk m = on_rc (on_bpm (on_disk m))"

definition chunk_size :: "int \<Rightarrow> int \<Rightarrow> int" where
  "chunk_size file_size total_read = min (file_size - total_read) (int LOG_BUFFER_SIZE)"

function read_chunks :: "int \<Rightarrow> int \<Rightarrow> byte list \<Rightarrow> (DiskManager, byte list) prog" where
  "read_chunks file_size total_read d =
     (if total_read < file_size
      then bindE (read_log (chunk_size file_size total_read) total_read) (\<lambda>(r, bs).
           read_chunks file_size (total_read + chunk_size file_size total_read) (write_at d (nat total_read) bs))
      else ret d)"
  by pat_completeness auto
termination
  by (relation "measure (\<lambda>(file_size, total_read, d). nat (file_size - total_read))")
    (auto simp: chunk_size_def LOG_BUFFER_SIZE_def)

declare read_chunks.simps [simp del]

definition resize_to :: "nat \<Rightarrow> byte list \<Rightarrow> byte list" where
  "resize_to n d = take n d @ replicate (n - length d) 0"

definition rec_analyze :: "(RecoveryManager, unit) prog" where
  "rec_analyze =
     bindE (on_rc_disk (get_file_size LOG_FILE_NAME)) (\<lambda>file_size.
       if file_size \<le> 0 then ret ()
       else bindE (gets log_data) (\<lambda>d0.
            bindE (on_rc_disk (read_chunks file_size 0 (resize_to (nat file_size) d0))) (\<lambda>d.
            modify (\<lambda>s. s\<lparr>log_data := d, log_data_size := file_size\<rparr>))))"

definition log_len_at :: "byte list \<Rightarrow> int \<Rightarrow> int" where
  "log_len_at d offset = get_u32 d (nat offset + OFFSET_LOG_TOT_LEN)"

definition log_type_at :: "byte list \<Rightarrow> int \<Rightarrow> int" where
  "log_type_at d offset = get_i32 d (nat offset)"

definition log_tid_at :: "byte list \<Rightarrow> int \<Rightarrow> int" where
  "log_tid_at d offset = get_i32 d (nat offset + OFFSET_LOG_TID)"

definition validate_log_boundary :: "byte list \<Rightarrow> int \<Rightarrow> int \<Rightarrow> bool" where
  "validate_log_boundary d sz offset \<longleftrightarrow>
     \<not> (offset < 0 \<or> sz < offset + int LOG_HEADER_SIZE) \<and>
     \<not> log_len_at d offset < int LOG_HEADER_SIZE \<and>
     \<not> sz < offset + wrap32 (log_len_at d offset)"

definition is_valid_log_type :: "int \<Rightarrow> bool" where
  "is_valid_log_type ty \<longleftrightarrow>
     ty = log_type_code LOG_INSERT \<or> ty = log_type_code LOG_DELETE \<or> ty = log_type_code LOG_UPDATE \<or>
     ty = log_type_code LOG_begin \<or> ty = log_type_code LOG_commit \<or> ty = log_type_code LOG_ABORT"

definition is_dml_type :: "int \<Rightarrow> bool" where
  "is_dml_type ty \<longleftrightarrow>
     ty = log_type_code LOG_INSERT \<or> ty = log_type_code LOG_DELETE \<or> ty = log_type_code LOG_UPDATE"

section \<open>Redo\<close>

text \<open>Pages the file header does not know of are made first.\<close>

fun add_pages :: "nat \<Rightarrow> int \<Rightarrow> (RmState, unit) prog" where
  "add_pages 0 needed_pages = raise OutOfFuel"
| "add_pages (Suc n) needed_pages =
     bindE (gets (\<lambda>s. num_pages (hdr s))) (\<lambda>np.
       if np < needed_pages
       then bindE create_new_page_handle (\<lambda>f. thenE (unpin_handle f True) (add_pages n needed_pages))
       else ret ())"

definition ensure_pages :: "int \<Rightarrow> (RmState, unit) prog" where
  "ensure_pages needed_pages =
     bindE (gets (\<lambda>s. num_pages (hdr s))) (\<lambda>np. add_pages (Suc (nat (needed_pages - np))) needed_pages)"

fun redo_record :: "LogRecord \<Rightarrow> (DbState, unit) prog" where
  "redo_record (InsertLogRecord h v rid tab) =
     on_file (str_of tab) (thenE (ensure_pages (page_no rid + 1)) (insert_record_at rid v))"
| "redo_record (DeleteLogRecord h v rid tab) = on_file (str_of tab) (delete_record rid)"
| "redo_record (UpdateLogRecord h u v rid tab) =
     on_file (str_of tab) (thenE (ensure_pages (page_no rid + 1)) (update_record rid v))"
| "redo_record (BeginLogRecord h) = ret ()"
| "redo_record (CommitLogRecord h) = ret ()"
| "redo_record (AbortLogRecord h) = ret ()"

text \<open>The record at an offset, by the type field.\<close>

definition redo_at :: "byte list \<Rightarrow> int \<Rightarrow> (DbState, unit) prog" where
  "redo_at d offset =
     (let src = drop (nat offset) d; ty = log_type_at d offset in
      if ty = log_type_code LOG_INSERT then redo_record (deserialize_insert src)
      else if ty = log_type_code LOG_DELETE then redo_record (deserialize_delete src)
      else if ty = log_type_code LOG_UPDATE then redo_record (deserialize_update src)
      else ret ())"

fun redo_from :: "nat \<Rightarrow> byte list \<Rightarrow> int \<Rightarrow> int \<Rightarrow> (DbState, unit) prog" where
  "redo_from 0 d sz offset = raise OutOfFuel"
| "redo_from (Suc n) d sz offset =
     (if \<not> offset < sz \<or> sz < offset + int LOG_HEADER_SIZE then ret ()
      else if \<not> validate_log_boundary d sz offset \<or> \<not> is_valid_log_type (log_type_at d offset) then ret ()
      else thenE (redo_at d offset) (redo_from n d sz (wrap32 (offset + log_len_at d offset))))"

definition rec_redo :: "(RecoveryManager, unit) prog" where
  "rec_redo =
     bindE (gets log_data) (\<lambda>d.
     bindE (gets log_data_size) (\<lambda>sz.
       if sz = 0 then ret () else on_rc (redo_from (Suc (nat sz)) d sz 0)))"

section \<open>Undo\<close>

text \<open>First pass: the transactions with changes, and those that committed.\<close>

fun find_txns :: "nat \<Rightarrow> byte list \<Rightarrow> int \<Rightarrow> int \<Rightarrow> int set \<Rightarrow> int set \<Rightarrow> ('s, int set \<times> int set) prog" where
  "find_txns 0 d sz offset active completed = raise OutOfFuel"
| "find_txns (Suc n) d sz offset active completed =
     (if \<not> offset < sz \<or> \<not> validate_log_boundary d sz offset then ret (active, completed)
      else let ty = log_type_at d offset; tid = log_tid_at d offset; nxt = wrap32 (offset + log_len_at d offset) in
        if ty = log_type_code LOG_commit then find_txns n d sz nxt active (insert tid completed)
        else if is_dml_type ty \<and> tid \<notin> completed then find_txns n d sz nxt (insert tid active) completed
        else find_txns n d sz nxt active completed)"

text \<open>Second pass: the offsets of the changes to look at.\<close>

fun find_offsets :: "nat \<Rightarrow> byte list \<Rightarrow> int \<Rightarrow> int \<Rightarrow> int set \<Rightarrow> ('s, int list) prog" where
  "find_offsets 0 d sz offset active = raise OutOfFuel"
| "find_offsets (Suc n) d sz offset active =
     (if \<not> offset < sz \<or> \<not> validate_log_boundary d sz offset then ret []
      else bindE (find_offsets n d sz (wrap32 (offset + log_len_at d offset)) active) (\<lambda>offs.
        ret (if log_tid_at d offset \<in> active \<and> is_dml_type (log_type_at d offset) then offset # offs else offs)))"

fun undo_record :: "LogRecord \<Rightarrow> (DbState, unit) prog" where
  "undo_record (InsertLogRecord h v rid tab) = on_file (str_of tab) (delete_record rid)"
| "undo_record (DeleteLogRecord h v rid tab) = on_file (str_of tab) (insert_record_at rid v)"
| "undo_record (UpdateLogRecord h u v rid tab) = on_file (str_of tab) (update_record rid u)"
| "undo_record (BeginLogRecord h) = ret ()"
| "undo_record (CommitLogRecord h) = ret ()"
| "undo_record (AbortLogRecord h) = ret ()"

definition undo_at :: "byte list \<Rightarrow> int \<Rightarrow> (DbState, unit) prog" where
  "undo_at d offset =
     (let src = drop (nat offset) d; ty = log_type_at d offset in
      if ty = log_type_code LOG_INSERT then undo_record (deserialize_insert src)
      else if ty = log_type_code LOG_DELETE then undo_record (deserialize_delete src)
      else if ty = log_type_code LOG_UPDATE then undo_record (deserialize_update src)
      else ret ())"

fun undo_offsets :: "byte list \<Rightarrow> int set \<Rightarrow> int list \<Rightarrow> (DbState, unit) prog" where
  "undo_offsets d completed [] = ret ()"
| "undo_offsets d completed (offset # offs) =
     thenE (if log_tid_at d offset \<in> completed then ret () else undo_at d offset) (undo_offsets d completed offs)"

definition rec_undo :: "(RecoveryManager, unit) prog" where
  "rec_undo =
     bindE (gets log_data) (\<lambda>d.
     bindE (gets log_data_size) (\<lambda>sz.
       if sz = 0 then ret ()
       else bindE (find_txns (Suc (nat sz)) d sz 0 {} {}) (\<lambda>(active, completed).
            bindE (find_offsets (Suc (nat sz)) d sz 0 active) (\<lambda>offs.
            on_rc (undo_offsets d completed (rev offs))))))"

definition truncate_log :: "(RecoveryManager, unit) prog" where
  "truncate_log =
     on_rc_disk
     (thenE (bindE GetLogFd (\<lambda>fd. if fd \<noteq> -1 then close_file fd else ret ()))
     (thenE (bindE (is_file LOG_FILE_NAME) (\<lambda>b. if b then destroy_file LOG_FILE_NAME else ret ()))
     (thenE (create_file LOG_FILE_NAME) (SetLogFd (-1)))))"


section \<open>Walking over the log\<close>

fun redo_records :: "LogRecord list \<Rightarrow> (DbState, unit) prog" where
  "redo_records [] = ret ()"
| "redo_records (r # rs) = thenE (redo_record r) (redo_records rs)"

fun undo_records :: "LogRecord list \<Rightarrow> (DbState, unit) prog" where
  "undo_records [] = ret ()"
| "undo_records (r # rs) = thenE (undo_record r) (undo_records rs)"

fun is_change :: "LogRecord \<Rightarrow> bool" where
  "is_change (InsertLogRecord h v rid tab) = True"
| "is_change (DeleteLogRecord h v rid tab) = True"
| "is_change (UpdateLogRecord h u v rid tab) = True"
| "is_change r = False"

fun is_commit :: "LogRecord \<Rightarrow> bool" where
  "is_commit (CommitLogRecord h) = True"
| "is_commit r = False"

definition rec_tid :: "LogRecord \<Rightarrow> int" where
  "rec_tid r = log_tid (log_header r)"

definition committed :: "LogRecord list \<Rightarrow> int set" where
  "committed rs = set (map rec_tid (filter is_commit rs))"

text \<open>The changes recovery has to take back.\<close>

definition to_undo :: "LogRecord list \<Rightarrow> LogRecord list" where
  "to_undo rs = filter (\<lambda>r. is_change r \<and> rec_tid r \<notin> committed rs) rs"

definition stream :: "LogRecord list \<Rightarrow> byte list" where
  "stream rs = concat (map serialize rs)"

text \<open>The beginning of a record that was not written completely.\<close>

definition torn :: "byte list \<Rightarrow> bool" where
  "torn bs \<longleftrightarrow> (\<exists>r more. log_record_ok r \<and> serialize r = bs @ more \<and> more \<noteq> [])"

lemma serialize_header: "\<exists>body. serialize r = ser_header (log_header r) @ body"
  by (cases r) auto

lemma log_record_length: "20 \<le> length (serialize r)"
  by (cases r) auto

lemma header_ok: "log_record_ok r \<Longrightarrow> header_fits (log_header r)"
  by (cases r) auto

lemma tot_len_bounds: "log_record_ok r \<Longrightarrow> 20 \<le> log_tot_len (log_header r) \<and> log_tot_len (log_header r) < 2 ^ 31"
  by (cases r) auto

lemma log_type_cases:
  assumes "log_record_ok r"
  shows "is_valid_log_type (log_type (log_header r))" "is_dml_type (log_type (log_header r)) = is_change r"
    "log_type (log_header r) = log_type_code LOG_commit \<longleftrightarrow> is_commit r"
  using assms by (cases r; simp add: is_valid_log_type_def is_dml_type_def)+

lemma fields_at:
  assumes "header_fits h" "d = pre @ ser_header h @ post" "offset = int (length pre)"
  shows "log_type_at d offset = log_type h" "log_len_at d offset = log_tot_len h" "log_tid_at d offset = log_tid h"
proof -
  have "des_header (ser_header h @ post) = h" using assms(1) by (rule des_header_ser)
  then have "get_i32 (ser_header h @ post) 0 = log_type h" "get_u32 (ser_header h @ post) 8 = log_tot_len h"
    "get_i32 (ser_header h @ post) 12 = log_tid h"
    by (auto simp: des_header_def log_offsets dest: arg_cong [of _ _ log_type] arg_cong [of _ _ log_tot_len] arg_cong [of _ _ log_tid])
  then show "log_type_at d offset = log_type h" "log_len_at d offset = log_tot_len h" "log_tid_at d offset = log_tid h"
    using assms(2,3)
    by (simp_all add: log_type_at_def log_len_at_def log_tid_at_def get_i32_def get_u32_def read_at_skip log_offsets)
qed

text \<open>A complete record inside the log.\<close>

lemma record_at:
  assumes r: "log_record_ok r" and d: "d = pre @ serialize r @ post" and len: "length d < 2 ^ 31" and off: "offset = int (length pre)"
  shows "log_type_at d offset = log_type (log_header r)" "log_tid_at d offset = rec_tid r"
    "validate_log_boundary d (int (length d)) offset" "offset < int (length d)"
    "\<not> int (length d) < offset + int LOG_HEADER_SIZE"
    "wrap32 (offset + log_len_at d offset) = int (length (pre @ serialize r))"
proof -
  obtain body where body: "serialize r = ser_header (log_header r) @ body" using serialize_header by blast
  have d': "d = pre @ ser_header (log_header r) @ body @ post" using d body by simp
  note at = fields_at [OF header_ok [OF r] d' off]
  show "log_type_at d offset = log_type (log_header r)" "log_tid_at d offset = rec_tid r"
    using at by (simp_all add: rec_tid_def)
  have l: "log_len_at d offset = int (length (serialize r))" using at(2) length_serialize [OF r] by simp
  have n: "length pre + length (serialize r) \<le> length d" using d by simp
  have w: "wrap32 (int (length (serialize r))) = int (length (serialize r))"
    "wrap32 (int (length pre + length (serialize r))) = int (length pre + length (serialize r))"
    using n len by (auto intro!: wrap32_id)
  show "validate_log_boundary d (int (length d)) offset" "offset < int (length d)"
      "\<not> int (length d) < offset + int LOG_HEADER_SIZE"
    using log_record_length [of r] n w(1) by (simp_all add: validate_log_boundary_def l [unfolded off] off log_offsets)
  show "wrap32 (offset + log_len_at d offset) = int (length (pre @ serialize r))" using w(2) off l by simp
qed

lemma torn_at:
  assumes "torn bs" "d = pre @ bs" "length d < 2 ^ 31" "offset = int (length pre)"
  shows "\<not> offset < int (length d) \<or> int (length d) < offset + int LOG_HEADER_SIZE \<or> \<not> validate_log_boundary d (int (length d)) offset"
proof (cases "length bs < 20")
  case True
  then show ?thesis using assms(2,4) by (simp add: log_offsets)
next
  case False
  obtain r more where r: "log_record_ok r" "serialize r = bs @ more" "more \<noteq> []" using assms(1) by (auto simp: torn_def)
  obtain body where body: "serialize r = ser_header (log_header r) @ body" using serialize_header by blast
  have "take 20 bs = take 20 (serialize r)" using r(2) False by simp
  then have "take 20 bs = ser_header (log_header r)" using body by simp
  then have "bs = ser_header (log_header r) @ drop 20 bs" by (metis append_take_drop_id)
  then have d': "d = pre @ ser_header (log_header r) @ drop 20 bs" using assms(2) by metis
  have "log_len_at d offset = log_tot_len (log_header r)" by (rule fields_at(2) [OF header_ok [OF r(1)] d' assms(4)])
  then have l: "log_len_at d offset = int (length bs + length more)" using length_serialize [OF r(1)] r(2) by simp
  have "wrap32 (log_len_at d offset) = log_len_at d offset"
    using tot_len_bounds [OF r(1)] length_serialize [OF r(1)] r(2) l by (intro wrap32_id) auto
  moreover have "length more \<noteq> 0" using r(3) by simp
  ultimately show ?thesis using l assms(2,4) by (auto simp: validate_log_boundary_def)
qed

lemma redo_at_record:
  assumes r: "log_record_ok r" and d: "d = pre @ serialize r @ post" and off: "offset = int (length pre)"
    and ty: "log_type_at d offset = log_type (log_header r)"
  shows "redo_at d offset = redo_record r" "undo_at d offset = undo_record r"
proof -
  have src: "drop (nat offset) d = serialize r @ post" using d off by simp
  have "deserialize (serialize r @ post) = Some r" using r by (rule deserialize_serialize)
  then show "redo_at d offset = redo_record r" "undo_at d offset = undo_record r"
    using r ty log_type_ser [of "log_header r"]
    by (cases r; simp add: redo_at_def undo_at_def src deserialize_def Let_def)+
qed

lemma stream_simps [simp]: "stream [] = []" "stream (r # rs) = serialize r @ stream rs"
  by (simp_all add: stream_def)

lemma stream_length: "length rs \<le> length (stream rs)"
proof (induction rs)
  case (Cons r rs)
  then show ?case using log_record_length [of r] by simp
qed simp

lemma redo_walk:
  assumes "\<forall>r \<in> set rs. log_record_ok r" "torn bs" "d = pre @ stream rs @ bs" "length d < 2 ^ 31" "length rs < n"
  shows "redo_from n d (int (length d)) (int (length pre)) = redo_records rs"
  using assms(1,3,5)
proof (induction rs arbitrary: pre n)
  case Nil
  then obtain m where "n = Suc m" by (cases n) auto
  then show ?case using torn_at [OF assms(2) _ assms(4) refl] Nil by auto
next
  case (Cons r rs)
  then obtain m where m: "n = Suc m" "length rs < m" by (cases n) auto
  have r: "log_record_ok r" and d: "d = pre @ serialize r @ (stream rs @ bs)" using Cons.prems by auto
  note at = record_at [OF r d assms(4) refl]
  have IH: "redo_from m d (int (length d)) (int (length (pre @ serialize r))) = redo_records rs"
    by (rule Cons.IH) (use Cons.prems m in auto)
  show ?case unfolding m(1) redo_from.simps redo_records.simps
    using at log_type_cases(1) [OF r] redo_at_record(1) [OF r d refl at(1)] IH by simp
qed

text \<open>The two sets the first pass of \<open>undo\<close> keeps.\<close>

fun track :: "LogRecord \<Rightarrow> int set \<times> int set \<Rightarrow> int set \<times> int set" where
  "track r (active, completed) =
     (if is_commit r then (active, insert (rec_tid r) completed)
      else if is_change r \<and> rec_tid r \<notin> completed then (insert (rec_tid r) active, completed)
      else (active, completed))"

lemma find_txns_walk:
  assumes "\<forall>r \<in> set rs. log_record_ok r" "torn bs" "d = pre @ stream rs @ bs" "length d < 2 ^ 31" "length rs < n"
  shows "(find_txns n d (int (length d)) (int (length pre)) A C :: ('s, int set \<times> int set) prog) = ret (fold track rs (A, C))"
  using assms(1,3,5)
proof (induction rs arbitrary: pre n A C)
  case Nil
  then obtain m where "n = Suc m" by (cases n) auto
  then show ?case using torn_at [OF assms(2) _ assms(4) refl] Nil by (auto simp: validate_log_boundary_def)
next
  case (Cons r rs)
  then obtain m where m: "n = Suc m" "length rs < m" by (cases n) auto
  have r: "log_record_ok r" and d: "d = pre @ serialize r @ (stream rs @ bs)" using Cons.prems by auto
  note at = record_at [OF r d assms(4) refl]
  have IH: "(find_txns m d (int (length d)) (int (length (pre @ serialize r))) A C :: ('s, int set \<times> int set) prog) = ret (fold track rs (A, C))" for A C
    by (rule Cons.IH) (use Cons.prems m in auto)
  show ?case unfolding m(1) find_txns.simps Let_def
    using at log_type_cases [OF r] IH by simp
qed

lemma track_completed: "snd (fold track rs (A, C)) = C \<union> committed rs"
proof (induction rs arbitrary: A C)
  case (Cons r rs)
  have "snd (fold track rs (track r (A, C))) = snd (track r (A, C)) \<union> committed rs"
    using Cons.IH [of "fst (track r (A, C))" "snd (track r (A, C))"] by simp
  then show ?case by (auto simp: committed_def)
qed (simp add: committed_def)

lemma track_active_grows: "A \<subseteq> fst (fold track rs (A, C))"
proof (induction rs arbitrary: A C)
  case (Cons r rs)
  have "fst (track r (A, C)) \<subseteq> fst (fold track rs (track r (A, C)))"
    using Cons.IH [of "fst (track r (A, C))" "snd (track r (A, C))"] by simp
  then show ?case by auto
qed simp

lemma track_active:
  assumes "r \<in> set rs" "is_change r" "rec_tid r \<notin> C" "rec_tid r \<notin> committed rs"
  shows "rec_tid r \<in> fst (fold track rs (A, C))"
  using assms
proof (induction rs arbitrary: A C)
  case (Cons q rs)
  obtain A1 C1 where q: "track q (A, C) = (A1, C1)" by fastforce
  have C1: "rec_tid r \<notin> C1" using Cons.prems(3,4) q by (auto simp: committed_def split: if_splits)
  show ?case
  proof (cases "r = q")
    case True
    then have "rec_tid r \<in> A1" using q Cons.prems by (cases r) auto
    then show ?thesis using track_active_grows [of A1 rs C1] q by auto
  next
    case False
    then have "rec_tid r \<in> fst (fold track rs (A1, C1))" using Cons.IH [of C1 A1] Cons.prems C1 by (auto simp: committed_def split: if_splits)
    then show ?thesis using q by simp
  qed
qed simp

text \<open>The records with their offsets.\<close>

fun places :: "nat \<Rightarrow> LogRecord list \<Rightarrow> (int \<times> LogRecord) list" where
  "places p [] = []"
| "places p (r # rs) = (int p, r) # places (p + length (serialize r)) rs"

lemma places_records: "map snd (places p rs) = rs"
  by (induction rs arbitrary: p) simp_all

lemma find_offsets_walk:
  assumes "\<forall>r \<in> set rs. log_record_ok r" "torn bs" "d = pre @ stream rs @ bs" "length d < 2 ^ 31" "length rs < n"
  shows "(find_offsets n d (int (length d)) (int (length pre)) A :: ('s, int list) prog) =
     ret (map fst (filter (\<lambda>(p, r). rec_tid r \<in> A \<and> is_change r) (places (length pre) rs)))"
  using assms(1,3,5)
proof (induction rs arbitrary: pre n)
  case Nil
  then obtain m where "n = Suc m" by (cases n) auto
  then show ?case using torn_at [OF assms(2) _ assms(4) refl] Nil by (auto simp: validate_log_boundary_def)
next
  case (Cons r rs)
  then obtain m where m: "n = Suc m" "length rs < m" by (cases n) auto
  have r: "log_record_ok r" and d: "d = pre @ serialize r @ (stream rs @ bs)" using Cons.prems by auto
  note at = record_at [OF r d assms(4) refl]
  have IH: "(find_offsets m d (int (length d)) (int (length (pre @ serialize r))) A :: ('s, int list) prog) =
     ret (map fst (filter (\<lambda>(p, r). rec_tid r \<in> A \<and> is_change r) (places (length (pre @ serialize r)) rs)))"
    by (rule Cons.IH) (use Cons.prems m in auto)
  show ?case unfolding m(1) find_offsets.simps
    using at log_type_cases [OF r] IH by (simp add: prog_simps fun_eq_iff)
qed

lemma places_at:
  assumes "\<forall>r \<in> set rs. log_record_ok r" "d = pre @ stream rs @ bs" "length d < 2 ^ 31" "(p, r) \<in> set (places (length pre) rs)"
  shows "log_tid_at d p = rec_tid r \<and> undo_at d p = undo_record r"
  using assms(1,2,4)
proof (induction rs arbitrary: pre)
  case (Cons q rs)
  have q: "log_record_ok q" and d: "d = pre @ serialize q @ (stream rs @ bs)" using Cons.prems by auto
  note at = record_at [OF q d assms(3) refl]
  show ?case
  proof (cases "(p, r) = (int (length pre), q)")
    case True
    then show ?thesis using at(2) redo_at_record(2) [OF q d refl at(1)] by simp
  next
    case False
    then show ?thesis using Cons.IH [of "pre @ serialize q"] Cons.prems by auto
  qed
qed simp

lemma thenE_ret [simp]: "thenE (ret x) m = m"
  by (simp add: prog_simps fun_eq_iff)

lemma undo_offsets_records:
  assumes "\<forall>(p, r) \<in> set ps. log_tid_at d p = rec_tid r \<and> undo_at d p = undo_record r"
  shows "undo_offsets d C (map fst ps) = undo_records (filter (\<lambda>r. rec_tid r \<notin> C) (map snd ps))"
  using assms by (induction ps) (auto simp: thenE_ret)

lemma undo_walk:
  assumes rs: "\<forall>r \<in> set rs. log_record_ok r" and bs: "torn bs" and d: "d = stream rs @ bs" "length d < 2 ^ 31" and n: "length rs < n"
    and AC: "fold track rs ({}, {}) = (A, C)"
  shows "find_txns n d (int (length d)) 0 {} {} = (ret (A, C) :: (RecoveryManager, int set \<times> int set) prog)"
    "find_offsets n d (int (length d)) 0 A =
     (ret (map fst (filter (\<lambda>(p, r). rec_tid r \<in> A \<and> is_change r) (places 0 rs))) :: (RecoveryManager, int list) prog)"
    "undo_offsets d C (rev (map fst (filter (\<lambda>(p, r). rec_tid r \<in> A \<and> is_change r) (places 0 rs)))) = undo_records (rev (to_undo rs))"
proof -
  have d': "d = [] @ stream rs @ bs" using d by simp
  show "find_txns n d (int (length d)) 0 {} {} = (ret (A, C) :: (RecoveryManager, int set \<times> int set) prog)"
    using find_txns_walk [OF rs bs d' d(2) n, of "{}" "{}"] AC by simp
  show "find_offsets n d (int (length d)) 0 A =
     (ret (map fst (filter (\<lambda>(p, r). rec_tid r \<in> A \<and> is_change r) (places 0 rs))) :: (RecoveryManager, int list) prog)"
    using find_offsets_walk [OF rs bs d' d(2) n, of A] by simp
  let ?ps = "filter (\<lambda>(p, r). rec_tid r \<in> A \<and> is_change r) (places 0 rs)"
  have C: "C = committed rs" using track_completed [of rs "{}" "{}"] AC by simp
  have A: "r \<in> set rs \<Longrightarrow> is_change r \<Longrightarrow> rec_tid r \<notin> C \<Longrightarrow> rec_tid r \<in> A" for r
    using track_active [of r rs "{}" "{}"] AC C by simp
  have "undo_offsets d C (map fst (rev ?ps)) = undo_records (filter (\<lambda>r. rec_tid r \<notin> C) (map snd (rev ?ps)))"
    by (rule undo_offsets_records) (use places_at [OF rs d' d(2)] in auto)
  also have "map snd ?ps = filter (\<lambda>r. rec_tid r \<in> A \<and> is_change r) (map snd (places 0 rs))"
    by (simp add: filter_map comp_def case_prod_unfold)
  then have "filter (\<lambda>r. rec_tid r \<notin> C) (map snd (rev ?ps)) = rev (to_undo rs)"
    using A by (auto simp: to_undo_def rev_map [symmetric] rev_filter [symmetric] places_records C [symmetric] intro!: filter_cong)
  finally show "undo_offsets d C (rev (map fst ?ps)) = undo_records (rev (to_undo rs))" by (simp add: rev_map)
qed

section \<open>Reading the log file\<close>

text \<open>A log file with the given bytes, open or not yet open.\<close>

definition log_ready :: "DiskManager \<Rightarrow> byte list \<Rightarrow> bool" where
  "log_ready d bs \<longleftrightarrow> (\<exists>i. os_names (dm_os d) LOG_FILE_NAME = Some i \<and> os_data (dm_os d) i = bs \<and>
     (if log_fd d = -1 then LOG_FILE_NAME \<notin> set (os_dirs (dm_os d)) \<and> lowest_fd (dm_os d) < os_max_fd (dm_os d)
      else fd_inode d (log_fd d) = Some i))"

text \<open>The files, and what the open descriptors stand for, are as before.\<close>

definition same_files :: "DiskManager \<Rightarrow> DiskManager \<Rightarrow> bool" where
  "same_files d e \<longleftrightarrow> os_data (dm_os e) = os_data (dm_os d) \<and> os_names (dm_os e) = os_names (dm_os d) \<and>
     fd2pageno e = fd2pageno d \<and> (\<forall>fd i. fd_inode d fd = Some i \<longrightarrow> fd_inode e fd = Some i)"

lemma same_files_refl [simp]: "same_files d d"
  by (simp add: same_files_def)

lemma same_files_trans: "same_files d e \<Longrightarrow> same_files e f \<Longrightarrow> same_files d f"
  by (simp add: same_files_def)

lemma ensure_log_open_run:
  assumes "log_ready d bs"
  obtains e where "ensure_log_open d = (Inr (log_fd e), e)" "log_fd e \<noteq> -1" "log_ready e bs" "same_files d e"
proof -
  obtain i where i: "os_names (dm_os d) LOG_FILE_NAME = Some i" "os_data (dm_os d) i = bs"
      "log_fd d = -1 \<Longrightarrow> LOG_FILE_NAME \<notin> set (os_dirs (dm_os d)) \<and> lowest_fd (dm_os d) < os_max_fd (dm_os d)"
      "log_fd d \<noteq> -1 \<Longrightarrow> fd_inode d (log_fd d) = Some i"
    using assms by (auto simp: log_ready_def split: if_splits)
  show ?thesis
  proof (cases "log_fd d = -1")
    case True
    let ?r = "ensure_log_open d"
    have "fst ?r = Inr (log_fd (snd ?r))" "log_fd (snd ?r) \<noteq> -1" "log_ready (snd ?r) bs" "same_files d (snd ?r)"
      using True i lowest_fd_closed [of "dm_os d"]
      by (auto simp: ensure_log_open_def open_file_def is_file_def os_is_reg_def sys_def os_open_def prog_simps Let_def
          log_ready_def same_files_def fd_inode_def)
    then show ?thesis using that [of "snd ?r"] by (metis prod.collapse)
  next
    case False
    then show ?thesis using that [of d] assms by (simp add: ensure_log_open_def prog_simps)
  qed
qed

lemma read_log_run:
  assumes d: "log_ready d bs" and n: "0 < n" "0 \<le> k" "k + n \<le> int (length bs)" and len: "length bs < 2 ^ 31"
  obtains e where "read_log n k d = (Inr (n, take (nat n) (drop (nat k) bs)), e)" "log_ready e bs" "same_files d e"
proof -
  obtain e where e: "ensure_log_open d = (Inr (log_fd e), e)" "log_fd e \<noteq> -1" "log_ready e bs" "same_files d e"
    by (rule ensure_log_open_run [OF d])
  obtain i where i: "os_names (dm_os e) LOG_FILE_NAME = Some i" "os_data (dm_os e) i = bs" "fd_inode e (log_fd e) = Some i"
    using e(2,3) by (auto simp: log_ready_def)
  obtain q where q: "map_of (os_fds (dm_os e)) (log_fd e) = Some (i, q)" using i(3) by (auto simp: fd_inode_def)
  have w: "wrap32 (int (length bs)) = int (length bs)" using len by (intro wrap32_id) auto
  have mn: "min n (int (length bs) - k) = n" "\<not> int (length bs) < k" using n by auto
  let ?bs = "take (nat n) (drop (nat k) bs)"
  have tk: "int (length ?bs) = n" "length ?bs = nat n" using n by simp_all
  let ?e = "e\<lparr>dm_os := set_offset (log_fd e) (nat k + nat n) (set_offset (log_fd e) (nat k) (dm_os e))\<rparr>"
  have rd: "os_read (log_fd e) (nat n) (set_offset (log_fd e) (nat k) (dm_os e)) =
      ((n, ?bs), set_offset (log_fd e) (nat k + nat n) (set_offset (log_fd e) (nat k) (dm_os e)))"
    using i(2) q tk n(1) by (simp add: os_read_def map_of_set_offset Let_def del: length_take length_drop)
  have run: "read_log n k d = (Inr (n, ?bs), ?e)"
    using e(1) i(1,2) n(1,2) w mn rd
    by (simp add: read_log_def get_file_size_def prog_simps sys_def sys_do_def lseek_set_def Let_def)
  have "fd_inode ?e fd = fd_inode e fd" for fd
    by (auto simp: fd_inode_def map_of_set_offset option.map_comp comp_def case_prod_beta)
  then have "log_ready ?e bs" "same_files e ?e" using i e(2) by (simp_all add: log_ready_def same_files_def)
  then show ?thesis using that [OF run] same_files_trans [OF e(4)] by blast
qed

lemma read_chunks_run:
  assumes "log_ready d bs" "length bs < 2 ^ 31" "0 \<le> k" "k \<le> int (length bs)" "length buf = length bs"
    "take (nat k) buf = take (nat k) bs"
  shows "\<exists>e. read_chunks (int (length bs)) k buf d = (Inr bs, e) \<and> log_ready e bs \<and> same_files d e"
  using assms
proof (induction "int (length bs)" k buf arbitrary: d rule: read_chunks.induct)
  case (1 k buf)
  show ?case
  proof (cases "k < int (length bs)")
    case False
    then have "buf = bs" using 1(4-7) by simp
    then show ?thesis using False 1(2) by (simp add: read_chunks.simps prog_simps)
  next
    case True
    let ?n = "chunk_size (int (length bs)) k" and ?piece = "\<lambda>n. take (nat n) (drop (nat k) bs)"
    have n: "0 < ?n" "k + ?n \<le> int (length bs)" using True 1(4) by (auto simp: chunk_size_def LOG_BUFFER_SIZE_def)
    obtain e where e: "read_log ?n k d = (Inr (?n, ?piece ?n), e)" "log_ready e bs" "same_files d e"
      by (rule read_log_run [OF 1(2) n(1) 1(4) n(2) 1(3)])
    let ?buf = "write_at buf (nat k) (?piece ?n)"
    have len: "length (?piece ?n) = nat ?n" "nat (k + ?n) = nat k + nat ?n" using n 1(4) by auto
    have "take (nat k + nat ?n) ?buf = take (nat k) buf @ ?piece ?n"
      using take_write_at [of "nat k" "?piece ?n" buf] len n 1(4,6) by simp
    also have "\<dots> = take (nat (k + ?n)) bs" using 1(7) len(2) by (simp add: take_add)
    finally have pre: "take (nat (k + ?n)) ?buf = take (nat (k + ?n)) bs" using len(2) by simp
    have "length ?buf = length bs" using 1(6) len n 1(4) by (simp add: write_at_def)
    then have "\<exists>e'. read_chunks (int (length bs)) (k + ?n) ?buf e = (Inr bs, e') \<and> log_ready e' bs \<and> same_files e e'"
      using 1(1) [OF True e(2) 1(3)] n 1(4) pre by simp
    then show ?thesis using e True same_files_trans [OF e(3)] by (auto simp: read_chunks.simps [of _ k] prog_simps)
  qed
qed

lemma length_resize [simp]: "length (resize_to n d) = n"
  by (simp add: resize_to_def)

definition rc_disk :: "RecoveryManager \<Rightarrow> DiskManager" where
  "rc_disk s = bpm_disk (s_pool (rc_db s))"

text \<open>The manager after reading the log: the bytes are there, the log file may be open.\<close>

definition with_log :: "byte list \<Rightarrow> DiskManager \<Rightarrow> RecoveryManager \<Rightarrow> RecoveryManager" where
  "with_log bs e s =
     \<lparr>rc_db = (rc_db s)\<lparr>s_pool := (s_pool (rc_db s))\<lparr>bpm_disk := e\<rparr>\<rparr>, log_data = bs, log_data_size = int (length bs)\<rparr>"

lemma on_rc_disk_run:
  assumes "m (rc_disk s) = (r, e)"
  shows "on_rc_disk m s = (r, s\<lparr>rc_db := (rc_db s)\<lparr>s_pool := (s_pool (rc_db s))\<lparr>bpm_disk := e\<rparr>\<rparr>\<rparr>)"
  using assms by (simp add: on_rc_disk_def on_rc_def on_bpm_def on_disk_def rc_disk_def prog_simps)

lemma rec_analyze_run:
  assumes "log_ready (rc_disk s) bs" "length bs < 2 ^ 31" "log_data s = []" "log_data_size s = 0"
  obtains e where "rec_analyze s = (Inr (), with_log bs e s)" "same_files (rc_disk s) e"
proof -
  have w: "wrap32 (int (length bs)) = int (length bs)" using assms(2) by (intro wrap32_id) auto
  have sz: "get_file_size LOG_FILE_NAME (rc_disk s) = (Inr (int (length bs)), rc_disk s)"
    using assms(1) w by (auto simp: get_file_size_def log_ready_def prog_simps)
  have same: "s\<lparr>rc_db := (rc_db s)\<lparr>s_pool := (s_pool (rc_db s))\<lparr>bpm_disk := rc_disk s\<rparr>\<rparr>\<rparr> = s" by (simp add: rc_disk_def)
  note sz' = on_rc_disk_run [of "get_file_size LOG_FILE_NAME" s, OF sz, unfolded same]
  show ?thesis
  proof (cases "bs = []")
    case True
    have "with_log bs (rc_disk s) s = s" using True assms(3,4) same by (cases s) (simp add: with_log_def)
    then show ?thesis using that [of "rc_disk s"] sz' True by (simp add: rec_analyze_def prog_simps)
  next
    case False
    obtain e where e: "read_chunks (int (length bs)) 0 (resize_to (length bs) (log_data s)) (rc_disk s) = (Inr bs, e)" "same_files (rc_disk s) e"
      using read_chunks_run [OF assms(1,2), of 0 "resize_to (length bs) (log_data s)"] by auto
    have "rec_analyze s = (Inr (), with_log bs e s)"
      using False sz' on_rc_disk_run [of "read_chunks (int (length bs)) 0 (resize_to (length bs) (log_data s))" s, OF e(1)] by (cases s) (simp add: rec_analyze_def prog_simps with_log_def)
    then show ?thesis using that e(2) by blast
  qed
qed

lemma on_rc_keeps_log: "on_rc m s = (r, t) \<Longrightarrow> log_data t = log_data s \<and> log_data_size t = log_data_size s"
  by (auto simp: on_rc_def zoom_def split: prod.splits)

lemma redo_undo_eq:
  assumes rs: "\<forall>r \<in> set rs. log_record_ok r" and tail: "torn tail" and bs: "bs = stream rs @ tail" "length bs < 2 ^ 31"
    and s: "log_data s = bs" "log_data_size s = int (length bs)"
  shows "rec_redo s = on_rc (redo_records rs) s" "rec_undo s = on_rc (undo_records (rev (to_undo rs))) s"
proof -
  have n: "length rs < Suc (nat (int (length bs)))" using stream_length [of rs] bs(1) by simp
  have empty: "rs = []" if "bs = []" using that bs stream_length [of rs] by simp
  have d: "bs = [] @ stream rs @ tail" using bs(1) by simp
  show "rec_redo s = on_rc (redo_records rs) s"
    using redo_walk [OF rs tail d bs(2) n] s empty
    by (cases "bs = []") (simp_all add: rec_redo_def prog_simps on_rc_def del: redo_from.simps)
  obtain A C where AC: "fold track rs ({}, {}) = (A, C)" by fastforce
  note walk = undo_walk [OF rs tail bs n AC]
  show "rec_undo s = on_rc (undo_records (rev (to_undo rs))) s"
    using walk s empty
    by (cases "bs = []") (simp_all add: rec_undo_def prog_simps on_rc_def to_undo_def del: find_txns.simps find_offsets.simps)
qed

lemma on_rc_then: "on_rc (thenE a b) s = thenE (on_rc a) (on_rc b) s"
  by (simp add: on_rc_def prog_simps split: prod.splits sum.splits)

section \<open>Properties\<close>

text \<open>C5 Recovery follows the log record by record: when the log file holds complete records, followed perhaps by the
  beginning of one whose writing was interrupted, then reading the file, redo and undo together do exactly
  this: repeat every change of the log in its order, then take back, last change first, the changes of every
  transaction without a commit record. The interrupted record is ignored, no record is skipped, misread
  or taken back twice, and all loops end.\<close>

theorem recovery_follows_log:
  assumes "log_ready (rc_disk s) (stream rs @ tail)" and "\<forall>r \<in> set rs. log_record_ok r" and "torn tail"
    and "length (stream rs @ tail) < 2 ^ 31" and "log_data s = []" and "log_data_size s = 0"
  shows "\<exists>e. same_files (rc_disk s) e \<and>
     thenE rec_analyze (thenE rec_redo rec_undo) s =
     on_rc (thenE (redo_records rs) (undo_records (rev (to_undo rs)))) (with_log (stream rs @ tail) e s)"
proof -
  obtain e where e: "rec_analyze s = (Inr (), with_log (stream rs @ tail) e s)" "same_files (rc_disk s) e"
    by (rule rec_analyze_run [OF assms(1,4-6)])
  let ?s = "with_log (stream rs @ tail) e s"
  have "rec_redo ?s = on_rc (redo_records rs) ?s"
    by (rule redo_undo_eq(1) [OF assms(2,3) refl assms(4)]) (simp_all add: with_log_def)
  moreover have "rec_undo t = on_rc (undo_records (rev (to_undo rs))) t" if "on_rc (redo_records rs) ?s = (Inr x, t)" for x t
    using on_rc_keeps_log [OF that]
    by (intro redo_undo_eq(2) [OF assms(2,3) refl assms(4)]) (simp_all add: with_log_def)
  ultimately show ?thesis using e by (auto simp: on_rc_then prog_simps split: prod.splits sum.splits intro!: exI [of _ e])
qed

text \<open>A crash after transaction 5 committed and transaction 6 inserted a record, in the middle of a log record.\<close>

definition crash_log :: "LogRecord list" where
  "crash_log = [new_InsertLogRecord 6 [1] \<lparr>page_no = 1, slot_no = 0\<rparr> [116],
     new_InsertLogRecord 5 [2] \<lparr>page_no = 1, slot_no = 1\<rparr> [116], new_CommitLogRecord 5]"

definition crash_bytes :: "byte list" where
  "crash_bytes = stream crash_log @ take 7 (serialize (new_CommitLogRecord 6))"

definition crash_state :: RecoveryManager where
  "crash_state = \<lparr>rc_db = \<lparr>s_pool = new_BufferPoolManager 2 (new_DiskManager
       \<lparr>os_names = [LOG_FILE_NAME \<mapsto> 0], os_data = (\<lambda>_. crash_bytes), os_inodes = 1, os_dirs = [], os_fds = [], os_max_fd = 16\<rparr>),
     s_meta = \<lparr>db_name = ''d'', db_tabs = []\<rparr>, s_fhs = Map.empty, s_ihs = Map.empty, s_locks = Map.empty,
     s_log = new_LogManager, s_txn = new_Transaction 7\<rparr>, log_data = [], log_data_size = 0\<rparr>"

lemma crash_log_ok: "\<forall>r \<in> set crash_log. log_record_ok r" "log_record_ok (new_CommitLogRecord 6)"
  by (simp_all add: crash_log_def new_InsertLogRecord_def new_CommitLogRecord_def new_header_def header_fits_def rid_fits_def
      fits_signed_def fits_unsigned_def INVALID_LSN_def log_offsets)

lemma crash_torn: "torn (take 7 (serialize (new_CommitLogRecord 6)))"
proof -
  have "drop 7 (serialize (new_CommitLogRecord 6)) \<noteq> []" by (simp add: new_CommitLogRecord_def)
  then show ?thesis using crash_log_ok(2) unfolding torn_def
    by (intro exI [of _ "new_CommitLogRecord 6"] exI [of _ "drop 7 (serialize (new_CommitLogRecord 6))"]) simp
qed

lemma crash_log_ready: "log_ready (rc_disk crash_state) crash_bytes"
  by (simp add: log_ready_def rc_disk_def crash_state_def new_BufferPoolManager_def new_DiskManager_def lowest_fd_def)

theorem recovery_follows_log_witness:
  "\<exists>e. thenE rec_analyze (thenE rec_redo rec_undo) crash_state =
     on_rc (thenE (redo_records crash_log) (undo_records [new_InsertLogRecord 6 [1] \<lparr>page_no = 1, slot_no = 0\<rparr> [116]]))
       (with_log crash_bytes e crash_state)"
proof -
  have "length crash_bytes < 2 ^ 31"
    by (simp add: crash_bytes_def stream_def crash_log_def new_InsertLogRecord_def new_CommitLogRecord_def)
  moreover have "to_undo crash_log = [new_InsertLogRecord 6 [1] \<lparr>page_no = 1, slot_no = 0\<rparr> [116]]"
    by (auto simp: to_undo_def crash_log_def committed_def rec_tid_def new_InsertLogRecord_def new_CommitLogRecord_def new_header_def)
  ultimately show ?thesis
    using recovery_follows_log [OF crash_log_ready [unfolded crash_bytes_def] crash_log_ok(1) crash_torn]
    by (auto simp: crash_bytes_def [symmetric] crash_state_def)
qed

end
