(* ===== verification/Printer.thy ===== *)
theory Printer
  imports Values
begin

text \<open>
  \<^verbatim>\<open>RecordPrinter\<close> (\<^verbatim>\<open>record_printer.h\<close>) and the send buffer of \<^verbatim>\<open>Context\<close> (\<^verbatim>\<open>common/context.h\<close>): the tables a client gets
  are printed into a buffer of \<^verbatim>\<open>BUFFER_LENGTH\<close> bytes, and the rows that do not fit are left out. The text of the buffer is
  what was written so far; \<^verbatim>\<open>*offset_\<close> is its length.
\<close>

definition BUFFER_LENGTH :: nat where "BUFFER_LENGTH = 8192"
definition RECORD_COUNT_LENGTH :: nat where "RECORD_COUNT_LENGTH = 40"
definition COL_WIDTH :: nat where "COL_WIDTH = 16"

record OutBuf =
  data_send :: string
  ellipsis :: bool

definition fits_in :: "OutBuf \<Rightarrow> string \<Rightarrow> bool" where
  "fits_in b str \<longleftrightarrow> \<not> ellipsis b \<and> length (data_send b) + RECORD_COUNT_LENGTH + length str < BUFFER_LENGTH"

definition append_out :: "string \<Rightarrow> OutBuf \<Rightarrow> OutBuf" where
  "append_out str b = b\<lparr>data_send := data_send b @ str\<rparr>"

definition put_or_stop :: "string \<Rightarrow> OutBuf \<Rightarrow> OutBuf" where
  "put_or_stop str b = (if fits_in b str then append_out str b else b\<lparr>ellipsis := True\<rparr>)"

definition print_separator :: "nat \<Rightarrow> OutBuf \<Rightarrow> OutBuf" where
  "print_separator num_cols b =
     put_or_stop ''+\<newline>'' (fold (\<lambda>i. put_or_stop (CHR ''+'' # replicate (COL_WIDTH + 2) (CHR ''-''))) [0..<num_cols] b)"

text \<open>\<^verbatim>\<open>std::setw\<close> pads on the left.\<close>

definition cell :: "string \<Rightarrow> string" where
  "cell col =
     (let c = (if length col > COL_WIDTH then take (COL_WIDTH - 3) col @ ''...'' else col) in
      ''| '' @ replicate (COL_WIDTH - length c) (CHR '' '') @ c @ '' '')"

text \<open>The end of the line is left out without setting the mark.\<close>

definition print_row :: "nat \<Rightarrow> string list \<Rightarrow> OutBuf \<Rightarrow> ('s, OutBuf) prog" where
  "print_row num_cols rec_str b =
     thenE (assertE (length rec_str = num_cols))
     (let b1 = fold (\<lambda>col. put_or_stop (cell col)) rec_str b in
      ret (if fits_in b1 ''|\<newline>'' then append_out ''|\<newline>'' b1 else b1))"

definition print_record_count :: "nat \<Rightarrow> OutBuf \<Rightarrow> OutBuf" where
  "print_record_count num_rec b =
     append_out ((if ellipsis b then ''... ...\<newline>'' else []) @ ''Total record(s): '' @ show_nat num_rec @ ''\<newline>'') b"

section \<open>The buffer is never overrun\<close>

definition out_ok :: "OutBuf \<Rightarrow> bool" where
  "out_ok b \<longleftrightarrow> length (data_send b) + RECORD_COUNT_LENGTH \<le> BUFFER_LENGTH"

lemma append_out_ok: "fits_in b str \<Longrightarrow> out_ok (append_out str b)"
  by (simp add: fits_in_def out_ok_def append_out_def)

lemma put_or_stop_ok: "out_ok b \<Longrightarrow> out_ok (put_or_stop str b)"
  using append_out_ok by (auto simp: put_or_stop_def out_ok_def)

lemma fold_ok: "(\<And>x b. out_ok b \<Longrightarrow> out_ok (f x b)) \<Longrightarrow> out_ok b \<Longrightarrow> out_ok (fold f xs b)"
  by (induction xs arbitrary: b) simp_all

lemma print_separator_ok: "out_ok b \<Longrightarrow> out_ok (print_separator n b)"
  unfolding print_separator_def by (intro put_or_stop_ok fold_ok)

lemma print_row_ok:
  assumes "out_ok b" "length rec_str = n"
  obtains b' where "print_row n rec_str b s = (Inr b', s)" "out_ok b'"
proof -
  let ?b1 = "fold (\<lambda>col. put_or_stop (cell col)) rec_str b"
  have "out_ok ?b1" by (rule fold_ok [OF put_or_stop_ok assms(1)])
  then show ?thesis
    using assms(2) append_out_ok [of ?b1]
    by (intro that [of "if fits_in ?b1 ''|\<newline>'' then append_out ''|\<newline>'' ?b1 else ?b1"])
      (auto simp: print_row_def prog_simps Let_def)
qed

lemma show_nat_length: "0 < k \<Longrightarrow> n < 10 ^ k \<Longrightarrow> length (show_nat n) \<le> k"
proof (induction n arbitrary: k rule: show_nat.induct)
  case (1 n)
  show ?case
  proof (cases "n < 10")
    case True
    then show ?thesis using 1(2) by (simp add: show_nat.simps [of n])
  next
    case False
    then obtain j where k: "k = Suc j" "0 < j" using 1(2,3) by (cases k; cases "k - 1") auto
    have "n div 10 < 10 ^ j" using 1(3) k(1) by (simp add: less_mult_imp_div_less mult.commute)
    then show ?thesis using 1(1) [OF False k(2)] False k(1) by (simp add: show_nat.simps [of n])
  qed
qed

lemma print_record_count_fits:
  assumes "out_ok b" "n < 10 ^ 14"
  shows "length (data_send (print_record_count n b)) \<le> BUFFER_LENGTH"
proof -
  have "length (show_nat n) \<le> 14" by (rule show_nat_length [OF _ assms(2)]) simp
  then show ?thesis using assms(1) by (auto simp: print_record_count_def append_out_def out_ok_def RECORD_COUNT_LENGTH_def)
qed

end
