(* ===== verification/Ast.thy ===== *)
theory Ast
  imports Values
begin

text \<open>
  \<^verbatim>\<open>parser/ast.h\<close>: the syntax trees the parser builds. A class hierarchy is a datatype with one constructor per
  class; a pointer that may be null is an option. \<^verbatim>\<open>jointree\<close> of a SELECT is never filled or read and is left out.
\<close>

datatype SvType = SV_TYPE_INT | SV_TYPE_FLOAT | SV_TYPE_STRING | SV_TYPE_BOOL | SV_TYPE_BIGINT | SV_TYPE_DATETIME

datatype SvCompOp = SV_OP_EQ | SV_OP_NE | SV_OP_LT | SV_OP_GT | SV_OP_LE | SV_OP_GE

datatype OrderByDir = OrderBy_DEFAULT | OrderBy_ASC | OrderBy_DESC

datatype SetKnobType = EnableNestLoop | EnableSortMerge

record TypeLen =
  tl_type :: SvType
  tl_len :: int

text \<open>A field of CREATE TABLE is a column definition or another subclass of \<^verbatim>\<open>Field\<close>.\<close>

datatype Field = SvColDef string TypeLen | OtherField

datatype SvValue = IntLit int bool | FloatLit f32 | StringLit "byte list" | BoolLit bool

record SvCol =
  sc_tab_name :: string
  sc_col_name :: string
  sc_agg_type :: AggType
  sc_alias :: string

datatype SvExpr = ValueExpr SvValue | ColExpr SvCol

record SvSetClause =
  ss_col :: string
  ss_val :: SvValue

record BinaryExpr =
  be_lhs :: SvCol
  be_op :: SvCompOp
  be_rhs :: SvExpr

record OrderBy =
  ob_cols :: "SvCol list"
  orderby_dirs :: "OrderByDir list"

text \<open>\<^verbatim>\<open>has_sort\<close> is set exactly when there is an \<^verbatim>\<open>order\<close>.\<close>

record Select =
  sl_cols :: "SvCol list"
  sl_tabs :: "string list"
  sl_conds :: "BinaryExpr list"
  sl_order :: "OrderBy option"
  has_limit :: bool
  limit_val :: int

datatype TreeNode =
    Help
  | ShowTables
  | ShowIndex string
  | DescTable string
  | TxnBegin
  | TxnCommit
  | TxnAbort
  | TxnRollback
  | CreateTable string "Field list"
  | DropTable string
  | CreateIndex string "string list"
  | DropIndex string "string list"
  | InsertStmt string "SvValue list"
  | DeleteStmt string "BinaryExpr list"
  | UpdateStmt string "SvSetClause list" "BinaryExpr list"
  | SelectStmt Select
  | SetStmt SetKnobType bool

end
