(* ===== verification/Analyze.thy ===== *)
theory Analyze
  imports Ast Predicates
begin

text \<open>
  \<^verbatim>\<open>analyze/analyze.cpp\<close>: the semantic analysis of a statement against the catalogue. Names are resolved, literals
  become values with their byte images, and types are checked. The analysis reads the catalogue and changes
  nothing. \<open>mem\<close> is what the memory of a fresh \<^verbatim>\<open>Value\<close>'s union happens to hold.
\<close>

section \<open>Query\<close>

record Query =
  q_parse :: TreeNode
  q_conds :: "Condition list"
  q_cols :: "TabCol list"
  q_tables :: "string list"
  q_set_clauses :: "SetClause list"
  q_values :: "Value list"

section \<open>Values\<close>

text \<open>The type of a fresh value is not set; it is given here as INT and never read before a setter has run.\<close>

definition new_Value :: "byte list \<Rightarrow> Value" where
  "new_Value mem = \<lparr>v_type = TYPE_INT, v_union = mem, str_val = [], v_raw = None\<rparr>"

definition convert_sv_value :: "byte list \<Rightarrow> SvValue \<Rightarrow> ('s, Value) prog" where
  "convert_sv_value mem sv =
     (case sv of
        IntLit i overflow \<Rightarrow>
          if overflow then raise (RMDBError ''Integer value out of BIGINT range'')
          else if i > 2147483647 \<or> i < -2147483648 then ret (set_bigint i (new_Value mem))
          else ret (set_int i (new_Value mem))
      | FloatLit f \<Rightarrow> ret (set_float f (new_Value mem))
      | StringLit s \<Rightarrow> ret (set_str s (new_Value mem))
      | BoolLit b \<Rightarrow> raise (InternalError ''Unexpected sv value type''))"

fun convert_sv_comp_op :: "SvCompOp \<Rightarrow> CompOp" where
  "convert_sv_comp_op SV_OP_EQ = OP_EQ"
| "convert_sv_comp_op SV_OP_NE = OP_NE"
| "convert_sv_comp_op SV_OP_LT = OP_LT"
| "convert_sv_comp_op SV_OP_GT = OP_GT"
| "convert_sv_comp_op SV_OP_LE = OP_LE"
| "convert_sv_comp_op SV_OP_GE = OP_GE"

text \<open>
  \<^verbatim>\<open>(int64_t)f\<close> truncates; for a NaN and for values outside the range the conversion is undefined and the
  execution is given up.
\<close>

definition f32_trunc :: "f32 \<Rightarrow> int" where
  "f32_trunc f =
     (let m = \<bar>f32_man f\<bar>; n = (if 149 \<le> f32_exp f then m * 2 ^ (f32_exp f - 149) else m div 2 ^ (149 - f32_exp f)) in
      if f32_neg f then - n else n)"

definition f32_to_i64 :: "f32 \<Rightarrow> ('s, int) prog" where
  "f32_to_i64 f =
     (if f32_nan f \<or> f32_mag f = f32_inf \<or> \<not> fits_signed 8 (f32_trunc f) then raise OutOfBounds else ret (f32_trunc f))"

definition is_num :: "ColType \<Rightarrow> bool" where
  "is_num ty \<longleftrightarrow> ty = TYPE_INT \<or> ty = TYPE_BIGINT \<or> ty = TYPE_FLOAT"

text \<open>The three tests for INT and FLOAT, INT and BIGINT, BIGINT and FLOAT, for types that differ.\<close>

definition compatible_types :: "ColType \<Rightarrow> ColType \<Rightarrow> bool" where
  "compatible_types a b \<longleftrightarrow> is_num a \<and> is_num b"

definition convert_num :: "ColType \<Rightarrow> Value \<Rightarrow> ('s, Value) prog" where
  "convert_num ty v =
     (if ty = TYPE_FLOAT then ret (set_float (f32_of_int (bigint_val v)) v)
      else if v_type v = TYPE_FLOAT
      then bindE (f32_to_i64 (float_val v)) (\<lambda>i. ret (v\<lparr>v_type := ty, v_union := enc_le 8 i\<rparr>))
      else ret (v\<lparr>v_type := ty\<rparr>))"

text \<open>A string for a DATETIME column is parsed.\<close>

definition to_datetime :: "ColType \<Rightarrow> Value \<Rightarrow> ('s, Value) prog" where
  "to_datetime ty v =
     (if ty = TYPE_DATETIME \<and> v_type v = TYPE_STRING
      then bindE (parse_datetime (str_of (str_val v))) (\<lambda>d. ret (set_datetime d v))
      else ret v)"

definition check_value :: "ColType \<Rightarrow> Value \<Rightarrow> ('s, Value) prog" where
  "check_value ty v =
     (if v_type v = ty then ret v
      else if compatible_types ty (v_type v) then convert_num ty v
      else raise (IncompatibleTypeError (coltype2str ty) (coltype2str (v_type v))))"

section \<open>Columns\<close>

fun infer_table :: "ColMeta list \<Rightarrow> string \<Rightarrow> string \<Rightarrow> ('s, string) prog" where
  "infer_table [] nm tab = ret tab"
| "infer_table (c # cs) nm tab =
     (if cm_name c = nm then if tab \<noteq> [] then raise (AmbiguousColumnError nm) else infer_table cs nm (cm_tab_name c)
      else infer_table cs nm tab)"

definition check_column :: "ColMeta list \<Rightarrow> TabCol \<Rightarrow> ('s, TabCol) prog" where
  "check_column all_cols target =
     (if tc_tab_name target = []
      then bindE (infer_table all_cols (tc_col_name target) []) (\<lambda>tab.
             if tab = [] then raise (ColumnNotFoundError (tc_col_name target))
             else ret (target\<lparr>tc_tab_name := tab\<rparr>))
      else if \<exists>c \<in> set all_cols. cm_tab_name c = tc_tab_name target \<and> cm_name c = tc_col_name target then ret target
      else raise (ColumnNotFoundError (tc_tab_name target @ ''.'' @ tc_col_name target)))"

fun get_all_cols :: "DbMeta \<Rightarrow> string list \<Rightarrow> ('s, ColMeta list) prog" where
  "get_all_cols db [] = ret []"
| "get_all_cols db (tab # tabs) =
     bindE (get_table db tab) (\<lambda>t. bindE (get_all_cols db tabs) (\<lambda>cs. ret (tm_cols t @ cs)))"

definition plain_col :: "string \<Rightarrow> string \<Rightarrow> TabCol" where
  "plain_col tab nm = \<lparr>tc_tab_name = tab, tc_col_name = nm, tc_alias = [], tc_agg_type = AGG_NONE\<rparr>"

section \<open>WHERE clauses\<close>

definition get_cond :: "byte list \<Rightarrow> BinaryExpr \<Rightarrow> ('s, Condition) prog" where
  "get_cond mem e =
     (let lhs = plain_col (sc_tab_name (be_lhs e)) (sc_col_name (be_lhs e)); op = convert_sv_comp_op (be_op e) in
      case be_rhs e of
        ValueExpr sv \<Rightarrow>
          bindE (convert_sv_value mem sv) (\<lambda>v.
          ret \<lparr>lhs_col = lhs, c_op = op, is_rhs_val = True, rhs_col = plain_col [] [], rhs_val = v\<rparr>)
      | ColExpr c \<Rightarrow>
          ret \<lparr>lhs_col = lhs, c_op = op, is_rhs_val = False, rhs_col = plain_col (sc_tab_name c) (sc_col_name c),
               rhs_val = new_Value mem\<rparr>)"

fun get_clause :: "byte list \<Rightarrow> BinaryExpr list \<Rightarrow> ('s, Condition list) prog" where
  "get_clause mem [] = ret []"
| "get_clause mem (e # es) =
     bindE (get_cond mem e) (\<lambda>c. bindE (get_clause mem es) (\<lambda>cs. ret (c # cs)))"

text \<open>The byte image is made before the types are compared, and not changed with the value afterwards.\<close>

definition check_cond :: "DbMeta \<Rightarrow> ColMeta list \<Rightarrow> Condition \<Rightarrow> ('s, Condition) prog" where
  "check_cond db all_cols cond =
     bindE (check_column all_cols (lhs_col cond)) (\<lambda>lhs.
     bindE (if is_rhs_val cond then ret (rhs_col cond) else check_column all_cols (rhs_col cond)) (\<lambda>rhs.
     bindE (get_table db (tc_tab_name lhs)) (\<lambda>lhs_tab.
     bindE (get_col lhs_tab (tc_col_name lhs)) (\<lambda>col.
       if is_rhs_val cond
       then bindE (to_datetime (cm_type col) (rhs_val cond)) (\<lambda>v1.
            bindE (init_raw (cm_len col) v1) (\<lambda>v2.
            bindE (check_value (cm_type col) v2) (\<lambda>v3.
            ret (cond\<lparr>lhs_col := lhs, rhs_val := v3\<rparr>))))
       else bindE (get_table db (tc_tab_name rhs)) (\<lambda>rhs_tab.
            bindE (get_col rhs_tab (tc_col_name rhs)) (\<lambda>rcol.
              if cm_type col = cm_type rcol \<or> compatible_types (cm_type col) (cm_type rcol)
              then ret (cond\<lparr>lhs_col := lhs, rhs_col := rhs\<rparr>)
              else raise (IncompatibleTypeError (coltype2str (cm_type col)) (coltype2str (cm_type rcol)))))))))"

fun check_conds :: "DbMeta \<Rightarrow> ColMeta list \<Rightarrow> Condition list \<Rightarrow> ('s, Condition list) prog" where
  "check_conds db all_cols [] = ret []"
| "check_conds db all_cols (c # cs) =
     bindE (check_cond db all_cols c) (\<lambda>c1. bindE (check_conds db all_cols cs) (\<lambda>cs1. ret (c1 # cs1)))"

definition check_clause :: "DbMeta \<Rightarrow> string list \<Rightarrow> Condition list \<Rightarrow> ('s, Condition list) prog" where
  "check_clause db tabs conds = bindE (get_all_cols db tabs) (\<lambda>cs. check_conds db cs conds)"

section \<open>Statements\<close>

fun check_tables :: "DbMeta \<Rightarrow> string list \<Rightarrow> ('s, unit) prog" where
  "check_tables db [] = ret ()"
| "check_tables db (tab # tabs) =
     (if is_table db tab then check_tables db tabs else raise (TableNotFoundError tab))"

definition sel_col :: "SvCol \<Rightarrow> TabCol" where
  "sel_col c = \<lparr>tc_tab_name = sc_tab_name c, tc_col_name = sc_col_name c, tc_alias = sc_alias c, tc_agg_type = sc_agg_type c\<rparr>"

fun check_sel_cols :: "ColMeta list \<Rightarrow> TabCol list \<Rightarrow> ('s, TabCol list) prog" where
  "check_sel_cols all_cols [] = ret []"
| "check_sel_cols all_cols (c # cs) =
     bindE (if tc_agg_type c = AGG_COUNT_STAR then ret c else check_column all_cols c) (\<lambda>c1.
     bindE (check_sel_cols all_cols cs) (\<lambda>cs1. ret (c1 # cs1)))"

definition analyze_set_clause :: "DbMeta \<Rightarrow> byte list \<Rightarrow> string \<Rightarrow> ColMeta list \<Rightarrow> SvSetClause \<Rightarrow> ('s, SetClause) prog" where
  "analyze_set_clause db mem tab all_cols sc =
     bindE (convert_sv_value mem (ss_val sc)) (\<lambda>v.
     bindE (check_column all_cols (plain_col tab (ss_col sc))) (\<lambda>lhs.
     bindE (get_table db tab) (\<lambda>t.
     bindE (get_col t (tc_col_name lhs)) (\<lambda>col.
     bindE (to_datetime (cm_type col) v) (\<lambda>v1.
     bindE (check_value (cm_type col) v1) (\<lambda>v2.
     ret \<lparr>sc_lhs = lhs, sc_rhs = v2\<rparr>))))))"

fun analyze_set_clauses :: "DbMeta \<Rightarrow> byte list \<Rightarrow> string \<Rightarrow> ColMeta list \<Rightarrow> SvSetClause list \<Rightarrow> ('s, SetClause list) prog" where
  "analyze_set_clauses db mem tab all_cols [] = ret []"
| "analyze_set_clauses db mem tab all_cols (sc # scs) =
     bindE (analyze_set_clause db mem tab all_cols sc) (\<lambda>c.
     bindE (analyze_set_clauses db mem tab all_cols scs) (\<lambda>cs. ret (c # cs)))"

fun convert_values :: "byte list \<Rightarrow> SvValue list \<Rightarrow> ('s, Value list) prog" where
  "convert_values mem [] = ret []"
| "convert_values mem (sv # svs) =
     bindE (convert_sv_value mem sv) (\<lambda>v. bindE (convert_values mem svs) (\<lambda>vs. ret (v # vs)))"

definition new_Query :: "TreeNode \<Rightarrow> Query" where
  "new_Query p = \<lparr>q_parse = p, q_conds = [], q_cols = [], q_tables = [], q_set_clauses = [], q_values = []\<rparr>"

definition analyze_select :: "DbMeta \<Rightarrow> byte list \<Rightarrow> Select \<Rightarrow> ('s, Query) prog" where
  "analyze_select db mem x =
     thenE (check_tables db (sl_tabs x))
     (bindE (get_all_cols db (sl_tabs x)) (\<lambda>all_cols.
      bindE (if sl_cols x = [] then ret (map (\<lambda>c. plain_col (cm_tab_name c) (cm_name c)) all_cols)
             else check_sel_cols all_cols (map sel_col (sl_cols x))) (\<lambda>cols.
      bindE (get_clause mem (sl_conds x)) (\<lambda>cs.
      bindE (check_clause db (sl_tabs x) cs) (\<lambda>conds.
      ret ((new_Query (SelectStmt x))\<lparr>q_tables := sl_tabs x, q_cols := cols, q_conds := conds\<rparr>))))))"

definition do_analyze :: "DbMeta \<Rightarrow> byte list \<Rightarrow> TreeNode \<Rightarrow> ('s, Query) prog" where
  "do_analyze db mem parse =
     (case parse of
        SelectStmt x \<Rightarrow> analyze_select db mem x
      | UpdateStmt tab scs es \<Rightarrow>
          if \<not> is_table db tab then raise (TableNotFoundError tab)
          else bindE (get_all_cols db [tab]) (\<lambda>all_cols.
               bindE (analyze_set_clauses db mem tab all_cols scs) (\<lambda>clauses.
               bindE (get_clause mem es) (\<lambda>cs.
               bindE (check_clause db [tab] cs) (\<lambda>conds.
               ret ((new_Query parse)\<lparr>q_tables := [tab], q_set_clauses := clauses, q_conds := conds\<rparr>)))))
      | DeleteStmt tab es \<Rightarrow>
          if \<not> is_table db tab then raise (TableNotFoundError tab)
          else bindE (get_clause mem es) (\<lambda>cs.
               bindE (check_clause db [tab] cs) (\<lambda>conds.
               ret ((new_Query parse)\<lparr>q_conds := conds\<rparr>)))
      | InsertStmt tab vals \<Rightarrow>
          if \<not> is_table db tab then raise (TableNotFoundError tab)
          else bindE (convert_values mem vals) (\<lambda>vs. ret ((new_Query parse)\<lparr>q_values := vs\<rparr>))
      | _ \<Rightarrow> ret (new_Query parse))"

section \<open>What the analysis promises\<close>

text \<open>A catalogue whose columns carry the name of their table.\<close>

definition meta_ok :: "DbMeta \<Rightarrow> bool" where
  "meta_ok db \<longleftrightarrow> (\<forall>nm t. map_of (db_tabs db) nm = Some t \<longrightarrow> nm \<noteq> [] \<and> (\<forall>c \<in> set (tm_cols t). cm_tab_name c = nm))"

text \<open>A column reference names the column \<open>c\<close> of one of the tables.\<close>

definition names :: "DbMeta \<Rightarrow> string list \<Rightarrow> TabCol \<Rightarrow> ColMeta \<Rightarrow> bool" where
  "names db tabs tc c \<longleftrightarrow> (\<exists>t. tc_tab_name tc \<in> set tabs \<and> map_of (db_tabs db) (tc_tab_name tc) = Some t \<and>
     List.find (\<lambda>c. cm_name c = tc_col_name tc) (tm_cols t) = Some c)"

definition value_typed :: "ColMeta \<Rightarrow> Value \<Rightarrow> bool" where
  "value_typed c v \<longleftrightarrow> v_type v = cm_type c"

definition image_fits :: "ColMeta \<Rightarrow> Value \<Rightarrow> bool" where
  "image_fits c v \<longleftrightarrow> (\<exists>raw. v_raw v = Some raw \<and> int (length raw) = cm_len c)"

definition cond_typed :: "DbMeta \<Rightarrow> string list \<Rightarrow> Condition \<Rightarrow> bool" where
  "cond_typed db tabs cond \<longleftrightarrow> (\<exists>c. names db tabs (lhs_col cond) c \<and>
     (if is_rhs_val cond then value_typed c (rhs_val cond) \<and> image_fits c (rhs_val cond)
      else \<exists>d. names db tabs (rhs_col cond) d \<and> (cm_type c = cm_type d \<or> compatible_types (cm_type c) (cm_type d))))"

text \<open>A reference means the same after the analysis: the column name stays, and a table name is only added.\<close>

definition same_ref :: "TabCol \<Rightarrow> TabCol \<Rightarrow> bool" where
  "same_ref a b \<longleftrightarrow> tc_col_name b = tc_col_name a \<and> (tc_tab_name a \<noteq> [] \<longrightarrow> tc_tab_name b = tc_tab_name a) \<and>
     tc_alias b = tc_alias a \<and> tc_agg_type b = tc_agg_type a"

definition cond_of :: "BinaryExpr \<Rightarrow> Condition \<Rightarrow> bool" where
  "cond_of e c \<longleftrightarrow> c_op c = convert_sv_comp_op (be_op e) \<and>
     same_ref (plain_col (sc_tab_name (be_lhs e)) (sc_col_name (be_lhs e))) (lhs_col c) \<and>
     (case be_rhs e of
        ValueExpr sv \<Rightarrow> is_rhs_val c
      | ColExpr r \<Rightarrow> \<not> is_rhs_val c \<and> same_ref (plain_col (sc_tab_name r) (sc_col_name r)) (rhs_col c))"

lemma same_ref_refl [simp]: "same_ref a a"
  by (simp add: same_ref_def)

section \<open>Proofs\<close>

lemma get_table_Inr: "get_table db nm s = (Inr t, u) \<longleftrightarrow> map_of (db_tabs db) nm = Some t \<and> u = s"
  by (auto simp: get_table_def prog_simps split: option.splits)

lemma get_col_Inr: "get_col tab nm s = (Inr c, u) \<longleftrightarrow> List.find (\<lambda>c. cm_name c = nm) (tm_cols tab) = Some c \<and> u = s"
  by (auto simp: get_col_def prog_simps split: option.splits)

lemma all_cols_Inr:
  "get_all_cols db tabs s = (Inr cs, u) \<Longrightarrow> u = s \<and> (\<forall>tab \<in> set tabs. map_of (db_tabs db) tab \<noteq> None) \<and>
     (\<forall>c. c \<in> set cs \<longleftrightarrow> (\<exists>nm t. nm \<in> set tabs \<and> map_of (db_tabs db) nm = Some t \<and> c \<in> set (tm_cols t)))"
proof (induction tabs arbitrary: cs u)
  case (Cons tab tabs)
  obtain t ds where t: "map_of (db_tabs db) tab = Some t" "get_all_cols db tabs s = (Inr ds, u)" "cs = tm_cols t @ ds"
    using Cons.prems by (auto simp: prog_Inr_iff get_table_Inr)
  then show ?case using Cons.IH [OF t(2)] by auto
qed (simp add: prog_Inr_iff)

lemma infer_table_Inr:
  assumes "infer_table cs nm tab s = (Inr r, u)" "\<forall>c \<in> set cs. cm_tab_name c \<noteq> []"
  shows "u = s \<and> (r = tab \<or> (\<exists>c \<in> set cs. cm_name c = nm \<and> cm_tab_name c = r))"
  using assms
proof (induction cs arbitrary: tab)
  case (Cons a cs)
  show ?case
  proof (cases "cm_name a = nm")
    case True
    then show ?thesis using Cons.IH [of "cm_tab_name a"] Cons.prems by (cases "tab = []") (auto simp: prog_Inr_iff)
  next
    case False
    then show ?thesis using Cons.IH [of tab] Cons.prems by (cases "tab = []") (auto simp: prog_Inr_iff)
  qed
qed (simp add: prog_Inr_iff)

lemma check_column_Inr:
  assumes "check_column cs tc s = (Inr r, u)" "\<forall>c \<in> set cs. cm_tab_name c \<noteq> []"
  shows "u = s \<and> same_ref tc r \<and> (\<exists>c \<in> set cs. cm_tab_name c = tc_tab_name r \<and> cm_name c = tc_col_name r)"
proof (cases "tc_tab_name tc = []")
  case True
  then obtain tab where t: "infer_table cs (tc_col_name tc) [] s = (Inr tab, u)" "tab \<noteq> []" "r = tc\<lparr>tc_tab_name := tab\<rparr>"
    using assms(1) by (auto simp: check_column_def prog_Inr_iff split: if_splits)
  then show ?thesis using infer_table_Inr [OF t(1) assms(2)] True by (auto simp: same_ref_def)
next
  case False
  then show ?thesis using assms(1) by (auto simp: check_column_def prog_Inr_iff split: if_splits)
qed

lemma find_some_names:
  assumes "c \<in> set cs" "cm_name c = nm"
  shows "\<exists>d. List.find (\<lambda>c. cm_name c = nm) cs = Some d"
  using assms by (cases "List.find (\<lambda>c. cm_name c = nm) cs") (auto simp: find_None_iff)

text \<open>A checked column names a column of the tables, and the lookup in the catalogue finds it.\<close>

lemma checked_names:
  assumes ok: "meta_ok db" and cs: "get_all_cols db tabs s0 = (Inr cs, s1)" and r: "check_column cs tc s = (Inr r, u)"
  shows "u = s \<and> same_ref tc r \<and> (\<exists>c. names db tabs r c)"
    and "get_table db (tc_tab_name r) s' = (Inr t, u') \<Longrightarrow> get_col t (tc_col_name r) s'' = (Inr c, u'') \<Longrightarrow> names db tabs r c \<and> u' = s' \<and> u'' = s''"
proof -
  note a = all_cols_Inr [OF cs]
  have tab: "tc_tab_name r \<in> set tabs \<and> (\<exists>t. map_of (db_tabs db) (tc_tab_name r) = Some t \<and> (\<exists>c \<in> set (tm_cols t). cm_name c = tc_col_name r))"
    if h: "c \<in> set cs" "cm_tab_name c = tc_tab_name r" "cm_name c = tc_col_name r" for c
  proof -
    obtain nm t where t: "nm \<in> set tabs" "map_of (db_tabs db) nm = Some t" "c \<in> set (tm_cols t)" using a h(1) by blast
    then have "cm_tab_name c = nm" using ok by (auto simp: meta_ok_def)
    then show ?thesis using t h by auto
  qed
  have "\<forall>c \<in> set cs. cm_tab_name c \<noteq> []" using a ok unfolding meta_ok_def by metis
  then have c: "u = s \<and> same_ref tc r \<and> (\<exists>c \<in> set cs. cm_tab_name c = tc_tab_name r \<and> cm_name c = tc_col_name r)"
    by (rule check_column_Inr [OF r])
  then have t: "tc_tab_name r \<in> set tabs" using tab by blast
  show "u = s \<and> same_ref tc r \<and> (\<exists>c. names db tabs r c)"
    using c tab find_some_names unfolding names_def by metis
  show "names db tabs r c \<and> u' = s' \<and> u'' = s''"
    if "get_table db (tc_tab_name r) s' = (Inr t, u')" "get_col t (tc_col_name r) s'' = (Inr c, u'')"
    using that t by (auto simp: get_table_Inr get_col_Inr names_def)
qed

lemma stoi_state: "stoi str s = (r, u) \<Longrightarrow> u = s"
  by (auto simp: stoi_def prog_simps Let_def split: if_splits)

lemma parse_datetime_state: "parse_datetime str s = (Inr d, u) \<Longrightarrow> u = s"
  by (auto simp: parse_datetime_def check_datetime_def prog_Inr_iff split: if_splits dest!: stoi_state)

lemma to_datetime_Inr: "to_datetime ty v s = (Inr w, u) \<Longrightarrow> v_raw w = v_raw v \<and> u = s"
  by (auto simp: to_datetime_def set_datetime_def prog_Inr_iff split: if_splits dest: parse_datetime_state)

lemma init_raw_Inr: "init_raw len v s = (Inr w, u) \<Longrightarrow> u = s \<and> v_type w = v_type v \<and> (\<exists>raw. v_raw w = Some raw \<and> int (length raw) = len)"
  by (auto simp: init_raw_def prog_Inr_iff split: ColType.splits if_splits)

lemma convert_num_Inr: "convert_num ty v s = (Inr w, u) \<Longrightarrow> u = s \<and> v_type w = ty \<and> v_raw w = v_raw v"
  by (auto simp: convert_num_def set_float_def f32_to_i64_def prog_Inr_iff split: if_splits)

lemma check_value_Inr: "check_value ty v s = (Inr w, u) \<Longrightarrow> u = s \<and> v_type w = ty \<and> v_raw w = v_raw v"
  by (auto simp: check_value_def prog_Inr_iff split: if_splits dest: convert_num_Inr)

lemma convert_sv_value_Inr: "convert_sv_value mem sv s = (Inr v, u) \<Longrightarrow> u = s \<and> v_raw v = None"
  by (auto simp: convert_sv_value_def set_int_def set_bigint_def set_float_def set_str_def new_Value_def prog_Inr_iff
      split: SvValue.splits if_splits)

lemma get_clause_Inr: "get_clause mem es s = (Inr cs, u) \<Longrightarrow> u = s \<and> list_all2 cond_of es cs"
proof (induction es arbitrary: cs u)
  case (Cons e es)
  obtain c ds v where c: "get_cond mem e s = (Inr c, v)" "get_clause mem es v = (Inr ds, u)" "cs = c # ds"
    using Cons.prems by (auto simp: prog_Inr_iff)
  have "v = s \<and> cond_of e c"
    using c(1) by (auto simp: get_cond_def cond_of_def Let_def prog_Inr_iff split: SvExpr.splits dest!: convert_sv_value_Inr)
  then show ?case using Cons.IH [of ds u] c by auto
qed (simp add: prog_Inr_iff)

lemma same_ref_trans: "same_ref a b \<Longrightarrow> same_ref b c \<Longrightarrow> same_ref a c"
  by (auto simp: same_ref_def)

lemma check_cond_Inr:
  assumes ok: "meta_ok db" and cs: "get_all_cols db tabs s0 = (Inr cs, s1)" and r: "check_cond db cs cond s = (Inr r, u)"
  shows "u = s \<and> cond_typed db tabs r \<and> c_op r = c_op cond \<and> is_rhs_val r = is_rhs_val cond \<and>
    same_ref (lhs_col cond) (lhs_col r) \<and> (\<not> is_rhs_val cond \<longrightarrow> same_ref (rhs_col cond) (rhs_col r))"
proof -
  note nm = checked_names [OF ok cs]
  obtain lhs t s2 s3 s4 s5 col where lhs: "check_column cs (lhs_col cond) s = (Inr lhs, s2)"
      "(if is_rhs_val cond then ret (rhs_col cond) else check_column cs (rhs_col cond)) s2 = (Inr t, s3)"
    and rest: "\<exists>lt. get_table db (tc_tab_name lhs) s3 = (Inr lt, s4) \<and> get_col lt (tc_col_name lhs) s4 = (Inr col, s5)"
    and r2: "(if is_rhs_val cond
       then bindE (to_datetime (cm_type col) (rhs_val cond)) (\<lambda>v1. bindE (init_raw (cm_len col) v1) (\<lambda>v2.
            bindE (check_value (cm_type col) v2) (\<lambda>v3. ret (cond\<lparr>lhs_col := lhs, rhs_val := v3\<rparr>))))
       else bindE (get_table db (tc_tab_name t)) (\<lambda>rhs_tab. bindE (get_col rhs_tab (tc_col_name t)) (\<lambda>rcol.
              if cm_type col = cm_type rcol \<or> compatible_types (cm_type col) (cm_type rcol)
              then ret (cond\<lparr>lhs_col := lhs, rhs_col := t\<rparr>)
              else raise (IncompatibleTypeError (coltype2str (cm_type col)) (coltype2str (cm_type rcol)))))) s5 = (Inr r, u)"
    using r unfolding check_cond_def bindE_Inr_iff by blast
  have l: "s2 = s" "same_ref (lhs_col cond) lhs" "names db tabs lhs col" "s4 = s3" "s5 = s3"
  proof -
    obtain lt where lt: "get_table db (tc_tab_name lhs) s3 = (Inr lt, s4)" "get_col lt (tc_col_name lhs) s4 = (Inr col, s5)"
      using rest by blast
    show "s2 = s" "same_ref (lhs_col cond) lhs" "names db tabs lhs col" "s4 = s3" "s5 = s3"
      using nm(1) [OF lhs(1)] nm(2) [OF lhs(1) lt] by simp_all
  qed
  show ?thesis
  proof (cases "is_rhs_val cond")
    case True
    then obtain v1 v2 v3 s6 s7 s8 where v: "to_datetime (cm_type col) (rhs_val cond) s5 = (Inr v1, s6)" "init_raw (cm_len col) v1 s6 = (Inr v2, s7)"
        "check_value (cm_type col) v2 s7 = (Inr v3, s8)" "r = cond\<lparr>lhs_col := lhs, rhs_val := v3\<rparr>" "u = s8"
      using r2 by (auto simp: prog_Inr_iff)
    have "s3 = s" using lhs(2) True l(1) by (simp add: prog_Inr_iff)
    then show ?thesis
      using l True v to_datetime_Inr [OF v(1)] init_raw_Inr [OF v(2)] check_value_Inr [OF v(3)]
      by (auto simp: cond_typed_def value_typed_def image_fits_def)
  next
    case False
    then have t: "check_column cs (rhs_col cond) s2 = (Inr t, s3)" using lhs(2) by simp
    obtain rt rc s6 s7 where rc: "get_table db (tc_tab_name t) s5 = (Inr rt, s6)" "get_col rt (tc_col_name t) s6 = (Inr rc, s7)"
        "cm_type col = cm_type rc \<or> compatible_types (cm_type col) (cm_type rc)" "r = cond\<lparr>lhs_col := lhs, rhs_col := t\<rparr>" "u = s7"
      using r2 False by (auto simp: prog_Inr_iff split: if_splits)
    show ?thesis
      using nm(1) [OF t] nm(2) [OF t rc(1,2)] l False rc(3-5) by (auto simp: cond_typed_def)
  qed
qed

lemma check_conds_Inr:
  assumes ok: "meta_ok db" and cs: "get_all_cols db tabs s0 = (Inr cs, s1)"
    and r: "check_conds db cs conds s = (Inr rs, u)" and es: "list_all2 cond_of es conds"
  shows "u = s \<and> (\<forall>c \<in> set rs. cond_typed db tabs c) \<and> list_all2 cond_of es rs"
  using r es
proof (induction conds arbitrary: es rs)
  case (Cons c conds)
  obtain e es' where e: "es = e # es'" "cond_of e c" "list_all2 cond_of es' conds" using Cons.prems(2) by (auto simp: list_all2_Cons2)
  obtain d ds v where d: "check_cond db cs c s = (Inr d, v)" "check_conds db cs conds v = (Inr ds, u)" "rs = d # ds"
    using Cons.prems(1) by (auto simp: prog_Inr_iff)
  note k = check_cond_Inr [OF ok cs d(1)]
  have "cond_of e d" using k e(2) by (auto simp: cond_of_def split: SvExpr.splits intro: same_ref_trans)
  then show ?case using k Cons.IH [of ds es'] d e by auto
qed (simp add: prog_Inr_iff)

lemma where_clause_typed:
  assumes ok: "meta_ok db" and g: "get_clause mem es s = (Inr cs, u)" "check_clause db tabs cs u = (Inr rs, w)"
  shows "w = s \<and> (\<forall>c \<in> set rs. cond_typed db tabs c) \<and> list_all2 cond_of es rs"
proof -
  obtain all v where a: "get_all_cols db tabs u = (Inr all, v)" "check_conds db all cs v = (Inr rs, w)"
    using g(2) by (auto simp: check_clause_def prog_Inr_iff)
  have c: "u = s" "list_all2 cond_of es cs" "v = u" using get_clause_Inr [OF g(1)] all_cols_Inr [OF a(1)] by simp_all
  show ?thesis using check_conds_Inr [OF ok a c(2)] c(1,3) by simp
qed

definition sel_typed :: "DbMeta \<Rightarrow> string list \<Rightarrow> TabCol \<Rightarrow> TabCol \<Rightarrow> bool" where
  "sel_typed db tabs a b \<longleftrightarrow> same_ref a b \<and> (tc_agg_type b = AGG_COUNT_STAR \<or> (\<exists>c. names db tabs b c))"

lemma check_sel_cols_Inr:
  assumes ok: "meta_ok db" and cs: "get_all_cols db tabs s0 = (Inr cs, s1)" and r: "check_sel_cols cs sels s = (Inr rs, u)"
  shows "u = s \<and> list_all2 (sel_typed db tabs) sels rs"
  using r
proof (induction sels arbitrary: rs)
  case (Cons c sels)
  obtain d ds v where d: "(if tc_agg_type c = AGG_COUNT_STAR then ret c else check_column cs c) s = (Inr d, v)"
      "check_sel_cols cs sels v = (Inr ds, u)" "rs = d # ds"
    using Cons.prems by (auto simp: prog_Inr_iff)
  have "v = s \<and> sel_typed db tabs c d"
    using d(1) checked_names(1) [OF ok cs, of c s d v] by (auto simp: sel_typed_def prog_Inr_iff split: if_splits)
  then show ?case using Cons.IH [of ds] d by auto
qed (simp add: prog_Inr_iff)

definition clause_typed :: "DbMeta \<Rightarrow> string \<Rightarrow> SvSetClause \<Rightarrow> SetClause \<Rightarrow> bool" where
  "clause_typed db tab sc c \<longleftrightarrow> tc_col_name (sc_lhs c) = ss_col sc \<and> v_raw (sc_rhs c) = None \<and>
     (\<exists>col. names db [tab] (sc_lhs c) col \<and> value_typed col (sc_rhs c))"

lemma set_clauses_typed:
  assumes ok: "meta_ok db" and cs: "get_all_cols db [tab] s0 = (Inr cs, s1)" and r: "analyze_set_clauses db mem tab cs scs s = (Inr rs, u)"
  shows "u = s \<and> list_all2 (clause_typed db tab) scs rs"
  using r
proof (induction scs arbitrary: rs)
  case (Cons sc scs)
  obtain d ds w where d: "analyze_set_clause db mem tab cs sc s = (Inr d, w)" "analyze_set_clauses db mem tab cs scs w = (Inr ds, u)" "rs = d # ds"
    using Cons.prems by (auto simp: prog_Inr_iff)
  obtain v lhs t col v1 v2 a1 a2 a3 a4 a5 where v: "convert_sv_value mem (ss_val sc) s = (Inr v, a1)"
      "check_column cs (plain_col tab (ss_col sc)) a1 = (Inr lhs, a2)" "get_table db tab a2 = (Inr t, a3)"
      "get_col t (tc_col_name lhs) a3 = (Inr col, a4)" "to_datetime (cm_type col) v a4 = (Inr v1, a5)"
      "check_value (cm_type col) v1 a5 = (Inr v2, w)" "d = \<lparr>sc_lhs = lhs, sc_rhs = v2\<rparr>"
    using d(1) by (auto simp: analyze_set_clause_def prog_Inr_iff)
  note n = checked_names [OF ok cs v(2)]
  have "tc_tab_name lhs = tab"
    using n(1) by (auto simp: names_def)
  then have "names db [tab] lhs col \<and> a3 = a2 \<and> a4 = a3" using n(2) [OF _ v(4), of a2 a3] v(3) by simp
  then have "w = s \<and> clause_typed db tab sc d"
    using n(1) v(7) convert_sv_value_Inr [OF v(1)] to_datetime_Inr [OF v(5)] check_value_Inr [OF v(6)]
    by (auto simp: clause_typed_def value_typed_def same_ref_def plain_col_def)
  then show ?case using Cons.IH [of ds] d by auto
qed (simp add: prog_Inr_iff)

lemma convert_values_Inr: "convert_values mem svs s = (Inr vs, u) \<Longrightarrow> u = s \<and> list_all2 (\<lambda>sv v. convert_sv_value mem sv s = (Inr v, s)) svs vs"
proof (induction svs arbitrary: vs)
  case (Cons sv svs)
  obtain v ws w where v: "convert_sv_value mem sv s = (Inr v, w)" "convert_values mem svs w = (Inr ws, u)" "vs = v # ws"
    using Cons.prems by (auto simp: prog_Inr_iff)
  then show ?case using Cons.IH [of ws] convert_sv_value_Inr [OF v(1)] by auto
qed (simp add: prog_Inr_iff)

lemma check_tables_Inr: "check_tables db tabs s = (Inr r, u) \<Longrightarrow> u = s \<and> (\<forall>tab \<in> set tabs. is_table db tab)"
  by (induction tabs) (auto simp: prog_Inr_iff split: if_splits)

text \<open>What each kind of statement becomes.\<close>

definition select_typed :: "DbMeta \<Rightarrow> Select \<Rightarrow> Query \<Rightarrow> bool" where
  "select_typed db x q \<longleftrightarrow> q_parse q = SelectStmt x \<and> q_tables q = sl_tabs x \<and> (\<forall>tab \<in> set (sl_tabs x). is_table db tab) \<and>
     (sl_cols x \<noteq> [] \<longrightarrow> list_all2 (sel_typed db (sl_tabs x)) (map sel_col (sl_cols x)) (q_cols q)) \<and>
     (sl_cols x = [] \<longrightarrow> q_cols q = map (\<lambda>c. plain_col (cm_tab_name c) (cm_name c))
        (concat (map (\<lambda>tab. tm_cols (the (map_of (db_tabs db) tab))) (sl_tabs x)))) \<and>
     list_all2 cond_of (sl_conds x) (q_conds q) \<and> (\<forall>c \<in> set (q_conds q). cond_typed db (sl_tabs x) c)"

definition query_typed :: "DbMeta \<Rightarrow> TreeNode \<Rightarrow> Query \<Rightarrow> bool" where
  "query_typed db parse q \<longleftrightarrow>
     (case parse of
        SelectStmt x \<Rightarrow> select_typed db x q
      | UpdateStmt tab scs es \<Rightarrow> is_table db tab \<and> list_all2 (clause_typed db tab) scs (q_set_clauses q) \<and>
          list_all2 cond_of es (q_conds q) \<and> (\<forall>c \<in> set (q_conds q). cond_typed db [tab] c)
      | DeleteStmt tab es \<Rightarrow> is_table db tab \<and> list_all2 cond_of es (q_conds q) \<and> (\<forall>c \<in> set (q_conds q). cond_typed db [tab] c)
      | InsertStmt tab svs \<Rightarrow> is_table db tab \<and> length (q_values q) = length svs \<and> (\<forall>v \<in> set (q_values q). v_raw v = None)
      | _ \<Rightarrow> q = new_Query parse)"

lemma all_cols_list:
  "get_all_cols db tabs s = (Inr cs, u) \<Longrightarrow> cs = concat (map (\<lambda>tab. tm_cols (the (map_of (db_tabs db) tab))) tabs)"
  by (induction tabs arbitrary: cs u) (auto simp: prog_Inr_iff get_table_Inr)

lemma analyze_select_typed:
  assumes ok: "meta_ok db" and r: "analyze_select db mem x s = (Inr q, u)"
  shows "u = s \<and> select_typed db x q"
proof -
  obtain r0 s1 all s2 cols s3 cs s4 conds where h: "check_tables db (sl_tabs x) s = (Inr r0, s1)" "get_all_cols db (sl_tabs x) s1 = (Inr all, s2)"
      "(if sl_cols x = [] then ret (map (\<lambda>c. plain_col (cm_tab_name c) (cm_name c)) all) else check_sel_cols all (map sel_col (sl_cols x))) s2 = (Inr cols, s3)"
      "get_clause mem (sl_conds x) s3 = (Inr cs, s4)" "check_clause db (sl_tabs x) cs s4 = (Inr conds, u)"
      "q = (new_Query (SelectStmt x))\<lparr>q_tables := sl_tabs x, q_cols := cols, q_conds := conds\<rparr>"
    using r unfolding analyze_select_def thenE_Inr_iff bindE_Inr_iff ret_Inr_iff by blast
  have t: "s1 = s" "\<forall>tab \<in> set (sl_tabs x). is_table db tab" "s2 = s1" using check_tables_Inr [OF h(1)] all_cols_Inr [OF h(2)] by auto
  have c: "s3 = s2 \<and> (sl_cols x \<noteq> [] \<longrightarrow> list_all2 (sel_typed db (sl_tabs x)) (map sel_col (sl_cols x)) cols) \<and>
     (sl_cols x = [] \<longrightarrow> cols = map (\<lambda>c. plain_col (cm_tab_name c) (cm_name c))
        (concat (map (\<lambda>tab. tm_cols (the (map_of (db_tabs db) tab))) (sl_tabs x))))"
  proof (cases "sl_cols x = []")
    case True
    then show ?thesis using h(3) all_cols_list [OF h(2)] by (simp add: prog_Inr_iff)
  next
    case False
    then show ?thesis using h(3) check_sel_cols_Inr [OF ok h(2), of "map sel_col (sl_cols x)" s2 cols s3] by simp
  qed
  show ?thesis using t c h(6) where_clause_typed [OF ok h(4,5)] by (simp add: select_typed_def new_Query_def)
qed

section \<open>A small catalogue\<close>

definition demo_meta :: DbMeta where
  "demo_meta = \<lparr>db_name = ''db'', db_tabs = [(''t'', \<lparr>tm_name = ''t'', tm_cols =
     [\<lparr>cm_tab_name = ''t'', cm_name = ''a'', cm_type = TYPE_INT, cm_len = 4, cm_offset = 0, cm_index = False\<rparr>,
      \<lparr>cm_tab_name = ''t'', cm_name = ''f'', cm_type = TYPE_FLOAT, cm_len = 4, cm_offset = 4, cm_index = False\<rparr>], indexes = []\<rparr>)]\<rparr>"

definition demo_sv_col :: "string \<Rightarrow> SvCol" where
  "demo_sv_col nm = \<lparr>sc_tab_name = [], sc_col_name = nm, sc_agg_type = AGG_NONE, sc_alias = []\<rparr>"

definition demo_select :: Select where
  "demo_select = \<lparr>sl_cols = [demo_sv_col ''f''], sl_tabs = [''t''],
     sl_conds = [\<lparr>be_lhs = demo_sv_col ''a'', be_op = SV_OP_GT, be_rhs = ValueExpr (IntLit 5 False)\<rparr>,
                 \<lparr>be_lhs = demo_sv_col ''a'', be_op = SV_OP_LE, be_rhs = ColExpr (demo_sv_col ''f'')\<rparr>],
     sl_order = None, has_limit = False, limit_val = 0\<rparr>"

text \<open>A FLOAT column compared with the literal 5: the value is converted, and its byte image stays the integer.\<close>

lemma analyze_stale_image:
  "\<exists>c. bindE (get_clause (replicate 8 0) [\<lparr>be_lhs = demo_sv_col ''f'', be_op = SV_OP_GT, be_rhs = ValueExpr (IntLit 5 False)\<rparr>])
        (check_clause demo_meta [''t'']) () = (Inr [c], ()) \<and>
     float_val (rhs_val c) = 0x40A00000 \<and> v_raw (rhs_val c) = Some (enc_le 4 5)"
proof -
  have f: "f32_of_int 5 = 0x40A00000" by code_simp
  have five: "bigint_val \<lparr>v_type = TYPE_INT, v_union = enc_le 8 5, str_val = [], v_raw = r\<rparr> = 5" for r
    by (simp add: bigint_val_def dec_signed_enc fits_signed_def)
  have fl: "float_val (set_float 0x40A00000 v) = 0x40A00000" for v
    by (simp add: float_val_def set_float_def write_at_def dec_le_unsigned fits_unsigned_def)
  show ?thesis
    by (simp add: demo_meta_def demo_sv_col_def prog_simps get_table_def get_col_def check_column_def get_cond_def convert_sv_value_def
        check_clause_def check_cond_def plain_col_def to_datetime_def set_int_def new_Value_def init_raw_def check_value_def
        compatible_types_def is_num_def Let_def convert_num_def five f fl) (simp add: set_float_def)
qed

section \<open>Properties\<close>



end
