(* ===== verification/Planner.thy ===== *)
theory Planner
  imports Analyze Index_Scan "HOL-Library.Multiset"
begin

text \<open>
  \<^verbatim>\<open>optimizer/plan.h\<close>, \<^verbatim>\<open>optimizer/planner.cpp\<close> and \<^verbatim>\<open>optimizer/optimizer.h\<close>: the plans and the planner that makes them from an
  analysed query, against the catalogue. The class hierarchy of plans is a datatype; \<open>NullPlan\<close> is the null
  pointer. Plans are built bottom up and changed in place only by \<^verbatim>\<open>push_conds\<close>, on
  nodes that nothing else refers to. The lemmas show that the plan of a query scans every table once and
  checks every condition of the query once, at a node where both of its columns are available.
\<close>

section \<open>Plans\<close>

datatype PlanTag =
    T_Invalid | T_Help | T_ShowTable | T_ShowIndex | T_DescTable | T_CreateTable | T_DropTable | T_CreateIndex | T_DropIndex
  | T_SetKnob | T_Insert | T_Update | T_Delete | T_select | T_Transaction_begin | T_Transaction_commit | T_Transaction_abort
  | T_Transaction_rollback | T_SeqScan | T_IndexScan | T_NestLoop | T_SortMerge | T_Sort | T_Projection

record ColDef =
  cd_name :: string
  cd_type :: ColType
  cd_len :: int

record Scan =
  sp_tag :: PlanTag
  sp_tab_name :: string
  sp_cols :: "ColMeta list"
  sp_conds :: "Condition list"
  sp_len :: nat
  sp_index_col_names :: "string list"

datatype Plan =
    NullPlan
  | ScanPlan Scan
  | JoinPlan PlanTag Plan Plan "Condition list"
  | ProjectionPlan PlanTag Plan "TabCol list"
  | SortPlan PlanTag Plan "TabCol list" "bool list"
  | DMLPlan PlanTag Plan string "Value list" "Condition list" "SetClause list" int
  | DDLPlan PlanTag string "string list" "ColDef list"
  | OtherPlan PlanTag string
  | SetKnobPlan SetKnobType bool

text \<open>The constructor reads the last column; a table without columns has none.\<close>

definition new_ScanPlan :: "DbMeta \<Rightarrow> PlanTag \<Rightarrow> string \<Rightarrow> Condition list \<Rightarrow> string list \<Rightarrow> ('s, Plan) prog" where
  "new_ScanPlan db tag tab_name conds index_col_names =
     bindE (get_table db tab_name) (\<lambda>tab.
     bindE (row_len (tm_cols tab)) (\<lambda>len.
     ret (ScanPlan \<lparr>sp_tag = tag, sp_tab_name = tab_name, sp_cols = tm_cols tab, sp_conds = conds, sp_len = len,
       sp_index_col_names = index_col_names\<rparr>)))"

section \<open>Choosing an index\<close>

definition usable_conds :: "string \<Rightarrow> Condition list \<Rightarrow> Condition list" where
  "usable_conds tab_name conds = filter (\<lambda>c. is_rhs_val c \<and> tc_tab_name (lhs_col c) = tab_name) conds"

text \<open>The number of leading index columns the conditions can be used for.\<close>

fun match_len :: "Condition list \<Rightarrow> string list \<Rightarrow> nat" where
  "match_len conds [] = 0"
| "match_len conds (col # cols) =
     (let on_col = filter (\<lambda>c. tc_col_name (lhs_col c) = col) conds in
      if on_col = [] then 0
      else if cols = [] then 1
      else if \<exists>c \<in> set on_col. c_op c = OP_EQ then Suc (match_len conds cols)
      else 1)"

definition index_cols :: "IndexMeta \<Rightarrow> string list" where
  "index_cols index = map cm_name (take (nat (col_num index)) (im_cols index))"

text \<open>One round over the indexes: the best length, the number of columns of the best index, and its columns.\<close>

definition better_index :: "Condition list \<Rightarrow> IndexMeta \<Rightarrow> nat \<times> int \<times> string list \<Rightarrow> nat \<times> int \<times> string list" where
  "better_index conds index = (\<lambda>(best, num, cols).
     let m = match_len conds (index_cols index) in
     if m > best \<or> m = best \<and> m > 0 \<and> col_num index < num then (m, col_num index, index_cols index) else (best, num, cols))"

definition get_index_cols :: "DbMeta \<Rightarrow> string \<Rightarrow> Condition list \<Rightarrow> ('s, bool \<times> string list) prog" where
  "get_index_cols db tab_name curr_conds =
     bindE (get_table db tab_name) (\<lambda>tab.
     ret (case fold (better_index (usable_conds tab_name curr_conds)) (indexes tab) (0, 0, []) of
            (best, num, cols) \<Rightarrow> (best > 0, cols)))"

definition scan_plan :: "DbMeta \<Rightarrow> string \<Rightarrow> Condition list \<Rightarrow> ('s, Plan) prog" where
  "scan_plan db tab conds =
     bindE (get_index_cols db tab conds) (\<lambda>(index_exist, index_col_names).
       if \<not> index_exist then new_ScanPlan db T_SeqScan tab conds []
       else new_ScanPlan db T_IndexScan tab conds index_col_names)"

section \<open>Distributing the conditions\<close>

definition belongs :: "string \<Rightarrow> Condition \<Rightarrow> bool" where
  "belongs tab c \<longleftrightarrow> tab = tc_tab_name (lhs_col c) \<and> is_rhs_val c \<or> tc_tab_name (lhs_col c) = tc_tab_name (rhs_col c)"

definition pop_conds :: "Condition list \<Rightarrow> string \<Rightarrow> Condition list \<times> Condition list" where
  "pop_conds conds tab = (filter (belongs tab) conds, filter (\<lambda>c. \<not> belongs tab c) conds)"

definition flip_cond :: "Condition \<Rightarrow> Condition" where
  "flip_cond c = c\<lparr>lhs_col := rhs_col c, rhs_col := lhs_col c, c_op := swap_op (c_op c)\<rparr>"

text \<open>The result says which side of the condition was found (1 left, 2 right, 0 none, 3 the condition was added).\<close>

fun push_conds :: "Condition \<Rightarrow> Plan \<Rightarrow> nat \<times> Plan" where
  "push_conds cond (ScanPlan x) =
     (if sp_tab_name x = tc_tab_name (lhs_col cond) then 1 else if sp_tab_name x = tc_tab_name (rhs_col cond) then 2 else 0, ScanPlan x)"
| "push_conds cond (JoinPlan tag l r conds) =
     (case push_conds cond l of (left_res, l1) \<Rightarrow>
        if left_res = 3 then (3, JoinPlan tag l1 r conds)
        else case push_conds cond r of (right_res, r1) \<Rightarrow>
          if right_res = 3 then (3, JoinPlan tag l1 r1 conds)
          else if left_res = 0 \<or> right_res = 0 then (left_res + right_res, JoinPlan tag l1 r1 conds)
          else (3, JoinPlan tag l1 r1 (conds @ [if left_res = 2 then flip_cond cond else cond])))"
| "push_conds cond p = (0, p)"

section \<open>The join tree\<close>

text \<open>
  \<open>js_used\<close> are the positions marked in \<^verbatim>\<open>scantbl\<close>, \<open>js_joined\<close> the names in \<^verbatim>\<open>joined_tables\<close>, which starts with
  one empty name per table.
\<close>

record JoinState =
  js_used :: "nat list"
  js_joined :: "string list"

definition plan_tab :: "Plan \<Rightarrow> string" where
  "plan_tab p = (case p of ScanPlan x \<Rightarrow> sp_tab_name x | _ \<Rightarrow> [])"

definition pop_scan :: "Plan list \<Rightarrow> string \<Rightarrow> JoinState \<Rightarrow> Plan option \<times> JoinState" where
  "pop_scan plans tab js =
     (case find_pos (\<lambda>p. plan_tab p = tab) plans of
        None \<Rightarrow> (None, js)
      | Some i \<Rightarrow> (Some (plans ! i), js\<lparr>js_used := i # js_used js, js_joined := js_joined js @ [tab]\<rparr>))"

record Knobs =
  enable_nestedloop_join :: bool
  enable_sortmerge_join :: bool

definition join_plan :: "Knobs \<Rightarrow> Plan \<Rightarrow> Plan \<Rightarrow> Condition list \<Rightarrow> ('s, Plan) prog" where
  "join_plan k l r conds =
     (if enable_nestedloop_join k then ret (JoinPlan T_NestLoop l r conds)
      else if enable_sortmerge_join k then ret (JoinPlan T_SortMerge l r conds)
      else raise (RMDBError ''No join executor selected!''))"

text \<open>The first loop stops at the first condition whose two tables are scanned, and takes it out of the list.\<close>

fun first_join :: "Knobs \<Rightarrow> Plan list \<Rightarrow> Condition list \<Rightarrow> JoinState \<Rightarrow> ('s, Plan option \<times> Condition list \<times> JoinState) prog" where
  "first_join k plans [] js = ret (None, [], js)"
| "first_join k plans (c # cs) js =
     (case pop_scan plans (tc_tab_name (lhs_col c)) js of (left, js1) \<Rightarrow>
      case pop_scan plans (tc_tab_name (rhs_col c)) js1 of (right, js2) \<Rightarrow>
        (case (left, right) of
           (Some l, Some r) \<Rightarrow> bindE (join_plan k l r [c]) (\<lambda>p. ret (Some p, cs, js2))
         | _ \<Rightarrow> bindE (first_join k plans cs js2) (\<lambda>(p, cs1, js3). ret (p, c # cs1, js3))))"

text \<open>One round of the second loop.\<close>

definition join_step :: "Plan list \<Rightarrow> Condition \<Rightarrow> Plan \<times> JoinState \<Rightarrow> Plan \<times> JoinState" where
  "join_step plans c = (\<lambda>(tree, js).
     let ltab = tc_tab_name (lhs_col c); rtab = tc_tab_name (rhs_col c);
         (left, js1) = (if ltab \<in> set (js_joined js) then (None, js) else pop_scan plans ltab js);
         needreverse = (rtab \<notin> set (js_joined js1));
         (right, js2) = (if needreverse then pop_scan plans rtab js1 else (None, js1)) in
     (case (left, right) of
        (Some l, Some r) \<Rightarrow> JoinPlan T_NestLoop (JoinPlan T_NestLoop l r [c]) tree []
      | (Some l, None) \<Rightarrow>
          if needreverse then JoinPlan T_NestLoop NullPlan tree [flip_cond c]
          else JoinPlan T_NestLoop l tree [c]
      | (None, Some r) \<Rightarrow> JoinPlan T_NestLoop r tree [flip_cond c]
      | (None, None) \<Rightarrow> snd (push_conds c tree), js2))"

fun scan_tables :: "DbMeta \<Rightarrow> string list \<Rightarrow> Condition list \<Rightarrow> ('s, Plan list \<times> Condition list) prog" where
  "scan_tables db [] conds = ret ([], conds)"
| "scan_tables db (tab # tabs) conds =
     (case pop_conds conds tab of (curr_conds, others) \<Rightarrow>
        bindE (scan_plan db tab curr_conds) (\<lambda>p.
        bindE (scan_tables db tabs others) (\<lambda>(ps, conds1). ret (p # ps, conds1))))"

text \<open>The tables that no condition has joined, in the order of the query.\<close>

definition join_rest :: "Plan list \<Rightarrow> Plan \<times> JoinState \<Rightarrow> Plan" where
  "join_rest plans = (\<lambda>(tree, js).
     fold (\<lambda>i t. if i \<in> set (js_used js) then t else JoinPlan T_NestLoop (plans ! i) t []) [0..<length plans] tree)"

definition make_one_rel :: "DbMeta \<Rightarrow> Knobs \<Rightarrow> string list \<Rightarrow> Condition list \<Rightarrow> ('s, Plan) prog" where
  "make_one_rel db k tables conds0 =
     bindE (scan_tables db tables conds0) (\<lambda>(plans, conds).
       if tables = [] then raise OutOfBounds
       else if length tables = 1 then ret (plans ! 0)
       else if conds = [] then ret (join_rest plans (plans ! 0, \<lparr>js_used = [0], js_joined = []\<rparr>))
       else bindE (first_join k plans conds \<lparr>js_used = [], js_joined = replicate (length tables) []\<rparr>) (\<lambda>(p, cs, js).
         let start = (case p of Some t \<Rightarrow> (t, js) | None \<Rightarrow> (plans ! 0, js\<lparr>js_used := 0 # js_used js\<rparr>)) in
         ret (join_rest plans (fold (join_step plans) cs start))))"

section \<open>ORDER BY, projection and the other statements\<close>

fun sort_columns :: "ColMeta list \<Rightarrow> (SvCol \<times> OrderByDir) list \<Rightarrow> TabCol list \<times> bool list" where
  "sort_columns all_cols [] = ([], [])"
| "sort_columns all_cols ((c, dir) # cs) =
     (case sort_columns all_cols cs of (sel, desc) \<Rightarrow>
        case List.find (\<lambda>m. cm_name m = sc_col_name c) all_cols of
          None \<Rightarrow> (sel, desc)
        | Some m \<Rightarrow> (plain_col (cm_tab_name m) (cm_name m) # sel, (dir = OrderBy_DESC) # desc))"

definition generate_sort_plan :: "DbMeta \<Rightarrow> Select \<Rightarrow> string list \<Rightarrow> Plan \<Rightarrow> ('s, Plan) prog" where
  "generate_sort_plan db x tables plan =
     (case sl_order x of
        None \<Rightarrow> ret plan
      | Some ord \<Rightarrow>
          bindE (get_all_cols db tables) (\<lambda>all_cols.
            if length (orderby_dirs ord) < length (ob_cols ord) then raise OutOfBounds
            else case sort_columns all_cols (zip (ob_cols ord) (orderby_dirs ord)) of (sel, desc) \<Rightarrow>
                 ret (SortPlan T_Sort plan sel desc)))"

definition physical_optimization :: "DbMeta \<Rightarrow> Knobs \<Rightarrow> Select \<Rightarrow> Query \<Rightarrow> ('s, Plan) prog" where
  "physical_optimization db k x q =
     bindE (make_one_rel db k (q_tables q) (q_conds q)) (\<lambda>plan. generate_sort_plan db x (q_tables q) plan)"

text \<open>\<^verbatim>\<open>logical_optimization\<close> returns the query as it is.\<close>

definition generate_select_plan :: "DbMeta \<Rightarrow> Knobs \<Rightarrow> Select \<Rightarrow> Query \<Rightarrow> ('s, Plan) prog" where
  "generate_select_plan db k x q =
     bindE (physical_optimization db k x q) (\<lambda>p. ret (ProjectionPlan T_Projection p (q_cols q)))"

definition interp_sv_type :: "SvType \<Rightarrow> ('s, ColType) prog" where
  "interp_sv_type ty =
     (case ty of
        SV_TYPE_INT \<Rightarrow> ret TYPE_INT | SV_TYPE_FLOAT \<Rightarrow> ret TYPE_FLOAT | SV_TYPE_STRING \<Rightarrow> ret TYPE_STRING
      | SV_TYPE_BIGINT \<Rightarrow> ret TYPE_BIGINT | SV_TYPE_DATETIME \<Rightarrow> ret TYPE_DATETIME
      | SV_TYPE_BOOL \<Rightarrow> raise (StdException ''std::out_of_range''))"

fun col_defs :: "Field list \<Rightarrow> ('s, ColDef list) prog" where
  "col_defs [] = ret []"
| "col_defs (SvColDef nm ty_len # fs) =
     bindE (interp_sv_type (tl_type ty_len)) (\<lambda>ty.
     bindE (col_defs fs) (\<lambda>ds. ret (\<lparr>cd_name = nm, cd_type = ty, cd_len = tl_len ty_len\<rparr> # ds)))"
| "col_defs (OtherField # fs) = raise (InternalError ''Unexpected field type'')"

definition do_planner :: "DbMeta \<Rightarrow> Knobs \<Rightarrow> Query \<Rightarrow> ('s, Plan) prog" where
  "do_planner db k q =
     (case q_parse q of
        CreateTable tab fs \<Rightarrow> bindE (col_defs fs) (\<lambda>cds. ret (DDLPlan T_CreateTable tab [] cds))
      | DropTable tab \<Rightarrow> ret (DDLPlan T_DropTable tab [] [])
      | CreateIndex tab cols \<Rightarrow> ret (DDLPlan T_CreateIndex tab cols [])
      | DropIndex tab cols \<Rightarrow> ret (DDLPlan T_DropIndex tab cols [])
      | InsertStmt tab vals \<Rightarrow> ret (DMLPlan T_Insert NullPlan tab (q_values q) [] [] 0)
      | DeleteStmt tab es \<Rightarrow>
          bindE (scan_plan db tab (q_conds q)) (\<lambda>p. ret (DMLPlan T_Delete p tab [] (q_conds q) [] 0))
      | UpdateStmt tab scs es \<Rightarrow>
          bindE (scan_plan db tab (q_conds q)) (\<lambda>p. ret (DMLPlan T_Update p tab [] (q_conds q) (q_set_clauses q) 0))
      | SelectStmt x \<Rightarrow>
          bindE (generate_select_plan db k x q) (\<lambda>p. ret (DMLPlan T_select p [] [] [] [] (if has_limit x then limit_val x else 0)))
      | _ \<Rightarrow> raise (InternalError ''Unexpected AST root''))"

definition plan_query :: "DbMeta \<Rightarrow> Knobs \<Rightarrow> Query \<Rightarrow> ('s, Plan) prog" where
  "plan_query db k q =
     (case q_parse q of
        Help \<Rightarrow> ret (OtherPlan T_Help [])
      | ShowTables \<Rightarrow> ret (OtherPlan T_ShowTable [])
      | ShowIndex tab \<Rightarrow> ret (OtherPlan T_ShowIndex tab)
      | DescTable tab \<Rightarrow> ret (OtherPlan T_DescTable tab)
      | TxnBegin \<Rightarrow> ret (OtherPlan T_Transaction_begin [])
      | TxnAbort \<Rightarrow> ret (OtherPlan T_Transaction_abort [])
      | TxnCommit \<Rightarrow> ret (OtherPlan T_Transaction_commit [])
      | TxnRollback \<Rightarrow> ret (OtherPlan T_Transaction_rollback [])
      | SetStmt knob b \<Rightarrow> ret (SetKnobPlan knob b)
      | _ \<Rightarrow> do_planner db k q)"

section \<open>What a plan scans and checks\<close>

fun plan_tables :: "Plan \<Rightarrow> string list" where
  "plan_tables (ScanPlan x) = [sp_tab_name x]"
| "plan_tables (JoinPlan tag l r cs) = plan_tables l @ plan_tables r"
| "plan_tables p = []"

fun plan_conds :: "Plan \<Rightarrow> Condition list" where
  "plan_conds (ScanPlan x) = sp_conds x"
| "plan_conds (JoinPlan tag l r cs) = plan_conds l @ plan_conds r @ cs"
| "plan_conds p = []"

text \<open>Every condition stands where its columns are: at the scan of its table, or at a join with the left column in the
  left subtree and the right column in the right subtree.\<close>

fun placed :: "Plan \<Rightarrow> bool" where
  "placed (ScanPlan x) = (\<forall>c \<in> set (sp_conds x). tc_tab_name (lhs_col c) = sp_tab_name x \<and> (is_rhs_val c \<or> tc_tab_name (rhs_col c) = sp_tab_name x))"
| "placed (JoinPlan tag l r cs) = (placed l \<and> placed r \<and>
     (\<forall>c \<in> set cs. \<not> is_rhs_val c \<and> tc_tab_name (lhs_col c) \<in> set (plan_tables l) \<and> tc_tab_name (rhs_col c) \<in> set (plan_tables r)))"
| "placed p = False"

text \<open>A condition and the same condition read from the other side.\<close>

definition meaning :: "Condition \<Rightarrow> bool \<times> Value \<times> (TabCol \<times> CompOp \<times> TabCol) set" where
  "meaning c = (is_rhs_val c, rhs_val c, {(lhs_col c, c_op c, rhs_col c), (rhs_col c, swap_op (c_op c), lhs_col c)})"

definition meanings :: "Condition multiset \<Rightarrow> (bool \<times> Value \<times> (TabCol \<times> CompOp \<times> TabCol) set) multiset" where
  "meanings M = image_mset meaning M"

lemma swap_op_twice [simp]: "swap_op (swap_op op) = op"
  by (cases op) simp_all

lemma meaning_flip [simp]: "meaning (flip_cond c) = meaning c"
  by (auto simp: meaning_def flip_cond_def)

lemma meanings_simps [simp]:
  "meanings {#} = {#}" "meanings (A + B) = meanings A + meanings B" "meanings (add_mset c A) = add_mset (meaning c) (meanings A)"
  by (simp_all add: meanings_def)

definition pushed :: "Condition \<Rightarrow> Plan \<Rightarrow> nat \<times> Plan \<Rightarrow> bool" where
  "pushed c p = (\<lambda>(n, q). n = 3 \<and> plan_tables q = plan_tables p \<and> placed q \<and>
     meanings (mset (plan_conds q)) = add_mset (meaning c) (meanings (mset (plan_conds p))))"

lemma push_conds_ok:
  assumes "placed p" "distinct (plan_tables p)" and c: "\<not> is_rhs_val c" "tc_tab_name (lhs_col c) \<noteq> tc_tab_name (rhs_col c)"
  shows "(if tc_tab_name (lhs_col c) \<in> set (plan_tables p)
      then if tc_tab_name (rhs_col c) \<in> set (plan_tables p) then pushed c p (push_conds c p) else push_conds c p = (1, p)
      else push_conds c p = (if tc_tab_name (rhs_col c) \<in> set (plan_tables p) then 2 else 0, p))"
  using assms(1,2)
proof (induction p)
  case (JoinPlan tag l r cs)
  let ?a = "tc_tab_name (lhs_col c)" and ?b = "tc_tab_name (rhs_col c)"
  have d: "distinct (plan_tables l)" "distinct (plan_tables r)" "set (plan_tables l) \<inter> set (plan_tables r) = {}"
    and p: "placed l" "placed r"
    and cs: "\<forall>c \<in> set cs. \<not> is_rhs_val c \<and> tc_tab_name (lhs_col c) \<in> set (plan_tables l) \<and> tc_tab_name (rhs_col c) \<in> set (plan_tables r)"
    using JoinPlan.prems by auto
  note L = JoinPlan.IH(1) [OF p(1) d(1)] and R = JoinPlan.IH(2) [OF p(2) d(2)]
  consider "?a \<in> set (plan_tables l)" "?b \<in> set (plan_tables l)" "?a \<notin> set (plan_tables r)" "?b \<notin> set (plan_tables r)"
    | "?a \<notin> set (plan_tables l)" "?b \<notin> set (plan_tables l)" "?a \<in> set (plan_tables r)" "?b \<in> set (plan_tables r)"
    | "?a \<in> set (plan_tables l)" "?b \<notin> set (plan_tables l)" "?a \<notin> set (plan_tables r)" "?b \<in> set (plan_tables r)"
    | "?a \<notin> set (plan_tables l)" "?b \<in> set (plan_tables l)" "?a \<in> set (plan_tables r)" "?b \<notin> set (plan_tables r)"
    | "?a \<notin> set (plan_tables l)" "?a \<notin> set (plan_tables r)" "\<not> (?b \<in> set (plan_tables l) \<and> ?b \<in> set (plan_tables r))"
    | "?b \<notin> set (plan_tables l)" "?b \<notin> set (plan_tables r)" "\<not> (?a \<in> set (plan_tables l) \<and> ?a \<in> set (plan_tables r))"
    using d(3) by blast
  then show ?case
  proof cases
    case 1
    then obtain q where "push_conds c l = (3, q)" "pushed c l (3, q)" using L by (auto simp: pushed_def)
    then show ?thesis using 1 p cs by (simp add: pushed_def)
  next
    case 2
    then obtain q where "push_conds c r = (3, q)" "pushed c r (3, q)" using R by (auto simp: pushed_def)
    then show ?thesis using 2 L p cs by (simp add: pushed_def)
  next
    case 3
    then show ?thesis using L R p cs c by (simp add: pushed_def)
  next
    case 4
    then show ?thesis using L R p cs c by (simp add: pushed_def) (simp add: flip_cond_def)
  next
    case 5
    then show ?thesis using L R by (cases "?b \<in> set (plan_tables l)"; cases "?b \<in> set (plan_tables r)") simp_all
  next
    case 6
    then show ?thesis using L R by (cases "?a \<in> set (plan_tables l)"; cases "?a \<in> set (plan_tables r)") simp_all
  qed
qed (use c in \<open>auto simp: pushed_def\<close>)

section \<open>Scans of the tables\<close>

text \<open>The query a planner gets from the analysis, and the restriction the code needs: with several tables, a condition
  between two columns of one table is taken by the scan of the first table of the query.\<close>

definition cond_in :: "string list \<Rightarrow> Condition \<Rightarrow> bool" where
  "cond_in tables c \<longleftrightarrow> tc_tab_name (lhs_col c) \<in> set tables \<and>
     (if is_rhs_val c then tc_tab_name (rhs_col c) = []
      else tc_tab_name (rhs_col c) \<in> set tables \<and> (length tables > 1 \<longrightarrow> tc_tab_name (rhs_col c) \<noteq> tc_tab_name (lhs_col c)))"

definition has_tables :: "DbMeta \<Rightarrow> string list \<Rightarrow> bool" where
  "has_tables db tables \<longleftrightarrow> (\<forall>tab \<in> set tables. tab \<noteq> [] \<and> (\<exists>t. map_of (db_tabs db) tab = Some t \<and> tm_cols t \<noteq> []))"

definition scan_for :: "string \<Rightarrow> Condition list \<Rightarrow> Plan \<Rightarrow> bool" where
  "scan_for tab conds p \<longleftrightarrow> (\<exists>x. p = ScanPlan x \<and> sp_tab_name x = tab \<and> sp_conds x = conds)"

lemma scan_plan_ok:
  assumes "map_of (db_tabs db) tab = Some t" "tm_cols t \<noteq> []"
  shows "\<exists>p. scan_plan db tab conds s = (Inr p, s) \<and> scan_for tab conds p"
proof -
  obtain bc where "get_index_cols db tab conds s = (Inr bc, s)"
    using assms(1) by (simp add: get_index_cols_def get_table_def prog_simps)
  then obtain b cols where g: "get_index_cols db tab conds s = (Inr (b, cols), s)" by (cases bc) simp
  show ?thesis using assms by (auto simp: scan_plan_def g new_ScanPlan_def get_table_def row_len_def scan_for_def prog_simps)
qed

lemma scan_tables_ok:
  assumes "has_tables db tabs"
  shows "\<exists>ps cs. scan_tables db tabs conds s = (Inr (ps, cs), s) \<and> length ps = length tabs \<and>
    (\<forall>i < length tabs. \<exists>ds. scan_for (tabs ! i) ds (ps ! i) \<and> set ds \<subseteq> set conds \<and> (\<forall>c \<in> set ds. belongs (tabs ! i) c)) \<and>
    mset (concat (map plan_conds ps)) + mset cs = mset conds \<and> (\<forall>c \<in> set cs. \<forall>tab \<in> set tabs. \<not> belongs tab c)"
  using assms
proof (induction tabs arbitrary: conds)
  case (Cons tab tabs)
  let ?in = "filter (belongs tab) conds" and ?out = "filter (\<lambda>c. \<not> belongs tab c) conds"
  have ht: "has_tables db tabs" using Cons.prems by (simp add: has_tables_def)
  obtain t where t: "map_of (db_tabs db) tab = Some t" "tm_cols t \<noteq> []" using Cons.prems by (auto simp: has_tables_def)
  obtain p where p: "scan_plan db tab ?in s = (Inr p, s)" "scan_for tab ?in p" using scan_plan_ok [OF t, of ?in s] by blast
  obtain ps cs where IH: "scan_tables db tabs ?out s = (Inr (ps, cs), s)" "length ps = length tabs"
      "\<forall>i < length tabs. \<exists>ds. scan_for (tabs ! i) ds (ps ! i) \<and> set ds \<subseteq> set ?out \<and> (\<forall>c \<in> set ds. belongs (tabs ! i) c)"
      "mset (concat (map plan_conds ps)) + mset cs = mset ?out" "\<forall>c \<in> set cs. \<forall>tab \<in> set tabs. \<not> belongs tab c"
    using Cons.IH [OF ht, of ?out] by (elim exE conjE) (rule that)
  have "set cs \<subseteq> set ?out" using IH(4) by (metis set_mset_mset set_mset_union sup_ge2)
  then have n: "\<forall>c \<in> set cs. \<forall>tab' \<in> set (tab # tabs). \<not> belongs tab' c" using IH(5) by auto
  have m: "mset (concat (map plan_conds (p # ps))) + mset cs = mset conds"
    using p(2) IH(4) by (auto simp: scan_for_def) (metis (no_types) add.assoc multiset_partition mset_filter)
  have i: "\<exists>ds. scan_for ((tab # tabs) ! i) ds ((p # ps) ! i) \<and> set ds \<subseteq> set conds \<and> (\<forall>c \<in> set ds. belongs ((tab # tabs) ! i) c)"
    if "i < length (tab # tabs)" for i
  proof (cases i)
    case 0
    then show ?thesis using p(2) by (intro exI [of _ ?in]) auto
  next
    case (Suc j)
    then show ?thesis using IH(3) that by fastforce
  qed
  have "scan_tables db (tab # tabs) conds s = (Inr (p # ps, cs), s)" using p(1) IH(1) by (simp add: pop_conds_def prog_simps)
  then show ?case using IH(2) m n i by (intro exI [of _ "p # ps"] exI [of _ cs]) simp
qed (simp add: prog_simps)

section \<open>Growing the join tree\<close>

text \<open>\<open>plans ! i\<close> scans \<open>tables ! i\<close>.\<close>

definition scans :: "string list \<Rightarrow> Plan list \<Rightarrow> bool" where
  "scans tables plans \<longleftrightarrow> distinct tables \<and> [] \<notin> set tables \<and> length plans = length tables \<and>
     (\<forall>i < length tables. plan_tables (plans ! i) = [tables ! i] \<and> plan_tab (plans ! i) = tables ! i \<and> placed (plans ! i))"

definition tree_ok :: "string list \<Rightarrow> Plan \<times> JoinState \<Rightarrow> bool" where
  "tree_ok tables = (\<lambda>(tree, js). placed tree \<and> distinct (plan_tables tree) \<and> (\<forall>i \<in> set (js_used js). i < length tables) \<and>
     set (plan_tables tree) = (!) tables ` set (js_used js) \<and>
     (\<forall>t. t \<noteq> [] \<longrightarrow> (t \<in> set (js_joined js) \<longleftrightarrow> t \<in> set (plan_tables tree))))"

text \<open>The conditions of the tree and of the scans that are not part of it yet.\<close>

definition all_conds :: "Plan list \<Rightarrow> Plan \<times> JoinState \<Rightarrow> (bool \<times> Value \<times> (TabCol \<times> CompOp \<times> TabCol) set) multiset" where
  "all_conds plans = (\<lambda>(tree, js). meanings (mset (plan_conds tree)) +
     (\<Sum>i \<in> {..<length plans} - set (js_used js). meanings (mset (plan_conds (plans ! i)))))"

definition column_cond :: "string list \<Rightarrow> Condition \<Rightarrow> bool" where
  "column_cond tables c \<longleftrightarrow> \<not> is_rhs_val c \<and> tc_tab_name (lhs_col c) \<in> set tables \<and> tc_tab_name (rhs_col c) \<in> set tables \<and>
     tc_tab_name (lhs_col c) \<noteq> tc_tab_name (rhs_col c)"

lemma find_pos_unique:
  "i < length xs \<Longrightarrow> P (xs ! i) \<Longrightarrow> (\<And>j. j < length xs \<Longrightarrow> P (xs ! j) \<Longrightarrow> j = i) \<Longrightarrow> find_pos P xs = Some i"
proof (induction xs arbitrary: i)
  case (Cons x xs)
  show ?case
  proof (cases i)
    case 0
    then show ?thesis using Cons.prems(2) by simp
  next
    case (Suc k)
    have n: "\<not> P x"
    proof
      assume "P x"
      then have "0 = i" using Cons.prems(3) [of 0] by simp
      then show False using Suc by simp
    qed
    have u: "j = k" if h: "j < length xs" "P (xs ! j)" for j
    proof -
      have "Suc j = i" by (rule Cons.prems(3)) (use h in simp_all)
      then show ?thesis using Suc by simp
    qed
    have "find_pos P xs = Some k"
    proof (rule Cons.IH)
      show "k < length xs" "P (xs ! k)" using Cons.prems(1,2) Suc by simp_all
    qed (rule u)
    then show ?thesis using n Suc by simp
  qed
qed simp

lemma pop_scan_ok:
  assumes "scans tables plans" "i < length tables"
  shows "pop_scan plans (tables ! i) js = (Some (plans ! i), js\<lparr>js_used := i # js_used js, js_joined := js_joined js @ [tables ! i]\<rparr>)"
proof -
  have "find_pos (\<lambda>p. plan_tab p = tables ! i) plans = Some i"
    using assms by (intro find_pos_unique) (auto simp: scans_def nth_eq_iff_index_eq)
  then show ?thesis by (simp add: pop_scan_def)
qed

lemma unused_sum:
  fixes f :: "nat \<Rightarrow> 'a::comm_monoid_add"
  assumes "i < n" "i \<notin> U"
  shows "(\<Sum>k \<in> {..<n} - U. f k) = f i + (\<Sum>k \<in> {..<n} - insert i U. f k)"
proof -
  have "{..<n} - insert i U = ({..<n} - U) - {i}" by blast
  then show ?thesis using sum.remove [of "{..<n} - U" i f] assms by simp
qed

text \<open>Joining one more scan to the tree.\<close>

lemma attach:
  assumes sc: "scans tables plans" and ok: "tree_ok tables (tree, js)" and i: "i < length tables" "tables ! i \<notin> set (plan_tables tree)"
    and cs: "\<forall>c \<in> set cs. \<not> is_rhs_val c \<and> tc_tab_name (lhs_col c) = tables ! i \<and> tc_tab_name (rhs_col c) \<in> set (plan_tables tree)"
    and js': "set (js_used js') = insert i (set (js_used js))" "\<And>t. t \<noteq> [] \<Longrightarrow> t \<in> set (js_joined js') \<longleftrightarrow> t = tables ! i \<or> t \<in> set (js_joined js)"
  shows "tree_ok tables (JoinPlan tag (plans ! i) tree cs, js')"
    "all_conds plans (JoinPlan tag (plans ! i) tree cs, js') = meanings (mset cs) + all_conds plans (tree, js)"
proof -
  have p: "plan_tables (plans ! i) = [tables ! i]" "placed (plans ! i)" "length plans = length tables" using sc i by (auto simp: scans_def)
  have iu: "i \<notin> set (js_used js)" using i(2) ok by (auto simp: tree_ok_def)
  have t: "placed tree" "distinct (plan_tables tree)" "\<forall>i \<in> set (js_used js). i < length tables"
      "set (plan_tables tree) = (!) tables ` set (js_used js)"
    and j: "\<And>t. t \<noteq> [] \<Longrightarrow> t \<in> set (js_joined js) \<longleftrightarrow> t \<in> set (plan_tables tree)"
    using ok by (auto simp: tree_ok_def)
  show "tree_ok tables (JoinPlan tag (plans ! i) tree cs, js')"
    unfolding tree_ok_def using p t i cs js' j by simp
  have "(\<Sum>k \<in> {..<length plans} - set (js_used js). meanings (mset (plan_conds (plans ! k)))) =
      meanings (mset (plan_conds (plans ! i))) + (\<Sum>k \<in> {..<length plans} - set (js_used js'). meanings (mset (plan_conds (plans ! k))))"
    using unused_sum [of i "length plans" "set (js_used js)" "\<lambda>k. meanings (mset (plan_conds (plans ! k)))"] i iu p(3) js'(1) by simp
  then show "all_conds plans (JoinPlan tag (plans ! i) tree cs, js') = meanings (mset cs) + all_conds plans (tree, js)"
    by (simp add: all_conds_def ac_simps)
qed

text \<open>Starting a tree, and joining a pair of new scans to it.\<close>

lemma start_tree:
  assumes sc: "scans tables plans" and i: "i < length tables" and js: "js_used js = [i]" "\<And>t. t \<noteq> [] \<Longrightarrow> t \<in> set (js_joined js) \<longleftrightarrow> t = tables ! i"
  shows "tree_ok tables (plans ! i, js)" "all_conds plans (plans ! i, js) = (\<Sum>k < length plans. meanings (mset (plan_conds (plans ! k))))"
proof -
  have p: "plan_tables (plans ! i) = [tables ! i]" "placed (plans ! i)" "length plans = length tables" using sc i by (auto simp: scans_def)
  show "tree_ok tables (plans ! i, js)" unfolding tree_ok_def using p i js by simp
  show "all_conds plans (plans ! i, js) = (\<Sum>k < length plans. meanings (mset (plan_conds (plans ! k))))"
    using unused_sum [of i "length plans" "{}" "\<lambda>k. meanings (mset (plan_conds (plans ! k)))"] i p(3) js(1) by (simp add: all_conds_def)
qed

lemma pair_conds:
  assumes "scans tables plans" "i < length tables" "k < length tables" "i \<noteq> k"
    and "\<not> is_rhs_val c" "tc_tab_name (lhs_col c) = tables ! i" "tc_tab_name (rhs_col c) = tables ! k"
  shows "placed (JoinPlan tag (plans ! i) (plans ! k) [c])" "plan_tables (JoinPlan tag (plans ! i) (plans ! k) [c]) = [tables ! i, tables ! k]"
    "tables ! i \<noteq> tables ! k"
  using assms by (auto simp: scans_def nth_eq_iff_index_eq)

lemma attach_pair:
  assumes sc: "scans tables plans" and ok: "tree_ok tables (tree, js)"
    and i: "i < length tables" "tables ! i \<notin> set (plan_tables tree)" and k: "k < length tables" "tables ! k \<notin> set (plan_tables tree)" "i \<noteq> k"
    and c: "\<not> is_rhs_val c" "tc_tab_name (lhs_col c) = tables ! i" "tc_tab_name (rhs_col c) = tables ! k"
    and js': "js_used js' = k # i # js_used js" "js_joined js' = js_joined js @ [tables ! i, tables ! k]"
  shows "tree_ok tables (JoinPlan tag (JoinPlan tag (plans ! i) (plans ! k) [c]) tree [], js')"
    "all_conds plans (JoinPlan tag (JoinPlan tag (plans ! i) (plans ! k) [c]) tree [], js') = add_mset (meaning c) (all_conds plans (tree, js))"
proof -
  note p = pair_conds(1,2) [OF sc i(1) k(1,3) c, where tag = tag] pair_conds(3) [OF sc i(1) k(1,3) c]
  have n: "length plans = length tables" using sc by (simp add: scans_def)
  have t: "placed tree" "distinct (plan_tables tree)" "\<forall>i \<in> set (js_used js). i < length tables"
      "set (plan_tables tree) = (!) tables ` set (js_used js)"
    and j: "\<And>t. t \<noteq> [] \<Longrightarrow> t \<in> set (js_joined js) \<longleftrightarrow> t \<in> set (plan_tables tree)"
    using ok by (auto simp: tree_ok_def)
  have u: "i \<notin> set (js_used js)" "k \<notin> insert i (set (js_used js))" using i(2) k t(4) by auto
  show "tree_ok tables (JoinPlan tag (JoinPlan tag (plans ! i) (plans ! k) [c]) tree [], js')"
    unfolding tree_ok_def using p t i k js' j by auto
  let ?f = "\<lambda>k. meanings (mset (plan_conds (plans ! k)))"
  have "(\<Sum>m \<in> {..<length plans} - set (js_used js). ?f m) = ?f i + (?f k + (\<Sum>m \<in> {..<length plans} - set (js_used js'). ?f m))"
    using unused_sum [of i "length plans" "set (js_used js)" ?f] unused_sum [of k "length plans" "insert i (set (js_used js))" ?f] i k u n js'(1)
    by simp
  then show "all_conds plans (JoinPlan tag (JoinPlan tag (plans ! i) (plans ! k) [c]) tree [], js') = add_mset (meaning c) (all_conds plans (tree, js))"
    by (simp add: all_conds_def ac_simps)
qed

lemma join_step_ok:
  assumes sc: "scans tables plans" and ok: "tree_ok tables (tree, js)" and c: "column_cond tables c"
  shows "tree_ok tables (join_step plans c (tree, js))"
    "all_conds plans (join_step plans c (tree, js)) = add_mset (meaning c) (all_conds plans (tree, js))"
proof -
  obtain i k where ik: "i < length tables" "k < length tables" "tc_tab_name (lhs_col c) = tables ! i" "tc_tab_name (rhs_col c) = tables ! k"
    using c by (auto simp: column_cond_def in_set_conv_nth)
  have val: "\<not> is_rhs_val c" and ne: "tables ! i \<noteq> tables ! k" "i \<noteq> k" "tables ! i \<noteq> []" "tables ! k \<noteq> []"
    using c ik sc by (auto simp: column_cond_def scans_def) (metis nth_mem)+
  have j: "t \<in> set (js_joined js) \<longleftrightarrow> t \<in> set (plan_tables tree)" if "t \<noteq> []" for t using ok that by (simp add: tree_ok_def)
  note pop = pop_scan_ok [OF sc ik(1)] pop_scan_ok [OF sc ik(2)]
  let ?A = "tables ! i \<in> set (plan_tables tree)" and ?B = "tables ! k \<in> set (plan_tables tree)"
  let ?js = "\<lambda>i. js\<lparr>js_used := i # js_used js, js_joined := js_joined js @ [tables ! i]\<rparr>"
  have all: "tree_ok tables (join_step plans c (tree, js)) \<and>
    all_conds plans (join_step plans c (tree, js)) = add_mset (meaning c) (all_conds plans (tree, js))"
  proof (cases ?A; cases ?B)
    assume ab: ?A ?B
    have "placed tree" "distinct (plan_tables tree)" using ok by (simp_all add: tree_ok_def)
    then have "pushed c tree (push_conds c tree)" using push_conds_ok [of tree c] val ne(1) ik(3,4) ab by simp
    moreover have "join_step plans c (tree, js) = (snd (push_conds c tree), js)" using ab j ne ik(3,4) by (simp add: join_step_def)
    ultimately show ?thesis using ok by (auto simp: pushed_def tree_ok_def all_conds_def split: prod.splits)
  next
    assume ab: ?A "\<not> ?B"
    have "join_step plans c (tree, js) = (JoinPlan T_NestLoop (plans ! k) tree [flip_cond c], ?js k)"
      using ab j ne ik(3,4) pop(2) by (simp add: join_step_def Let_def)
    then show ?thesis
      using attach [OF sc ok ik(2) ab(2), of "[flip_cond c]" "?js k" T_NestLoop] val ik(3,4) ab(1) by (simp add: flip_cond_def) (simp add: flip_cond_def [symmetric])
  next
    assume ab: "\<not> ?A" ?B
    have "join_step plans c (tree, js) = (JoinPlan T_NestLoop (plans ! i) tree [c], ?js i)"
      using ab j ne ik(3,4) pop(1) by (simp add: join_step_def Let_def)
    then show ?thesis using attach [OF sc ok ik(1) ab(1), of "[c]" "?js i" T_NestLoop] val ik(3,4) ab(2) by simp
  next
    assume ab: "\<not> ?A" "\<not> ?B"
    let ?js2 = "js\<lparr>js_used := k # i # js_used js, js_joined := js_joined js @ [tables ! i, tables ! k]\<rparr>"
    have "join_step plans c (tree, js) = (JoinPlan T_NestLoop (JoinPlan T_NestLoop (plans ! i) (plans ! k) [c]) tree [], ?js2)"
      using ab j ne ik(3,4) pop by (simp add: join_step_def Let_def)
    then show ?thesis
      using attach_pair [OF sc ok ik(1) ab(1) ik(2) ab(2) ne(2) val ik(3,4), of ?js2 T_NestLoop] by simp
  qed
  then show "tree_ok tables (join_step plans c (tree, js))"
    "all_conds plans (join_step plans c (tree, js)) = add_mset (meaning c) (all_conds plans (tree, js))" by simp_all
qed

lemma join_steps_ok:
  assumes "scans tables plans" "tree_ok tables tj" "\<forall>c \<in> set cs. column_cond tables c"
  shows "tree_ok tables (fold (join_step plans) cs tj) \<and>
    all_conds plans (fold (join_step plans) cs tj) = meanings (mset cs) + all_conds plans tj"
  using assms(2,3)
proof (induction cs arbitrary: tj)
  case (Cons c cs)
  obtain tree js where tj: "tj = (tree, js)" by force
  have c: "column_cond tables c" "\<forall>c \<in> set cs. column_cond tables c" using Cons.prems(2) by simp_all
  note st = join_step_ok [OF assms(1) Cons.prems(1) [unfolded tj] c(1)]
  show ?case using Cons.IH [OF st(1) c(2)] st(2) tj by (simp add: ac_simps)
qed simp

text \<open>The scans left over.\<close>

lemma join_rest_ok:
  assumes sc: "scans tables plans" and ok: "tree_ok tables (tree, js)"
  shows "placed (join_rest plans (tree, js))" "mset (plan_tables (join_rest plans (tree, js))) = mset tables"
    "meanings (mset (plan_conds (join_rest plans (tree, js)))) = all_conds plans (tree, js)"
proof -
  define g where "g i t = (if i \<in> set (js_used js) then t else JoinPlan T_NestLoop (plans ! i) t [])" for i t
  define st where "st m = fold g [0..<m] tree" for m
  define jm where "jm m = \<lparr>js_used = rev (filter (\<lambda>i. i \<notin> set (js_used js)) [0..<m]) @ js_used js,
      js_joined = js_joined js @ map ((!) tables) (filter (\<lambda>i. i \<notin> set (js_used js)) [0..<m])\<rparr>" for m
  have n: "length plans = length tables" and d: "distinct tables" using sc by (simp_all add: scans_def)
  have step: "tree_ok tables (st m, jm m) \<and> all_conds plans (st m, jm m) = all_conds plans (tree, js)" if "m \<le> length tables" for m
    using that
  proof (induction m)
    case 0
    have "js = jm 0" by (simp add: jm_def)
    then show ?case using ok by (simp add: st_def)
  next
    case (Suc m)
    have IH: "tree_ok tables (st m, jm m)" "all_conds plans (st m, jm m) = all_conds plans (tree, js)" using Suc by simp_all
    show ?case
    proof (cases "m \<in> set (js_used js)")
      case True
      then show ?thesis using IH by (simp add: st_def jm_def g_def)
    next
      case False
      have "set (plan_tables (st m)) = (!) tables ` set (js_used (jm m))" "\<forall>i \<in> set (js_used (jm m)). i < length tables"
        using IH(1) by (simp_all add: tree_ok_def)
      moreover have "m \<notin> set (js_used (jm m))" using False by (simp add: jm_def)
      ultimately have "tables ! m \<notin> set (plan_tables (st m))" using d Suc.prems by (auto simp: nth_eq_iff_index_eq)
      then show ?thesis
        using attach [OF sc IH(1), of m "[]" "jm (Suc m)" T_NestLoop] Suc.prems IH(2) False by (auto simp: st_def jm_def g_def)
    qed
  qed
  have r: "join_rest plans (tree, js) = st (length tables)" unfolding join_rest_def st_def g_def n by (simp add: fun_eq_iff)
  note f = step [OF order_refl]
  have used: "set (js_used (jm (length tables))) = {..<length tables}" using ok by (auto simp: jm_def tree_ok_def)
  show "placed (join_rest plans (tree, js))" using f r by (simp add: tree_ok_def)
  have "set (plan_tables (st (length tables))) = set tables" "distinct (plan_tables (st (length tables)))"
    using f used by (auto simp: tree_ok_def set_conv_nth)
  then show "mset (plan_tables (join_rest plans (tree, js))) = mset tables" using r d by (simp add: set_eq_iff_mset_eq_distinct)
  show "meanings (mset (plan_conds (join_rest plans (tree, js)))) = all_conds plans (tree, js)"
    using f r used n by (simp add: all_conds_def)
qed

section \<open>The plan of a query\<close>

lemma meanings_concat: "meanings (mset (concat (map plan_conds ps))) = (\<Sum>k < length ps. meanings (mset (plan_conds (ps ! k))))"
proof -
  have "meanings (mset (concat (map plan_conds ps))) = sum_list (map (\<lambda>p. meanings (mset (plan_conds p))) ps)" by (induction ps) simp_all
  then show ?thesis by (simp add: sum_list_sum_nth atLeast0LessThan)
qed

lemma scanned_tables:
  assumes "distinct tables" "has_tables db tables" "length ps = length tables" "\<forall>c \<in> set conds. cond_in tables c"
    and ps: "\<forall>i < length tables. \<exists>ds. scan_for (tables ! i) ds (ps ! i) \<and> set ds \<subseteq> set conds \<and> (\<forall>c \<in> set ds. belongs (tables ! i) c)"
  shows "scans tables ps"
proof -
  have "plan_tables (ps ! i) = [tables ! i] \<and> plan_tab (ps ! i) = tables ! i \<and> placed (ps ! i)" if i: "i < length tables" for i
  proof -
    obtain ds x where x: "ps ! i = ScanPlan x" "sp_tab_name x = tables ! i" "sp_conds x = ds" "set ds \<subseteq> set conds" "\<forall>c \<in> set ds. belongs (tables ! i) c"
      using ps i by (auto simp: scan_for_def)
    have "tc_tab_name (lhs_col c) = tables ! i \<and> (is_rhs_val c \<or> tc_tab_name (rhs_col c) = tables ! i)" if c: "c \<in> set ds" for c
    proof -
      have k: "cond_in tables c" "belongs (tables ! i) c" using c x(4,5) assms(4) by auto
      show ?thesis
      proof (cases "is_rhs_val c")
        case True
        then show ?thesis using k assms(2) by (auto simp: cond_in_def belongs_def has_tables_def)
      next
        case False
        then have "length tables = 1" "tc_tab_name (lhs_col c) = tc_tab_name (rhs_col c)" "tc_tab_name (lhs_col c) \<in> set tables"
          using k i by (auto simp: cond_in_def belongs_def)
        then show ?thesis using i by (auto simp: length_Suc_conv)
      qed
    qed
    then show ?thesis using x by (simp add: plan_tab_def)
  qed
  then show ?thesis using assms(1-3) by (auto simp: scans_def has_tables_def)
qed

lemma left_over_conds:
  assumes "\<forall>c \<in> set conds. cond_in tables c" "set cs \<subseteq> set conds" "\<forall>c \<in> set cs. \<forall>tab \<in> set tables. \<not> belongs tab c"
  shows "\<forall>c \<in> set cs. column_cond tables c"
proof
  fix c assume c: "c \<in> set cs"
  then have "cond_in tables c" "\<forall>tab \<in> set tables. \<not> belongs tab c" using assms by auto
  then show "column_cond tables c" by (cases "is_rhs_val c") (auto simp: cond_in_def belongs_def column_cond_def)
qed

lemma first_join_ok:
  assumes sc: "scans tables plans" and c: "column_cond tables c" and k: "enable_nestedloop_join k \<or> enable_sortmerge_join k"
  shows "\<exists>p js. first_join k plans (c # cs) \<lparr>js_used = [], js_joined = replicate n []\<rparr> s = (Inr (Some p, cs, js), s) \<and>
    tree_ok tables (p, js) \<and> all_conds plans (p, js) = add_mset (meaning c) (\<Sum>m < length plans. meanings (mset (plan_conds (plans ! m))))"
proof -
  obtain a b where ab: "a < length tables" "b < length tables" "tc_tab_name (lhs_col c) = tables ! a" "tc_tab_name (rhs_col c) = tables ! b"
    using c by (auto simp: column_cond_def in_set_conv_nth)
  have v: "\<not> is_rhs_val c" "tables ! a \<noteq> tables ! b" using c ab by (auto simp: column_cond_def)
  let ?jb = "\<lparr>js_used = [b], js_joined = [tables ! b]\<rparr>"
  let ?js = "\<lparr>js_used = [b, a], js_joined = replicate n [] @ [tables ! a] @ [tables ! b]\<rparr>"
  obtain tag where tag: "join_plan k l r ds s = (Inr (JoinPlan tag l r ds), s)" for l r ds
    using k by (cases "enable_nestedloop_join k") (auto simp: join_plan_def prog_simps)
  note st = start_tree [OF sc ab(2), of ?jb]
  have tb: "plan_tables (plans ! b) = [tables ! b]" using sc ab(2) by (simp add: scans_def)
  have "tree_ok tables (plans ! b, ?jb)" "all_conds plans (plans ! b, ?jb) = (\<Sum>m < length plans. meanings (mset (plan_conds (plans ! m))))"
    using st by auto
  then have "tree_ok tables (JoinPlan tag (plans ! a) (plans ! b) [c], ?js)"
    "all_conds plans (JoinPlan tag (plans ! a) (plans ! b) [c], ?js) = add_mset (meaning c) (\<Sum>m < length plans. meanings (mset (plan_conds (plans ! m))))"
    using attach [OF sc _ ab(1), of "plans ! b" ?jb "[c]" ?js tag] tb v ab(3,4) by auto
  moreover have "first_join k plans (c # cs) \<lparr>js_used = [], js_joined = replicate n []\<rparr> s = (Inr (Some (JoinPlan tag (plans ! a) (plans ! b) [c]), cs, ?js), s)"
    using pop_scan_ok [OF sc ab(1)] pop_scan_ok [OF sc ab(2)] ab(3,4) by (simp add: prog_simps tag)
  ultimately show ?thesis by blast
qed

lemma make_one_rel_ok:
  assumes tabs: "tables \<noteq> []" "distinct tables" "has_tables db tables" and conds: "\<forall>c \<in> set conds. cond_in tables c"
    and k: "enable_nestedloop_join k \<or> enable_sortmerge_join k"
  shows "\<exists>p. make_one_rel db k tables conds s = (Inr p, s) \<and> placed p \<and> mset (plan_tables p) = mset tables \<and>
    meanings (mset (plan_conds p)) = meanings (mset conds)"
proof -
  obtain ps cs where sc: "scan_tables db tables conds s = (Inr (ps, cs), s)" "length ps = length tables"
      "\<forall>i < length tables. \<exists>ds. scan_for (tables ! i) ds (ps ! i) \<and> set ds \<subseteq> set conds \<and> (\<forall>c \<in> set ds. belongs (tables ! i) c)"
      "mset (concat (map plan_conds ps)) + mset cs = mset conds" "\<forall>c \<in> set cs. \<forall>tab \<in> set tables. \<not> belongs tab c"
    using scan_tables_ok [OF tabs(3), of conds s] by (elim exE conjE) (rule that)
  note scs = scanned_tables [OF tabs(2,3) sc(2) conds sc(3)]
  have "set cs \<subseteq> set conds" using sc(4) by (metis set_mset_mset set_mset_union sup_ge2)
  then have cc: "\<forall>c \<in> set cs. column_cond tables c" by (rule left_over_conds [OF conds _ sc(5)])
  have tot: "(\<Sum>m < length ps. meanings (mset (plan_conds (ps ! m)))) + meanings (mset cs) = meanings (mset conds)"
    using sc(4) meanings_concat by (metis meanings_simps(2))
  consider "length tables = 1" | "length tables \<noteq> 1" "cs = []" | c cs' where "length tables \<noteq> 1" "cs = c # cs'" by (cases cs) auto
  then show ?thesis
  proof cases
    case 1
    then obtain t where t: "tables = [t]" by (auto simp: length_Suc_conv)
    have "cs = []"
    proof (rule ccontr)
      assume "cs \<noteq> []"
      then have "column_cond tables (hd cs)" using cc by simp
      then show False using t by (auto simp: column_cond_def)
    qed
    moreover have "plan_tables (ps ! 0) = [tables ! 0]" "placed (ps ! 0)" "tables = [tables ! 0]" using scs 1 by (auto simp: scans_def length_Suc_conv)
    ultimately show ?thesis using sc(1,2) 1 tot tabs(1) by (auto simp: make_one_rel_def prog_simps)
  next
    case 2
    let ?js = "\<lparr>js_used = [0], js_joined = [tables ! 0]\<rparr>" and ?j0 = "\<lparr>js_used = [0], js_joined = []\<rparr>"
    have "join_rest ps (ps ! 0, ?j0) = join_rest ps (ps ! 0, ?js)" by (simp add: join_rest_def)
    moreover have "tree_ok tables (ps ! 0, ?js)" "all_conds ps (ps ! 0, ?js) = meanings (mset conds)"
      using start_tree [OF scs, of 0 ?js] tabs(1) tot 2 by auto
    ultimately show ?thesis using join_rest_ok [OF scs, of "ps ! 0" ?js] sc(1) 2 tabs(1) by (auto simp: make_one_rel_def prog_simps)
  next
    case 3
    obtain p js where p: "first_join k ps (c # cs') \<lparr>js_used = [], js_joined = replicate (length tables) []\<rparr> s = (Inr (Some p, cs', js), s)"
        "tree_ok tables (p, js)" "all_conds ps (p, js) = add_mset (meaning c) (\<Sum>m < length ps. meanings (mset (plan_conds (ps ! m))))"
      using first_join_ok [OF scs _ k, of c cs' "length tables" s] cc 3 by auto
    obtain tree js' where f: "fold (join_step ps) cs' (p, js) = (tree, js')" by fastforce
    have "tree_ok tables (tree, js')" "all_conds ps (tree, js') = meanings (mset conds)"
      using join_steps_ok [OF scs p(2), of cs'] cc 3 p(3) tot f by (auto simp: ac_simps)
    then show ?thesis using join_rest_ok [OF scs, of tree js'] sc(1) p(1) 3 f tabs(1) by (auto simp: make_one_rel_def prog_simps Let_def)
  qed
qed

section \<open>Properties\<close>


definition plan_col_meta :: "string \<Rightarrow> ColMeta" where
  "plan_col_meta tab = \<lparr>cm_tab_name = tab, cm_name = ''a'', cm_type = TYPE_INT, cm_len = 4, cm_offset = 0, cm_index = False\<rparr>"

definition plan_db :: DbMeta where
  "plan_db = \<lparr>db_name = ''db'', db_tabs = map (\<lambda>tab. (tab, \<lparr>tm_name = tab, tm_cols = [plan_col_meta tab], indexes = []\<rparr>)) [''x'', ''y'', ''z'']\<rparr>"

definition plan_cond :: "string \<Rightarrow> string \<Rightarrow> Condition" where
  "plan_cond t u = \<lparr>lhs_col = plain_col t ''a'', c_op = OP_LT, is_rhs_val = False, rhs_col = plain_col u ''a'', rhs_val = new_Value []\<rparr>"


end
