(* ===== verification/Ql_Select.thy ===== *)
theory Ql_Select
  imports Seq_Scan Printer
begin

text \<open>
  \<^verbatim>\<open>QlManager::select_from\<close> (\<^verbatim>\<open>execution/execution_manager.cpp\<close>): running the executor tree of a SELECT and printing its
  rows, as a table into the send buffer and as lines into \<^verbatim>\<open>output.txt\<close>, whose new text is the string the model
  carries along.
\<close>

section \<open>Text of a row\<close>

definition caption :: "TabCol \<Rightarrow> string" where
  "caption c = (if tc_alias c \<noteq> [] then tc_alias c else tc_col_name c)"

text \<open>\<^verbatim>\<open>std::fixed << std::setprecision(6)\<close>: the exact decimal value rounded to six places, ties to even.\<close>

definition micros :: "f32 \<Rightarrow> int" where
  "micros a =
     (let m = \<bar>f32_man a\<bar> * 1000000; e = f32_exp a in
      if 149 \<le> e then m * 2 ^ (e - 149)
      else let s = 2 ^ (149 - e); d = m div s; r = 2 * (m mod s) in
           if s < r \<or> r = s \<and> odd d then d + 1 else d)"

definition show_f32 :: "f32 \<Rightarrow> string" where
  "show_f32 a =
     (if f32_neg a then ''-'' else []) @
     (if f32_nan a then ''nan'' else if f32_mag a = f32_inf then ''inf''
      else show_nat (nat (micros a div 1000000)) @ ''.'' @ pad_num 6 (micros a mod 1000000))"

fun show_bytes :: "ColType \<Rightarrow> int \<Rightarrow> byte list \<Rightarrow> string" where
  "show_bytes TYPE_INT len p = to_string (load_i32 p)"
| "show_bytes TYPE_BIGINT len p = to_string (load_i64 p)"
| "show_bytes TYPE_DATETIME len p = format_datetime (load_i64 p)"
| "show_bytes TYPE_FLOAT len p = show_f32 (load_f32 p)"
| "show_bytes TYPE_STRING len p = str_of (load_str p len)"

definition show_cell :: "byte list \<Rightarrow> ColMeta \<Rightarrow> string" where
  "show_cell row c = show_bytes (cm_type c) (cm_len c) (ptr row (cm_offset c))"

definition file_line :: "string list \<Rightarrow> string" where
  "file_line cells = ''|'' @ concat (map (\<lambda>c. '' '' @ c @ '' |'') cells) @ ''\<newline>''"

section \<open>The loop over the rows\<close>

text \<open>\<^verbatim>\<open>(int)num_rec >= limit_val\<close>, for a positive limit.\<close>

definition at_limit :: "int \<Rightarrow> nat \<Rightarrow> bool" where
  "at_limit limit num_rec \<longleftrightarrow> limit > 0 \<and> wrap32 (int num_rec) \<ge> limit"

fun select_loop :: "nat \<Rightarrow> ('x, 's) ops \<Rightarrow> nat \<Rightarrow> int \<Rightarrow> 'x \<Rightarrow> OutBuf \<Rightarrow> string \<Rightarrow> nat \<Rightarrow> ('s, OutBuf \<times> string \<times> nat) prog" where
  "select_loop 0 E num_cols limit x b outfile num_rec = raise OutOfFuel"
| "select_loop (Suc n) E num_cols limit x b outfile num_rec =
     bindE (gets (op_is_end E x)) (\<lambda>e.
       if e then ret (b, outfile, num_rec)
       else bindE (op_Next E x) (\<lambda>(r, x).
         case r of
           None \<Rightarrow> ret (b, outfile, num_rec)
         | Some row \<Rightarrow>
             if at_limit limit num_rec then ret (b, outfile, num_rec)
             else let columns = map (show_cell row) (op_cols E x) in
                  bindE (print_row num_cols columns b) (\<lambda>b.
                  bindE (op_next E x) (\<lambda>x. select_loop n E num_cols limit x b (outfile @ file_line columns) (num_rec + 1)))))"

definition select_from ::
  "nat \<Rightarrow> ('x, 's) ops \<Rightarrow> TabCol list \<Rightarrow> int \<Rightarrow> OutBuf \<Rightarrow> string \<Rightarrow> 'x \<Rightarrow> ('s, OutBuf \<times> string) prog" where
  "select_from n E sel_cols limit b outfile x =
     (let captions = map caption sel_cols; num_cols = length sel_cols in
      bindE (print_row num_cols captions (print_separator num_cols b)) (\<lambda>b.
      bindE (op_begin E x) (\<lambda>x.
      bindE (select_loop n E num_cols limit x (print_separator num_cols b) (outfile @ file_line captions) 0) (\<lambda>(b, outfile, num_rec).
      ret (print_record_count num_rec (print_separator num_cols b), outfile)))))"

section \<open>What is printed\<close>

text \<open>The rows still to be shown after \<open>num\<close> of them.\<close>

definition shown :: "int \<Rightarrow> nat \<Rightarrow> 'a list \<Rightarrow> 'a list" where
  "shown limit num rs = (if limit > 0 then take (nat limit - num) rs else rs)"

lemma shown_Nil [simp]: "shown limit num [] = []"
  by (simp add: shown_def)

lemma shown_Cons:
  assumes "num < 2 ^ 31"
  shows "shown limit num (r # rs) = (if at_limit limit num then [] else r # shown limit (Suc num) rs)"
proof -
  have "wrap32 (int num) = int num" using assms by (intro wrap32_id) auto
  then show ?thesis using assms by (auto simp: shown_def at_limit_def take_Cons' Suc_diff_Suc)
qed

definition row_lines :: "ColMeta list \<Rightarrow> byte list list \<Rightarrow> string" where
  "row_lines cols rs = concat (map (\<lambda>r. file_line (map (show_cell r) cols)) rs)"

context row_source
begin

lemma select_loop_ok:
  assumes "at x s rs" "length rs < n" "length (op_cols E x) = nc" "out_ok b" "num + length rs < 2 ^ 31"
  shows "\<exists>b' t. select_loop n E nc limit x b f num s =
     (Inr (b', f @ row_lines (op_cols E x) (shown limit num rs), num + length (shown limit num rs)), t) \<and> out_ok b' \<and> frame s t"
  using assms
proof (induction n arbitrary: x s rs b f num)
  case (Suc n)
  show ?case
  proof (cases rs)
    case Nil
    then show ?thesis
      using Suc.prems(1,4) Next_none [of x s] frame_refl
      by (cases "op_is_end E x s") (auto simp: prog_simps row_lines_def)
  next
    case (Cons r rs')
    have ne: "\<not> op_is_end E x s" using is_end_ok [OF Suc.prems(1)] Cons by blast
    obtain y t where y: "op_Next E x s = (Inr (Some r, y), t)" "frame s t" "got y t rs'" "op_cols E y = op_cols E x"
      using Next_some [of x s r rs'] Suc.prems(1) Cons by auto
    have num: "num < 2 ^ 31" using Suc.prems(5) by simp
    show ?thesis
    proof (cases "at_limit limit num")
      case True
      then show ?thesis using ne y Cons Suc.prems(4) by (simp add: prog_simps shown_Cons [OF num] row_lines_def)
    next
      case False
      let ?cells = "map (show_cell r) (op_cols E x)"
      obtain b1 where b1: "print_row nc ?cells b t = (Inr b1, t)" "out_ok b1"
        by (rule print_row_ok [where rec_str = ?cells and n = nc and s = t, OF Suc.prems(4)]) (use Suc.prems(3) in simp)
      obtain z u where z: "op_next E y t = (Inr z, u)" "frame t u" "at z u rs'" "op_cols E z = op_cols E x"
        using next_ok [OF y(3)] y(4) by auto
      obtain b2 v where "select_loop n E nc limit z b1 (f @ file_line ?cells) (num + 1) u =
          (Inr (b2, (f @ file_line ?cells) @ row_lines (op_cols E z) (shown limit (num + 1) rs'), num + 1 + length (shown limit (num + 1) rs')), v)"
          "out_ok b2" "frame u v"
        using Suc.IH [where f = "f @ file_line ?cells" and num = "num + 1", OF z(3) _ _ b1(2)] Suc.prems(2,3,5) Cons z(4) by auto
      then show ?thesis
        using ne y b1 z False Cons frame_trans [OF frame_trans [OF y(2) z(2)]]
        by (auto simp: prog_simps shown_Cons [OF num] row_lines_def Let_def)
    qed
  qed
qed simp

lemma select_from_ok:
  assumes "ready x s rs" "length rs < n" "length (op_cols E x) = length sel" "out_ok b" "length rs < 2 ^ 31"
  shows "\<exists>b' t. select_from n E sel limit b f x s =
     (Inr (b', f @ file_line (map caption sel) @ row_lines (op_cols E x) (shown limit 0 rs)), t) \<and>
     length (data_send b') \<le> BUFFER_LENGTH \<and> frame s t"
proof -
  obtain b1 where b1: "print_row (length sel) (map caption sel) (print_separator (length sel) b) s = (Inr b1, s)" "out_ok b1"
    by (rule print_row_ok [where rec_str = "map caption sel" and n = "length sel" and s = s, OF print_separator_ok [OF assms(4)]]) simp
  obtain y t where y: "op_begin E x s = (Inr y, t)" "frame s t" "at y t rs" "op_cols E y = op_cols E x"
    using begin_ok [OF assms(1)] by blast
  obtain b2 u where b2: "select_loop n E (length sel) limit y (print_separator (length sel) b1) (f @ file_line (map caption sel)) 0 t =
      (Inr (b2, (f @ file_line (map caption sel)) @ row_lines (op_cols E y) (shown limit 0 rs), length (shown limit 0 rs)), u)"
      "out_ok b2" "frame t u"
    using select_loop_ok [where f = "f @ file_line (map caption sel)" and num = 0 and limit = limit,
        OF y(3) assms(2) _ print_separator_ok [where n = "length sel", OF b1(2)]] assms(3,5) y(4) by auto
  have "length (shown limit 0 rs) < 10 ^ 14" using assms(5) by (auto simp: shown_def)
  from print_record_count_fits [OF print_separator_ok [OF b2(2)] this] show ?thesis
    using b1(1) y(1,4) b2(1) frame_trans [OF y(2) b2(3)] by (auto simp: select_from_def prog_simps Let_def)
qed

end

section \<open>The text of a projected row\<close>

lemma show_cell_bytes:
  assumes "col_fits (length row) c"
  shows "show_cell row c = show_bytes (cm_type c) (cm_len c) (read_at row (nat (cm_offset c)) (nat (cm_len c)))"
  using assms by (cases "cm_type c")
    (auto simp: show_cell_def ptr_def load_i32_def load_i64_def load_f32_def load_str_def read_at_def col_fits_def)

lemma show_projected:
  assumes "laid_out prev n (int (length pre)) cs stop" "length row = n"
  shows "map (show_cell (pre @ project prev (map fst cs) row)) (map snd cs) = map (\<lambda>i. show_cell row (prev ! i)) (map fst cs)"
  using assms
proof (induction cs arbitrary: pre)
  case (Cons ic cs)
  obtain i c where ic: "ic = (i, c)" by force
  have c: "col_fits n (prev ! i)" "c = (prev ! i)\<lparr>cm_offset := int (length pre)\<rparr>" "laid_out prev n (int (length pre) + cm_len c) cs stop"
    using Cons.prems(1) ic by auto
  let ?v = "read_at row (nat (cm_offset (prev ! i))) (nat (cm_len (prev ! i)))"
  have len: "length ?v = nat (cm_len c)" "0 \<le> cm_len c" using c(1,2) Cons.prems(2) by (auto simp: col_fits_def)
  let ?out = "pre @ ?v @ project prev (map fst cs) row"
  have "col_fits (length ?out) c" using c(1,2) len by (auto simp: col_fits_def)
  then have "show_cell ?out c = show_bytes (cm_type c) (cm_len c) (read_at ?out (length pre) (nat (cm_len c)))"
    using show_cell_bytes [of ?out c] c(2) by simp
  also have "read_at ?out (length pre) (nat (cm_len c)) = ?v"
    using read_at_append [of "length pre" pre "nat (cm_len c)" ?v "project prev (map fst cs) row"] len(1) by simp
  also have "show_bytes (cm_type c) (cm_len c) ?v = show_cell row (prev ! i)"
    using show_cell_bytes [of row "prev ! i"] c(1,2) Cons.prems(2) by simp
  finally have first: "show_cell ?out c = show_cell row (prev ! i)" .
  have "laid_out prev n (int (length (pre @ ?v))) cs stop" using c(3) len by simp
  from Cons.IH [OF this Cons.prems(2)] first show ?case using ic by (simp add: project_def)
qed simp

lemma row_lines_projected:
  assumes "proj_wf E p" "\<forall>q \<in> set qs. length q = op_len E (pj_prev p)"
  shows "row_lines (pj_cols p) (shown limit num (map (project (op_cols E (pj_prev p)) (pj_sel p)) qs)) =
     concat (map (\<lambda>q. file_line (map (\<lambda>i. show_cell q (op_cols E (pj_prev p) ! i)) (pj_sel p))) (shown limit num qs))"
proof -
  let ?prev = "op_cols E (pj_prev p)"
  have "map (show_cell (project ?prev (pj_sel p) q)) (pj_cols p) = map (\<lambda>i. show_cell q (?prev ! i)) (pj_sel p)" if "q \<in> set qs" for q
    using show_projected [of ?prev "op_len E (pj_prev p)" "[]" "zip (pj_sel p) (pj_cols p)" "int (pj_len p)" q] assms that
    by (simp add: proj_wf_def del: map_map map_eq_conv)
  moreover have "set (shown limit num qs) \<subseteq> set qs" by (auto simp: shown_def dest: in_set_takeD)
  ultimately have "map (\<lambda>q. file_line (map (show_cell (project ?prev (pj_sel p) q)) (pj_cols p))) (shown limit num qs) =
      map (\<lambda>q. file_line (map (\<lambda>i. show_cell q (?prev ! i)) (pj_sel p))) (shown limit num qs)"
    by (intro map_cong refl) auto
  moreover have "shown limit num (map g qs) = map g (shown limit num qs)" for g :: "byte list \<Rightarrow> byte list"
    by (simp add: shown_def take_map)
  ultimately show ?thesis by (simp add: row_lines_def comp_def del: map_eq_conv)
qed

section \<open>Properties\<close>



end
