(* ===== verification/Sm_Manager.thy ===== *)
theory Sm_Manager
  imports Planner Printer Dml
begin

text \<open>
  \<^verbatim>\<open>SmManager\<close> (\<^verbatim>\<open>system/sm_manager.cpp\<close>): databases as directories, the catalogue and its file, and the statements that
  create and drop tables and indexes. The names a process sees are those of its current directory: the model keeps
  the name tables of the other directories and exchanges them on \<^verbatim>\<open>chdir\<close>. \<^verbatim>\<open>system\<close> fails only when no process
  can be started, so the results of \<^verbatim>\<open>mkdir\<close> and \<^verbatim>\<open>rm\<close> are not seen; a database name is one word for the shell.
  Text appended to \<^verbatim>\<open>output.txt\<close> is collected in \<open>sm_out\<close>.
\<close>

section \<open>State\<close>

record Sm =
  sm_db :: DbState
  sm_cwd :: "string option"
  sm_root :: "string \<rightharpoonup> nat"
  sm_dirs :: "(string \<times> (string \<rightharpoonup> nat)) list"
  sm_buf :: OutBuf
  sm_out :: string

definition DB_META_NAME :: string where "DB_META_NAME = ''db.meta''"

definition on_sm :: "(DbState, 'a) prog \<Rightarrow> (Sm, 'a) prog" where
  "on_sm m = zoom sm_db (\<lambda>d s. s\<lparr>sm_db := d\<rparr>) m"

definition sm_disk :: "(DiskManager, 'a) prog \<Rightarrow> (Sm, 'a) prog" where
  "sm_disk m = on_sm (on_bpm (on_disk m))"

definition upd_meta :: "(DbMeta \<Rightarrow> DbMeta) \<Rightarrow> (DbState, unit) prog" where
  "upd_meta g = modify (\<lambda>s. s\<lparr>s_meta := g (s_meta s)\<rparr>)"

text \<open>Change the entry of a table in place, as through a \<^verbatim>\<open>TabMeta &\<close>.\<close>

definition upd_table :: "string \<Rightarrow> (TabMeta \<Rightarrow> TabMeta) \<Rightarrow> DbMeta \<Rightarrow> DbMeta" where
  "upd_table nm g db = db\<lparr>db_tabs := map (\<lambda>(k, t). (k, if k = nm then g t else t)) (db_tabs db)\<rparr>"

text \<open>\<^verbatim>\<open>unordered_map::emplace\<close> keeps an entry that is there.\<close>

definition emplace :: "'k \<Rightarrow> 'v \<Rightarrow> ('k \<rightharpoonup> 'v) \<Rightarrow> ('k \<rightharpoonup> 'v)" where
  "emplace k v m = (case m k of None \<Rightarrow> m(k \<mapsto> v) | Some _ \<Rightarrow> m)"

section \<open>Directories and the catalogue file\<close>

definition names_now :: "Sm \<Rightarrow> string \<rightharpoonup> nat" where
  "names_now s = os_names (dm_os (bpm_disk (s_pool (sm_db s))))"

definition set_names :: "(string \<rightharpoonup> nat) \<Rightarrow> string list \<Rightarrow> (Sm, unit) prog" where
  "set_names nms dirs = sm_disk (sys_do (\<lambda>w. w\<lparr>os_names := nms, os_dirs := dirs\<rparr>))"

definition sm_is_dir :: "string \<Rightarrow> (Sm, bool) prog" where
  "sm_is_dir nm = sm_disk (is_dir nm)"

definition chdir_in :: "string \<Rightarrow> (Sm, unit) prog" where
  "chdir_in d =
     bindE (sm_is_dir d) (\<lambda>b.
     bindE (gets (\<lambda>s. map_of (sm_dirs s) d)) (\<lambda>found.
       case found of
         Some ns \<Rightarrow>
           if \<not> b then raise UnixError
           else thenE (modify (\<lambda>s. s\<lparr>sm_cwd := Some d, sm_root := names_now s\<rparr>)) (set_names ns [])
       | None \<Rightarrow> raise UnixError))"

definition chdir_up :: "(Sm, unit) prog" where
  "chdir_up =
     bindE (gets sm_cwd) (\<lambda>cwd.
       case cwd of
         None \<Rightarrow> ret ()
       | Some d \<Rightarrow>
           thenE (modify (\<lambda>s. s\<lparr>sm_cwd := None, sm_dirs := map_put d (names_now s) (sm_dirs s)\<rparr>))
           (bindE (gets (\<lambda>s. (sm_root s, map fst (sm_dirs s)))) (\<lambda>(root, dirs). set_names root dirs)))"

definition sh_mkdir :: "string \<Rightarrow> (Sm, unit) prog" where
  "sh_mkdir d =
     bindE (gets (\<lambda>s. names_now s d = None \<and> map_of (sm_dirs s) d = None)) (\<lambda>fresh.
       if fresh
       then thenE (modify (\<lambda>s. s\<lparr>sm_dirs := map_put d Map.empty (sm_dirs s)\<rparr>))
            (sm_disk (sys_do (\<lambda>w. w\<lparr>os_dirs := d # os_dirs w\<rparr>)))
       else ret ())"

definition sh_rm :: "string \<Rightarrow> (Sm, unit) prog" where
  "sh_rm d =
     thenE (modify (\<lambda>s. s\<lparr>sm_dirs := map_erase d (sm_dirs s)\<rparr>))
     (sm_disk (sys_do (\<lambda>w. w\<lparr>os_names := (os_names w)(d := None), os_dirs := filter (\<lambda>e. e \<noteq> d) (os_dirs w)\<rparr>)))"

text \<open>The directory functions of \<^verbatim>\<open>DiskManager\<close> run the same commands.\<close>

definition create_dir :: "string \<Rightarrow> (Sm, unit) prog" where
  "create_dir path = sh_mkdir path"

definition destroy_dir :: "string \<Rightarrow> (Sm, unit) prog" where
  "destroy_dir path = sh_rm path"

text \<open>Writing a whole file through an \<^verbatim>\<open>std::ofstream\<close>; a file that cannot be opened is not noticed.\<close>

definition os_put :: "string \<Rightarrow> string \<Rightarrow> os_state \<Rightarrow> os_state" where
  "os_put path txt s =
     (case os_open True path s of
        (None, s1) \<Rightarrow> s1
      | (Some fd, s1) \<Rightarrow>
          snd (os_close fd (s1\<lparr>os_data := (os_data s1)(the (os_names s1 path) := bytes_of txt)\<rparr>)))"

text \<open>The text of a file read through an \<^verbatim>\<open>std::ifstream\<close>, \<open>None\<close> when it cannot be opened.\<close>

definition os_get :: "string \<Rightarrow> os_state \<Rightarrow> string option \<times> os_state" where
  "os_get path s =
     (case os_open False path s of
        (None, s1) \<Rightarrow> (None, s1)
      | (Some fd, s1) \<Rightarrow> (Some (str_of (os_data s1 (the (os_names s1 path)))), snd (os_close fd s1)))"

definition flush_meta :: "(DbState, unit) prog" where
  "flush_meta = bindE (gets s_meta) (\<lambda>db. on_bpm (on_disk (sys_do (os_put DB_META_NAME (show_DbMeta db)))))"

definition create_db :: "string \<Rightarrow> (Sm, unit) prog" where
  "create_db nm =
     bindE (sm_is_dir nm) (\<lambda>b.
       if b then raise (DatabaseExistsError nm)
       else thenE (sh_mkdir nm)
            (thenE (chdir_in nm)
            (thenE (sm_disk (sys_do (os_put DB_META_NAME (show_DbMeta \<lparr>db_name = nm, db_tabs = []\<rparr>))))
            (thenE (sm_disk (create_file LOG_FILE_NAME))
            chdir_up))))"

definition drop_db :: "string \<Rightarrow> (Sm, unit) prog" where
  "drop_db nm =
     bindE (sm_is_dir nm) (\<lambda>b. if \<not> b then raise (DatabaseNotFoundError nm) else sh_rm nm)"

section \<open>Opening and closing a database\<close>

definition open_table :: "string \<Rightarrow> (DbState, unit) prog" where
  "open_table tab =
     bindE (on_bpm (rm_open_file tab)) (\<lambda>fh. modify (\<lambda>s. s\<lparr>s_fhs := emplace tab fh (s_fhs s)\<rparr>))"

definition col_names_of :: "IndexMeta \<Rightarrow> string list" where
  "col_names_of index = map cm_name (im_cols index)"

definition open_idx :: "string \<Rightarrow> string list \<Rightarrow> (DbState, unit) prog" where
  "open_idx tab cols =
     bindE (on_bpm (ix_open_index tab cols)) (\<lambda>ih.
     modify (\<lambda>s. s\<lparr>s_ihs := emplace (get_index_name tab cols) ih (s_ihs s)\<rparr>))"

fun open_tables :: "TabMeta list \<Rightarrow> (DbState, unit) prog" where
  "open_tables [] = ret ()"
| "open_tables (t # ts) = thenE (open_table (tm_name t)) (open_tables ts)"

fun open_indexes :: "(string \<times> IndexMeta) list \<Rightarrow> (DbState, unit) prog" where
  "open_indexes [] = ret ()"
| "open_indexes ((tab, index) # ixs) =
     thenE (bindE (on_bpm (ix_exists tab (col_names_of index))) (\<lambda>b.
              if b then open_idx tab (col_names_of index) else ret ()))
     (open_indexes ixs)"

definition all_indexes :: "DbMeta \<Rightarrow> (string \<times> IndexMeta) list" where
  "all_indexes db = concat (map (\<lambda>(k, t). map (Pair (tm_name t)) (indexes t)) (db_tabs db))"

text \<open>A catalogue text that cannot be read leaves \<^verbatim>\<open>db_\<close> half filled; that is not followed further.\<close>

definition open_db :: "string \<Rightarrow> (Sm, unit) prog" where
  "open_db nm =
     bindE (sm_is_dir nm) (\<lambda>b.
       if \<not> b then raise (DatabaseNotFoundError nm)
       else thenE (chdir_in nm)
            (bindE (sm_disk (sys (os_get DB_META_NAME))) (\<lambda>txt.
               case txt of
                 None \<Rightarrow> raise (InternalError ''Cannot open db meta file'')
               | Some tx \<Rightarrow>
                   bindE (on_sm (gets s_meta)) (\<lambda>db0.
                     case read_DbMeta db0 tx of
                       None \<Rightarrow> raise Uninitialised
                     | Some (db, ahead) \<Rightarrow>
                         thenE (on_sm (upd_meta (\<lambda>_. db)))
                         (thenE (on_sm (open_tables (map snd (db_tabs db))))
                         (thenE (on_sm (open_indexes (all_indexes db)))
                         (bindE (sm_disk (is_file LOG_FILE_NAME)) (\<lambda>l.
                            if l then bindE (sm_disk (open_file LOG_FILE_NAME)) (\<lambda>fd. sm_disk (SetLogFd fd))
                            else ret ()))))))))"

fun close_tables :: "string list \<Rightarrow> (DbState, unit) prog" where
  "close_tables [] = ret ()"
| "close_tables (tab # tabs) =
     thenE (bindE (gets (\<lambda>s. s_fhs s tab)) (\<lambda>fh. case fh of None \<Rightarrow> ret () | Some fh \<Rightarrow> on_bpm (rm_close_file fh)))
     (close_tables tabs)"

fun close_indexes :: "string list \<Rightarrow> (DbState, unit) prog" where
  "close_indexes [] = ret ()"
| "close_indexes (ix # ixs) =
     thenE (bindE (gets (\<lambda>s. s_ihs s ix)) (\<lambda>ih. case ih of None \<Rightarrow> ret () | Some ih \<Rightarrow> on_bpm (close_index ih)))
     (close_indexes ixs)"

text \<open>The orders in which the unordered maps are walked are arguments.\<close>

definition close_db :: "string list \<Rightarrow> string list \<Rightarrow> (Sm, unit) prog" where
  "close_db tabs ixs =
     thenE (on_sm flush_meta)
     (thenE (on_sm (close_tables tabs))
     (thenE (on_sm (modify (\<lambda>s. s\<lparr>s_fhs := Map.empty\<rparr>)))
     (thenE (on_sm (close_indexes ixs))
     (thenE (on_sm (modify (\<lambda>s. s\<lparr>s_ihs := Map.empty\<rparr>)))
     chdir_up))))"

section \<open>SHOW and DESC\<close>

definition on_buf :: "(OutBuf \<Rightarrow> (Sm, OutBuf) prog) \<Rightarrow> (Sm, unit) prog" where
  "on_buf f = bindE (gets sm_buf) (\<lambda>b. bindE (f b) (\<lambda>b. modify (\<lambda>s. s\<lparr>sm_buf := b\<rparr>)))"

definition sm_separator :: "nat \<Rightarrow> (Sm, unit) prog" where
  "sm_separator n = on_buf (\<lambda>b. ret (print_separator n b))"

definition sm_record :: "nat \<Rightarrow> string list \<Rightarrow> (Sm, unit) prog" where
  "sm_record n cells = on_buf (print_row n cells)"

definition put_out :: "string \<Rightarrow> (Sm, unit) prog" where
  "put_out txt = modify (\<lambda>s. s\<lparr>sm_out := sm_out s @ txt\<rparr>)"

fun show_names :: "string list \<Rightarrow> (Sm, unit) prog" where
  "show_names [] = ret ()"
| "show_names (nm # nms) = thenE (sm_record 1 [nm]) (thenE (put_out (''| '' @ nm @ '' |\<newline>'')) (show_names nms))"

definition show_tables :: "(Sm, unit) prog" where
  "show_tables =
     thenE (put_out ''| Tables |\<newline>'')
     (thenE (sm_separator 1)
     (thenE (sm_record 1 [''Tables''])
     (thenE (sm_separator 1)
     (bindE (on_sm (gets (\<lambda>s. map (\<lambda>e. tm_name (snd e)) (db_tabs (s_meta s))))) (\<lambda>nms.
     thenE (show_names nms) (sm_separator 1))))))"

definition commas :: "string list \<Rightarrow> string" where
  "commas nms = (case nms of [] \<Rightarrow> [] | n # ns \<Rightarrow> n @ concat (map (\<lambda>m. '','' @ m) ns))"

definition show_index :: "string \<Rightarrow> (Sm, unit) prog" where
  "show_index tab_name =
     bindE (on_sm (gets s_meta)) (\<lambda>db.
     bindE (get_table db tab_name) (\<lambda>tab.
     put_out (concat (map (\<lambda>index. ''| '' @ tab_name @ '' | unique | ('' @ commas (col_names_of index) @ '') |\<newline>'') (indexes tab)))))"

fun desc_cols :: "ColMeta list \<Rightarrow> (Sm, unit) prog" where
  "desc_cols [] = ret ()"
| "desc_cols (c # cs) =
     thenE (sm_record 3 [cm_name c, coltype2str (cm_type c), if cm_index c then ''YES'' else ''NO'']) (desc_cols cs)"

definition desc_table :: "string \<Rightarrow> (Sm, unit) prog" where
  "desc_table tab_name =
     bindE (on_sm (gets s_meta)) (\<lambda>db.
     bindE (get_table db tab_name) (\<lambda>tab.
     thenE (sm_separator 3)
     (thenE (sm_record 3 [''Field'', ''Type'', ''Index''])
     (thenE (sm_separator 3)
     (thenE (desc_cols (tm_cols tab)) (sm_separator 3))))))"

section \<open>Tables\<close>

text \<open>The columns of a new table, one behind the other, and the length of its records.\<close>

fun layout_cols :: "string \<Rightarrow> int \<Rightarrow> ColDef list \<Rightarrow> ColMeta list \<times> int" where
  "layout_cols tab off [] = ([], off)"
| "layout_cols tab off (c # cs) =
     (case layout_cols tab (off + cd_len c) cs of (ms, stop) \<Rightarrow>
        (\<lparr>cm_tab_name = tab, cm_name = cd_name c, cm_type = cd_type c, cm_len = cd_len c, cm_offset = off, cm_index = False\<rparr> # ms, stop))"

definition create_table :: "string \<Rightarrow> ColDef list \<Rightarrow> (DbState, unit) prog" where
  "create_table tab_name cds =
     bindE (gets s_meta) (\<lambda>db.
       if is_table db tab_name then raise (TableExistsError tab_name)
       else case layout_cols tab_name 0 cds of (cols, rs) \<Rightarrow>
         thenE (on_bpm (rm_create_file tab_name rs))
         (thenE (upd_meta (\<lambda>db. db\<lparr>db_tabs := map_put tab_name \<lparr>tm_name = tab_name, tm_cols = cols, indexes = []\<rparr> (db_tabs db)\<rparr>))
         (thenE (open_table tab_name)
         flush_meta)))"

text \<open>\<^verbatim>\<open>fhs_[name]\<close> and \<^verbatim>\<open>ihs_[name]\<close> make a null handle when there is none, which is then used.\<close>

fun drop_index_files :: "string \<Rightarrow> IndexMeta list \<Rightarrow> (DbState, unit) prog" where
  "drop_index_files tab [] = ret ()"
| "drop_index_files tab (index # ixs) =
     (let nm = get_index_name tab (col_names_of index) in
      bindE (gets (\<lambda>s. s_ihs s nm)) (\<lambda>ih.
        case ih of
          None \<Rightarrow> raise NullPointer
        | Some ih \<Rightarrow>
            thenE (on_bpm (close_index ih))
            (thenE (on_bpm (ix_destroy_index tab (col_names_of index)))
            (thenE (modify (\<lambda>s. s\<lparr>s_ihs := (s_ihs s)(nm := None)\<rparr>))
            (drop_index_files tab ixs)))))"

definition drop_table :: "string \<Rightarrow> (DbState, unit) prog" where
  "drop_table tab_name =
     bindE (gets s_meta) (\<lambda>db.
       if \<not> is_table db tab_name then raise (TableNotFoundError tab_name)
       else bindE (get_table db tab_name) (\<lambda>tab.
         bindE (gets (\<lambda>s. s_fhs s tab_name)) (\<lambda>fh.
           case fh of
             None \<Rightarrow> raise NullPointer
           | Some fh \<Rightarrow>
               thenE (on_bpm (rm_close_file fh))
               (thenE (on_bpm (rm_destroy_file tab_name))
               (thenE (modify (\<lambda>s. s\<lparr>s_fhs := (s_fhs s)(tab_name := None)\<rparr>))
               (thenE (drop_index_files tab_name (indexes tab))
               (thenE (upd_meta (\<lambda>db. db\<lparr>db_tabs := map_erase tab_name (db_tabs db)\<rparr>))
               flush_meta)))))))"

section \<open>Indexes\<close>

text \<open>Filling an index from the records of its table; the result of \<^verbatim>\<open>insert_entry\<close> is not looked at.\<close>

fun build_index :: "nat \<Rightarrow> string \<Rightarrow> string \<Rightarrow> ColMeta list \<Rightarrow> Rid \<Rightarrow> (DbState, unit) prog" where
  "build_index 0 tab nm cols rid = raise OutOfFuel"
| "build_index (Suc n) tab nm cols rid =
     bindE (on_file tab (gets (\<lambda>s. scan_is_end s rid))) (\<lambda>e.
       if e then ret ()
       else bindE (on_file tab (get_record rid)) (\<lambda>rec.
            thenE (on_index nm (insert_entry (concat (map (col_data rec) cols)) rid))
            (bindE (on_file tab (scan_next rid)) (build_index n tab nm cols))))"

definition fill_index :: "string \<Rightarrow> string \<Rightarrow> ColMeta list \<Rightarrow> (DbState, unit) prog" where
  "fill_index tab nm cols =
     bindE (on_file tab (gets (\<lambda>s. scan_bound (hdr s)))) (\<lambda>n.
     thenE (on_index nm (ret ()))
     (bindE (on_file tab new_RmScan) (build_index n tab nm cols)))"

fun index_columns :: "TabMeta \<Rightarrow> string list \<Rightarrow> ('s, ColMeta list) prog" where
  "index_columns tab [] = ret []"
| "index_columns tab (nm # nms) =
     bindE (get_col tab nm) (\<lambda>c. bindE (index_columns tab nms) (\<lambda>cs. ret (c # cs)))"

definition create_index :: "string \<Rightarrow> string list \<Rightarrow> (DbState, unit) prog" where
  "create_index tab_name col_names =
     bindE (gets s_meta) (\<lambda>db.
     bindE (get_table db tab_name) (\<lambda>tab.
       if is_index tab col_names then raise (IndexExistsError tab_name col_names)
       else bindE (index_columns tab col_names) (\<lambda>cols.
         let index = \<lparr>im_tab_name = tab_name, col_tot_len = sum_list (map cm_len cols), col_num = int (length col_names), im_cols = cols\<rparr> in
         thenE (upd_meta (upd_table tab_name (\<lambda>t. t\<lparr>indexes := indexes t @ [index]\<rparr>)))
         (thenE (on_bpm (ix_create_index tab_name cols))
         (thenE (open_idx tab_name (map cm_name cols))
         (thenE (fill_index tab_name (get_index_name tab_name (map cm_name cols)) cols)
         flush_meta))))))"

definition drop_index :: "string \<Rightarrow> string list \<Rightarrow> (DbState, unit) prog" where
  "drop_index tab_name col_names =
     bindE (gets s_meta) (\<lambda>db.
     bindE (get_table db tab_name) (\<lambda>tab.
     bindE (get_index_meta tab col_names) (\<lambda>i.
     let cols = col_names_of (indexes tab ! i); nm = get_index_name tab_name cols in
     bindE (gets (\<lambda>s. s_ihs s nm)) (\<lambda>ih.
       case ih of
         None \<Rightarrow> raise (StdException ''std::out_of_range'')
       | Some ih \<Rightarrow>
           thenE (on_bpm (close_index ih))
           (thenE (on_bpm (ix_destroy_index tab_name cols))
           (thenE (modify (\<lambda>s. s\<lparr>s_ihs := (s_ihs s)(nm := None)\<rparr>))
           (thenE (upd_meta (upd_table tab_name (\<lambda>t. t\<lparr>indexes := take i (indexes t) @ drop (Suc i) (indexes t)\<rparr>)))
           flush_meta)))))))"

definition drop_index_cols :: "string \<Rightarrow> ColMeta list \<Rightarrow> (DbState, unit) prog" where
  "drop_index_cols tab_name cols = drop_index tab_name (map cm_name cols)"

definition rebuild_index :: "string \<Rightarrow> IndexMeta \<Rightarrow> (DbState, unit) prog" where
  "rebuild_index tab index =
     (let nm = get_index_name tab (col_names_of index) in
      thenE (bindE (gets (\<lambda>s. s_ihs s nm)) (\<lambda>ih.
               case ih of
                 None \<Rightarrow> ret ()
               | Some ih \<Rightarrow> thenE (on_bpm (close_index ih)) (modify (\<lambda>s. s\<lparr>s_ihs := (s_ihs s)(nm := None)\<rparr>))))
      (thenE (on_bpm (ix_destroy_index tab (col_names_of index)))
      (thenE (on_bpm (ix_create_index tab (im_cols index)))
      (thenE (open_idx tab (col_names_of index))
      (fill_index tab nm (im_cols index))))))"

fun rebuild_all :: "(string \<times> IndexMeta) list \<Rightarrow> (DbState, unit) prog" where
  "rebuild_all [] = ret ()"
| "rebuild_all ((tab, index) # ixs) = thenE (rebuild_index tab index) (rebuild_all ixs)"

definition rebuild_indexes :: "(DbState, unit) prog" where
  "rebuild_indexes = bindE (gets s_meta) (\<lambda>db. rebuild_all (all_indexes db))"

end
