(* ===== verification/Portal.thy ===== *)
theory Portal
  imports Planner Index_Scan Sort Aggregate Join Dml Ql_Select
begin

text \<open>
  \<^verbatim>\<open>Portal\<close> (\<^verbatim>\<open>portal.h\<close>): turning a plan into a tree of executors and collecting the records an UPDATE or DELETE is for.
  A node of the tree is the state of its executor with the places of its children left open, and the children;
  the functions of a tree are those of the executor classes over the functions of smaller trees, for every bound
  on the height of the tree. \<open>pr_rounds\<close> bounds the loops over the rows of a child.
\<close>

section \<open>Trees of executors\<close>

datatype Exec =
    NullExec
  | SeqExec SeqScan
  | IndexExec IndexScan
  | ProjExec "unit Projection" Exec
  | AggExec "unit Aggregate" Exec
  | SortExec "unit Sort" Exec
  | JoinExec "(unit, unit) Join" Exec Exec

definition proj_with :: "'a Projection \<Rightarrow> 'x \<Rightarrow> 'x Projection" where
  "proj_with p x = \<lparr>pj_prev = x, pj_cols = pj_cols p, pj_len = pj_len p, pj_sel = pj_sel p\<rparr>"

definition agg_with :: "'a Aggregate \<Rightarrow> 'x \<Rightarrow> 'x Aggregate" where
  "agg_with g x = \<lparr>ag_prev = x, ag_type = ag_type g, ag_out = ag_out g, ag_len = ag_len g, ag_col = ag_col g,
     ag_is_int = ag_is_int g, ag_acc = ag_acc g, computed = computed g, returned = returned g\<rparr>"

definition sort_with :: "'a Sort \<Rightarrow> 'x \<Rightarrow> 'x Sort" where
  "sort_with z x = \<lparr>so_prev = x, sort_cols = sort_cols z, so_len = so_len z, output_cols = output_cols z, sorted_data = sorted_data z,
     current_idx = current_idx z, is_sorted = is_sorted z, is_external = is_external z, run_files = run_files z,
     run_streams = run_streams z, run_heads = run_heads z, so_heap = so_heap z, cur_output_row = cur_output_row z\<rparr>"

definition join_with :: "('a, 'b) Join \<Rightarrow> 'l \<Rightarrow> 'r \<Rightarrow> ('l, 'r) Join" where
  "join_with j l r = \<lparr>jn_left = l, jn_right = r, jn_len = jn_len j, jn_cols = jn_cols j, jn_conds = jn_conds j, left_block = left_block j,
     per_left_matches = per_left_matches j, cur_left_idx = cur_left_idx j, cur_match_idx = cur_match_idx j,
     cur_right_data = cur_right_data j, left_exhausted = left_exhausted j, jn_isend = jn_isend j\<rparr>"

definition ProjNode :: "Exec Projection \<Rightarrow> Exec" where "ProjNode p = ProjExec (proj_with p ()) (pj_prev p)"
definition AggNode :: "Exec Aggregate \<Rightarrow> Exec" where "AggNode g = AggExec (agg_with g ()) (ag_prev g)"
definition SortNode :: "Exec Sort \<Rightarrow> Exec" where "SortNode z = SortExec (sort_with z ()) (so_prev z)"
definition JoinNode :: "(Exec, Exec) Join \<Rightarrow> Exec" where "JoinNode j = JoinExec (join_with j () ()) (jn_left j) (jn_right j)"

text \<open>What the statements of a session share: bounds, the sorting function of the library, the order of the open
  files, the text of the last system error, and what uninitialised memory holds.\<close>

record Params =
  pr_height :: nat
  pr_rounds :: nat
  pr_sort :: "(row \<Rightarrow> row \<Rightarrow> bool) \<Rightarrow> row list \<Rightarrow> row list"
  pr_tabs :: "string list"
  pr_ixs :: "string list"
  pr_strerror :: string
  pr_mem :: "byte list"

text \<open>The virtual functions of one node.\<close>

record node =
  nd_begin :: "(DbState, Exec) prog"
  nd_next :: "(DbState, Exec) prog"
  nd_is_end :: "DbState \<Rightarrow> bool"
  nd_Next :: "(DbState, byte list option \<times> Exec) prog"
  nd_cols :: "ColMeta list"
  nd_len :: nat

definition node_of :: "('x, DbState) ops \<Rightarrow> ('x \<Rightarrow> Exec) \<Rightarrow> 'x \<Rightarrow> node" where
  "node_of E mk x =
     \<lparr>nd_begin = bindE (op_begin E x) (\<lambda>y. ret (mk y)), nd_next = bindE (op_next E x) (\<lambda>y. ret (mk y)),
      nd_is_end = op_is_end E x, nd_Next = bindE (op_Next E x) (\<lambda>(r, y). ret (r, mk y)), nd_cols = op_cols E x, nd_len = op_len E x\<rparr>"

definition null_node :: "rmdb_error \<Rightarrow> node" where
  "null_node e = \<lparr>nd_begin = raise e, nd_next = raise e, nd_is_end = (\<lambda>s. False), nd_Next = raise e, nd_cols = [], nd_len = 0\<rparr>"

fun tree_node :: "Params \<Rightarrow> (Exec, DbState) ops \<Rightarrow> Exec \<Rightarrow> node" where
  "tree_node pr T NullExec = null_node NullPointer"
| "tree_node pr T (SeqExec x) = node_of seq_scan_ops SeqExec x"
| "tree_node pr T (IndexExec x) = node_of index_scan_ops IndexExec x"
| "tree_node pr T (ProjExec p c) = node_of (projection_ops T) ProjNode (proj_with p c)"
| "tree_node pr T (AggExec g c) = node_of (aggregate_ops (pr_rounds pr) T) AggNode (agg_with g c)"
| "tree_node pr T (SortExec z c) = node_of (sort_ops (pr_rounds pr) (pr_sort pr) T) SortNode (sort_with z c)"
| "tree_node pr T (JoinExec j l r) = node_of (join_ops (pr_rounds pr) T T) JoinNode (join_with j l r)"

definition ops_of :: "(Exec \<Rightarrow> node) \<Rightarrow> (Exec, DbState) ops" where
  "ops_of N = \<lparr>op_begin = (\<lambda>e. nd_begin (N e)), op_next = (\<lambda>e. nd_next (N e)), op_is_end = (\<lambda>e. nd_is_end (N e)),
     op_Next = (\<lambda>e. nd_Next (N e)), op_cols = (\<lambda>e. nd_cols (N e)), op_len = (\<lambda>e. nd_len (N e))\<rparr>"

fun tree_ops :: "Params \<Rightarrow> nat \<Rightarrow> (Exec, DbState) ops" where
  "tree_ops pr 0 = ops_of (\<lambda>e. null_node OutOfFuel)"
| "tree_ops pr (Suc d) = ops_of (tree_node pr (tree_ops pr d))"

section \<open>From plans to executors\<close>

fun convert_plan_executor :: "Params \<Rightarrow> Context option \<Rightarrow> Plan \<Rightarrow> (DbState, Exec) prog" where
  "convert_plan_executor pr ctx (ProjectionPlan tag sub sel_cols) =
     (let T = tree_ops pr (pr_height pr) in
      bindE (convert_plan_executor pr ctx sub) (\<lambda>e.
        if \<exists>c \<in> set sel_cols. tc_agg_type c \<noteq> AGG_NONE
        then bindE (new_Aggregate T e sel_cols) (\<lambda>g. ret (AggNode g))
        else bindE (new_Projection T e sel_cols) (\<lambda>p. ret (ProjNode p))))"
| "convert_plan_executor pr ctx (ScanPlan x) =
     (if sp_tag x = T_SeqScan then bindE (new_SeqScan (sp_tab_name x) (sp_conds x) ctx) (\<lambda>s. ret (SeqExec s))
      else bindE (new_IndexScan (sp_tab_name x) (sp_conds x) (sp_index_col_names x) ctx) (\<lambda>s. ret (IndexExec s)))"
| "convert_plan_executor pr ctx (JoinPlan tag l r conds) =
     (let T = tree_ops pr (pr_height pr) in
      bindE (convert_plan_executor pr ctx l) (\<lambda>left.
      bindE (convert_plan_executor pr ctx r) (\<lambda>right. ret (JoinNode (new_Join T T left right conds)))))"
| "convert_plan_executor pr ctx (SortPlan tag sub sel_cols is_desc) =
     (let T = tree_ops pr (pr_height pr) in
      bindE (convert_plan_executor pr ctx sub) (\<lambda>e. ret (SortNode (new_Sort T e sel_cols is_desc))))"
| "convert_plan_executor pr ctx p = ret NullExec"

text \<open>\<^verbatim>\<open>rid()\<close>; only scans are asked for it.\<close>

fun exec_rid :: "Exec \<Rightarrow> ('s, Rid) prog" where
  "exec_rid (SeqExec x) = ret (ss_rid x)"
| "exec_rid (IndexExec x) = ret (isc_rid x)"
| "exec_rid e = raise Uninitialised"

fun collect_rids :: "nat \<Rightarrow> (Exec, DbState) ops \<Rightarrow> Exec \<Rightarrow> Rid list \<Rightarrow> (DbState, Rid list) prog" where
  "collect_rids 0 T e rids = raise OutOfFuel"
| "collect_rids (Suc n) T e rids =
     bindE (gets (op_is_end T e)) (\<lambda>b.
       if b then ret rids
       else bindE (op_Next T e) (\<lambda>(r, e).
            bindE (case r of None \<Rightarrow> ret rids | Some row \<Rightarrow> bindE (exec_rid e) (\<lambda>rid. ret (rids @ [rid]))) (\<lambda>rids.
            bindE (gets (op_is_end T e)) (\<lambda>b.
            bindE (if b then ret e else op_next T e) (\<lambda>e. collect_rids n T e rids)))))"

definition scan_rids :: "Params \<Rightarrow> Context option \<Rightarrow> Plan \<Rightarrow> (DbState, Rid list) prog" where
  "scan_rids pr ctx sub =
     (let T = tree_ops pr (pr_height pr) in
      bindE (convert_plan_executor pr ctx sub) (\<lambda>e.
      bindE (op_begin T e) (\<lambda>e. collect_rids (pr_rounds pr) T e [])))"

section \<open>Portal statements\<close>

datatype Root = NoRoot | SelectRoot Exec | InsertRoot InsertExecutor | UpdateRoot UpdateExecutor | DeleteRoot DeleteExecutor

datatype portalTag = PORTAL_Invalid_Query | PORTAL_ONE_SELECT | PORTAL_DML_WITHOUT_SELECT | PORTAL_MULTI_QUERY | PORTAL_CMD_UTILITY

record PortalStmt =
  ps_tag :: portalTag
  ps_sel_cols :: "TabCol list"
  ps_root :: Root
  ps_plan :: Plan
  ps_limit :: int

definition new_PortalStmt :: "portalTag \<Rightarrow> TabCol list \<Rightarrow> Root \<Rightarrow> Plan \<Rightarrow> PortalStmt" where
  "new_PortalStmt tag sel_cols root plan = \<lparr>ps_tag = tag, ps_sel_cols = sel_cols, ps_root = root, ps_plan = plan, ps_limit = 0\<rparr>"

text \<open>The subplan of a SELECT is read as a projection; any other one would be a null pointer.\<close>

definition start_dml :: "Params \<Rightarrow> Context option \<Rightarrow> PlanTag \<Rightarrow> Plan \<Rightarrow> string \<Rightarrow> Value list \<Rightarrow> Condition list \<Rightarrow> SetClause list \<Rightarrow> int \<Rightarrow> Plan \<Rightarrow>
    (DbState, PortalStmt) prog" where
  "start_dml pr ctx tag sub tab vals conds sets limit plan =
     (if tag = T_select then
        (case sub of
           ProjectionPlan ptag psub sel_cols \<Rightarrow>
             bindE (convert_plan_executor pr ctx sub) (\<lambda>e.
             ret ((new_PortalStmt PORTAL_ONE_SELECT sel_cols (SelectRoot e) plan)\<lparr>ps_limit := limit\<rparr>))
         | _ \<Rightarrow> raise NullPointer)
      else if tag = T_Update then
        bindE (scan_rids pr ctx sub) (\<lambda>rids.
        bindE (new_UpdateExecutor tab sets conds rids ctx) (\<lambda>x.
        ret (new_PortalStmt PORTAL_DML_WITHOUT_SELECT [] (UpdateRoot x) plan)))
      else if tag = T_Delete then
        bindE (scan_rids pr ctx sub) (\<lambda>rids.
        bindE (new_DeleteExecutor tab conds rids ctx) (\<lambda>x.
        ret (new_PortalStmt PORTAL_DML_WITHOUT_SELECT [] (DeleteRoot x) plan)))
      else if tag = T_Insert then
        bindE (new_InsertExecutor tab vals ctx) (\<lambda>x.
        ret (new_PortalStmt PORTAL_DML_WITHOUT_SELECT [] (InsertRoot x) plan))
      else raise (InternalError ''Unexpected field type''))"

fun portal_start :: "Params \<Rightarrow> Context option \<Rightarrow> Plan \<Rightarrow> (DbState, PortalStmt) prog" where
  "portal_start pr ctx (OtherPlan tag tab) = ret (new_PortalStmt PORTAL_CMD_UTILITY [] NoRoot (OtherPlan tag tab))"
| "portal_start pr ctx (SetKnobPlan k b) = ret (new_PortalStmt PORTAL_CMD_UTILITY [] NoRoot (SetKnobPlan k b))"
| "portal_start pr ctx (DDLPlan tag tab cols cds) = ret (new_PortalStmt PORTAL_MULTI_QUERY [] NoRoot (DDLPlan tag tab cols cds))"
| "portal_start pr ctx (DMLPlan tag sub tab vals conds sets limit) =
     start_dml pr ctx tag sub tab vals conds sets limit (DMLPlan tag sub tab vals conds sets limit)"
| "portal_start pr ctx p = raise (InternalError ''Unexpected field type'')"

text \<open>\<^verbatim>\<open>QlManager::run_dml\<close>: one call of the virtual function \<^verbatim>\<open>Next\<close>.\<close>

fun run_dml :: "Root \<Rightarrow> (DbState, unit) prog" where
  "run_dml (InsertRoot x) = thenE (insert_Next x) (ret ())"
| "run_dml (UpdateRoot x) = thenE (update_Next x) (ret ())"
| "run_dml (DeleteRoot x) = delete_Next x"
| "run_dml r = raise NullPointer"

end
