(* ===== verification/Server.thy ===== *)
theory Server
  imports Portal Sm_Manager Txn_Manager Recovery
begin

text \<open>
  The server (\<^verbatim>\<open>rmdb.cpp\<close>) with the statements \<^verbatim>\<open>QlManager\<close> (\<^verbatim>\<open>execution/execution_manager.cpp\<close>) and \<^verbatim>\<open>Portal::run\<close> execute
  themselves: what happens with one request of a client, from the choice of the transaction to the answer and the
  automatic commit, and what \<^verbatim>\<open>main\<close> does before it accepts clients. The model is the session of one client.
  Sockets, threads and the generated parser stay outside: a request comes as the tree the parser made of it,
  or nothing after a syntax error.
\<close>

section \<open>State\<close>

record Server =
  sv_sm :: Sm
  sv_next_txn_id :: int
  sv_txn_map :: "int set"
  sv_txn_id :: int
  sv_has_txn :: bool
  sv_knobs :: Knobs

definition on_sv :: "(Sm, 'a) prog \<Rightarrow> (Server, 'a) prog" where
  "on_sv m = zoom sv_sm (\<lambda>d s. s\<lparr>sv_sm := d\<rparr>) m"

definition on_state :: "(DbState, 'a) prog \<Rightarrow> (Server, 'a) prog" where
  "on_state m = on_sv (on_sm m)"

text \<open>The transaction manager works on the transaction table and the shared state.\<close>

definition on_txns :: "(TxnState, 'a) prog \<Rightarrow> (Server, 'a) prog" where
  "on_txns m s =
     (case m \<lparr>tm_db = sm_db (sv_sm s), next_txn_id = sv_next_txn_id s, txn_map = sv_txn_map s\<rparr> of
        (r, t) \<Rightarrow> (r, s\<lparr>sv_sm := (sv_sm s)\<lparr>sm_db := tm_db t\<rparr>, sv_next_txn_id := next_txn_id t, sv_txn_map := txn_map t\<rparr>))"

definition cur_txn :: "Server \<Rightarrow> Transaction" where
  "cur_txn s = s_txn (sm_db (sv_sm s))"

definition set_txn :: "Transaction \<Rightarrow> (DbState, unit) prog" where
  "set_txn t = modify (\<lambda>s. s\<lparr>s_txn := t\<rparr>)"

definition cur_ctx :: "Server \<Rightarrow> Context option" where
  "cur_ctx s = Some \<lparr>cx_lock_mgr = True, cx_log_mgr = True, cx_txn = sv_has_txn s\<rparr>"

definition set_reply :: "string \<Rightarrow> (Server, unit) prog" where
  "set_reply txt = on_sv (modify (\<lambda>s. s\<lparr>sm_buf := (sm_buf s)\<lparr>data_send := txt\<rparr>\<rparr>))"

section \<open>Statements\<close>

definition help_info :: string where
  "help_info = ''Supported SQL syntax:\<newline>  command ;\<newline>command:\<newline>'' @
     ''  CREATE TABLE table_name (column_name type [, column_name type ...])\<newline>  DROP TABLE table_name\<newline>'' @
     ''  CREATE INDEX table_name (column_name)\<newline>  DROP INDEX table_name (column_name)\<newline>'' @
     ''  INSERT INTO table_name VALUES (value [, value ...])\<newline>  DELETE FROM table_name [WHERE where_clause]\<newline>'' @
     ''  UPDATE table_name SET column_name = value [, column_name = value ...] [WHERE where_clause]\<newline>'' @
     ''  SELECT selector FROM table_name [WHERE where_clause]\<newline>type:\<newline>  {INT | FLOAT | CHAR(n)}\<newline>'' @
     ''where_clause:\<newline>  condition [AND condition ...]\<newline>condition:\<newline>  column op {column | value}\<newline>'' @
     ''column:\<newline>  [table_name.]column_name\<newline>op:\<newline>  {= | <> | < | > | <= | >=}\<newline>'' @
     ''selector:\<newline>  {* | column [, column ...]}\<newline>''"

fun run_mutli_query :: "Plan \<Rightarrow> (DbState, unit) prog" where
  "run_mutli_query (DDLPlan tag tab cols cds) =
     (if tag = T_CreateTable then create_table tab cds
      else if tag = T_DropTable then drop_table tab
      else if tag = T_CreateIndex then create_index tab cols
      else if tag = T_DropIndex then drop_index tab cols
      else raise (InternalError ''Unexpected field type''))"
| "run_mutli_query p = ret ()"

definition get_transaction :: "int \<Rightarrow> (Server, bool) prog" where
  "get_transaction i =
     (if i = INVALID_TXN_ID then ret False
      else bindE (gets sv_txn_map) (\<lambda>m. thenE (assertE (i \<in> m)) (ret True)))"

definition forget_txn :: "(Server, unit) prog" where
  "forget_txn = modify (\<lambda>s. s\<lparr>sv_txn_id := INVALID_TXN_ID, sv_has_txn := False\<rparr>)"

text \<open>COMMIT, ABORT and ROLLBACK act on the transaction of the session.\<close>

definition end_session_txn :: "(bool \<Rightarrow> (TxnState, unit) prog) \<Rightarrow> (Server, unit) prog" where
  "end_session_txn m =
     bindE (gets sv_txn_id) (\<lambda>i.
     bindE (get_transaction i) (\<lambda>found.
     thenE (modify (\<lambda>s. s\<lparr>sv_has_txn := found\<rparr>))
     (thenE (on_txns (m found)) forget_txn)))"

fun run_cmd_utility :: "Params \<Rightarrow> Plan \<Rightarrow> (Server, unit) prog" where
  "run_cmd_utility pr (OtherPlan tag tab) =
     (if tag = T_Help then on_sv (modify (\<lambda>s. s\<lparr>sm_buf := (sm_buf s)\<lparr>data_send := take (length help_info) (data_send (sm_buf s) @ help_info)\<rparr>\<rparr>))
      else if tag = T_ShowTable then on_sv show_tables
      else if tag = T_ShowIndex then on_sv (show_index tab)
      else if tag = T_DescTable then on_sv (desc_table tab)
      else if tag = T_Transaction_begin then
        bindE (gets sv_has_txn) (\<lambda>b.
          if b then on_state (modify (\<lambda>s. s\<lparr>s_txn := (s_txn s)\<lparr>txn_mode := True\<rparr>\<rparr>)) else raise NullPointer)
      else if tag = T_Transaction_commit then end_session_txn (\<lambda>b. txn_commit b True (pr_tabs pr) (pr_ixs pr))
      else if tag = T_Transaction_rollback \<or> tag = T_Transaction_abort then end_session_txn (\<lambda>b. txn_abort b True)
      else raise (InternalError ''Unexpected field type''))"
| "run_cmd_utility pr (SetKnobPlan k b) =
     (case k of
        EnableNestLoop \<Rightarrow> modify (\<lambda>s. s\<lparr>sv_knobs := (sv_knobs s)\<lparr>enable_nestedloop_join := b\<rparr>\<rparr>)
      | EnableSortMerge \<Rightarrow> modify (\<lambda>s. s\<lparr>sv_knobs := (sv_knobs s)\<lparr>enable_sortmerge_join := b\<rparr>\<rparr>))"
| "run_cmd_utility pr p = ret ()"

definition run_select :: "Params \<Rightarrow> TabCol list \<Rightarrow> int \<Rightarrow> Exec \<Rightarrow> (Sm, unit) prog" where
  "run_select pr sel_cols limit e =
     bindE (gets (\<lambda>s. (sm_buf s, sm_out s))) (\<lambda>(b, out).
     bindE (on_sm (select_from (pr_rounds pr) (tree_ops pr (pr_height pr)) sel_cols limit b out e)) (\<lambda>(b, out).
     modify (\<lambda>s. s\<lparr>sm_buf := b, sm_out := out\<rparr>)))"

definition portal_run :: "Params \<Rightarrow> PortalStmt \<Rightarrow> (Server, unit) prog" where
  "portal_run pr st =
     (case ps_tag st of
        PORTAL_ONE_SELECT \<Rightarrow>
          (case ps_root st of
             SelectRoot e \<Rightarrow> on_sv (run_select pr (ps_sel_cols st) (ps_limit st) e)
           | _ \<Rightarrow> raise NullPointer)
      | PORTAL_DML_WITHOUT_SELECT \<Rightarrow> on_state (run_dml (ps_root st))
      | PORTAL_MULTI_QUERY \<Rightarrow> on_state (run_mutli_query (ps_plan st))
      | PORTAL_CMD_UTILITY \<Rightarrow> run_cmd_utility pr (ps_plan st)
      | PORTAL_Invalid_Query \<Rightarrow> raise (InternalError ''Unexpected field type''))"

text \<open>The body of the \<^verbatim>\<open>try\<close>: analysis, optimizer, portal.\<close>

definition run_statement :: "Params \<Rightarrow> TreeNode \<Rightarrow> (Server, unit) prog" where
  "run_statement pr tree =
     bindE (on_state (gets s_meta)) (\<lambda>db.
     bindE (do_analyze db (pr_mem pr) tree) (\<lambda>q.
     bindE (gets sv_knobs) (\<lambda>k.
     bindE (plan_query db k q) (\<lambda>plan.
     bindE (gets cur_ctx) (\<lambda>ctx.
     bindE (on_state (portal_start pr ctx plan)) (\<lambda>st. portal_run pr st))))))"

section \<open>Exceptions\<close>

fun commas_text :: "string list \<Rightarrow> string" where
  "commas_text [] = []"
| "commas_text [c] = c"
| "commas_text (c # cs) = c @ '', '' @ commas_text cs"

text \<open>\<^verbatim>\<open>what()\<close> of the classes below \<^verbatim>\<open>RMDBError\<close>; \<open>None\<close> for everything else.\<close>

fun what_text :: "string \<Rightarrow> rmdb_error \<Rightarrow> string option" where
  "what_text se (RMDBError m) = Some (''Error: '' @ m)"
| "what_text se (InternalError m) = Some (''Error: '' @ m)"
| "what_text se UnixError = Some (''Error: '' @ se)"
| "what_text se (FileNotOpenError fd) = Some (''Error: Invalid file descriptor: '' @ to_string fd)"
| "what_text se (FileNotClosedError f) = Some (''Error: File is opened: '' @ f)"
| "what_text se (FileExistsError f) = Some (''Error: File already exists: '' @ f)"
| "what_text se (FileNotFoundError f) = Some (''Error: File not found: '' @ f)"
| "what_text se (RecordNotFoundError p k) = Some (''Error: Record not found: ('' @ to_string p @ '','' @ to_string k @ '')'')"
| "what_text se (InvalidRecordSizeError n) = Some (''Error: Invalid record size: '' @ to_string n)"
| "what_text se (InvalidColLengthError n) = Some (''Error: Invalid column length: '' @ to_string n)"
| "what_text se IndexEntryNotFoundError = Some ''Error: Index entry not found''"
| "what_text se (DatabaseNotFoundError d) = Some (''Error: Database not found: '' @ d)"
| "what_text se (DatabaseExistsError d) = Some (''Error: Database already exists: '' @ d)"
| "what_text se (TableNotFoundError t) = Some (''Error: Table not found: '' @ t)"
| "what_text se (TableExistsError t) = Some (''Error: Table already exists: '' @ t)"
| "what_text se (ColumnNotFoundError c) = Some (''Error: Column not found: '' @ c)"
| "what_text se (IndexNotFoundError t cs) = Some (''Error: Index not found: '' @ t @ ''.('' @ commas_text cs @ '')'')"
| "what_text se (IndexExistsError t cs) = Some (''Error: Index already exists: '' @ t @ ''.('' @ commas_text cs @ '')'')"
| "what_text se InvalidValueCountError = Some ''Error: Invalid value count''"
| "what_text se StringOverflowError = Some ''Error: String is too long''"
| "what_text se (IncompatibleTypeError l r) = Some (''Error: Incompatible type error: lhs '' @ l @ '', rhs '' @ r)"
| "what_text se (AmbiguousColumnError c) = Some (''Error: Ambiguous column: '' @ c)"
| "what_text se (PageNotExistError t p) = Some (''Error: Page '' @ to_string p @ '' in table '' @ t @ ''not exits'')"
| "what_text se _ = None"

text \<open>What \<^verbatim>\<open>catch (...)\<close> stops: C++ exceptions, not failed assertions or invalid memory accesses.\<close>

fun is_exception :: "rmdb_error \<Rightarrow> bool" where
  "is_exception AssertionFailure = False"
| "is_exception NullPointer = False"
| "is_exception OutOfBounds = False"
| "is_exception Uninitialised = False"
| "is_exception OutOfFuel = False"
| "is_exception e = True"

definition catchE :: "(rmdb_error \<Rightarrow> bool) \<Rightarrow> (rmdb_error \<Rightarrow> ('s, 'a) prog) \<Rightarrow> ('s, 'a) prog \<Rightarrow> ('s, 'a) prog" where
  "catchE P h m s = (case m s of (Inl e, t) \<Rightarrow> (if P e then h e t else (Inl e, t)) | (Inr x, t) \<Rightarrow> (Inr x, t))"

definition try_abort :: "(Server, unit) prog" where
  "try_abort = bindE (gets sv_has_txn) (\<lambda>b. catchE is_exception (\<lambda>e. ret ()) (on_txns (txn_abort b True)))"

text \<open>The message is copied over the whole send buffer.\<close>

definition reply_error :: "string \<Rightarrow> (Server, unit) prog" where
  "reply_error msg = (if BUFFER_LENGTH < length msg + 2 then raise OutOfBounds else set_reply (msg @ ''\<newline>''))"

definition handle_abort :: "(Server, unit) prog" where
  "handle_abort =
     thenE (set_reply ''abort\<newline>'')
     (thenE try_abort
     (thenE forget_txn
     (on_sv (put_out ''abort\<newline>''))))"

definition handle_error :: "string \<Rightarrow> (Server, unit) prog" where
  "handle_error msg =
     thenE (reply_error msg)
     (bindE (gets sv_has_txn) (\<lambda>b.
      thenE (if b then try_abort else ret ())
      (thenE forget_txn
      (on_sv (put_out ''failure\<newline>'')))))"

fun is_txn_abort :: "rmdb_error \<Rightarrow> bool" where
  "is_txn_abort (TransactionAbortException i r) = True"
| "is_txn_abort e = False"

definition handle_exception :: "Params \<Rightarrow> rmdb_error \<Rightarrow> (Server, unit) prog" where
  "handle_exception pr e =
     (if is_txn_abort e then handle_abort
      else case what_text (pr_strerror pr) e of None \<Rightarrow> raise e | Some msg \<Rightarrow> handle_error msg)"

section \<open>Requests\<close>

definition SetTransaction :: "(Server, unit) prog" where
  "SetTransaction =
     bindE (gets sv_txn_id) (\<lambda>i.
     bindE (get_transaction i) (\<lambda>found.
     bindE (gets (\<lambda>s. txn_state (cur_txn s))) (\<lambda>st.
       if \<not> found \<or> st = COMMITTED \<or> st = ABORTED
       then bindE (on_txns (txn_begin None True)) (\<lambda>t.
            thenE (on_state (set_txn (t\<lparr>txn_mode := False\<rparr>)))
            (modify (\<lambda>s. s\<lparr>sv_txn_id := txn_id t, sv_has_txn := True\<rparr>)))
       else modify (\<lambda>s. s\<lparr>sv_has_txn := True\<rparr>))))"

text \<open>The automatic commit of a single statement, after the answer was sent.\<close>

definition auto_commit :: "Params \<Rightarrow> (Server, unit) prog" where
  "auto_commit pr =
     bindE (gets (\<lambda>s. sv_has_txn s \<and> \<not> txn_mode (cur_txn s))) (\<lambda>b.
       if \<not> b then ret ()
       else catchE is_exception
              (\<lambda>e. if what_text (pr_strerror pr) e = None
                   then modify (\<lambda>s. s\<lparr>sv_txn_id := INVALID_TXN_ID\<rparr>)
                   else thenE try_abort (thenE forget_txn (set_reply ''failure\<newline>'')))
              (thenE (on_txns (txn_commit True True (pr_tabs pr) (pr_ixs pr))) forget_txn))"

text \<open>One round of \<^verbatim>\<open>client_handler\<close>: the result is the answer, before the automatic commit.\<close>

definition handle_request :: "Params \<Rightarrow> TreeNode option \<Rightarrow> (Server, string) prog" where
  "handle_request pr tree =
     thenE (on_sv (modify (\<lambda>s. s\<lparr>sm_buf := \<lparr>data_send = [], ellipsis = False\<rparr>\<rparr>)))
     (thenE SetTransaction
     (thenE (case tree of
               None \<Rightarrow> ret ()
             | Some t \<Rightarrow> catchE (\<lambda>e. True) (handle_exception pr) (run_statement pr t))
     (bindE (on_sv (gets (\<lambda>s. data_send (sm_buf s)))) (\<lambda>answer.
     thenE (auto_commit pr) (ret answer)))))"

section \<open>Starting the server\<close>

definition on_recovery :: "(RecoveryManager, unit) prog \<Rightarrow> byte list \<times> int \<Rightarrow> (DbState, byte list \<times> int) prog" where
  "on_recovery m lg s =
     (case m \<lparr>rc_db = s, log_data = fst lg, log_data_size = snd lg\<rparr> of
        (Inl e, t) \<Rightarrow> (Inl e, rc_db t)
      | (Inr u, t) \<Rightarrow> (Inr (log_data t, log_data_size t), rc_db t))"

fun flush_fds :: "int list \<Rightarrow> (DbState, unit) prog" where
  "flush_fds [] = ret ()"
| "flush_fds (fd # fds) = thenE (on_bpm (flush_all_pages fd)) (flush_fds fds)"

definition open_fds :: "Params \<Rightarrow> DbState \<Rightarrow> int list" where
  "open_fds pr s = map (\<lambda>tab. fh_fd (the (s_fhs s tab))) (filter (\<lambda>tab. s_fhs s tab \<noteq> None) (pr_tabs pr)) @
     map (\<lambda>ix. ih_fd (the (s_ihs s ix))) (filter (\<lambda>ix. s_ihs s ix \<noteq> None) (pr_ixs pr))"

definition recover_db :: "Params \<Rightarrow> (DbState, unit) prog" where
  "recover_db pr =
     bindE (on_recovery rec_analyze ([], 0)) (\<lambda>lg.
     bindE (on_recovery rec_redo lg) (\<lambda>lg.
     bindE (on_recovery rec_undo lg) (\<lambda>lg.
     thenE rebuild_indexes
     (bindE (gets (open_fds pr)) (\<lambda>fds.
     thenE (flush_fds fds)
     (thenE flush_meta
     (bindE (on_recovery truncate_log lg) (\<lambda>lg. ret ()))))))))"

definition start_db :: "Params \<Rightarrow> string \<Rightarrow> (Sm, unit) prog" where
  "start_db pr nm =
     bindE (sm_is_dir nm) (\<lambda>b.
     thenE (if b then ret () else create_db nm)
     (thenE (open_db nm) (on_sm (recover_db pr))))"

section \<open>A statement that fails\<close>

text \<open>What the client is told, and what is written to \<^verbatim>\<open>output.txt\<close>.\<close>

definition error_answer :: "Params \<Rightarrow> rmdb_error \<Rightarrow> string option" where
  "error_answer pr e = (if is_txn_abort e then Some ''abort\<newline>'' else map_option (\<lambda>msg. msg @ ''\<newline>'') (what_text (pr_strerror pr) e))"

definition error_line :: "rmdb_error \<Rightarrow> string" where
  "error_line e = (if is_txn_abort e then ''abort\<newline>'' else ''failure\<newline>'')"

definition start_request :: "(Server, unit) prog" where
  "start_request = thenE (on_sv (modify (\<lambda>s. s\<lparr>sm_buf := \<lparr>data_send = [], ellipsis = False\<rparr>\<rparr>))) SetTransaction"

lemma run_prefix: "thenE m k s = (Inr u, t) \<Longrightarrow> thenE m (thenE k j) s = j t"
  by (cases "m s") (auto simp: thenE_def bindE_def split: sum.splits)

lemma handle_request_start:
  assumes "start_request s = (Inr (), s1)"
  shows "handle_request pr tree s =
     thenE (case tree of None \<Rightarrow> ret () | Some t \<Rightarrow> catchE (\<lambda>e. True) (handle_exception pr) (run_statement pr t))
       (bindE (on_sv (gets (\<lambda>s. data_send (sm_buf s)))) (\<lambda>answer. thenE (auto_commit pr) (ret answer))) s1"
  using run_prefix [OF assms [unfolded start_request_def]] by (simp add: handle_request_def)

text \<open>A session without a transaction has nothing to commit.\<close>

lemma auto_commit_none: "\<not> sv_has_txn s \<Longrightarrow> auto_commit pr s = (Inr (), s)"
  by (simp add: auto_commit_def prog_simps)

text \<open>The handlers undo the transaction after they filled the send buffer.\<close>

lemma try_abort_ok:
  assumes "wrote tab h M (write_set (cur_txn s)) M'" "holds tab h M' (sm_db (sv_sm s))" "txn_state (cur_txn s) \<noteq> ABORTED"
    "can_log (sm_db (sv_sm s))" "sv_has_txn s"
  obtains d where "try_abort s = (Inr (), s\<lparr>sv_sm := (sv_sm s)\<lparr>sm_db := d\<rparr>, sv_txn_map := sv_txn_map s - {txn_id (cur_txn s)}\<rparr>)"
    "holds tab h M d"
proof -
  let ?s = "\<lparr>tm_db = sm_db (sv_sm s), next_txn_id = sv_next_txn_id s, txn_map = sv_txn_map s\<rparr>"
  obtain t l where t: "txn_abort True True ?s = (Inr (), t)" "holds tab h M (tm_db t)"
      "txn_map t = txn_map ?s - {txn_id (s_txn (tm_db ?s))}" "next_txn_id t = next_txn_id ?s"
    by (rule abort_ok [where s = ?s and tab = tab and h = h and M = M and M' = M']) (use assms in \<open>simp_all add: cur_txn_def\<close>)
  have "try_abort s = (Inr (), s\<lparr>sv_sm := (sv_sm s)\<lparr>sm_db := tm_db t\<rparr>, sv_txn_map := sv_txn_map s - {txn_id (cur_txn s)}\<rparr>)"
    using t(1,3,4) assms(5) by (simp add: try_abort_def catchE_def on_txns_def prog_simps cur_txn_def)
  then show ?thesis using that t(2) by blast
qed

lemma handle_exception_ok:
  assumes "wrote tab h M (write_set (cur_txn u)) M'" "holds tab h M' (sm_db (sv_sm u))" "txn_state (cur_txn u) \<noteq> ABORTED"
    "can_log (sm_db (sv_sm u))" "sv_has_txn u" and a: "error_answer pr e = Some a" "length a < BUFFER_LENGTH"
  obtains w where "handle_exception pr e u = (Inr (), w)" "data_send (sm_buf (sv_sm w)) = a" "holds tab h M (sm_db (sv_sm w))"
    "\<not> sv_has_txn w" "sv_txn_id w = INVALID_TXN_ID" "sv_txn_map w = sv_txn_map u - {txn_id (cur_txn u)}"
    "sm_out (sv_sm w) = sm_out (sv_sm u) @ error_line e"
proof -
  let ?u = "u\<lparr>sv_sm := (sv_sm u)\<lparr>sm_buf := (sm_buf (sv_sm u))\<lparr>data_send := a\<rparr>\<rparr>\<rparr>"
  obtain d where d: "try_abort ?u = (Inr (), ?u\<lparr>sv_sm := (sv_sm ?u)\<lparr>sm_db := d\<rparr>, sv_txn_map := sv_txn_map ?u - {txn_id (cur_txn ?u)}\<rparr>)"
      "holds tab h M d"
    by (rule try_abort_ok [where s = ?u and tab = tab and h = h and M = M and M' = M']) (use assms(1-5) in \<open>simp_all add: cur_txn_def\<close>)
  let ?w = "?u\<lparr>sv_sm := (sv_sm ?u)\<lparr>sm_db := d, sm_out := sm_out (sv_sm u) @ error_line e\<rparr>,
      sv_txn_map := sv_txn_map ?u - {txn_id (cur_txn ?u)}, sv_txn_id := INVALID_TXN_ID, sv_has_txn := False\<rparr>"
  have run: "handle_exception pr e u = (Inr (), ?w)"
    using a d(1) assms(5)
    by (auto simp: handle_exception_def error_answer_def error_line_def handle_abort_def handle_error_def reply_error_def set_reply_def
        forget_txn_def on_sv_def zoom_def put_out_def prog_simps split: if_splits option.splits)
  show ?thesis by (rule that [OF run]) (simp_all add: d(2) cur_txn_def)
qed

section \<open>Properties\<close>


text \<open>A client that has begun a transaction, inserted a record and changed it, and then names a table that does not
  exist.\<close>

definition demo_params :: Params where
  "demo_params = \<lparr>pr_height = 8, pr_rounds = 50, pr_sort = (\<lambda>lt xs. xs), pr_tabs = [''t''], pr_ixs = [], pr_strerror = [], pr_mem = []\<rparr>"

definition demo_server :: Server where
  "demo_server = \<lparr>sv_sm = \<lparr>sm_db = demo_txn_db\<lparr>s_txn := (s_txn demo_txn_db)\<lparr>txn_mode := True\<rparr>\<rparr>, sm_cwd = Some ''d'', sm_root = Map.empty, sm_dirs = [],
       sm_buf = \<lparr>data_send = ''old'', ellipsis = True\<rparr>, sm_out = []\<rparr>,
     sv_next_txn_id = 2, sv_txn_map = {1}, sv_txn_id = 1, sv_has_txn = False, sv_knobs = \<lparr>enable_nestedloop_join = True, enable_sortmerge_join = False\<rparr>\<rparr>"


end
