(* ===== verification/Create_Table.thy ===== *)
theory Create_Table
  imports Sm_Manager Txn_Manager
begin

text \<open>
  What \<^verbatim>\<open>SmManager::create_table\<close> makes: an open, empty and well-formed record file, a catalogue entry with the columns one
  behind the other, and the text of the new catalogue in its file, while every file that was open keeps its records.
  The lemmas follow the calls of the operating system: a descriptor that was free is opened and closed, and a
  file that is opened or written beside the open ones does not change them.
\<close>

section \<open>Opening and closing files\<close>

lemma fds_without: "fd \<notin> fst ` set F \<Longrightarrow> filter (\<lambda>e. fst e \<noteq> fd) F = F"
  by (rule filter_True) auto

lemma fds_seek: "fd \<notin> fst ` set F \<Longrightarrow> map (\<lambda>(g, i, p). (g, i, if g = fd then off else p)) F = (F :: (int \<times> nat \<times> nat) list)"
  by (induction F) auto

lemma create_file_run:
  assumes "os_names (dm_os d) path = None" "path \<notin> set (os_dirs (dm_os d))" "lowest_fd (dm_os d) < os_max_fd (dm_os d)"
  shows "create_file path d = (Inr (), d\<lparr>dm_os := (dm_os d)\<lparr>os_names := (os_names (dm_os d))(path \<mapsto> os_inodes (dm_os d)),
     os_data := (os_data (dm_os d))(os_inodes (dm_os d) := []), os_inodes := Suc (os_inodes (dm_os d))\<rparr>\<rparr>)"
  using assms fds_without [OF lowest_fd_free(1), of "dm_os d"]
  by (simp add: create_file_def is_file_def os_is_reg_def sys_def os_open_def os_close_def prog_simps Let_def)

lemma open_file_run:
  assumes "os_names (dm_os d) path = Some i" "path \<notin> set (os_dirs (dm_os d))" "lowest_fd (dm_os d) < os_max_fd (dm_os d)"
    and "fd = int (lowest_fd (dm_os d))"
  shows "open_file path d = (Inr fd, d\<lparr>dm_os := (dm_os d)\<lparr>os_fds := (fd, i, 0) # os_fds (dm_os d)\<rparr>,
     fd2path := (fd2path d)(fd \<mapsto> path), path2fd := (path2fd d)(path \<mapsto> fd)\<rparr>)"
  using assms by (simp add: open_file_def is_file_def os_is_reg_def sys_def os_open_def prog_simps Let_def)

lemma write_hdr_run:
  assumes "os_fds (dm_os d) = (fd, i, p) # F" "fd \<notin> fst ` set F"
  shows "write_page fd 0 bs d = (Inr (), d\<lparr>dm_os := (dm_os d)\<lparr>os_fds := (fd, i, length bs) # F,
     os_data := (os_data (dm_os d))(i := write_pad (os_data (dm_os d) i) 0 bs)\<rparr>\<rparr>)"
  using assms fds_seek [OF assms(2)]
  by (simp add: write_page_def sys_do_def sys_def lseek_set_def os_write_def set_offset_def prog_simps wrap32_id)

lemma read_hdr_run:
  assumes "os_fds (dm_os d) = (fd, i, p) # F" "fd \<notin> fst ` set F" "length (os_data (dm_os d) i) = n"
  shows "read_page fd 0 n d = (Inr (os_data (dm_os d) i), d\<lparr>dm_os := (dm_os d)\<lparr>os_fds := (fd, i, n) # F\<rparr>\<rparr>)"
  using assms fds_seek [OF assms(2)]
  by (simp add: read_page_def read_page_io_def read_page_check_def sys_do_def sys_def lseek_set_def os_read_def set_offset_def
      prog_simps wrap32_id)

lemma close_file_run:
  assumes "os_fds (dm_os d) = (fd, i, p) # F" "fd \<notin> fst ` set F" "fd2path d fd = Some path"
  shows "close_file fd d = (Inr (), d\<lparr>dm_os := (dm_os d)\<lparr>os_fds := F\<rparr>, fd2path := (fd2path d)(fd := None), path2fd := (path2fd d)(path := None)\<rparr>)"
  using assms fds_without [OF assms(2)] by (simp add: close_file_def sys_def os_close_def prog_simps)

section \<open>A new record file\<close>

lemma new_file_hdr_wf: "1 \<le> rs \<Longrightarrow> rs \<le> RM_MAX_RECORD_SIZE \<Longrightarrow> hdr_wf (new_file_hdr rs)"
  by (simp add: hdr_wf_def new_file_hdr_def)

lemma file_hdr_roundtrip:
  assumes "fits_signed 4 (record_size h)" "fits_signed 4 (num_pages h)" "fits_signed 4 (num_records_per_page h)"
    "fits_signed 4 (first_free_page_no h)" "fits_signed 4 (bitmap_size h)"
  shows "dec_RmFileHdr (enc_RmFileHdr h) = h"
  using assms by (simp add: dec_RmFileHdr_def enc_RmFileHdr_def get_i32_def read_at_def dec_signed_enc)

lemma new_file_hdr_roundtrip:
  assumes "1 \<le> rs" "rs \<le> RM_MAX_RECORD_SIZE"
  shows "dec_RmFileHdr (enc_RmFileHdr (new_file_hdr rs)) = new_file_hdr rs"
proof -
  have "0 \<le> records_per_page rs" using assms by (simp add: records_per_page_eq pos_imp_zdiv_nonneg_iff)
  moreover have "records_per_page rs \<le> 32601 div 1" unfolding records_per_page_eq using assms by (intro zdiv_mono2) simp_all
  ultimately have "0 \<le> records_per_page rs" "records_per_page rs \<le> 32601" "0 \<le> (7 + records_per_page rs) div 8" "(7 + records_per_page rs) div 8 \<le> 4076"
    by simp_all
  then show ?thesis
    using assms by (intro file_hdr_roundtrip) (simp_all add: new_file_hdr_def fits_signed_def RM_MAX_RECORD_SIZE_def RM_NO_PAGE_def BITMAP_WIDTH_def)
qed


lemma length_enc_RmFileHdr: "length (enc_RmFileHdr h) = 20"
  by (simp add: enc_RmFileHdr_def)

text \<open>The state of the disk after a record file was created: a new inode with the header, and no descriptor.\<close>

definition with_file :: "string \<Rightarrow> byte list \<Rightarrow> os_state \<Rightarrow> os_state" where
  "with_file path bs w = w\<lparr>os_names := (os_names w)(path \<mapsto> os_inodes w), os_data := (os_data w)(os_inodes w := bs), os_inodes := Suc (os_inodes w)\<rparr>"

lemma with_file_simps [simp]:
  "os_names (with_file path bs w) = (os_names w)(path \<mapsto> os_inodes w)" "os_data (with_file path bs w) = (os_data w)(os_inodes w := bs)"
  "os_inodes (with_file path bs w) = Suc (os_inodes w)" "os_dirs (with_file path bs w) = os_dirs w" "os_fds (with_file path bs w) = os_fds w"
  "os_max_fd (with_file path bs w) = os_max_fd w" "lowest_fd (with_file path bs w) = lowest_fd w"
  by (simp_all add: with_file_def lowest_fd_def)

lemma rm_create_file_run:
  assumes rs: "1 \<le> rs" "rs \<le> RM_MAX_RECORD_SIZE"
    and w: "os_names (dm_os d) path = None" "path \<notin> set (os_dirs (dm_os d))" "lowest_fd (dm_os d) < os_max_fd (dm_os d)" and d: "bpm_disk b = d"
  defines "fd \<equiv> int (lowest_fd (dm_os d))"
  shows "rm_create_file path rs b = (Inr (), b\<lparr>bpm_disk := d\<lparr>dm_os := with_file path (enc_RmFileHdr (new_file_hdr rs)) (dm_os d),
     fd2path := (fd2path d)(fd := None), path2fd := (path2fd d)(path := None)\<rparr>\<rparr>)"
proof -
  let ?bs = "enc_RmFileHdr (new_file_hdr rs)" and ?i = "os_inodes (dm_os d)" and ?F = "os_fds (dm_os d)"
  define d1 where "d1 = d\<lparr>dm_os := with_file path [] (dm_os d)\<rparr>"
  define d2 where "d2 = d1\<lparr>dm_os := (dm_os d1)\<lparr>os_fds := (fd, ?i, 0) # ?F\<rparr>, fd2path := (fd2path d)(fd \<mapsto> path), path2fd := (path2fd d)(path \<mapsto> fd)\<rparr>"
  define d3 where "d3 = d2\<lparr>dm_os := (dm_os d2)\<lparr>os_fds := (fd, ?i, length ?bs) # ?F, os_data := (os_data (dm_os d))(?i := ?bs)\<rparr>\<rparr>"
  define d4 where "d4 = d3\<lparr>dm_os := (dm_os d3)\<lparr>os_fds := ?F\<rparr>, fd2path := (fd2path d)(fd := None), path2fd := (path2fd d)(path := None)\<rparr>"
  have free: "fd \<notin> fst ` set ?F" unfolding fd_def by (rule lowest_fd_free)
  have 1: "create_file path d = (Inr (), d1)" using create_file_run [OF w] by (simp add: with_file_def d1_def)
  have 2: "open_file path d1 = (Inr fd, d2)" using open_file_run [of d1 path ?i fd] w by (simp add: fd_def d1_def d2_def)
  have 3: "write_page fd 0 ?bs d2 = (Inr (), d3)" using write_hdr_run [of d2 fd ?i 0 ?F ?bs] free by (simp add: write_pad_def d3_def d2_def d1_def)
  have 4: "close_file fd d3 = (Inr (), d4)" using close_file_run [of d3 fd ?i "length ?bs" ?F path] free by (simp add: d4_def d3_def d2_def d1_def)
  have "d4 = d\<lparr>dm_os := with_file path ?bs (dm_os d), fd2path := (fd2path d)(fd := None), path2fd := (path2fd d)(path := None)\<rparr>"
    by (simp add: d4_def d3_def d2_def d1_def with_file_def)
  moreover have "\<not> (rs < 1 \<or> RM_MAX_RECORD_SIZE < rs)" using rs by simp
  ultimately show ?thesis by (simp add: rm_create_file_def d RM_FILE_HDR_PAGE_def on_disk_run 1 2 3 4 prog_simps)
qed

lemma rm_open_file_run:
  assumes w: "os_names (dm_os d) path = Some i" "path \<notin> set (os_dirs (dm_os d))" "lowest_fd (dm_os d) < os_max_fd (dm_os d)"
    and data: "os_data (dm_os d) i = enc_RmFileHdr h" "dec_RmFileHdr (enc_RmFileHdr h) = h" and d: "bpm_disk b = d" and small: "int (lowest_fd (dm_os d)) < MAX_FD"
  defines "fd \<equiv> int (lowest_fd (dm_os d))"
  shows "rm_open_file path b = (Inr \<lparr>fh_fd = fd, file_hdr = h\<rparr>, b\<lparr>bpm_disk := d\<lparr>dm_os := (dm_os d)\<lparr>os_fds := (fd, i, 20) # os_fds (dm_os d)\<rparr>,
     fd2path := (fd2path d)(fd \<mapsto> path), path2fd := (path2fd d)(path \<mapsto> fd), fd2pageno := (fd2pageno d)(fd := num_pages h)\<rparr>\<rparr>)"
proof -
  let ?d1 = "d\<lparr>dm_os := (dm_os d)\<lparr>os_fds := (fd, i, 0) # os_fds (dm_os d)\<rparr>, fd2path := (fd2path d)(fd \<mapsto> path), path2fd := (path2fd d)(path \<mapsto> fd)\<rparr>"
  have free: "fd \<notin> fst ` set (os_fds (dm_os d))" unfolding fd_def by (rule lowest_fd_free)
  have 1: "open_file path d = (Inr fd, ?d1)" by (rule open_file_run [OF w]) (simp add: fd_def)
  have 2: "read_page fd 0 20 ?d1 = (Inr (enc_RmFileHdr h), ?d1\<lparr>dm_os := (dm_os ?d1)\<lparr>os_fds := (fd, i, 20) # os_fds (dm_os d)\<rparr>\<rparr>)"
    using read_hdr_run [of ?d1 fd i 0 "os_fds (dm_os d)" 20] free data by (simp add: length_enc_RmFileHdr)
  show ?thesis
    by (simp add: rm_open_file_def new_RmFileHandle_def d RM_FILE_HDR_PAGE_def on_disk_run 1 2 prog_simps set_fd2pageno_def Let_def data(2) small [folded fd_def]) (simp add: fd_def)
qed


section \<open>Files that stay open\<close>

text \<open>Every descriptor of \<open>d\<close> is still open in \<open>e\<close>, with the same bytes and the same number of pages.\<close>

definition files_kept :: "DiskManager \<Rightarrow> DiskManager \<Rightarrow> bool" where
  "files_kept d e \<longleftrightarrow> (\<forall>fd i. fd_inode d fd = Some i \<longrightarrow>
     fd_inode e fd = Some i \<and> os_data (dm_os e) i = os_data (dm_os d) i \<and> fd2pageno e fd = fd2pageno d fd)"

lemma files_kept_trans: "files_kept d e \<Longrightarrow> files_kept e f \<Longrightarrow> files_kept d f"
  unfolding files_kept_def by metis

lemma disk_page_kept: "files_kept d e \<Longrightarrow> fd_inode d fd \<noteq> None \<Longrightarrow> disk_page e fd p = disk_page d fd p"
  by (auto simp: files_kept_def disk_page_def fd_data_def Let_def)

lemma pool_kept:
  assumes "bpm_inv b" "files_kept (bpm_disk b) e" "dm_wf e"
  shows "bpm_inv (b\<lparr>bpm_disk := e\<rparr>)" "pins (b\<lparr>bpm_disk := e\<rparr>) = pins b" "room k b \<Longrightarrow> room k (b\<lparr>bpm_disk := e\<rparr>)"
proof -
  have od: "page_on_disk (b\<lparr>bpm_disk := e\<rparr>) pid = page_on_disk b pid" if "fd_inode (bpm_disk b) (pid_fd pid) \<noteq> None" for pid
    using disk_page_kept [OF assms(2) that] by (simp add: page_on_disk_def)
  have "inv_disk (b\<lparr>bpm_disk := e\<rparr>)"
    using assms od by (fastforce simp: held_inv_def inv_disk_def files_kept_def)
  then show "bpm_inv (b\<lparr>bpm_disk := e\<rparr>)" using assms(1) by (simp add: held_inv_def inv_frames_def inv_table_def inv_lru_def)
  show p: "pins (b\<lparr>bpm_disk := e\<rparr>) = pins b" by (simp add: pins_def fun_eq_iff split: option.split)
  show "room k b \<Longrightarrow> room k (b\<lparr>bpm_disk := e\<rparr>)" using p by (simp add: room_def pinned_def)
qed

lemma file_kept:
  assumes inv: "rm_inv \<lparr>rm_pool = b, rm_fh = fh\<rparr>" and k: "files_kept (bpm_disk b) e" and wf: "dm_wf e"
  shows "rm_inv \<lparr>rm_pool = b\<lparr>bpm_disk := e\<rparr>, rm_fh = fh\<rparr>" "file_page \<lparr>rm_pool = b\<lparr>bpm_disk := e\<rparr>, rm_fh = fh\<rparr> = file_page \<lparr>rm_pool = b, rm_fh = fh\<rparr>"
proof -
  let ?s = "\<lparr>rm_pool = b, rm_fh = fh\<rparr>" and ?t = "\<lparr>rm_pool = b\<lparr>bpm_disk := e\<rparr>, rm_fh = fh\<rparr>"
  have ok: "rm_pool_ok ?s" using inv by (simp add: rm_inv_def)
  then have op: "fd_inode (bpm_disk b) (fh_fd fh) \<noteq> None" by (simp add: rm_pool_ok_def)
  show pg: "file_page ?t = file_page ?s"
    using disk_page_kept [OF k op] by (simp add: fun_eq_iff file_page_def view_def page_on_disk_def split: option.split)
  have "rm_pool_ok ?t"
    using ok pool_kept [OF _ k wf] k op by (auto simp: rm_pool_ok_def hdr_def files_kept_def)
  then show "rm_inv ?t" using inv pg by (simp add: rm_inv_def hdr_def)
qed

lemma new_file_inv:
  assumes b: "bpm_inv b" "room 1 b" and k: "files_kept (bpm_disk b) e" and wf: "dm_wf e"
    and fd: "fd_inode (bpm_disk b) fd = None" "fd_inode e fd \<noteq> None" "0 \<le> fd" "fd < MAX_FD" "fd2pageno e fd = 1"
    and rs: "1 \<le> rs" "rs \<le> RM_MAX_RECORD_SIZE"
  shows "rm_inv \<lparr>rm_pool = b\<lparr>bpm_disk := e\<rparr>, rm_fh = \<lparr>fh_fd = fd, file_hdr = new_file_hdr rs\<rparr>\<rparr>"
proof -
  let ?t = "\<lparr>rm_pool = b\<lparr>bpm_disk := e\<rparr>, rm_fh = \<lparr>fh_fd = fd, file_hdr = new_file_hdr rs\<rparr>\<rparr>"
  have h: "hdr ?t = new_file_hdr rs" "num_pages (new_file_hdr rs) = 1" "first_free_page_no (new_file_hdr rs) = RM_NO_PAGE"
    by (simp_all add: hdr_def new_file_hdr_def)
  have none: "data_pages (new_file_hdr rs) = {}" by (simp add: data_pages_def h RM_FIRST_RECORD_PAGE_def)
  have "page_table b \<lparr>pid_fd = fd, pid_no = p\<rparr> = None" for p
    using b(1) fd(1) by (cases "page_table b \<lparr>pid_fd = fd, pid_no = p\<rparr>") (auto simp: held_inv_def inv_disk_def dest!: spec)
  then have "rm_pool_ok ?t" using pool_kept [OF b(1) k wf] b(2) fd by (simp add: rm_pool_ok_def h)
  moreover have "chain_ok (new_file_hdr rs) F" for F unfolding chain_ok_def by (rule exI [of _ "[]"]) (simp add: none h)
  ultimately show ?thesis by (simp add: rm_inv_def h pages_ok_def none new_file_hdr_wf [OF rs])
qed

section \<open>Writing the catalogue\<close>

lemma os_put_run:
  assumes "path \<notin> set (os_dirs w)" "lowest_fd w < os_max_fd w"
  shows "os_put path txt w = (case os_names w path of
     Some i \<Rightarrow> w\<lparr>os_data := (os_data w)(i := bytes_of txt)\<rparr> | None \<Rightarrow> with_file path (bytes_of txt) w)"
  using assms fds_without [OF lowest_fd_free(1), of w]
  by (simp add: os_put_def os_open_def os_close_def Let_def with_file_def split: option.split)


section \<open>Columns\<close>

text \<open>Columns without gaps from an offset on, and a column definition the grammar can make.\<close>

fun contiguous :: "int \<Rightarrow> ColMeta list \<Rightarrow> bool" where
  "contiguous off [] \<longleftrightarrow> True"
| "contiguous off (c # cs) \<longleftrightarrow> cm_offset c = off \<and> contiguous (off + cm_len c) cs"

definition def_ok :: "ColDef \<Rightarrow> bool" where
  "def_ok c \<longleftrightarrow> 0 \<le> cd_len c \<and> (cd_type c = TYPE_INT \<or> cd_type c = TYPE_FLOAT \<longrightarrow> cd_len c = 4) \<and>
     (cd_type c = TYPE_BIGINT \<or> cd_type c = TYPE_DATETIME \<longrightarrow> cd_len c = 8)"

definition def_of :: "ColMeta \<Rightarrow> ColDef" where
  "def_of c = \<lparr>cd_name = cm_name c, cd_type = cm_type c, cd_len = cm_len c\<rparr>"

lemma layout_cols_ok:
  assumes "layout_cols tab off cds = (cols, stop)" "\<forall>c \<in> set cds. def_ok c" "0 \<le> off"
  shows "stop = off + sum_list (map cd_len cds) \<and> off \<le> stop \<and> contiguous off cols \<and> map def_of cols = cds \<and>
     (\<forall>c \<in> set cols. col_fits (nat stop) c \<and> cm_tab_name c = tab) \<and> (cols \<noteq> [] \<longrightarrow> cm_offset (last cols) + cm_len (last cols) = stop)"
  using assms
proof (induction cds arbitrary: off cols)
  case (Cons d cds)
  let ?c = "\<lparr>cm_tab_name = tab, cm_name = cd_name d, cm_type = cd_type d, cm_len = cd_len d, cm_offset = off, cm_index = False\<rparr>"
  obtain ms where ms: "layout_cols tab (off + cd_len d) cds = (ms, stop)" "cols = ?c # ms"
    using Cons.prems(1) by (auto split: prod.splits)
  have d: "def_ok d" "0 \<le> cd_len d" using Cons.prems(2) by (auto simp: def_ok_def)
  have IH: "stop = off + cd_len d + sum_list (map cd_len cds) \<and> off + cd_len d \<le> stop \<and> contiguous (off + cd_len d) ms \<and> map def_of ms = cds \<and>
     (\<forall>c \<in> set ms. col_fits (nat stop) c \<and> cm_tab_name c = tab) \<and> (ms \<noteq> [] \<longrightarrow> cm_offset (last ms) + cm_len (last ms) = stop)"
    by (rule Cons.IH) (use ms(1) Cons.prems d in auto)
  have "col_fits (nat stop) ?c" using IH d Cons.prems(3) by (simp add: col_fits_def def_ok_def)
  moreover have "ms = [] \<Longrightarrow> stop = off + cd_len d" using ms(1) IH by auto
  moreover have "def_of ?c = d" by (simp add: def_of_def)
  ultimately show ?case using IH d ms(2) by auto
qed simp

section \<open>Creating a table\<close>

lemma map_of_map_put: "map_of (map_put k v m) = (map_of m)(k \<mapsto> v)"
  by (induction m) (auto simp: fun_eq_iff)

text \<open>The name is new, two descriptors are free, and the catalogue file is not among the open ones.\<close>

definition can_create :: "string \<Rightarrow> DbState \<Rightarrow> bool" where
  "can_create tab s \<longleftrightarrow> (let w = dm_os (bpm_disk (s_pool s)) in
     \<not> is_table (s_meta s) tab \<and> s_fhs s tab = None \<and> bpm_inv (s_pool s) \<and> room 1 (s_pool s) \<and>
     os_names w tab = None \<and> tab \<notin> set (os_dirs w) \<and> tab \<noteq> DB_META_NAME \<and> DB_META_NAME \<notin> set (os_dirs w) \<and>
     length (os_fds w) + 4 < os_max_fd w \<and> int (length (os_fds w)) + 4 < MAX_FD \<and>
     (\<forall>(fd, i, p) \<in> set (os_fds w). i < os_inodes w) \<and>
     (\<forall>m. os_names w DB_META_NAME = Some m \<longrightarrow> m < os_inodes w \<and> (\<forall>(fd, i, p) \<in> set (os_fds w). i \<noteq> m)))"

definition catalogue_saved :: "DbState \<Rightarrow> bool" where
  "catalogue_saved s \<longleftrightarrow> (let w = dm_os (bpm_disk (s_pool s)) in
     \<exists>m. os_names w DB_META_NAME = Some m \<and> os_data w m = bytes_of (show_DbMeta (s_meta s)))"

lemma fd_inode_mem: "fd_inode d fd = Some i \<Longrightarrow> \<exists>p. (fd, i, p) \<in> set (os_fds (dm_os d))"
  by (auto simp: fd_inode_def dest: map_of_SomeD)

lemma create_disk:
  assumes c: "can_create tab s" and rs: "1 \<le> rs" "rs \<le> RM_MAX_RECORD_SIZE" "w = dm_os (bpm_disk (s_pool s))"
  defines "fh \<equiv> \<lparr>fh_fd = int (lowest_fd w), file_hdr = new_file_hdr rs\<rparr>"
  obtains e e' where
    "thenE (rm_create_file tab rs) (rm_open_file tab) (s_pool s) = (Inr fh, (s_pool s)\<lparr>bpm_disk := e\<rparr>)"
    "e' = e\<lparr>dm_os := os_put DB_META_NAME txt (dm_os e)\<rparr>" "files_kept (bpm_disk (s_pool s)) e'" "fd_inode (bpm_disk (s_pool s)) (fh_fd fh) = None"
    "fd_inode e' = (fd_inode (bpm_disk (s_pool s)))(fh_fd fh \<mapsto> os_inodes w)" "fd2pageno e' (fh_fd fh) = 1" "fh_fd fh < MAX_FD" "dm_wf e'"
    "\<exists>m. os_names (dm_os e') DB_META_NAME = Some m \<and> os_data (dm_os e') m = bytes_of txt"
proof -
  let ?b = "s_pool s" let ?d = "bpm_disk ?b" and ?fd = "fh_fd fh" and ?i = "os_inodes w" and ?bs = "enc_RmFileHdr (new_file_hdr rs)"
  note w = rs(3)
  have low: "lowest_fd w < os_max_fd w" "int (lowest_fd w) < MAX_FD" "os_names w tab = None" "tab \<notin> set (os_dirs w)"
      "DB_META_NAME \<notin> set (os_dirs w)" "tab \<noteq> DB_META_NAME"
    using c lowest_fd_free(3) [of w] by (auto simp: can_create_def Let_def w)
  define d1 where "d1 = ?d\<lparr>dm_os := with_file tab ?bs w, fd2path := (fd2path ?d)(?fd := None), path2fd := (path2fd ?d)(tab := None)\<rparr>"
  define e where "e = d1\<lparr>dm_os := (dm_os d1)\<lparr>os_fds := (?fd, ?i, 20) # os_fds w\<rparr>, fd2path := (fd2path d1)(?fd \<mapsto> tab), path2fd := (path2fd d1)(tab \<mapsto> ?fd),
      fd2pageno := (fd2pageno d1)(?fd := 1)\<rparr>"
  define e' where "e' = e\<lparr>dm_os := os_put DB_META_NAME txt (dm_os e)\<rparr>"
  have fd: "?fd = int (lowest_fd w)" by (simp add: fh_def)
  have 1: "rm_create_file tab rs ?b = (Inr (), ?b\<lparr>bpm_disk := d1\<rparr>)"
    using rm_create_file_run [OF rs(1,2), of ?d tab ?b] low by (simp add: w [symmetric] d1_def fd)
  have 2: "rm_open_file tab (?b\<lparr>bpm_disk := d1\<rparr>) = (Inr fh, ?b\<lparr>bpm_disk := e\<rparr>)"
    using rm_open_file_run [of d1 tab ?i "new_file_hdr rs" "?b\<lparr>bpm_disk := d1\<rparr>"] low new_file_hdr_roundtrip [OF rs(1,2)]
    by (simp add: d1_def e_def fh_def new_file_hdr_def)
  have we: "os_fds (dm_os e) = (?fd, ?i, 20) # os_fds w" "os_names (dm_os e) = (os_names w)(tab \<mapsto> ?i)" "os_data (dm_os e) = (os_data w)(?i := ?bs)"
      "os_inodes (dm_os e) = Suc ?i" "os_dirs (dm_os e) = os_dirs w" "os_max_fd (dm_os e) = os_max_fd w" "fd2pageno e = (fd2pageno ?d)(?fd := 1)"
    by (simp_all add: e_def d1_def)
  have "lowest_fd (dm_os e) < os_max_fd (dm_os e)"
    using lowest_fd_free(3) [of "dm_os e"] c by (auto simp: we can_create_def Let_def w)
  then have put: "os_put DB_META_NAME txt (dm_os e) = (case os_names (dm_os e) DB_META_NAME of
      Some i \<Rightarrow> (dm_os e)\<lparr>os_data := (os_data (dm_os e))(i := bytes_of txt)\<rparr> | None \<Rightarrow> with_file DB_META_NAME (bytes_of txt) (dm_os e))"
    using low(5) by (intro os_put_run) (simp_all add: we)
  have fds: "os_fds (dm_os e') = os_fds (dm_os e)" by (simp add: e'_def put split: option.split)
  then have ino: "fd_inode e' = (fd_inode ?d)(?fd \<mapsto> ?i)" by (simp add: fd_inode_def fun_eq_iff we w)
  have cl: "fd_inode ?d ?fd = None" using lowest_fd_closed [of w] by (simp add: fd_inode_def fd w)
  have inode: "i < ?i \<and> os_names w DB_META_NAME \<noteq> Some i" if "fd_inode ?d g = Some i" for g i
    using fd_inode_mem [OF that] c by (fastforce simp: can_create_def Let_def w)
  have data: "os_data (dm_os e') i = os_data w i" if "i < ?i" "os_names w DB_META_NAME \<noteq> Some i" for i
    using that low(6) by (auto simp: e'_def put we split: option.split)
  have kept: "files_kept ?d e'" unfolding files_kept_def
  proof (intro allI impI conjI)
    fix g i assume g: "fd_inode ?d g = Some i"
    show "fd_inode e' g = Some i" using g cl by (auto simp: ino)
    show "os_data (dm_os e') i = os_data (dm_os ?d) i" using data inode [OF g] by (simp add: w)
    show "fd2pageno e' g = fd2pageno ?d g" using g cl by (auto simp: e'_def we)
  qed
  have saved: "\<exists>m. os_names (dm_os e') DB_META_NAME = Some m \<and> os_data (dm_os e') m = bytes_of txt"
    using low(6) by (auto simp: e'_def put we split: option.split)
  have "dm_wf ?d" using c by (simp add: can_create_def Let_def held_inv_def inv_disk_def)
  then have wf: "dm_wf e'" using inode cl by (fastforce simp: dm_wf_def ino)
  show ?thesis
    by (rule that [OF _ e'_def kept cl ino _ _ wf saved]) (simp_all add: 1 2 prog_simps e'_def we fd low(2))
qed


lemma create_table_run:
  assumes c: "can_create tab s" and inv: "db_inv s" and lay: "layout_cols tab 0 cds = (cols, rs)" "1 \<le> rs" "rs \<le> RM_MAX_RECORD_SIZE"
  obtains t fh where "create_table tab cds s = (Inr (), t)" "db_inv t" "catalogue_saved t"
    "s_meta t = (s_meta s)\<lparr>db_tabs := map_put tab \<lparr>tm_name = tab, tm_cols = cols, indexes = []\<rparr> (db_tabs (s_meta s))\<rparr>"
    "s_fhs t = (s_fhs s)(tab \<mapsto> fh)" "file_hdr fh = new_file_hdr rs"
    "\<And>tab' fh'. s_fhs s tab' = Some fh' \<Longrightarrow> file_page (file_of t fh') = file_page (file_of s fh')"
proof -
  let ?b = "s_pool s" let ?d = "bpm_disk ?b"
  let ?M = "(s_meta s)\<lparr>db_tabs := map_put tab \<lparr>tm_name = tab, tm_cols = cols, indexes = []\<rparr> (db_tabs (s_meta s))\<rparr>"
  define fh where "fh = \<lparr>fh_fd = int (lowest_fd (dm_os ?d)), file_hdr = new_file_hdr rs\<rparr>"
  obtain e e' where run: "thenE (rm_create_file tab rs) (rm_open_file tab) ?b = (Inr fh, ?b\<lparr>bpm_disk := e\<rparr>)"
      and e': "e' = e\<lparr>dm_os := os_put DB_META_NAME (show_DbMeta ?M) (dm_os e)\<rparr>" "files_kept ?d e'" "fd_inode ?d (fh_fd fh) = None"
        "fd_inode e' = (fd_inode ?d)(fh_fd fh \<mapsto> os_inodes (dm_os ?d))" "fd2pageno e' (fh_fd fh) = 1" "fh_fd fh < MAX_FD" "dm_wf e'"
        "\<exists>m. os_names (dm_os e') DB_META_NAME = Some m \<and> os_data (dm_os e') m = bytes_of (show_DbMeta ?M)"
    using create_disk [OF c lay(2,3) refl, of "show_DbMeta ?M"] unfolding fh_def by blast
  obtain b1 where b1: "rm_create_file tab rs ?b = (Inr (), b1)" "rm_open_file tab b1 = (Inr fh, ?b\<lparr>bpm_disk := e\<rparr>)"
    using run by (auto simp: prog_Inr_iff)
  have pre: "\<not> is_table (s_meta s) tab" "s_fhs s tab = None" "bpm_inv ?b" "room 1 ?b" using c by (simp_all add: can_create_def Let_def)
  let ?t = "s\<lparr>s_meta := ?M, s_fhs := (s_fhs s)(tab \<mapsto> fh), s_pool := ?b\<lparr>bpm_disk := e'\<rparr>\<rparr>"
  have go: "create_table tab cds s = (Inr (), ?t)"
    using pre(1,2) b1 by (simp add: create_table_def lay(1) on_bpm_def zoom_def prog_simps upd_meta_def open_table_def emplace_def
        flush_meta_def sys_do_def e'(1))
  have old: "rm_inv (file_of ?t fh')" "file_page (file_of ?t fh') = file_page (file_of s fh')" "fh_fd fh' \<noteq> fh_fd fh" if "s_fhs s tab' = Some fh'" for tab' fh'
  proof -
    have i: "rm_inv \<lparr>rm_pool = ?b, rm_fh = fh'\<rparr>" using inv that by (simp add: db_inv_def file_of_def)
    show "rm_inv (file_of ?t fh')" "file_page (file_of ?t fh') = file_page (file_of s fh')"
      using file_kept [OF i e'(2,7)] by (simp_all add: file_of_def)
    show "fh_fd fh' \<noteq> fh_fd fh" using i e'(3) by (auto simp: rm_inv_def rm_pool_ok_def)
  qed
  have "rm_inv (file_of ?t fh)"
    using new_file_inv [OF pre(3,4) e'(2,7,3), of rs] e'(4-6) lay(2,3) by (simp add: file_of_def fh_def)
  then have "db_inv ?t" using old inv unfolding db_inv_def by (auto split: if_splits) metis+
  moreover have "catalogue_saved ?t" using e'(8) by (simp add: catalogue_saved_def)
  ultimately show ?thesis using old(2) by (intro that [OF go, of fh]) (simp_all add: fh_def)
qed

lemma same_rows:
  assumes "s_fhs t tab = s_fhs s tab" "\<And>fh. s_fhs s tab = Some fh \<Longrightarrow> file_page (file_of t fh) = file_page (file_of s fh)"
  shows "table_rows t tab = table_rows s tab"
proof (cases "s_fhs s tab")
  case (Some fh)
  have "hdr (file_of t fh) = hdr (file_of s fh)" by (simp add: hdr_def file_of_def)
  then show ?thesis
    using Some assms same_pages(1,2) [of "file_of t fh" "file_of s fh"] by (simp add: table_rows_def rows_of_def)
qed (simp add: table_rows_def assms(1))

section \<open>Properties\<close>

text \<open>C13 CREATE TABLE with a name that is new makes an empty table the statements can work with: the statement succeeds, the
  database stays well-formed, the table is open with the given columns, laid out one behind the other without gaps,
  its record file is well-formed and has no records, the catalogue has the new table and is saved in its file as a whole, and every
  other table keeps its entry and its records. The record length must be one the record files accept, and two
  descriptors must be free.\<close>

theorem create_table_correct:
  assumes "db_inv s" and "can_create tab s" and "cds \<noteq> []" and "\<forall>c \<in> set cds. def_ok c"
    and "1 \<le> sum_list (map cd_len cds)" and "sum_list (map cd_len cds) \<le> RM_MAX_RECORD_SIZE"
  shows "\<exists>t cols. create_table tab cds s = (Inr (), t) \<and> db_inv t \<and> catalogue_saved t \<and>
     tab_open t tab cols \<and> contiguous 0 cols \<and> map def_of cols = cds \<and> table_rows t tab = [] \<and>
     (\<forall>tab'. tab' \<noteq> tab \<longrightarrow> map_of (db_tabs (s_meta t)) tab' = map_of (db_tabs (s_meta s)) tab' \<and> s_fhs t tab' = s_fhs s tab' \<and>
        table_rows t tab' = table_rows s tab')"
proof -
  obtain cols rs where lay: "layout_cols tab 0 cds = (cols, rs)" by force
  note l = layout_cols_ok [OF lay assms(4) order_refl]
  have ne: "cols \<noteq> []" using l assms(3) by auto
  obtain t fh where t: "create_table tab cds s = (Inr (), t)" "db_inv t" "catalogue_saved t"
      "s_meta t = (s_meta s)\<lparr>db_tabs := map_put tab \<lparr>tm_name = tab, tm_cols = cols, indexes = []\<rparr> (db_tabs (s_meta s))\<rparr>"
      "s_fhs t = (s_fhs s)(tab \<mapsto> fh)" "file_hdr fh = new_file_hdr rs"
      "\<And>tab' fh'. s_fhs s tab' = Some fh' \<Longrightarrow> file_page (file_of t fh') = file_page (file_of s fh')"
    using create_table_run [OF assms(2,1) lay] l assms(5,6) by auto
  have "tab_open t tab cols"
    using l ne by (auto simp: tab_open_def t(4,5,6) map_of_map_put new_file_hdr_def)
  moreover have "file_rids (file_of t fh) = []"
    by (simp add: file_rids_def file_of_def hdr_def t(6) new_file_hdr_def RM_FIRST_RECORD_PAGE_def pages_from_def)
  then have "table_rows t tab = []" by (simp add: table_rows_def t(5) rows_of_def)
  moreover have "table_rows t tab' = table_rows s tab'" if "tab' \<noteq> tab" for tab'
    by (rule same_rows) (use that t(7) in \<open>simp_all add: t(5)\<close>)
  ultimately show ?thesis using t(1-3) l by (intro exI [of _ t] exI [of _ cols]) (simp add: t(4,5) map_of_map_put)
qed

text \<open>A second table in the database of \<^term>\<open>demo_txn_db\<close>.\<close>

definition demo_defs :: "ColDef list" where
  "demo_defs = [\<lparr>cd_name = ''id'', cd_type = TYPE_INT, cd_len = 4\<rparr>, \<lparr>cd_name = ''nm'', cd_type = TYPE_STRING, cd_len = 10\<rparr>]"

lemma demo_can_create: "can_create ''u'' demo_txn_db" "db_inv demo_txn_db"
proof -
  have d: "bpm_disk (s_pool demo_txn_db) = demo_disk" "s_meta demo_txn_db = s_meta demo_state" "s_fhs demo_txn_db = [''t'' \<mapsto> rm_fh demo_rm]"
    by (simp_all add: demo_txn_db_def new_BufferPoolManager_def demo_state_def)
  have "bpm_inv (s_pool demo_txn_db)" "room 1 (s_pool demo_txn_db)"
    using demo_txn_db_table(1) by (simp_all add: rm_inv_def rm_pool_ok_def file_of_def)
  then show "can_create ''u'' demo_txn_db"
    by (simp add: can_create_def d is_table_def)
      (simp add: demo_disk_def demo_state_def DB_META_NAME_def LOG_FILE_NAME_def MAX_FD_def)
  show "db_inv demo_txn_db" using demo_txn_db_table(1) by (simp add: db_inv_def d)
qed

theorem create_table_correct_witness:
  "\<exists>t cols. create_table ''u'' demo_defs demo_txn_db = (Inr (), t) \<and> tab_open t ''u'' cols \<and> map def_of cols = demo_defs \<and> contiguous 0 cols \<and>
     table_rows t ''u'' = [] \<and> table_rows t ''t'' = table_rows demo_txn_db ''t''"
proof -
  have d: "demo_defs \<noteq> []" "\<forall>c \<in> set demo_defs. def_ok c" "1 \<le> sum_list (map cd_len demo_defs)" "sum_list (map cd_len demo_defs) \<le> RM_MAX_RECORD_SIZE"
    by (simp_all add: demo_defs_def def_ok_def RM_MAX_RECORD_SIZE_def)
  obtain t cols where t: "create_table ''u'' demo_defs demo_txn_db = (Inr (), t)" "tab_open t ''u'' cols" "contiguous 0 cols" "map def_of cols = demo_defs"
      "table_rows t ''u'' = []" "\<forall>tab'. tab' \<noteq> ''u'' \<longrightarrow> map_of (db_tabs (s_meta t)) tab' = map_of (db_tabs (s_meta demo_txn_db)) tab' \<and>
        s_fhs t tab' = s_fhs demo_txn_db tab' \<and> table_rows t tab' = table_rows demo_txn_db tab'"
    using create_table_correct [OF demo_can_create(2,1) d] by (elim exE conjE)
  have "table_rows t ''t'' = table_rows demo_txn_db ''t''" using t(6) [rule_format, of "''t''"] by simp
  then show ?thesis using t(1-5) by blast
qed

end
