(* ===== verification/Catalogue.thy ===== *)
theory Catalogue
  imports Server Log_Frame
begin

text \<open>
  The catalogue under the statements of data definition: work on files, pages and handles never touches it, each statement
  changes it at most once, and every change keeps it in the form its text can be read back from.
\<close>

section \<open>Work that leaves the catalogue alone\<close>

definition same_meta :: "DbState \<Rightarrow> DbState \<Rightarrow> bool" where
  "same_meta s t \<longleftrightarrow> s_meta t = s_meta s"

interpretation mf: step_frame same_meta
  by unfold_locales (simp_all add: same_meta_def)

lemma mf_bpm: "mf.stays (on_bpm m)"
  by (auto simp: mf.stays_def same_meta_def on_bpm_def zoom_def split: prod.split)

lemma mf_file: "mf.stays (on_file tab m)"
  by (auto simp: mf.stays_def same_meta_def on_file_def split: option.split prod.split)

lemma mf_index: "mf.stays (on_index nm m)"
  by (auto simp: mf.stays_def same_meta_def on_index_def split: option.split prod.split)

lemma mf_handles: "mf.stays (modify (\<lambda>s. s\<lparr>s_fhs := f s\<rparr>))" "mf.stays (modify (\<lambda>s. s\<lparr>s_ihs := g s\<rparr>))"
  by (rule mf.stays_modify; simp add: same_meta_def)+

lemma mf_flush: "mf.stays flush_meta"
  unfolding flush_meta_def by (intro mf.stays_intros mf_bpm)

lemma mf_open: "mf.stays (open_table tab)" "mf.stays (open_idx tab cols)"
  unfolding open_table_def open_idx_def by (intro mf.stays_bind mf_bpm mf_handles)+

lemma mf_build: "mf.stays (build_index n tab nm cols rid)"
proof (induction n arbitrary: rid)
  case 0
  show ?case by (simp add: mf.stays_basic)
next
  case (Suc n)
  show ?case unfolding build_index.simps by (intro mf.stays_bind mf.stays_then mf.stays_if mf_file mf_index mf.stays_basic Suc)
qed

lemma mf_fill: "mf.stays (fill_index tab nm cols)"
  unfolding fill_index_def by (intro mf.stays_bind mf.stays_then mf_file mf_index mf_build)

lemma mf_drop_files: "mf.stays (drop_index_files tab ixs)"
proof (induction ixs)
  case Nil
  show ?case by (simp add: mf.stays_basic)
next
  case (Cons ix ixs)
  show ?case unfolding drop_index_files.simps Let_def
    by (intro mf.stays_bind mf.stays_then mf.stays_option mf_bpm mf_handles mf.stays_basic Cons)
qed

text \<open>A program that changes the catalogue in one place.\<close>

lemma one_change:
  assumes "mf.stays m" "mf.stays k" "thenE m (thenE (upd_meta g) k) s = (r, t)"
  shows "s_meta t = s_meta s \<or> s_meta t = g (s_meta s)"
proof -
  obtain q u where m: "m s = (q, u)" by force
  have u: "s_meta u = s_meta s" using mf.stays_run [OF assms(1) m] by (simp add: same_meta_def)
  show ?thesis
  proof (cases q)
    case (Inr x)
    let ?u = "u\<lparr>s_meta := g (s_meta u)\<rparr>"
    have "k ?u = (r, t)" using assms(3) m Inr by (simp add: thenE_def bindE_def upd_meta_def modify_def)
    then have "s_meta t = s_meta ?u" using mf.stays_run [OF assms(2)] by (simp add: same_meta_def)
    then show ?thesis using u by simp
  qed (use assms(3) m u in \<open>auto simp: thenE_def bindE_def\<close>)
qed


lemma thenE_assoc: "thenE m (thenE k j) = thenE (thenE m k) j"
  by (auto simp: thenE_def bindE_def fun_eq_iff split: prod.split sum.split)

section \<open>What each statement does to the catalogue\<close>

lemma create_table_meta:
  assumes "create_table tab cds s = (r, t)"
  shows "s_meta t = s_meta s \<or> s_meta t = (s_meta s)\<lparr>db_tabs := map_put tab
     \<lparr>tm_name = tab, tm_cols = fst (layout_cols tab 0 cds), indexes = []\<rparr> (db_tabs (s_meta s))\<rparr>"
proof (cases "is_table (s_meta s) tab")
  case True
  then show ?thesis using assms by (simp add: create_table_def prog_simps)
next
  case False
  obtain cols rs where lay: "layout_cols tab 0 cds = (cols, rs)" by force
  show ?thesis
    using one_change [OF mf_bpm mf.stays_then [OF mf_open(1) mf_flush]] assms False lay
    by (simp add: create_table_def bindE_def gets_def)
qed

lemma drop_table_meta:
  assumes "drop_table tab s = (r, t)"
  shows "s_meta t = s_meta s \<or> s_meta t = (s_meta s)\<lparr>db_tabs := map_erase tab (db_tabs (s_meta s))\<rparr>"
proof (cases "map_of (db_tabs (s_meta s)) tab")
  case None
  then show ?thesis using assms by (simp add: drop_table_def is_table_def prog_simps)
next
  case (Some tm)
  show ?thesis
  proof (cases "s_fhs s tab")
    case None
    then show ?thesis using assms Some by (simp add: drop_table_def is_table_def get_table_def prog_simps)
  next
    case (Some fh)
    let ?m = "thenE (thenE (thenE (on_bpm (rm_close_file fh)) (on_bpm (rm_destroy_file tab))) (modify (\<lambda>s. s\<lparr>s_fhs := (s_fhs s)(tab := None)\<rparr>)))
        (drop_index_files tab (indexes tm))"
    have "mf.stays ?m" by (intro mf.stays_then mf_bpm mf_handles mf_drop_files)
    moreover have "thenE ?m (thenE (upd_meta (\<lambda>db. db\<lparr>db_tabs := map_erase tab (db_tabs db)\<rparr>)) flush_meta) s = (r, t)"
      using assms Some \<open>map_of (db_tabs (s_meta s)) tab = Some tm\<close>
      by (simp add: drop_table_def is_table_def get_table_def bindE_def gets_def ret_def thenE_assoc)
    ultimately show ?thesis using one_change [OF _ mf_flush] by blast
  qed
qed

definition new_index :: "string \<Rightarrow> ColMeta list \<Rightarrow> IndexMeta" where
  "new_index tab cols = \<lparr>im_tab_name = tab, col_tot_len = sum_list (map cm_len cols), col_num = int (length cols), im_cols = cols\<rparr>"

lemma index_columns_Inr:
  "index_columns tab nms s = (Inr cs, u) \<Longrightarrow> u = s \<and> length cs = length nms \<and> set cs \<subseteq> set (tm_cols tab)"
proof (induction nms arbitrary: cs)
  case (Cons nm nms)
  obtain c cs' where c: "get_col tab nm s = (Inr c, s)" "index_columns tab nms s = (Inr cs', u)" "cs = c # cs'"
    using Cons.prems by (auto simp: prog_Inr_iff get_col_Inr)
  have "c \<in> set (tm_cols tab)" using c(1) by (auto simp: get_col_Inr simp: find_Some_iff)
  then show ?case using Cons.IH [OF c(2)] c(3) by auto
qed (simp add: prog_Inr_iff)

lemma index_columns_state: "index_columns tab nms s = (r, u) \<Longrightarrow> u = s"
  by (induction nms arbitrary: r) (auto simp: bindE_def get_col_def ret_def raise_def split: option.splits prod.splits sum.splits)

lemma create_index_meta:
  assumes "create_index tab nms s = (r, t)"
  shows "s_meta t = s_meta s \<or> (\<exists>tm cols. map_of (db_tabs (s_meta s)) tab = Some tm \<and> set cols \<subseteq> set (tm_cols tm) \<and> length cols = length nms \<and>
     s_meta t = upd_table tab (\<lambda>t. t\<lparr>indexes := indexes t @ [new_index tab cols]\<rparr>) (s_meta s))"
proof (cases "map_of (db_tabs (s_meta s)) tab")
  case None
  then show ?thesis using assms by (simp add: create_index_def get_table_def prog_simps)
next
  case (Some tm)
  obtain q u where q: "index_columns tm nms s = (q, u)" by force
  have u: "u = s" by (rule index_columns_state [OF q])
  show ?thesis
  proof (cases "is_index tm nms \<or> isl q")
    case True
    then show ?thesis using assms Some q u by (auto simp: create_index_def get_table_def bindE_def gets_def ret_def raise_def isl_def split: if_splits)
  next
    case False
    then obtain cols where cols: "q = Inr cols" by (cases q) auto
    note c = index_columns_Inr [OF q [unfolded cols]]
    let ?g = "upd_table tab (\<lambda>t. t\<lparr>indexes := indexes t @ [new_index tab cols]\<rparr>)"
    let ?k = "thenE (on_bpm (ix_create_index tab cols)) (thenE (open_idx tab (map cm_name cols))
        (thenE (fill_index tab (get_index_name tab (map cm_name cols)) cols) flush_meta))"
    have "thenE (ret ()) (thenE (upd_meta ?g) ?k) s = (r, t)"
      using assms Some q u cols False c
      by (simp add: create_index_def get_table_def bindE_def gets_def ret_def thenE_def new_index_def Let_def)
    moreover have "mf.stays (ret ())" "mf.stays ?k" by (intro mf.stays_then mf_bpm mf_open mf_fill mf_flush mf.stays_basic)+
    ultimately show ?thesis using one_change [of "ret ()" ?k ?g s r t] Some c by blast
  qed
qed

lemma drop_index_meta:
  assumes "drop_index tab nms s = (r, t)"
  shows "s_meta t = s_meta s \<or> (\<exists>i. s_meta t = upd_table tab (\<lambda>t. t\<lparr>indexes := take i (indexes t) @ drop (Suc i) (indexes t)\<rparr>) (s_meta s))"
proof (cases "map_of (db_tabs (s_meta s)) tab")
  case None
  then show ?thesis using assms by (simp add: drop_index_def get_table_def prog_simps)
next
  case (Some tm)
  show ?thesis
  proof (cases "find_pos (index_matches nms) (indexes tm)")
    case None
    then show ?thesis using assms Some by (simp add: drop_index_def get_table_def get_index_meta_def prog_simps)
  next
    case (Some i)
    let ?cols = "col_names_of (indexes tm ! i)"
    let ?nm = "get_index_name tab ?cols" and ?g = "upd_table tab (\<lambda>t. t\<lparr>indexes := take i (indexes t) @ drop (Suc i) (indexes t)\<rparr>)"
    note here = Some \<open>map_of (db_tabs (s_meta s)) tab = Some tm\<close>
    show ?thesis
    proof (cases "s_ihs s ?nm")
      case None
      then show ?thesis using assms here by (simp add: drop_index_def get_table_def get_index_meta_def prog_simps Let_def)
    next
      case (Some ih)
      let ?m = "thenE (thenE (on_bpm (close_index ih)) (on_bpm (ix_destroy_index tab ?cols))) (modify (\<lambda>s. s\<lparr>s_ihs := (s_ihs s)(?nm := None)\<rparr>))"
      have "thenE ?m (thenE (upd_meta ?g) flush_meta) s = (r, t)"
        using assms here Some by (simp add: drop_index_def get_table_def get_index_meta_def bindE_def gets_def ret_def Let_def thenE_assoc)
      moreover have "mf.stays ?m" by (intro mf.stays_then mf_bpm mf_handles)
      ultimately show ?thesis using one_change [OF _ mf_flush] by blast
    qed
  qed
qed


section \<open>Changes that keep the catalogue well-formed\<close>

lemma bytes_less_trans: "bytes_less a b \<Longrightarrow> bytes_less b c \<Longrightarrow> bytes_less a c"
proof (induction a b arbitrary: c rule: bytes_less.induct)
  case (3 x xs y ys)
  then show ?case by (cases c) (auto split: if_splits)
qed (auto elim: bytes_less.elims)

lemma bytes_less_total: "bytes_less a b \<or> a = b \<or> bytes_less b a"
proof (induction a b rule: bytes_less.induct)
  case (1 xs)
  then show ?case by (cases xs) auto
qed auto

lemma key_less_trans: "key_less a b \<Longrightarrow> key_less b c \<Longrightarrow> key_less a c"
  unfolding key_less_def by (rule bytes_less_trans)

lemma key_less_total: "key_less a b \<or> a = b \<or> key_less b a"
  using bytes_less_total [of "bytes_of a" "bytes_of b"] by (simp add: key_less_def bytes_of_inj)

lemma set_map_put: "set (map_put k v m) \<subseteq> insert (k, v) (set m)" "length (map_put k v m) \<le> Suc (length m)"
  by (induction m) (auto split: if_splits)

lemma keys_map_put: "set (map fst (map_put k v m)) \<subseteq> insert k (set (map fst m))"
  using set_map_put(1) [of k v m] by force

lemma sorted_map_put: "sorted_wrt key_less (map fst m) \<Longrightarrow> sorted_wrt key_less (map fst (map_put k v m))"
proof (induction m)
  case (Cons kv m)
  obtain k' v' where kv: "kv = (k', v')" by force
  consider "k = k'" | "k \<noteq> k'" "key_less k k'" | "k \<noteq> k'" "\<not> key_less k k'" "key_less k' k" using key_less_total by blast
  then show ?case
  proof cases
    case 2
    then show ?thesis using Cons.prems kv by (auto intro: key_less_trans)
  next
    case 3
    have "key_less k' a" if "a \<in> set (map fst (map_put k v m))" for a
    proof -
      have "a = k \<or> a \<in> set (map fst m)" using that keys_map_put [of k v m] by blast
      then show ?thesis using Cons.prems kv 3 by auto
    qed
    then show ?thesis using Cons kv 3 by auto
  qed (use Cons kv in auto)
qed simp

lemma sorted_wrt_key_less_distinct: "sorted_wrt key_less ks \<Longrightarrow> distinct ks"
  using bytes_less_irrefl by (induction ks) (auto simp: key_less_def)

lemma db_ok_put:
  assumes "db_ok db" "tab_ok t" "int (length (db_tabs db)) + 1 < 2 ^ 64"
  shows "db_ok (db\<lparr>db_tabs := map_put (tm_name t) t (db_tabs db)\<rparr>)"
proof -
  have "\<forall>(k, u) \<in> set (map_put (tm_name t) t (db_tabs db)). k = tm_name u \<and> tab_ok u"
    using assms(1,2) set_map_put(1) [of "tm_name t" t "db_tabs db"] by (auto simp: db_ok_def)
  moreover have "sorted_wrt key_less (map fst (map_put (tm_name t) t (db_tabs db)))" using assms(1) by (simp add: db_ok_def sorted_map_put)
  ultimately show ?thesis using assms set_map_put(2) [of "tm_name t" t "db_tabs db"] by (simp add: db_ok_def)
qed

lemma db_ok_erase: "db_ok db \<Longrightarrow> db_ok (db\<lparr>db_tabs := map_erase nm (db_tabs db)\<rparr>)"
proof -
  assume db: "db_ok db"
  have "length (map_erase nm (db_tabs db)) \<le> length (db_tabs db)" by (simp add: map_erase_def)
  moreover have "sorted_wrt key_less (map fst (map_erase nm (db_tabs db)))"
    using db by (simp add: db_ok_def map_erase_def sorted_wrt_map sorted_wrt_filter)
  moreover have "set (map_erase nm (db_tabs db)) \<subseteq> set (db_tabs db)" by (auto simp: map_erase_def)
  ultimately show ?thesis using db by (auto simp: db_ok_def)
qed

lemma db_ok_upd:
  assumes "db_ok db" "\<And>t. (nm, t) \<in> set (db_tabs db) \<Longrightarrow> tab_ok t \<Longrightarrow> tab_ok (g t)" "\<And>t. tm_name (g t) = tm_name t"
  shows "db_ok (upd_table nm g db)"
proof -
  have keys: "map fst (db_tabs (upd_table nm g db)) = map fst (db_tabs db)" by (auto simp: upd_table_def)
  have "k = tm_name u \<and> tab_ok u" if "(k, u) \<in> set (db_tabs (upd_table nm g db))" for k u
    using that assms by (fastforce simp: db_ok_def upd_table_def split: if_splits)
  moreover have "db_name (upd_table nm g db) = db_name db" "length (db_tabs (upd_table nm g db)) = length (db_tabs db)" by (simp_all add: upd_table_def)
  ultimately show ?thesis using assms(1) unfolding db_ok_def keys by auto
qed

lemma tab_ok_new:
  assumes "word_ok tab" "\<forall>c \<in> set cds. word_ok (cd_name c) \<and> 0 \<le> cd_len c" "sum_list (map cd_len cds) < 2 ^ 31" "length cds < 2 ^ 64"
  shows "tab_ok \<lparr>tm_name = tab, tm_cols = fst (layout_cols tab 0 cds), indexes = []\<rparr>"
proof -
  have cols: "(\<forall>c \<in> set (fst (layout_cols tab off cds)). col_ok c) \<and> length (fst (layout_cols tab off cds)) = length cds"
    if "0 \<le> off" "off + sum_list (map cd_len cds) < 2 ^ 31" "\<forall>c \<in> set cds. word_ok (cd_name c) \<and> 0 \<le> cd_len c" for off cds
    using that
  proof (induction cds arbitrary: off)
    case (Cons d cds)
    have "0 \<le> sum_list (map cd_len cds)" using Cons.prems(3) by (intro sum_list_nonneg) auto
    then show ?case
      using Cons.IH [of "off + cd_len d"] Cons.prems assms(1) by (auto simp: col_ok_def fits_signed_def split: prod.split)
  qed simp
  have "int (length cds) < 2 ^ 64" using assms(4) by simp
  then show ?thesis using cols [of 0 cds] assms by (simp add: tab_ok_def)
qed

lemma tab_ok_index:
  assumes "tab_ok t" "word_ok tab" "set cols \<subseteq> set (tm_cols t)" "fits_signed 4 (sum_list (map cm_len cols))" "int (length cols) < 2 ^ 31"
    "int (length (indexes t)) + 1 < 2 ^ 64"
  shows "tab_ok (t\<lparr>indexes := indexes t @ [new_index tab cols]\<rparr>)"
  using assms by (auto simp: tab_ok_def index_ok_def new_index_def fits_signed_def)

lemma tab_ok_unindex: "tab_ok t \<Longrightarrow> tab_ok (t\<lparr>indexes := take i (indexes t) @ drop (Suc i) (indexes t)\<rparr>)"
  by (auto simp: tab_ok_def dest: in_set_takeD in_set_dropD)


section \<open>The statements of data definition\<close>

text \<open>Names are words, lengths and counts fit their C++ types.\<close>

definition ddl_ok :: "string \<Rightarrow> string list \<Rightarrow> ColDef list \<Rightarrow> DbMeta \<Rightarrow> bool" where
  "ddl_ok tab nms cds db \<longleftrightarrow> word_ok tab \<and> (\<forall>c \<in> set cds. word_ok (cd_name c) \<and> 0 \<le> cd_len c) \<and> sum_list (map cd_len cds) < 2 ^ 31 \<and>
     length cds < 2 ^ 64 \<and> int (length nms) < 2 ^ 31 \<and> int (length (db_tabs db)) + 1 < 2 ^ 64 \<and>
     (\<forall>(k, t) \<in> set (db_tabs db). int (length (indexes t)) + 1 < 2 ^ 64 \<and>
        (\<forall>cols. set cols \<subseteq> set (tm_cols t) \<longrightarrow> length cols = length nms \<longrightarrow> fits_signed 4 (sum_list (map cm_len cols))))"

lemma run_mutli_query_ok:
  assumes run: "run_mutli_query (DDLPlan tag tab nms cds) s = (r, t)" and db: "db_ok (s_meta s)" and ok: "ddl_ok tab nms cds (s_meta s)"
  shows "db_ok (s_meta t)"
proof -
  let ?t = "\<lparr>tm_name = tab, tm_cols = fst (layout_cols tab 0 cds), indexes = []\<rparr>"
  have put: "db_ok ((s_meta s)\<lparr>db_tabs := map_put tab ?t (db_tabs (s_meta s))\<rparr>)"
    using db_ok_put [OF db tab_ok_new, of tab cds] ok by (auto simp: ddl_ok_def)
  have ix: "db_ok (upd_table tab (\<lambda>t. t\<lparr>indexes := indexes t @ [new_index tab cols]\<rparr>) (s_meta s))"
    if "map_of (db_tabs (s_meta s)) tab = Some tm" "set cols \<subseteq> set (tm_cols tm)" "length cols = length nms" for tm cols
  proof (rule db_ok_upd [OF db])
    fix u assume u: "(tab, u) \<in> set (db_tabs (s_meta s))" "tab_ok u"
    have "distinct (map fst (db_tabs (s_meta s)))"
      using db sorted_wrt_key_less_distinct by (auto simp: db_ok_def)
    then have "u = tm" using that(1) u(1) by (simp add: map_of_eq_Some_iff)
    then show "tab_ok (u\<lparr>indexes := indexes u @ [new_index tab cols]\<rparr>)"
      using u ok that(2,3) by (intro tab_ok_index) (auto simp: ddl_ok_def)
  qed simp
  have "create_table tab cds s = (r, t) \<or> drop_table tab s = (r, t) \<or> create_index tab nms s = (r, t) \<or> drop_index tab nms s = (r, t) \<or> t = s"
    using run by (auto simp: raise_def split: if_splits)
  then consider "create_table tab cds s = (r, t)" | "drop_table tab s = (r, t)" | "create_index tab nms s = (r, t)" | "drop_index tab nms s = (r, t)" | "t = s"
    by blast
  then show ?thesis
  proof cases
    case 1
    from create_table_meta [OF this] db put show ?thesis by auto
  next
    case 2
    from drop_table_meta [OF this] db db_ok_erase [OF db] show ?thesis by auto
  next
    case 3
    from create_index_meta [OF this] db ix show ?thesis by auto
  next
    case 4
    have "db_ok (upd_table tab (\<lambda>t. t\<lparr>indexes := take i (indexes t) @ drop (Suc i) (indexes t)\<rparr>) (s_meta s))" for i
      by (rule db_ok_upd [OF db]) (simp_all add: tab_ok_unindex)
    with drop_index_meta [OF 4] db show ?thesis by auto
  qed (use db in simp)
qed

end
