(* ===== verification/Spec2Isabelle.thy ===== *)
theory Spec2Isabelle
  imports Prelude Replacer Disk Buffer_Pool Bitmap Record_File Record_Spec Rm_Scan Txn_Defs Lock_Manager Log Values Meta
    Predicates Ix_Node Ix_Tree Ix_Search Executor Sys_State Seq_Scan Aggregate Join Sort Index_Scan Dml Log_Frame Txn_Manager
    Recovery Printer Ast Analyze Planner Ql_Select Sm_Manager Portal Server Create_Table Catalogue
begin

text \<open>
  A verification of RMDB, the relational database of \<^verbatim>\<open>src/db2024/rmdb/src\<close> (all file names below are relative to that
  directory).

  \<^bold>\<open>The program.\<close> A client sends the text of a statement. \<^verbatim>\<open>client_handler\<close> in \<^verbatim>\<open>rmdb.cpp\<close> finds or begins the transaction,
  the parser makes a syntax tree (\<^verbatim>\<open>parser/ast.h\<close>), \<^verbatim>\<open>Analyze\<close> checks it against the catalogue, \<^verbatim>\<open>Planner\<close> makes a plan, \<^verbatim>\<open>Portal\<close>
  turns the plan into a tree of executors, and \<^verbatim>\<open>QlManager\<close> runs the tree and prints. Executors work on the record files
  (\<^verbatim>\<open>record/\<close>) and on the B+-tree indexes (\<^verbatim>\<open>index/\<close>) of the tables, which \<^verbatim>\<open>SmManager\<close> opens and creates; both lie in pages of
  the buffer pool (\<^verbatim>\<open>storage/\<close>, \<^verbatim>\<open>replacer/\<close>) over files of the operating system. Changes are guarded by the lock manager,
  written to the log, remembered in the write set of the transaction and undone from there by an abort (\<^verbatim>\<open>transaction/\<close>);
  after a crash \<^verbatim>\<open>RecoveryManager\<close> repeats and undoes them from the log (\<^verbatim>\<open>recovery/\<close>).

  \<^bold>\<open>How code is modelled.\<close> A C++ operation is a program \<open>('s, 'a) prog\<close>: a function from the state it works on to a result and a new
  state, where \<open>Inl\<close> is an exception of \<^verbatim>\<open>errors.h\<close> (or an error value for what C++ leaves undefined: null pointers, accesses
  out of bounds, failed assertions) and the state keeps every change made before the exception. A struct is a record, a class
  hierarchy a datatype. A component that owns another carries its state and runs the other's operations through \<open>zoom\<close>
  (\<open>on_disk\<close>, \<open>on_pool\<close>, \<open>on_file\<close>, \<open>on_index\<close>, \<open>on_bpm\<close>, \<open>on_sm\<close>, \<open>on_sv\<close>). Memory images are lists of bytes. Integers are \<open>int\<close>, with \<open>wrap32\<close> or
  the bounds of the type written out where the code relies on them. Latches are left out: an operation that holds the latch of
  its object is one step.

  \<^bold>\<open>Theories, bottom up.\<close>
  \<^item> \<open>Prelude\<close>: \<^verbatim>\<open>common/config.h\<close>, \<^verbatim>\<open>errors.h\<close>, programs, byte encodings.
  \<^item> \<open>Replacer\<close> (\<^verbatim>\<open>replacer/\<close>): the LRU list with the identities of its nodes; the victim is the frame unpinned longest ago. The
    locale of the abstract class is interpreted on it.
  \<^item> \<open>Disk\<close> (\<^verbatim>\<open>storage/disk_manager\<close>): POSIX files, descriptors and offsets; locale \<open>page_disk\<close>, pages read back what was written.
  \<^item> \<open>Buffer_Pool\<close> (\<^verbatim>\<open>storage/buffer_pool_manager\<close>): every operation; the pool invariant; locale of a page store; any sequence of accesses
    is a refinement of a plain memory of pages.
  \<^item> \<open>Bitmap\<close>, \<open>Record_File\<close>, \<open>Record_Spec\<close>, \<open>Rm_Scan\<close> (\<^verbatim>\<open>record/\<close>): heap files refine a map from record ids to records and keep the chain of
    pages with free slots; the scan ends and visits each record once.
  \<^item> \<open>Txn_Defs\<close>, \<open>Lock_Manager\<close> (\<^verbatim>\<open>transaction/\<close>): the lock table as a step relation; reachable tables grant compatible modes only.
  \<^item> \<open>Log\<close> (\<^verbatim>\<open>recovery/log_manager\<close>): the byte format of the records and the log buffer; \<open>Log_Frame\<close>: the log and the tables do not disturb
    each other (locale \<open>step_frame\<close>, interpreted on the disk, the pool, the record files and, in \<open>Catalogue\<close>, the catalogue).
  \<^item> \<open>Values\<close> (\<^verbatim>\<open>common/common.h\<close>, \<^verbatim>\<open>defs.h\<close>): values, IEEE floats on their bit patterns, packed dates. \<open>Meta\<close> (\<^verbatim>\<open>system/sm_meta.h\<close>): the catalogue and
    its text, read back as it was.
  \<^item> \<open>Predicates\<close>: the three copies of the predicate code in the executors, against one reference.
  \<^item> \<open>Ix_Node\<close>, \<open>Ix_Tree\<close>, \<open>Ix_Search\<close> (\<^verbatim>\<open>index/\<close>): nodes of the B+-tree as bytes; all operations of the index handle, the manager and the
    index scan; search in a tree of any height, and insertion into a leaf with room, against the entries of the leaves.
  \<^item> \<open>Executor\<close>, \<open>Seq_Scan\<close>, \<open>Aggregate\<close>, \<open>Join\<close>, \<open>Sort\<close>, \<open>Index_Scan\<close> (\<^verbatim>\<open>execution/\<close>): the interface of the executors with the contract \<open>row_source\<close>,
    which says what an executor delivers when it is driven like its clients do; scan, projection, aggregates, block nested loop join and
    external sort keep it, so that a query returns what the reference semantics of its rows says.
  \<^item> \<open>Sys_State\<close>, \<open>Dml\<close>: the shared state (\<^verbatim>\<open>system/sm_manager.h\<close>, \<^verbatim>\<open>common/context.h\<close>) and the executors of INSERT, UPDATE and DELETE.
  \<^item> \<open>Txn_Manager\<close>, \<open>Recovery\<close>: begin, commit, abort; analyze, redo, undo. An abort restores the table; recovery follows the log.
  \<^item> \<open>Ast\<close>, \<open>Analyze\<close>, \<open>Planner\<close> (\<^verbatim>\<open>parser/ast.h\<close>, \<^verbatim>\<open>analyze/\<close>, \<^verbatim>\<open>optimizer/\<close>): accepted statements are typed; a plan scans each table once and
    checks each condition once where its columns are there.
  \<^item> \<open>Printer\<close>, \<open>Ql_Select\<close> (\<^verbatim>\<open>record_printer.h\<close>, \<^verbatim>\<open>execution/execution_manager.cpp\<close>): what a SELECT prints, within the send buffer.
  \<^item> \<open>Sm_Manager\<close>, \<open>Create_Table\<close>, \<open>Catalogue\<close> (\<^verbatim>\<open>system/sm_manager.cpp\<close>): databases, tables and indexes; CREATE TABLE makes an empty well-formed table
    beside the others; the statements of data definition keep the catalogue well-formed.
  \<^item> \<open>Portal\<close>, \<open>Server\<close> (\<^verbatim>\<open>portal.h\<close>, \<^verbatim>\<open>rmdb.cpp\<close>): trees of executors, one request of a client, the start of the server; a statement that
    fails is answered and rolled back.

  \<^bold>\<open>Bounds.\<close> Loops over a file or a tree take the number of its pages or slots as their bound, loops over the log the number of its bytes, and
  the theorems show that the bound is never reached. A program that drives an executor takes a number of rounds, and the theorems hold for
  every number larger than the number of rows; \<open>pr_height\<close> bounds the height of a tree of executors. A bound that is reached is the error
  \<open>OutOfFuel\<close>, which no theorem counts as success.

  \<^bold>\<open>Parameters.\<close> \<^verbatim>\<open>std::sort\<close> is a parameter with its documented contract; the orders in which unordered maps are walked, the text of
  \<^verbatim>\<open>strerror\<close> and what uninitialised memory holds are arguments.

  \<^bold>\<open>Not modelled.\<close> The scanner and parser are generated by flex and bison (\<^verbatim>\<open>parser/lex.*\<close>, \<^verbatim>\<open>parser/yacc.*\<close>); a request enters the model as its
  syntax tree. Sockets, threads, signals and console output of \<^verbatim>\<open>rmdb.cpp\<close>, the client program, the tests and the vendored
  googletest are left out. Transactions interleave in the model of the lock manager only; the other theorems are about the
  session that runs. Of the B+-tree, splitting, merging and redistribution of nodes are defined, and the theorems about the tree stop at insertions into
  a leaf with room; the theorems about abort are about tables without indexes.
\<close>

section \<open>The catalogue through the statements of data definition\<close>

text \<open>C14 The statements of data definition keep the catalogue well-formed: whatever CREATE TABLE, DROP TABLE, CREATE INDEX or
  DROP INDEX meets on its way, an exception at any point included, the catalogue it leaves has every table filed under its name, in the
  order of the names, with columns and indexes whose counts and lengths agree, and the text it is saved as reads back as the same
  catalogue. Names must be words and lengths must fit their types.\<close>

theorem ddl_keeps_catalogue:
  assumes "run_mutli_query (DDLPlan tag tab nms cds) s = (r, t)" and "db_ok (s_meta s)" and "ddl_ok tab nms cds (s_meta s)"
  shows "db_ok (s_meta t) \<and> (\<exists>rest. read_DbMeta \<lparr>db_name = old, db_tabs = []\<rparr> (show_DbMeta (s_meta t)) = Some (s_meta t, rest))"
  using run_mutli_query_ok [OF assms] read_show_DbMeta by blast

theorem ddl_keeps_catalogue_witness:
  "db_ok (s_meta (snd (run_mutli_query (DDLPlan T_CreateTable ''u'' [] demo_defs) demo_txn_db)))"
proof -
  have m: "s_meta demo_txn_db = \<lparr>db_name = ''d'', db_tabs = [(''t'', \<lparr>tm_name = ''t'', tm_cols = demo_cols, indexes = []\<rparr>)]\<rparr>"
    by (simp add: demo_txn_db_def demo_state_def)
  have "db_ok (s_meta demo_txn_db)" unfolding m by code_simp
  moreover have "ddl_ok ''u'' [] demo_defs (s_meta demo_txn_db)"
    unfolding m by (auto simp: ddl_ok_def demo_defs_def word_ok_def is_space_def fits_signed_def)
  ultimately show ?thesis
    using ddl_keeps_catalogue [of T_CreateTable "''u''" "[]" demo_defs demo_txn_db] by (metis prod.collapse)
qed

end
